(* ===== verification/Prelude.thy ===== *)
theory Prelude
  imports Main "HOL-Library.Word" "HOL-Library.Monad_Syntax" "HOL-Library.Signed_Division"
begin

text \<open>
  Shared vocabulary of the development: C types, the two memory primitives every container
  of the program is built from (\<open>memcpy\<close>/\<open>memmove\<close> into an array, checked reads from an
  array), and the list facts the component proofs share.
\<close>

unbundle bit_operations_syntax

type_synonym byte = "8 word"

named_theorems splice_simps \<open>lengths, elements and segments of an array after a memory copy\<close>
named_theorems safe_read \<open>reads that stay inside their array\<close>

subsection \<open>Copying into an array\<close>

text \<open>
  \<open>blit dst pos src\<close> is the array after \<open>memcpy (dst + pos, src, length src)\<close>, and also after
  \<open>memmove\<close> when \<open>src\<close> is a segment of \<open>dst\<close> read before the copy. A copy that does not fit
  changes the length, so an invariant that fixes the length rules it out.
\<close>

definition blit :: "'a list \<Rightarrow> nat \<Rightarrow> 'a list \<Rightarrow> 'a list" where
  "blit dst pos src = take pos dst @ src @ drop (pos + length src) dst"

text \<open>\<open>segment xs pos n\<close> is the segment of \<open>n\<close> cells from \<open>pos\<close> on.\<close>

definition segment :: "'a list \<Rightarrow> nat \<Rightarrow> nat \<Rightarrow> 'a list" where
  "segment xs pos n = take n (drop pos xs)"

lemma length_blit [splice_simps]:
  "pos + length src \<le> length dst \<Longrightarrow> length (blit dst pos src) = length dst"
  by (simp add: blit_def)

lemma nth_blit [splice_simps]:
  assumes "pos + length src \<le> length dst" and "i < length dst"
  shows "blit dst pos src ! i =
    (if pos \<le> i \<and> i < pos + length src then src ! (i - pos) else dst ! i)"
  using assms by (auto simp: blit_def nth_append min_def add.commute)

lemma length_segment [splice_simps]:
  "pos + n \<le> length xs \<Longrightarrow> length (segment xs pos n) = n"
  by (simp add: segment_def)

lemma nth_segment [splice_simps]:
  "pos + n \<le> length xs \<Longrightarrow> i < n \<Longrightarrow> segment xs pos n ! i = xs ! (pos + i)"
  by (simp add: segment_def)

lemma blit_Nil [simp]: "blit dst pos [] = dst"
  by (simp add: blit_def)

lemma segment_0 [simp]: "segment xs pos 0 = []"
  by (simp add: segment_def)

subsection \<open>Checked reads\<close>

text \<open>
  \<open>rd xs i\<close> reads cell \<open>i\<close>; \<open>None\<close> is a read outside the array, which C leaves undefined.
  A model that returns \<open>Some\<close> never made such a read.
\<close>

definition rd :: "'a list \<Rightarrow> nat \<Rightarrow> 'a option" where
  "rd xs i = (if i < length xs then Some (xs ! i) else None)"

lemma rd_in [safe_read]: "i < length xs \<Longrightarrow> rd xs i = Some (xs ! i)"
  by (simp add: rd_def)

lemma rd_SomeD: "rd xs i = Some x \<Longrightarrow> i < length xs \<and> x = xs ! i"
  by (auto simp: rd_def split: if_splits)

subsection \<open>Lists\<close>

lemma map_upt_shift: "map f [m ..< m + n] = map (\<lambda>i. f (m + i)) [0 ..< n]"
  by (induction n) auto

lemma map_upt_eqI:
  assumes "length xs = n" and "\<And>i. i < n \<Longrightarrow> xs ! i = f i"
  shows "map f [0 ..< n] = xs"
  using assms by (intro nth_equalityI) auto

lemma find_upt_Some:
  "List.find P [m ..< n] = Some i \<longleftrightarrow> m \<le> i \<and> i < n \<and> P i \<and> (\<forall>j. m \<le> j \<and> j < i \<longrightarrow> \<not> P j)"
proof (induction "n - m" arbitrary: m)
  case 0
  then show ?case by auto
next
  case (Suc k)
  then have mn: "m < n" and k: "k = n - Suc m"
    by auto
  have upt: "[m ..< n] = m # [Suc m ..< n]"
    using mn by (simp add: upt_conv_Cons)
  have split: "(\<forall>j. m \<le> j \<and> j < i \<longrightarrow> \<not> P j) \<longleftrightarrow> (m < i \<longrightarrow> \<not> P m) \<and> (\<forall>j. Suc m \<le> j \<and> j < i \<longrightarrow> \<not> P j)"
    by (metis Suc_leD Suc_leI le_neq_implies_less order_refl)
  show ?case
    unfolding split using Suc.hyps(1) [OF k] mn
    by (cases "P m"; cases "i = m") (auto simp: upt)
qed

lemma find_upt_None: "List.find P [m ..< n] = None \<longleftrightarrow> (\<forall>j. m \<le> j \<and> j < n \<longrightarrow> \<not> P j)"
  by (auto simp: find_None_iff)

lemma find_SomeD: "List.find P xs = Some x \<Longrightarrow> x \<in> set xs \<and> P x"
  by (induction xs) (auto split: if_splits)

subsection \<open>Simulation\<close>

text \<open>A step relation whose steps keep an invariant and are, under an abstraction, steps of another relation or no
  steps at all: what a component with an abstract specification has to show of its operations.\<close>

locale simulation =
  fixes inv :: "'s \<Rightarrow> bool" and cstep :: "'s \<Rightarrow> 's \<Rightarrow> bool" and astep :: "'a \<Rightarrow> 'a \<Rightarrow> bool" and abs :: "'s \<Rightarrow> 'a"
  assumes inv_step: "inv s \<Longrightarrow> cstep s s' \<Longrightarrow> inv s'"
    and sim_step: "inv s \<Longrightarrow> cstep s s' \<Longrightarrow> abs s' = abs s \<or> astep (abs s) (abs s')"
begin

lemma sim_reachable_inv: "cstep\<^sup>*\<^sup>* s s' \<Longrightarrow> inv s \<Longrightarrow> inv s'"
  by (induction rule: rtranclp_induct) (auto intro: inv_step)

lemma sim_reachable: "cstep\<^sup>*\<^sup>* s s' \<Longrightarrow> inv s \<Longrightarrow> astep\<^sup>*\<^sup>* (abs s) (abs s')"
proof (induction rule: rtranclp_induct)
  case (step t u)
  then have "inv t" using sim_reachable_inv by blast
  then show ?case using step sim_step [of t u] by (auto intro: rtranclp.rtrancl_into_rtrancl)
qed simp

end

end
