(* ===== verification/Packet.thy ===== *)
theory Packet
  imports Prelude
begin

text \<open>
  The encoder packet of \<open>libobs/obs-encoder.h\<close>, the unit that encoders, outputs and muxers
  hand to each other. \<open>data\<close> and \<open>size\<close> are one byte list (a null pointer and an empty block
  are never told apart by the code: every test is \<open>!packet->data || !packet->size\<close>). The
  timestamps and time base are signed C integers, modelled as \<open>int\<close>: their arithmetic is
  undefined behaviour on overflow, not wrap around. An encoder is known by its address.
\<close>

datatype obs_encoder_type = OBS_ENCODER_AUDIO | OBS_ENCODER_VIDEO

record encoder_packet =
  pkt_data :: "byte list"
  pkt_pts :: int
  pkt_dts :: int
  pkt_timebase_num :: int
  pkt_timebase_den :: int
  pkt_type :: obs_encoder_type
  pkt_keyframe :: bool
  pkt_dts_usec :: int
  pkt_priority :: int
  pkt_drop_priority :: int
  pkt_track_idx :: nat
  pkt_encoder :: nat

text \<open>A zero-initialised packet, as the designated initialisers of the code leave it.\<close>

definition zero_packet :: encoder_packet where
  "zero_packet = \<lparr>pkt_data = [], pkt_pts = 0, pkt_dts = 0, pkt_timebase_num = 0, pkt_timebase_den = 0,
     pkt_type = OBS_ENCODER_AUDIO, pkt_keyframe = False, pkt_dts_usec = 0, pkt_priority = 0,
     pkt_drop_priority = 0, pkt_track_idx = 0, pkt_encoder = 0\<rparr>"

text \<open>\<open>obs_duplicate_encoder_packet\<close>: the fields, and a copy of the bytes.\<close>

definition obs_duplicate_encoder_packet :: "encoder_packet \<Rightarrow> encoder_packet" where
  "obs_duplicate_encoder_packet src = src\<lparr>pkt_data := pkt_data src\<rparr>"

lemma duplicate_packet [simp]: "obs_duplicate_encoder_packet src = src"
  by (simp add: obs_duplicate_encoder_packet_def)

text \<open>C division truncates towards zero, as \<open>sdiv\<close> does.\<close>

definition packet_dts_usec :: "encoder_packet \<Rightarrow> int" where
  "packet_dts_usec packet = (pkt_dts packet * 1000000) sdiv pkt_timebase_den packet"

end
