(* ===== verification/Serializer.thy ===== *)
theory Serializer
  imports Prelude
begin

text \<open>
  The serializer interface of \<open>libobs/util/serializer.h\<close> (a data pointer and nullable
  function pointers) and its implementation on a growing byte array,
  \<open>libobs/util/array-serializer.c\<close>. The locale \<open>byte_sink\<close> is the contract the muxers rely on:
  a write appends, the position is the number of bytes written.
\<close>

subsection \<open>The interface\<close>

datatype serialize_seek_type = SERIALIZE_SEEK_START | SERIALIZE_SEEK_CURRENT | SERIALIZE_SEEK_END

record 's serializer =
  sr_data :: 's
  sr_read :: "('s \<Rightarrow> nat \<Rightarrow> byte list \<times> 's) option"
  sr_write :: "('s \<Rightarrow> byte list \<Rightarrow> nat \<times> 's) option"
  sr_seek :: "('s \<Rightarrow> int \<Rightarrow> serialize_seek_type \<Rightarrow> int \<times> 's) option"
  sr_get_pos :: "('s \<Rightarrow> int) option"

definition s_read :: "'s serializer \<Rightarrow> nat \<Rightarrow> byte list \<times> 's serializer" where
  "s_read s n =
     (case sr_read s of
        Some read \<Rightarrow> if n \<noteq> 0 then (case read (sr_data s) n of (xs, d) \<Rightarrow> (xs, s\<lparr>sr_data := d\<rparr>))
                     else ([], s)
      | None \<Rightarrow> ([], s))"

definition s_write :: "'s serializer \<Rightarrow> byte list \<Rightarrow> nat \<times> 's serializer" where
  "s_write s xs =
     (case sr_write s of
        Some write \<Rightarrow> if xs \<noteq> [] then (case write (sr_data s) xs of (n, d) \<Rightarrow> (n, s\<lparr>sr_data := d\<rparr>))
                      else (0, s)
      | None \<Rightarrow> (0, s))"

definition serializer_seek :: "'s serializer \<Rightarrow> int \<Rightarrow> serialize_seek_type \<Rightarrow> int \<times> 's serializer" where
  "serializer_seek s offset seek_type =
     (case sr_seek s of
        Some seek \<Rightarrow> (case seek (sr_data s) offset seek_type of (r, d) \<Rightarrow> (r, s\<lparr>sr_data := d\<rparr>))
      | None \<Rightarrow> (-1, s))"

definition serializer_get_pos :: "'s serializer \<Rightarrow> int" where
  "serializer_get_pos s = (case sr_get_pos s of Some get_pos \<Rightarrow> get_pos (sr_data s) | None \<Rightarrow> -1)"

text \<open>Writes whose result the caller ignores.\<close>

definition s_put :: "'s serializer \<Rightarrow> byte list \<Rightarrow> 's serializer" where
  "s_put s xs = snd (s_write s xs)"

definition s_w8 :: "'s serializer \<Rightarrow> 8 word \<Rightarrow> 's serializer" where
  "s_w8 s u8 = s_put s [u8]"

definition s_wl16 :: "'s serializer \<Rightarrow> 16 word \<Rightarrow> 's serializer" where
  "s_wl16 s u16 = s_w8 (s_w8 s (ucast u16)) (ucast (drop_bit 8 u16))"

definition s_wl24 :: "'s serializer \<Rightarrow> 32 word \<Rightarrow> 's serializer" where
  "s_wl24 s u24 = s_wl16 (s_w8 s (ucast u24)) (ucast (drop_bit 8 u24))"

definition s_wl32 :: "'s serializer \<Rightarrow> 32 word \<Rightarrow> 's serializer" where
  "s_wl32 s u32 = s_wl16 (s_wl16 s (ucast u32)) (ucast (drop_bit 16 u32))"

definition s_wl64 :: "'s serializer \<Rightarrow> 64 word \<Rightarrow> 's serializer" where
  "s_wl64 s u64 = s_wl32 (s_wl32 s (ucast u64)) (ucast (drop_bit 32 u64))"

definition s_wb16 :: "'s serializer \<Rightarrow> 16 word \<Rightarrow> 's serializer" where
  "s_wb16 s u16 = s_w8 (s_w8 s (ucast (drop_bit 8 u16))) (ucast u16)"

definition s_wb24 :: "'s serializer \<Rightarrow> 32 word \<Rightarrow> 's serializer" where
  "s_wb24 s u24 = s_w8 (s_wb16 s (ucast (drop_bit 8 u24))) (ucast u24)"

definition s_wb32 :: "'s serializer \<Rightarrow> 32 word \<Rightarrow> 's serializer" where
  "s_wb32 s u32 = s_wb16 (s_wb16 s (ucast (drop_bit 16 u32))) (ucast u32)"

definition s_wb64 :: "'s serializer \<Rightarrow> 64 word \<Rightarrow> 's serializer" where
  "s_wb64 s u64 = s_wb32 (s_wb32 s (ucast (drop_bit 32 u64))) (ucast u64)"

subsection \<open>Big-endian and little-endian numbers\<close>

fun be_bytes :: "nat \<Rightarrow> nat \<Rightarrow> byte list" where
  "be_bytes 0 x = []"
| "be_bytes (Suc n) x = word_of_nat (x div 256 ^ n) # be_bytes n x"

definition le_bytes :: "nat \<Rightarrow> nat \<Rightarrow> byte list" where
  "le_bytes n x = rev (be_bytes n x)"

fun be_val :: "byte list \<Rightarrow> nat" where
  "be_val [] = 0"
| "be_val (b # bs) = unat b * 256 ^ length bs + be_val bs"

lemma length_be_bytes [simp]: "length (be_bytes n x) = n"
  by (induction n) simp_all

lemma be_bytes_2: "be_bytes 2 x = [word_of_nat (x div 256), word_of_nat x]"
  unfolding numeral_2_eq_2 by simp

lemma be_bytes_3: "be_bytes 3 x = [word_of_nat (x div 65536), word_of_nat (x div 256), word_of_nat x]"
  unfolding numeral_3_eq_3 by simp

lemma be_bytes_4: "be_bytes 4 x =
    [word_of_nat (x div 16777216), word_of_nat (x div 65536), word_of_nat (x div 256), word_of_nat x]"
proof -
  have "be_bytes 4 x = be_bytes (Suc (Suc (Suc (Suc 0)))) x"
    by (rule arg_cong [where f = "\<lambda>n. be_bytes n x"]) simp
  then show ?thesis by simp
qed

lemma be_val_be_bytes [simp]: "be_val (be_bytes n x) = x mod 256 ^ n"
proof (induction n)
  case (Suc n)
  have "unat (word_of_nat (x div 256 ^ n) :: byte) = x div 256 ^ n mod 256"
    by (simp add: unat_of_nat)
  with Suc show ?case
    by (simp add: mod_mult2_eq [of x "256 ^ n" 256, simplified mult.commute] mult.commute)
qed simp

lemma be_val_bound: "be_val bs < 256 ^ length bs"
proof (induction bs)
  case (Cons b bs)
  have "unat b < 2 ^ LENGTH(8)"
    by (rule unsigned_less)
  then have "(unat b + 1) * 256 ^ length bs \<le> 256 * 256 ^ length bs"
    by (intro mult_le_mono1) simp
  moreover have "unat b * 256 ^ length bs + be_val bs < (unat b + 1) * 256 ^ length bs"
    using Cons by simp
  ultimately have "unat b * 256 ^ length bs + be_val bs < 256 * 256 ^ length bs"
    by (rule less_le_trans [rotated])
  then show ?case by simp
qed simp

text \<open>The bytes of a number only depend on the number modulo \<open>256 ^ n\<close>.\<close>

lemma byte_of_nat_eq_iff: "(word_of_nat x :: byte) = word_of_nat y \<longleftrightarrow> x mod 256 = y mod 256"
  by (simp add: word_of_nat_eq_iff take_bit_eq_mod)

lemma be_bytes_mod: "n \<le> m \<Longrightarrow> be_bytes n (x mod 256 ^ m) = be_bytes n x"
proof (induction n)
  case (Suc n)
  have "x mod 256 ^ m div 256 ^ n mod 256 = x div 256 ^ n mod 256"
  proof -
    have m: "(256 :: nat) ^ m = 256 ^ n * 256 ^ (m - n)"
      using Suc.prems by (simp flip: power_add)
    have "(256 :: nat) dvd 256 ^ (m - n)"
      using Suc.prems by (intro dvd_power) simp
    then show ?thesis
      unfolding m mod_mult2_eq by (simp add: mod_mod_cancel)
  qed
  with Suc show ?case by (simp add: byte_of_nat_eq_iff)
qed simp

lemma ucast_byte: "(ucast w :: byte) = word_of_nat (unat w)"
  by simp

lemma unat_drop_bit_div: "unat (drop_bit n w) = unat w div 2 ^ n"
  by (subst unat_drop_bit_eq) (rule drop_bit_eq_div)

lemma mod_div_lemma: "(x :: nat) mod 65536 div 256 mod 256 = x div 256 mod 256"
  by (simp add: mod_mult2_eq [of x 256 256, simplified])

lemma unat_ucast_mod: "unat (ucast w :: 'b::len word) = unat w mod 2 ^ LENGTH('b)"
  by (simp add: unsigned_ucast_eq take_bit_eq_mod)

definition le_val :: "byte list \<Rightarrow> nat" where
  "le_val bs = be_val (rev bs)"

lemma length_le_bytes [simp]: "length (le_bytes n x) = n"
  by (simp add: le_bytes_def)

lemma le_val_le_bytes [simp]: "x < 256 ^ n \<Longrightarrow> le_val (le_bytes n x) = x"
  by (simp add: le_val_def le_bytes_def)

subsection \<open>The contract of a sink of bytes\<close>

locale byte_sink =
  fixes bytes :: "'s serializer \<Rightarrow> byte list"
    and is_sink :: "'s serializer \<Rightarrow> bool"
  assumes sink_put: "is_sink s \<Longrightarrow> is_sink (s_put s xs)"
    and bytes_put: "is_sink s \<Longrightarrow> bytes (s_put s xs) = bytes s @ xs"
    and get_pos: "is_sink s \<Longrightarrow> serializer_get_pos s = int (length (bytes s))"
begin

lemma w8: "is_sink s \<Longrightarrow> is_sink (s_w8 s b)" "is_sink s \<Longrightarrow> bytes (s_w8 s b) = bytes s @ [b]"
  by (simp_all add: s_w8_def sink_put bytes_put)

lemma wb16: "is_sink s \<Longrightarrow> is_sink (s_wb16 s w)"
    "is_sink s \<Longrightarrow> bytes (s_wb16 s w) = bytes s @ be_bytes 2 (unat w)"
  by (simp_all add: s_wb16_def w8 be_bytes_2 ucast_byte unat_drop_bit_div del: of_nat_unat)

lemma wb24: "is_sink s \<Longrightarrow> is_sink (s_wb24 s w)"
    "is_sink s \<Longrightarrow> bytes (s_wb24 s w) = bytes s @ be_bytes 3 (unat w)"
  by (simp_all add: s_wb24_def w8 wb16 be_bytes_2 be_bytes_3 ucast_byte unat_drop_bit_div unat_ucast_mod
      byte_of_nat_eq_iff mod_mod_cancel mod_div_lemma div_mult2_eq [symmetric] del: of_nat_unat)

lemma wb32: "is_sink s \<Longrightarrow> is_sink (s_wb32 s w)"
    "is_sink s \<Longrightarrow> bytes (s_wb32 s w) = bytes s @ be_bytes 4 (unat w)"
  by (simp_all add: s_wb32_def wb16 be_bytes_2 be_bytes_4 unat_drop_bit_div unat_ucast_mod
      byte_of_nat_eq_iff mod_mod_cancel mod_div_lemma div_mult2_eq [symmetric] del: of_nat_unat)

lemmas put_simps = sink_put bytes_put w8 wb16 wb24 wb32

end

subsection \<open>The growing byte array\<close>

text \<open>\<open>struct array_output_data\<close> is a \<open>DARRAY\<close> of bytes; \<open>da_push_back_array\<close> appends to it.\<close>

definition array_output_write :: "byte list \<Rightarrow> byte list \<Rightarrow> nat \<times> byte list" where
  "array_output_write output xs = (length xs, output @ xs)"

definition array_output_get_pos :: "byte list \<Rightarrow> int" where
  "array_output_get_pos output = int (length output)"

definition array_output_serializer_init :: "byte list serializer" where
  "array_output_serializer_init =
     \<lparr>sr_data = [], sr_read = None, sr_write = Some array_output_write, sr_seek = None,
      sr_get_pos = Some array_output_get_pos\<rparr>"

definition is_array_output :: "byte list serializer \<Rightarrow> bool" where
  "is_array_output s \<longleftrightarrow> sr_write s = Some array_output_write \<and> sr_get_pos s = Some array_output_get_pos"

interpretation ao: byte_sink sr_data is_array_output
  by unfold_locales
    (auto simp: is_array_output_def s_put_def s_write_def array_output_write_def
      serializer_get_pos_def array_output_get_pos_def)

lemma array_output_init [simp]:
  "is_array_output array_output_serializer_init" "sr_data array_output_serializer_init = []"
  by (simp_all add: is_array_output_def array_output_serializer_init_def)

end
