(* ===== verification/Avc.thy ===== *)
theory Avc
  imports Packet Serializer
begin

text \<open>
  \<open>libobs/obs-avc.c\<close>: finding start codes in an H.264 Annex B byte stream, and turning the
  stream into the length-prefixed form and the configuration record that FLV and RTMP carry.

  A pointer into the packet is its offset from the start of the data; \<open>base\<close> is the address of
  the data, which the start code search reads for alignment. Comparisons such as \<open>p < end - 3\<close>
  are comparisons of pointers that may lie before the block, so they are written
  \<open>p + 3 < end\<close>. Every read is checked: a result \<open>Some\<close> means that no byte outside the block
  was read.
\<close>

subsection \<open>Searching for a start code\<close>

definition andM :: "bool option \<Rightarrow> bool option \<Rightarrow> bool option" where
  "andM a b = do { x \<leftarrow> a; if x then b else Some False }"

definition byte_is :: "byte list \<Rightarrow> nat \<Rightarrow> byte \<Rightarrow> bool option" where
  "byte_is d i v = do { b \<leftarrow> rd d i; Some (b = v) }"

definition startcode_at :: "byte list \<Rightarrow> nat \<Rightarrow> bool option" where
  "startcode_at d p = andM (byte_is d p 0) (andM (byte_is d (p + 1) 0) (byte_is d (p + 2) 1))"

text \<open>The unaligned head and the tail of the search, one byte at a time: \<open>Inl\<close> is the return.\<close>

function ff_bytes :: "byte list \<Rightarrow> nat \<Rightarrow> nat \<Rightarrow> (nat + nat) option" where
  "ff_bytes d p lim =
     (if p < lim then
        do { found \<leftarrow> startcode_at d p;
             if found then Some (Inl p) else ff_bytes d (p + 1) lim }
      else Some (Inr p))"
  by pat_completeness auto
termination
  by (relation "measure (\<lambda>(d, p, lim). lim - p)") auto

declare ff_bytes.simps [simp del]

text \<open>The little-endian 32-bit load \<open>*(const uint32_t*)p\<close>.\<close>

definition rd32 :: "byte list \<Rightarrow> nat \<Rightarrow> 32 word option" where
  "rd32 d p = do {
     b0 \<leftarrow> rd d p; b1 \<leftarrow> rd d (p + 1); b2 \<leftarrow> rd d (p + 2); b3 \<leftarrow> rd d (p + 3);
     Some (word_of_nat (unat b0 + 256 * unat b1 + 65536 * unat b2 + 16777216 * unat b3)) }"

definition has_zero_byte :: "32 word \<Rightarrow> bool" where
  "has_zero_byte x \<longleftrightarrow> (x - 0x01010101) AND NOT x AND 0x80808080 \<noteq> 0"

text \<open>The four tests inside the word loop, in their order.\<close>

definition ff_probe :: "byte list \<Rightarrow> nat \<Rightarrow> nat option option" where
  "ff_probe d p = do {
     z1 \<leftarrow> byte_is d (p + 1) 0;
     a \<leftarrow> (if z1 then andM (byte_is d p 0) (byte_is d (p + 2) 1) else Some False);
     if a then Some (Some p) else do {
     b \<leftarrow> (if z1 then andM (byte_is d (p + 2) 0) (byte_is d (p + 3) 1) else Some False);
     if b then Some (Some (p + 1)) else do {
     z3 \<leftarrow> byte_is d (p + 3) 0;
     c \<leftarrow> (if z3 then andM (byte_is d (p + 2) 0) (byte_is d (p + 4) 1) else Some False);
     if c then Some (Some (p + 2)) else do {
     e \<leftarrow> (if z3 then andM (byte_is d (p + 4) 0) (byte_is d (p + 5) 1) else Some False);
     if e then Some (Some (p + 3)) else Some None }}}}"

function ff_words :: "byte list \<Rightarrow> nat \<Rightarrow> nat \<Rightarrow> (nat + nat) option" where
  "ff_words d p end_pos =
     (if p + 6 < end_pos then
        do { x \<leftarrow> rd32 d p;
             r \<leftarrow> (if has_zero_byte x then ff_probe d p else Some None);
             (case r of Some q \<Rightarrow> Some (Inl q) | None \<Rightarrow> ff_words d (p + 4) end_pos) }
      else Some (Inr p))"
  by pat_completeness auto
termination
  by (relation "measure (\<lambda>(d, p, end_pos). end_pos - p)") auto

declare ff_words.simps [simp del]

definition ff_avc_find_startcode_internal :: "nat \<Rightarrow> byte list \<Rightarrow> nat \<Rightarrow> nat \<Rightarrow> nat option" where
  "ff_avc_find_startcode_internal base d p end_pos =
     (let a = p + 4 - (base + p) mod 4
      in do {
        r1 \<leftarrow> ff_bytes d p (min a (end_pos - 3));
        (case r1 of Inl q \<Rightarrow> Some q | Inr p1 \<Rightarrow> do {
        r2 \<leftarrow> ff_words d p1 end_pos;
        (case r2 of Inl q \<Rightarrow> Some q | Inr p2 \<Rightarrow> do {
        r3 \<leftarrow> ff_bytes d p2 (end_pos - 3);
        (case r3 of Inl q \<Rightarrow> Some q | Inr p3 \<Rightarrow> Some end_pos) })})})"

definition obs_avc_find_startcode :: "nat \<Rightarrow> byte list \<Rightarrow> nat \<Rightarrow> nat \<Rightarrow> nat option" where
  "obs_avc_find_startcode base d p end_pos = do {
     out \<leftarrow> ff_avc_find_startcode_internal base d p end_pos;
     back \<leftarrow> (if p < out \<and> out < end_pos then byte_is d (out - 1) 0 else Some False);
     Some (if back then out - 1 else out) }"

subsection \<open>The NAL unit loops\<close>

text \<open>\<open>while (nal_start < end && !*(nal_start++));\<close>\<close>

function skip_zeros :: "byte list \<Rightarrow> nat \<Rightarrow> nat \<Rightarrow> nat option" where
  "skip_zeros d p end_pos =
     (if p < end_pos then do { b \<leftarrow> rd d p; if b = 0 then skip_zeros d (p + 1) end_pos else Some (p + 1) }
      else Some p)"
  by pat_completeness auto
termination
  by (relation "measure (\<lambda>(d, p, end_pos). end_pos - p)") auto

declare skip_zeros.simps [simp del]

abbreviation "OBS_NAL_SLICE \<equiv> (1 :: byte)"
abbreviation "OBS_NAL_SLICE_IDR \<equiv> (5 :: byte)"
abbreviation "OBS_NAL_SPS \<equiv> (7 :: byte)"
abbreviation "OBS_NAL_PPS \<equiv> (8 :: byte)"

abbreviation "OBS_NAL_PRIORITY_DISPOSABLE \<equiv> (0 :: int)"
abbreviation "OBS_NAL_PRIORITY_LOW \<equiv> (1 :: int)"
abbreviation "OBS_NAL_PRIORITY_HIGHEST \<equiv> (3 :: int)"

definition nal_type :: "byte \<Rightarrow> byte" where
  "nal_type b = b AND 0x1F"

partial_function (option) keyframe_loop :: "nat \<Rightarrow> byte list \<Rightarrow> nat \<Rightarrow> nat \<Rightarrow> bool option" where
  "keyframe_loop base d nal_start end_pos = do {
     nal_start \<leftarrow> skip_zeros d nal_start end_pos;
     if nal_start = end_pos then Some False
     else do {
       b \<leftarrow> rd d nal_start;
       if nal_type b = OBS_NAL_SLICE_IDR \<or> nal_type b = OBS_NAL_SLICE
       then Some (nal_type b = OBS_NAL_SLICE_IDR)
       else do {
         nal_end \<leftarrow> obs_avc_find_startcode base d nal_start end_pos;
         keyframe_loop base d nal_end end_pos } } }"

definition obs_avc_keyframe :: "nat \<Rightarrow> byte list \<Rightarrow> bool option" where
  "obs_avc_keyframe base d = do {
     nal_start \<leftarrow> obs_avc_find_startcode base d 0 (length d);
     keyframe_loop base d nal_start (length d) }"

definition get_drop_priority :: "int \<Rightarrow> int" where
  "get_drop_priority priority =
     (if priority = OBS_NAL_PRIORITY_DISPOSABLE then OBS_NAL_PRIORITY_DISPOSABLE
      else if priority = OBS_NAL_PRIORITY_LOW then OBS_NAL_PRIORITY_LOW
      else OBS_NAL_PRIORITY_HIGHEST)"

text \<open>The loop threads the serializer, \<open>*is_keyframe\<close> and \<open>*priority\<close>.\<close>

partial_function (option) serialize_loop ::
  "nat \<Rightarrow> byte list \<Rightarrow> 's serializer \<Rightarrow> bool \<Rightarrow> int \<Rightarrow> nat \<Rightarrow> nat \<Rightarrow> ('s serializer \<times> bool \<times> int) option"
where
  "serialize_loop base d s is_keyframe priority nal_start end_pos = do {
     nal_start \<leftarrow> skip_zeros d nal_start end_pos;
     if nal_start = end_pos then Some (s, is_keyframe, priority)
     else do {
       b \<leftarrow> rd d nal_start;
       let slice = (nal_type b = OBS_NAL_SLICE_IDR \<or> nal_type b = OBS_NAL_SLICE);
       let is_keyframe = (if slice then nal_type b = OBS_NAL_SLICE_IDR else is_keyframe);
       let priority = (if slice then int (unat (drop_bit 5 b)) else priority);
       nal_end \<leftarrow> obs_avc_find_startcode base d nal_start end_pos;
       let s = s_wb32 s (word_of_nat (nal_end - nal_start));
       let s = s_put s (segment d nal_start (nal_end - nal_start));
       serialize_loop base d s is_keyframe priority nal_end end_pos } }"

definition serialize_avc_data ::
  "nat \<Rightarrow> byte list \<Rightarrow> 's serializer \<Rightarrow> bool \<Rightarrow> int \<Rightarrow> ('s serializer \<times> bool \<times> int) option" where
  "serialize_avc_data base d s is_keyframe priority = do {
     nal_start \<leftarrow> obs_avc_find_startcode base d 0 (length d);
     serialize_loop base d s is_keyframe priority nal_start (length d) }"

definition obs_parse_avc_packet :: "nat \<Rightarrow> encoder_packet \<Rightarrow> encoder_packet option" where
  "obs_parse_avc_packet base src = do {
     (s, keyframe, priority) \<leftarrow>
       serialize_avc_data base (pkt_data src) array_output_serializer_init
         (pkt_keyframe src) (pkt_priority src);
     Some (src\<lparr>pkt_keyframe := keyframe, pkt_priority := priority, pkt_data := sr_data s,
               pkt_drop_priority := get_drop_priority priority\<rparr>) }"

definition has_start_code :: "byte list \<Rightarrow> bool option" where
  "has_start_code d = do {
     b0 \<leftarrow> rd d 0;
     if b0 \<noteq> 0 then Some False else do {
     b1 \<leftarrow> rd d 1;
     if b1 \<noteq> 0 then Some False else do {
     b2 \<leftarrow> rd d 2;
     if b2 = 1 then Some True else andM (Some (b2 = 0)) (byte_is d 3 1) }}}"

text \<open>A parameter set found so far is its offset and size; \<open>None\<close> is the null pointer.\<close>

partial_function (option) sps_pps_loop ::
  "nat \<Rightarrow> byte list \<Rightarrow> (nat \<times> nat) option \<Rightarrow> (nat \<times> nat) option \<Rightarrow> nat \<Rightarrow> nat \<Rightarrow>
   ((nat \<times> nat) option \<times> (nat \<times> nat) option) option" where
  "sps_pps_loop base d sps pps nal_start end_pos = do {
     nal_start \<leftarrow> skip_zeros d nal_start end_pos;
     if nal_start = end_pos then Some (sps, pps)
     else do {
       nal_end \<leftarrow> obs_avc_find_startcode base d nal_start end_pos;
       b \<leftarrow> rd d nal_start;
       if nal_type b = OBS_NAL_SPS
       then sps_pps_loop base d (Some (nal_start, nal_end - nal_start)) pps nal_end end_pos
       else if nal_type b = OBS_NAL_PPS
       then sps_pps_loop base d sps (Some (nal_start, nal_end - nal_start)) nal_end end_pos
       else sps_pps_loop base d sps pps nal_end end_pos } }"

definition get_sps_pps ::
  "nat \<Rightarrow> byte list \<Rightarrow> ((nat \<times> nat) option \<times> (nat \<times> nat) option) option" where
  "get_sps_pps base d = do {
     nal_start \<leftarrow> obs_avc_find_startcode base d 0 (length d);
     sps_pps_loop base d None None nal_start (length d) }"

text \<open>The header and the returned size; the header is \<open>None\<close> where the code leaves it unset.\<close>

definition obs_parse_avc_header :: "nat \<Rightarrow> byte list \<Rightarrow> (byte list option \<times> nat) option" where
  "obs_parse_avc_header base d =
     (if length d \<le> 6 then Some (None, 0)
      else do {
        sc \<leftarrow> has_start_code d;
        if \<not> sc then Some (Some d, length d)
        else do {
          (sps, pps) \<leftarrow> get_sps_pps base d;
          (case (sps, pps) of
             (Some (sps, sps_size), Some (pps, pps_size)) \<Rightarrow>
               if sps_size < 4 then Some (None, 0)
               else
                 let s = array_output_serializer_init;
                     s = s_w8 s 0x01;
                     s = s_put s (segment d (sps + 1) 3);
                     s = s_w8 s 0xff;
                     s = s_w8 s 0xe1;
                     s = s_wb16 s (word_of_nat sps_size);
                     s = s_put s (segment d sps sps_size);
                     s = s_w8 s 0x01;
                     s = s_wb16 s (word_of_nat pps_size);
                     s = s_put s (segment d pps pps_size)
                 in Some (Some (sr_data s), length (sr_data s))
           | _ \<Rightarrow> Some (None, 0)) } })"


subsection \<open>What the search computes\<close>


lemma bit_unat: "bit w n \<longleftrightarrow> odd (unat w div 2 ^ n)" for w :: "'a::len word"
proof -
  have "bit w n = bit (unat w) n" by (simp add: bit_unsigned_iff)
  then show ?thesis by (simp add: bit_iff_odd)
qed

lemma odd_div_bit: "(x :: nat) = 2 ^ n * (2 * k + 1) + r \<Longrightarrow> r < 2 ^ n \<Longrightarrow> odd (x div 2 ^ n)"
  by (simp del: mult_Suc_right add: div_mult_self2)

lemma even_div_bit: "(x :: nat) = 2 ^ n * (2 * k) + r \<Longrightarrow> r < 2 ^ n \<Longrightarrow> even (x div 2 ^ n)"
  by simp

lemma has_zero_byteI:
  assumes "bit (0x80808080 :: 32 word) n" "bit (x - 0x01010101) n" "\<not> bit x n"
  shows "has_zero_byte x"
  unfolding has_zero_byte_def
proof
  assume "(x - 0x01010101) AND NOT x AND 0x80808080 = 0"
  then have "\<not> bit ((x - 0x01010101) AND NOT x AND 0x80808080) n" by simp
  moreover have "n < 32" using assms(1) bit_imp_le_length [of "0x80808080 :: 32 word" n] by auto 
  ultimately show False using assms by (simp add: bit_and_iff bit_not_iff)
qed

definition le32 :: "nat \<Rightarrow> nat \<Rightarrow> nat \<Rightarrow> nat \<Rightarrow> nat" where
 "le32 b0 b1 b2 b3 = b0 + 256 * b1 + 65536 * b2 + 16777216 * b3"

lemma sub_ones: "x < 2 ^ 32 \<Longrightarrow> unat (word_of_nat x - 0x01010101 :: 32 word) = (x + 4278124287) mod 2 ^ 32"
proof -
  have "(word_of_nat x - 0x01010101 :: 32 word) = word_of_nat (x + 4278124287)"
    by simp
  then show ?thesis by (simp only: unat_of_nat) simp
qed

lemma odd_mod_div: "n < 32 \<Longrightarrow> odd ((y :: nat) mod 2 ^ 32 div 2 ^ n) \<longleftrightarrow> odd (y div 2 ^ n)"
proof -
  assume "n < 32"
  then have "bit (take_bit 32 y) n = bit y n" by (simp add: bit_take_bit_iff)
  then show ?thesis by (simp only: bit_iff_odd take_bit_eq_mod)
qed

lemma zero_byte_found:
  assumes x: "x = le32 b0 b1 b2 b3" and lt: "b0 < 256" "b1 < 256" "b2 < 256" "b3 < 256"
    and z: "b0 = 0 \<or> b1 = 0 \<or> b2 = 0 \<or> b3 = 0"
  shows "has_zero_byte (word_of_nat x)"
proof -
  have x32: "x < 2 ^ 32" using x lt by (simp add: le32_def)
  have bitx: "bit (word_of_nat x :: 32 word) n \<longleftrightarrow> odd (x div 2 ^ n)" if "n < 32" for n
    using x32 by (simp add: bit_unat unat_of_nat)
  have bits: "bit (word_of_nat x - 0x01010101 :: 32 word) n \<longleftrightarrow> odd ((x + 4278124287) div 2 ^ n)" if "n < 32" for n
    unfolding bit_unat sub_ones [OF x32] by (rule odd_mod_div [OF that])
  consider "b0 = 0" | "b0 > 0" "b1 = 0" | "b0 > 0" "b1 > 0" "b2 = 0" | "b0 > 0" "b1 > 0" "b2 > 0" "b3 = 0"
    using z by auto
  then show ?thesis
  proof cases
    case 1
    have "x + 4278124287 = 2 ^ 7 * (2 * (b1 + 256 * b2 + 65536 * b3 + 16711422) + 1) + 127"
      by (simp add: x le32_def 1)
    moreover have "x = 2 ^ 7 * (2 * (b1 + 256 * b2 + 65536 * b3)) + 0"
      by (simp add: x le32_def 1)
    moreover have "(127 :: nat) < 2 ^ 7" "(0 :: nat) < 2 ^ 7"
      by simp_all
    ultimately have "odd ((x + 4278124287) div 2 ^ 7)" "even (x div 2 ^ 7)"
      using odd_div_bit even_div_bit by blast+
    then show ?thesis by (intro has_zero_byteI [of 7]) (simp_all add: bits bitx)
  next
    case 2
    have "x + 4278124287 = 2 ^ 15 * (2 * (b2 + 256 * b3 + 65278) + 1) + (32512 + (b0 - 1))"
      and "x = 2 ^ 15 * (2 * (b2 + 256 * b3)) + b0"
      using 2 by (simp_all add: x le32_def)
    moreover have "32512 + (b0 - 1) < 2 ^ 15" "b0 < 2 ^ 15"
      using lt by simp_all
    ultimately have "odd ((x + 4278124287) div 2 ^ 15)" "even (x div 2 ^ 15)"
      using odd_div_bit even_div_bit by blast+
    then show ?thesis by (intro has_zero_byteI [of 15]) (simp_all add: bits bitx)
  next
    case 3
    have "x + 4278124287 = 2 ^ 23 * (2 * (b3 + 254) + 1) + (8323072 + (b0 - 1) + 256 * (b1 - 1))"
      and "x = 2 ^ 23 * (2 * b3) + (b0 + 256 * b1)"
      using 3 by (simp_all add: x le32_def)
    moreover have "8323072 + (b0 - 1) + 256 * (b1 - 1) < 2 ^ 23" "b0 + 256 * b1 < 2 ^ 23"
      using lt by simp_all
    ultimately have "odd ((x + 4278124287) div 2 ^ 23)" "even (x div 2 ^ 23)"
      using odd_div_bit even_div_bit by blast+
    then show ?thesis by (intro has_zero_byteI [of 23]) (simp_all add: bits bitx)
  next
    case 4
    have "x + 4278124287 = 2 ^ 31 * (2 * 0 + 1) + (2130706432 + (b0 - 1) + 256 * (b1 - 1) + 65536 * (b2 - 1))"
      and "x = 2 ^ 31 * (2 * 0) + (b0 + 256 * b1 + 65536 * b2)"
      using 4 by (simp_all add: x le32_def)
    moreover have "2130706432 + (b0 - 1) + 256 * (b1 - 1) + 65536 * (b2 - 1) < 2 ^ 31"
        "b0 + 256 * b1 + 65536 * b2 < 2 ^ 31"
      using lt by simp_all
    ultimately have "odd ((x + 4278124287) div 2 ^ 31)" "even (x div 2 ^ 31)"
      using odd_div_bit even_div_bit by blast+
    then show ?thesis by (intro has_zero_byteI [of 31]) (simp_all add: bits bitx)
  qed
qed


lemma has_zero_byte_rd32:
  assumes "p + 4 \<le> length d" and "d ! (p + 1) = 0 \<or> d ! (p + 3) = 0"
  shows "\<exists>x. rd32 d p = Some x \<and> has_zero_byte x"
proof -
  have b: "unat b < 256" for b :: byte
    using unsigned_less [of b] by simp
  show ?thesis
    using assms zero_byte_found [OF refl b b b b, of "d ! p" "d ! (p + 1)" "d ! (p + 2)" "d ! (p + 3)"]
    by (auto simp: rd32_def safe_read le32_def)
qed

text \<open>A start code at \<open>i\<close>, and the specification of the search: the first one, or the end.\<close>

definition sc :: "byte list \<Rightarrow> nat \<Rightarrow> bool" where
  "sc d i \<longleftrightarrow> d ! i = 0 \<and> d ! (i + 1) = 0 \<and> d ! (i + 2) = 1"

definition first_sc :: "byte list \<Rightarrow> nat \<Rightarrow> nat \<Rightarrow> nat" where
  "first_sc d p end_pos = (case List.find (sc d) [p ..< end_pos - 3] of Some i \<Rightarrow> i | None \<Rightarrow> end_pos)"

lemma byte_is_in [safe_read]: "i < length d \<Longrightarrow> byte_is d i v = Some (d ! i = v)"
  by (simp add: byte_is_def safe_read)

lemma andM_Some [safe_read]: "andM (Some a) (Some b) = Some (a \<and> b)"
  by (simp add: andM_def)

lemma startcode_at_in [safe_read]: "i + 2 < length d \<Longrightarrow> startcode_at d i = Some (sc d i)"
  by (simp add: startcode_at_def safe_read sc_def)

lemma ff_bytes_spec:
  "p < lim \<longrightarrow> lim + 2 \<le> length d \<Longrightarrow>
   ff_bytes d p lim = Some (case List.find (sc d) [p ..< lim] of Some i \<Rightarrow> Inl i | None \<Rightarrow> Inr (max p lim))"
proof (induction d p lim rule: ff_bytes.induct)
  case (1 d p lim)
  show ?case
  proof (cases "p < lim")
    case True
    then have "startcode_at d p = Some (sc d p)" using 1 by (simp add: safe_read)
    with True 1 show ?thesis
      by (subst ff_bytes.simps) (auto simp: upt_conv_Cons max_def split: option.splits)
  next
    case False
    then show ?thesis by (subst ff_bytes.simps) (simp add: max_def)
  qed
qed

lemma ff_probe_spec:
  assumes "p + 5 < length d"
  shows "ff_probe d p = Some (List.find (sc d) [p ..< p + 4])"
proof -
  define q where "q = (\<lambda>i. d ! (p + i))"
  have reads: "byte_is d (p + i) v = Some (q i = v)" if "i < 6" for i v
    using that assms by (simp add: safe_read q_def)
  have r0: "byte_is d p v = Some (q 0 = v)" for v
    using reads [of 0] by simp
  have sc: "sc d p \<longleftrightarrow> q 0 = 0 \<and> q 1 = 0 \<and> q 2 = 1" "sc d (p + 1) \<longleftrightarrow> q 1 = 0 \<and> q 2 = 0 \<and> q 3 = 1"
      "sc d (p + 2) \<longleftrightarrow> q 2 = 0 \<and> q 3 = 0 \<and> q 4 = 1" "sc d (p + 3) \<longleftrightarrow> q 3 = 0 \<and> q 4 = 0 \<and> q 5 = 1"
    by (simp_all add: sc_def q_def add.assoc numeral_eq_Suc)
  have upt: "[p ..< p + 4] = [p, p + 1, p + 2, p + 3]"
    by (simp add: upt_rec)
  have r: "byte_is d (p + 1) v = Some (q 1 = v)" "byte_is d (p + 2) v = Some (q 2 = v)"
      "byte_is d (p + 3) v = Some (q 3 = v)" "byte_is d (p + 4) v = Some (q 4 = v)" "byte_is d (p + 5) v = Some (q 5 = v)" for v
    by (rule reads; simp)+
  show ?thesis
    unfolding ff_probe_def upt r r0 List.find.simps sc
    by (cases "q 1 = 0"; cases "q 3 = 0"; cases "q 2 = 0") (auto simp: andM_def)
qed

lemma rd32_in: "p + 4 \<le> length d \<Longrightarrow> \<exists>x. rd32 d p = Some x"
  by (simp add: rd32_def safe_read)

lemma no_sc_if_no_zero:
  assumes "p + 4 \<le> length d" "rd32 d p = Some x" "\<not> has_zero_byte x"
  shows "List.find (sc d) [p ..< p + 4] = None"
proof -
  have "d ! (p + 1) \<noteq> 0" "d ! (p + 3) \<noteq> 0"
    using has_zero_byte_rd32 [OF assms(1)] assms(2,3) by auto
  moreover have "j = p \<or> j = p + 1 \<or> j = p + 2 \<or> j = p + 3" if "p \<le> j" "j < p + 4" for j
    using that by linarith
  ultimately show ?thesis
    by (auto simp: find_upt_None sc_def numeral_eq_Suc)
qed

lemma find_upt_append:
  "p \<le> m \<Longrightarrow> m \<le> n \<Longrightarrow> List.find P [p ..< n] =
    (case List.find P [p ..< m] of Some i \<Rightarrow> Some i | None \<Rightarrow> List.find P [m ..< n])"
proof -
  have "List.find P (xs @ ys) = (case List.find P xs of Some i \<Rightarrow> Some i | None \<Rightarrow> List.find P ys)" for xs ys
    by (induction xs) auto
  then show "p \<le> m \<Longrightarrow> m \<le> n \<Longrightarrow> ?thesis"
    by (metis le_Suc_ex upt_add_eq_append)
qed

lemma ff_words_spec:
  assumes "end_pos \<le> length d"
  shows "\<exists>r. ff_words d p end_pos = Some r \<and>
    (case r of Inl q \<Rightarrow> List.find (sc d) [p ..< end_pos - 3] = Some q
     | Inr p' \<Rightarrow> p \<le> p' \<and> (p + 3 \<le> end_pos \<longrightarrow> p' + 3 \<le> end_pos) \<and> List.find (sc d) [p ..< p'] = None)"
  using assms
proof (induction d p end_pos rule: ff_words.induct)
  case (1 d p end_pos)
  show ?case
  proof (cases "p + 6 < end_pos")
    case True
    then obtain x where x: "rd32 d p = Some x"
      using rd32_in [of p d] 1 by auto
    have probe: "(if has_zero_byte x then ff_probe d p else Some None) = Some (List.find (sc d) [p ..< p + 4])"
      using True 1 x no_sc_if_no_zero [of p d x] by (simp add: ff_probe_spec)
    show ?thesis
    proof (cases "List.find (sc d) [p ..< p + 4]")
      case None
      have skip: "List.find (sc d) [p ..< n] = List.find (sc d) [p + 4 ..< n]" if "p + 4 \<le> n" for n
        using that find_upt_append [of p "p + 4" n "sc d"] None by simp
      have unfold: "ff_words d p end_pos = ff_words d (p + 4) end_pos"
        using True x probe None by (subst ff_words.simps) simp
      have "(if has_zero_byte x then ff_probe d p else Some None) = Some None"
        using probe None by simp
      from "1.IH" [OF True x this refl] "1.prems" True obtain r where
        r: "ff_words d (p + 4) end_pos = Some r" and
        post: "case r of Inl q \<Rightarrow> List.find (sc d) [p + 4 ..< end_pos - 3] = Some q
          | Inr p' \<Rightarrow> p + 4 \<le> p' \<and> (p + 4 + 3 \<le> end_pos \<longrightarrow> p' + 3 \<le> end_pos) \<and> List.find (sc d) [p + 4 ..< p'] = None"
        by auto
      show ?thesis
        using unfold r post True by (cases r) (simp_all add: skip)
    next
      case (Some q)
      have "List.find (sc d) [p ..< end_pos - 3] = Some q"
        using True find_upt_append [of p "p + 4" "end_pos - 3" "sc d"] Some by simp
      then show ?thesis
        using True x probe Some by (subst ff_words.simps) simp
    qed
  next
    case False
    then show ?thesis by (subst ff_words.simps) simp
  qed
qed

lemma find_startcode_internal_spec:
  assumes len: "end_pos \<le> length d"
  shows "ff_avc_find_startcode_internal base d p end_pos = Some (first_sc d p end_pos)"
proof -
  define lim where "lim = min (p + 4 - (base + p) mod 4) (end_pos - 3)"
  have l1: "p < lim \<longrightarrow> lim + 2 \<le> length d" and l3: "q < end_pos - 3 \<longrightarrow> (end_pos - 3) + 2 \<le> length d" for q
    using len by (auto simp: lim_def)
  have lim_end: "p < lim \<Longrightarrow> lim \<le> end_pos - 3" by (simp add: lim_def)
  show ?thesis
  proof (cases "List.find (sc d) [p ..< lim]")
    case (Some q)
    then have "p < lim" by (auto simp: find_upt_Some)
    with Some lim_end have "List.find (sc d) [p ..< end_pos - 3] = Some q"
      using find_upt_append [of p lim "end_pos - 3" "sc d"] by simp
    with Some show ?thesis
      by (simp add: ff_avc_find_startcode_internal_def Let_def lim_def [symmetric] ff_bytes_spec [OF l1] first_sc_def)
  next
    case None
    let ?p1 = "max p lim"
    have none1: "List.find (sc d) [p ..< ?p1] = None"
      using None by (simp add: max_def)
    obtain r where r: "ff_words d ?p1 end_pos = Some r" and
      post: "case r of Inl q \<Rightarrow> List.find (sc d) [?p1 ..< end_pos - 3] = Some q
       | Inr p' \<Rightarrow> ?p1 \<le> p' \<and> (?p1 + 3 \<le> end_pos \<longrightarrow> p' + 3 \<le> end_pos) \<and> List.find (sc d) [?p1 ..< p'] = None"
      using ff_words_spec [OF len, of ?p1] by auto
    have rest: "List.find (sc d) [p ..< end_pos - 3] = List.find (sc d) [?p1 ..< end_pos - 3]"
    proof (cases "?p1 \<le> end_pos - 3")
      case True
      with none1 show ?thesis using find_upt_append [of p ?p1 "end_pos - 3" "sc d"] by simp
    next
      case False
      then have "end_pos - 3 \<le> p" using lim_end by (cases "p < lim") (auto simp: max_def)
      with False show ?thesis by simp
    qed
    show ?thesis
    proof (cases r)
      case (Inl q)
      with post rest None r show ?thesis
        by (simp add: ff_avc_find_startcode_internal_def Let_def lim_def [symmetric] ff_bytes_spec [OF l1] first_sc_def)
    next
      case (Inr p')
      have rest': "List.find (sc d) [?p1 ..< end_pos - 3] = List.find (sc d) [p' ..< end_pos - 3]"
      proof (cases "p' \<le> end_pos - 3")
        case True
        with post Inr show ?thesis using find_upt_append [of ?p1 p' "end_pos - 3" "sc d"] by simp
      next
        case False
        then have "end_pos - 3 \<le> ?p1" using post Inr by (simp add: le_diff_conv2) arith
        with False show ?thesis by simp
      qed
      show ?thesis
        using Inr post rest rest' None r
        by (simp add: ff_avc_find_startcode_internal_def Let_def lim_def [symmetric] ff_bytes_spec [OF l1]
            ff_bytes_spec [OF l3] first_sc_def split: option.splits)
    qed
  qed
qed

lemma first_sc_range: "p \<le> end_pos \<Longrightarrow> p \<le> first_sc d p end_pos \<and> first_sc d p end_pos \<le> end_pos"
  by (auto simp: first_sc_def find_upt_Some split: option.splits)

text \<open>The specification of \<open>obs_avc_find_startcode\<close>: one zero in front belongs to the start code.\<close>

definition startcode_pos :: "byte list \<Rightarrow> nat \<Rightarrow> nat \<Rightarrow> nat" where
  "startcode_pos d p end_pos =
     (let out = first_sc d p end_pos
      in if p < out \<and> out < end_pos \<and> d ! (out - 1) = 0 then out - 1 else out)"

lemma find_startcode_spec:
  assumes "end_pos \<le> length d"
  shows "obs_avc_find_startcode base d p end_pos = Some (startcode_pos d p end_pos)"
proof (cases "p < first_sc d p end_pos \<and> first_sc d p end_pos < end_pos")
  case True
  with assms have "byte_is d (first_sc d p end_pos - 1) 0 = Some (d ! (first_sc d p end_pos - 1) = 0)"
    by (intro byte_is_in) linarith
  with True assms show ?thesis
    by (simp add: obs_avc_find_startcode_def find_startcode_internal_spec startcode_pos_def Let_def)
next
  case False
  with assms show ?thesis
    by (auto simp: obs_avc_find_startcode_def find_startcode_internal_spec startcode_pos_def Let_def)
qed

lemma startcode_pos_range:
  "p \<le> end_pos \<Longrightarrow> p \<le> startcode_pos d p end_pos \<and> startcode_pos d p end_pos \<le> end_pos"
  using first_sc_range [of p end_pos d] by (auto simp: startcode_pos_def Let_def)

definition skip_pos :: "byte list \<Rightarrow> nat \<Rightarrow> nat \<Rightarrow> nat" where
  "skip_pos d p end_pos = (case List.find (\<lambda>i. d ! i \<noteq> 0) [p ..< end_pos] of Some i \<Rightarrow> i + 1 | None \<Rightarrow> max p end_pos)"

lemma skip_zeros_spec:
  "end_pos \<le> length d \<Longrightarrow> skip_zeros d p end_pos = Some (skip_pos d p end_pos)"
proof (induction d p end_pos rule: skip_zeros.induct)
  case (1 d p end_pos)
  then show ?case
    by (subst skip_zeros.simps) (auto simp: safe_read skip_pos_def upt_conv_Cons max_def split: option.splits)
qed

lemma skip_pos_range: "p < end_pos \<Longrightarrow> p < skip_pos d p end_pos \<and> skip_pos d p end_pos \<le> end_pos"
  by (auto simp: skip_pos_def find_upt_Some split: option.splits)

text \<open>The NAL units of a stream: what every loop of the file walks over.\<close>

function nal_ranges :: "byte list \<Rightarrow> nat \<Rightarrow> (nat \<times> nat) list" where
  "nal_ranges d p =
     (let q = skip_pos d p (length d)
      in if p < length d \<and> q \<noteq> length d
         then (q, startcode_pos d q (length d)) # nal_ranges d (startcode_pos d q (length d))
         else [])"
  by pat_completeness auto
termination
proof (relation "measure (\<lambda>(d, p). length d - p)", simp, clarify)
  fix d :: "byte list" and p assume "p < length d" "skip_pos d p (length d) \<noteq> length d"
  then have "p < skip_pos d p (length d)" "skip_pos d p (length d) \<le> length d"
    using skip_pos_range [of p "length d" d] by auto
  then show "((d, startcode_pos d (skip_pos d p (length d)) (length d)), d, p)
      \<in> measure (\<lambda>(d, p). length d - p)"
    using startcode_pos_range [of "skip_pos d p (length d)" "length d" d] by auto
qed

declare nal_ranges.simps [simp del]


text \<open>Each loop of the file is a fold over the NAL units.\<close>

definition is_slice :: "byte \<Rightarrow> bool" where
  "is_slice b \<longleftrightarrow> nal_type b = OBS_NAL_SLICE_IDR \<or> nal_type b = OBS_NAL_SLICE"

definition serialize_step ::
  "byte list \<Rightarrow> 's serializer \<times> bool \<times> int \<Rightarrow> nat \<times> nat \<Rightarrow> 's serializer \<times> bool \<times> int" where
  "serialize_step d = (\<lambda>(s, k, pr) (q, r).
     (s_put (s_wb32 s (word_of_nat (r - q))) (segment d q (r - q)),
      if is_slice (d ! q) then nal_type (d ! q) = OBS_NAL_SLICE_IDR else k,
      if is_slice (d ! q) then int (unat (drop_bit 5 (d ! q))) else pr))"

lemma skip_pos_le: "p \<le> n \<Longrightarrow> p \<le> skip_pos d p n \<and> skip_pos d p n \<le> n"
  using skip_pos_range [of p n d] by (cases "p = n") (auto simp: skip_pos_def)

lemma skip_pos_end: "skip_pos d n n = n"
  by (simp add: skip_pos_def)

lemma serialize_loop_fold:
  "p \<le> length d \<Longrightarrow> serialize_loop base d s k pr p (length d) =
     Some (foldl (serialize_step d) (s, k, pr) (nal_ranges d p))"
proof (induction d p arbitrary: s k pr rule: nal_ranges.induct)
  case (1 d p)
  let ?q = "skip_pos d p (length d)"
  show ?case
  proof (cases "?q = length d")
    case True
    with 1 show ?thesis
      by (subst serialize_loop.simps, subst nal_ranges.simps) (simp add: skip_zeros_spec)
  next
    case False
    have "p < length d" using False "1.prems" skip_pos_end [of d "length d"] by (cases "p = length d") auto
    moreover have "?q < length d" using False skip_pos_le [OF "1.prems", of d] by simp
    moreover have "startcode_pos d ?q (length d) \<le> length d"
      using startcode_pos_range \<open>?q < length d\<close> by (meson less_imp_le)
    ultimately show ?thesis
      using False "1.IH" [OF refl]
      by (subst serialize_loop.simps, subst nal_ranges.simps)
         (simp add: skip_zeros_spec safe_read find_startcode_spec Let_def serialize_step_def is_slice_def)
  qed
qed

lemma keyframe_loop_find:
  "p \<le> length d \<Longrightarrow> keyframe_loop base d p (length d) =
     Some (case List.find (\<lambda>(q, r). is_slice (d ! q)) (nal_ranges d p) of
             None \<Rightarrow> False | Some (q, r) \<Rightarrow> nal_type (d ! q) = OBS_NAL_SLICE_IDR)"
proof (induction d p rule: nal_ranges.induct)
  case (1 d p)
  let ?q = "skip_pos d p (length d)"
  show ?case
  proof (cases "?q = length d")
    case True
    with 1 show ?thesis
      by (subst keyframe_loop.simps, subst nal_ranges.simps) (simp add: skip_zeros_spec)
  next
    case False
    have "p < length d" using False "1.prems" skip_pos_end [of d "length d"] by (cases "p = length d") auto
    moreover have "?q < length d" using False skip_pos_le [OF "1.prems", of d] by simp
    moreover have "startcode_pos d ?q (length d) \<le> length d"
      using startcode_pos_range \<open>?q < length d\<close> by (meson less_imp_le)
    ultimately show ?thesis
      using False "1.IH" [OF refl]
      by (subst keyframe_loop.simps, subst nal_ranges.simps)
         (simp add: skip_zeros_spec safe_read find_startcode_spec Let_def is_slice_def)
  qed
qed

definition sps_pps_step ::
  "byte list \<Rightarrow> (nat \<times> nat) option \<times> (nat \<times> nat) option \<Rightarrow> nat \<times> nat \<Rightarrow>
   (nat \<times> nat) option \<times> (nat \<times> nat) option" where
  "sps_pps_step d = (\<lambda>(sps, pps) (q, r).
     if nal_type (d ! q) = OBS_NAL_SPS then (Some (q, r - q), pps)
     else if nal_type (d ! q) = OBS_NAL_PPS then (sps, Some (q, r - q)) else (sps, pps))"

lemma sps_pps_loop_fold:
  "p \<le> length d \<Longrightarrow> sps_pps_loop base d sps pps p (length d) =
     Some (foldl (sps_pps_step d) (sps, pps) (nal_ranges d p))"
proof (induction d p arbitrary: sps pps rule: nal_ranges.induct)
  case (1 d p)
  let ?q = "skip_pos d p (length d)"
  show ?case
  proof (cases "?q = length d")
    case True
    with 1 show ?thesis
      by (subst sps_pps_loop.simps, subst nal_ranges.simps) (simp add: skip_zeros_spec)
  next
    case False
    have "p < length d" using False "1.prems" skip_pos_end [of d "length d"] by (cases "p = length d") auto
    moreover have "?q < length d" using False skip_pos_le [OF "1.prems", of d] by simp
    moreover have "startcode_pos d ?q (length d) \<le> length d"
      using startcode_pos_range \<open>?q < length d\<close> by (meson less_imp_le)
    ultimately show ?thesis
      using False "1.IH" [OF refl]
      by (subst sps_pps_loop.simps, subst nal_ranges.simps)
         (simp add: skip_zeros_spec safe_read find_startcode_spec Let_def sps_pps_step_def)
  qed
qed

definition all_ranges :: "byte list \<Rightarrow> (nat \<times> nat) list" where
  "all_ranges d = nal_ranges d (startcode_pos d 0 (length d))"

lemma ranges_in_data: "(q, r) \<in> set (nal_ranges d p) \<Longrightarrow> q < length d \<and> q \<le> r \<and> r \<le> length d"
proof (induction d p rule: nal_ranges.induct)
  case (1 d p)
  let ?q = "skip_pos d p (length d)"
  show ?case
  proof (cases "p < length d \<and> ?q \<noteq> length d")
    case True
    moreover from this have "?q < length d" using skip_pos_le [of p "length d" d] by simp
    ultimately show ?thesis
      using 1 startcode_pos_range [of ?q "length d" d]
      by (subst (asm) (2) nal_ranges.simps) (auto simp: Let_def)
  next
    case False
    with 1 show ?thesis by (subst (asm) (2) nal_ranges.simps) (auto simp: Let_def)
  qed
qed

lemma serialize_data_fold:
  "is_array_output s \<Longrightarrow> is_array_output (fst (foldl (serialize_step d) (s, k, pr) rs)) \<and>
   sr_data (fst (foldl (serialize_step d) (s, k, pr) rs)) =
     sr_data s @ concat (map (\<lambda>(q, r). be_bytes 4 (unat (word_of_nat (r - q) :: 32 word)) @ segment d q (r - q)) rs)"
proof (induction rs arbitrary: s k pr)
  case (Cons qr rs)
  then show ?case by (cases qr) (simp add: serialize_step_def ao.put_simps)
qed simp

lemma serialize_flags_fold:
  "snd (foldl (serialize_step d) (s, k, pr) rs) =
   (case List.find (\<lambda>(q, r). is_slice (d ! q)) (rev rs) of
      None \<Rightarrow> (k, pr)
    | Some (q, r) \<Rightarrow> (nal_type (d ! q) = OBS_NAL_SLICE_IDR, int (unat (drop_bit 5 (d ! q)))))"
proof (induction rs rule: rev_induct)
  case (snoc qr rs)
  then show ?case
    by (cases qr; cases "foldl (serialize_step d) (s, k, pr) rs" rule: prod_cases3)
       (auto simp: serialize_step_def split: option.splits)
qed simp

lemma sps_pps_last:
  "foldl (sps_pps_step d) (sps, pps) rs =
   ((case List.find (\<lambda>(q, r). nal_type (d ! q) = OBS_NAL_SPS) (rev rs) of
       None \<Rightarrow> sps | Some (q, r) \<Rightarrow> Some (q, r - q)),
    (case List.find (\<lambda>(q, r). nal_type (d ! q) = OBS_NAL_PPS) (rev rs) of
       None \<Rightarrow> pps | Some (q, r) \<Rightarrow> Some (q, r - q)))"
proof (induction rs rule: rev_induct)
  case (snoc qr rs)
  then show ?case by (cases qr) (auto simp: sps_pps_step_def)
qed simp


subsection \<open>Annex B streams\<close>

text \<open>A stream of NAL units, each behind a start code of \<open>z\<close> zeros and a one.\<close>

fun annexb :: "(nat \<times> byte list) list \<Rightarrow> byte list" where
  "annexb [] = []"
| "annexb ((z, n) # xs) = replicate z 0 @ 1 # n @ annexb xs"

text \<open>What H.264 promises of a unit: no start code inside, no zero at its end.\<close>

definition nal_ok :: "nat \<times> byte list \<Rightarrow> bool" where
  "nal_ok = (\<lambda>(z, n). (z = 2 \<or> z = 3) \<and> n \<noteq> [] \<and> last n \<noteq> 0 \<and> length n < 2 ^ 32 \<and>
     (\<forall>i < length n - 2. \<not> sc n i))"

lemma first_scI:
  assumes "sc d i" "p \<le> i" "i + 3 < e" "\<And>j. p \<le> j \<Longrightarrow> j < i \<Longrightarrow> \<not> sc d j"
  shows "first_sc d p e = i"
proof -
  have "List.find (sc d) [p ..< e - 3] = Some i"
    using assms by (simp add: find_upt_Some)
  then show ?thesis by (simp add: first_sc_def)
qed

lemma first_sc_noneI:
  assumes "\<And>j. p \<le> j \<Longrightarrow> j + 3 < e \<Longrightarrow> \<not> sc d j"
  shows "first_sc d p e = e"
proof -
  have "List.find (sc d) [p ..< e - 3] = None"
    using assms by (auto simp: find_upt_None)
  then show ?thesis by (simp add: first_sc_def)
qed

lemma no_sc_in_nal:
  assumes ok: "nal_ok (z, n)" and j: "length pre \<le> j" "j < length pre + length n"
    and fits: "j + 2 < length (pre @ n @ rest)"
  shows "\<not> sc (pre @ n @ rest) j"
proof -
  obtain i where i: "j = length pre + i" "i < length n" using j by (metis le_Suc_ex nat_add_left_cancel_less)
  have nth: "(pre @ n @ rest) ! (length pre + k) = (n @ rest) ! k" for k by (simp add: nth_append)
  have at: "sc (pre @ n @ rest) j \<longleftrightarrow> sc (n @ rest) i"
    by (simp only: sc_def i add.assoc nth)
  have last: "n ! (length n - 1) \<noteq> 0" using ok by (auto simp: nal_ok_def last_conv_nth)
  consider "i + 2 < length n" | "i + 2 = length n" | "i + 1 = length n" using i by linarith
  then show ?thesis
  proof cases
    case 1
    then have "sc (n @ rest) i \<longleftrightarrow> sc n i" by (simp add: sc_def nth_append)
    with 1 ok show ?thesis unfolding at by (simp add: nal_ok_def)
  next
    case 2
    then have "length n - 1 = i + 1" by simp
    with last 2 show ?thesis unfolding at by (simp add: sc_def nth_append)
  next
    case 3
    then have "length n - 1 = i" by simp
    with last 3 show ?thesis unfolding at by (simp add: sc_def nth_append)
  qed
qed

lemma startcode_pos_nal_end:
  fixes pre :: "byte list"
  assumes ok: "nal_ok (z, n)" and more: "\<forall>x \<in> set xs. nal_ok x"
  defines "d \<equiv> pre @ n @ annexb xs"
  shows "startcode_pos d (length pre) (length d) = length pre + length n"
proof (cases xs)
  case Nil
  have "first_sc d (length pre) (length d) = length d"
    using no_sc_in_nal [OF ok, of pre _ "annexb xs"] unfolding d_def
    by (intro first_sc_noneI) (auto simp: Nil)
  then show ?thesis by (simp add: startcode_pos_def d_def Nil)
next
  case (Cons x ys)
  obtain z' m where x: "x = (z', m)" by (cases x)
  have z': "z' = 2 \<or> z' = 3" and m: "m \<noteq> []" using more by (auto simp: Cons x nal_ok_def)
  let ?e = "length pre + length n" and ?i = "length pre + length n + (z' - 2)"
  have ne: "n \<noteq> []" "last n \<noteq> 0" using ok by (auto simp: nal_ok_def)
  have d: "d = (pre @ n) @ replicate z' 0 @ 1 # m @ annexb ys" by (simp add: d_def Cons x)
  have nth: "d ! (length pre + length n + k) = (replicate z' 0 @ 1 # m @ annexb ys) ! k" for k
    unfolding d by (metis length_append nth_append_length_plus)
  have here: "sc d ?i"
    using z' nth [of "z' - 2"] nth [of "z' - 2 + 1"] nth [of "z' - 2 + 2"]
    by (auto simp: sc_def nth_append numeral_eq_Suc)
  have three: "\<not> sc d ?e" if "z' = 3"
    using that nth [of 2] by (simp add: sc_def numeral_eq_Suc)
  have before: "\<not> sc d j" if j: "length pre \<le> j" "j < ?i" for j
  proof (cases "j < ?e")
    case True
    have "j + 2 < length (pre @ n @ annexb xs)" using True z' m by (auto simp: Cons x)
    with True j ok show ?thesis unfolding d_def by (intro no_sc_in_nal) auto
  next
    case False
    then have "j = ?e" "z' = 3" using j z' by auto
    then show ?thesis using three by simp
  qed
  have len: "?i + 3 < length d" using z' m by (auto simp: d numeral_eq_Suc length_greater_0_conv [symmetric] simp del: length_greater_0_conv)
  have first: "first_sc d (length pre) (length d) = ?i"
    using here len before by (intro first_scI) auto
  show ?thesis
  proof (cases "z' = 2")
    case True
    have "d ! (length pre + (length n - 1)) = last n"
      using ne unfolding d_def nth_append_length_plus by (simp add: nth_append last_conv_nth)
    moreover have "length pre + (length n - 1) = ?e - 1" using ne by (cases n) simp_all
    ultimately have "d ! (?e - 1) = last n" by simp
    with True ne len show ?thesis by (simp add: startcode_pos_def first Let_def)
  next
    case False
    with z' have "z' = 3" by simp
    moreover have "d ! ?e = 0" using nth [of 0] z' by (auto simp: nth_append)
    ultimately show ?thesis using len ne by (simp add: startcode_pos_def first Let_def)
  qed
qed

lemma skip_pos_startcode:
  assumes "d = pre @ replicate z 0 @ 1 # n" "n \<noteq> []"
  shows "skip_pos d (length pre) (length d) = length pre + z + 1"
proof -
  have nth: "d ! (length pre + k) = (replicate z 0 @ 1 # n) ! k" for k
    unfolding assms(1) by (rule nth_append_length_plus)
  have "List.find (\<lambda>i. d ! i \<noteq> 0) [length pre ..< length d] = Some (length pre + z)"
    unfolding find_upt_Some
  proof (intro conjI allI impI)
    show "d ! (length pre + z) \<noteq> 0" by (simp add: nth nth_append)
    fix j assume "length pre \<le> j \<and> j < length pre + z"
    then obtain k where "j = length pre + k" "k < z" by (metis le_Suc_ex nat_add_left_cancel_less)
    then show "\<not> d ! j \<noteq> 0" by (simp add: nth nth_append)
  qed (simp_all add: assms(1))
  then show ?thesis by (simp add: skip_pos_def)
qed

lemma nal_ranges_annexb:
  "\<forall>x \<in> set xs. nal_ok x \<Longrightarrow> d = pre @ annexb xs \<Longrightarrow>
   map (\<lambda>(q, r). segment d q (r - q)) (nal_ranges d (length pre)) = map snd xs"
proof (induction xs arbitrary: pre)
  case Nil
  then show ?case by (subst nal_ranges.simps) simp
next
  case (Cons x xs)
  obtain z n where x: "x = (z, n)" by (cases x)
  let ?pre = "pre @ replicate z 0 @ [1]"
  have ok: "nal_ok (z, n)" and ne: "n \<noteq> []" using Cons.prems by (auto simp: x nal_ok_def)
  have d: "d = ?pre @ n @ annexb xs" using Cons.prems by (simp add: x)
  have q: "skip_pos d (length pre) (length d) = length ?pre"
    using skip_pos_startcode [of d pre z "n @ annexb xs"] ne by (simp add: d)
  have r: "startcode_pos d (length ?pre) (length d) = length (?pre @ n)"
    using startcode_pos_nal_end [OF ok, of xs ?pre] Cons.prems(1) unfolding d [symmetric] by (simp del: length_append) simp
  have r': "startcode_pos d (Suc (length pre + z)) (length d) = Suc (length pre + z + length n)"
    using r by simp
  have seg: "segment d (length ?pre) (length n) = n" by (simp add: d segment_def)
  have inside: "length pre < length d" "length ?pre \<noteq> length d" using ne by (simp_all add: d)
  have IH: "map (\<lambda>(q, r). segment d q (r - q)) (nal_ranges d (length (?pre @ n))) = map snd xs"
    using Cons.prems d by (intro Cons.IH) auto
  show ?case
    by (subst nal_ranges.simps) (use IH seg inside in \<open>simp add: q r' x Let_def add.assoc\<close>)
qed


lemma find_units:
  assumes "\<forall>(q, r) \<in> set rs. q < length d \<and> q < r \<and> r \<le> length d"
  shows "map_option (\<lambda>(q, r). segment d q (r - q)) (List.find (\<lambda>(q, r). P (d ! q)) rs) =
    List.find (\<lambda>n. P (hd n)) (map (\<lambda>(q, r). segment d q (r - q)) rs)"
  using assms
proof (induction rs)
  case (Cons qr rs)
  obtain q r where qr: "qr = (q, r)" by (cases qr)
  have "hd (segment d q (r - q)) = d ! q"
    using Cons.prems by (simp add: qr segment_def hd_drop_conv_nth)
  with Cons show ?case by (simp add: qr)
qed simp

text \<open>The units of a stream, in order, and that the ranges of a well-formed one are not empty.\<close>

definition nal_units :: "byte list \<Rightarrow> byte list list" where
  "nal_units d = map (\<lambda>(q, r). segment d q (r - q)) (all_ranges d)"

lemma first_startcode_annexb:
  assumes "\<forall>x \<in> set xs. nal_ok x"
  shows "startcode_pos (annexb xs) 0 (length (annexb xs)) = 0"
proof (cases xs)
  case Nil
  then show ?thesis by (simp add: startcode_pos_def first_sc_def)
next
  case (Cons x ys)
  obtain z n where x: "x = (z, n)" by (cases x)
  have z: "z = 2 \<or> z = 3" and n: "n \<noteq> []" using assms by (auto simp: Cons x nal_ok_def)
  let ?d = "annexb xs"
  have len: "z - 2 + 3 < length ?d" using z n by (cases n) (auto simp: Cons x)
  have "sc ?d (z - 2)" using z by (auto simp: sc_def Cons x nth_append numeral_eq_Suc)
  moreover have "\<not> sc ?d j" if "j < z - 2" for j
    using that z by (auto simp: sc_def Cons x nth_append numeral_eq_Suc)
  ultimately have "first_sc ?d 0 (length ?d) = z - 2"
    using len by (intro first_scI) auto
  then show ?thesis using z len by (auto simp: startcode_pos_def Let_def Cons x nth_append)
qed

lemma nal_units_annexb: "\<forall>x \<in> set xs. nal_ok x \<Longrightarrow> nal_units (annexb xs) = map snd xs"
  using nal_ranges_annexb [of xs "annexb xs" "[]"]
  by (simp add: nal_units_def all_ranges_def first_startcode_annexb)

lemma ranges_in_annexb:
  assumes "\<forall>x \<in> set xs. nal_ok x"
  shows "\<forall>(q, r) \<in> set (all_ranges (annexb xs)).
    q < length (annexb xs) \<and> q < r \<and> r \<le> length (annexb xs)"
proof clarify
  fix q r assume qr: "(q, r) \<in> set (all_ranges (annexb xs))"
  have "segment (annexb xs) q (r - q) \<in> set (nal_units (annexb xs))"
    using qr by (force simp: nal_units_def)
  then have "segment (annexb xs) q (r - q) \<noteq> []"
    using assms by (auto simp: nal_units_annexb nal_ok_def)
  then have "r - q \<noteq> 0" by auto
  then show "q < length (annexb xs) \<and> q < r \<and> r \<le> length (annexb xs)"
    using ranges_in_data qr by (fastforce simp: all_ranges_def)
qed

text \<open>A reader of the length-prefixed form.\<close>

function avcc_decode :: "byte list \<Rightarrow> byte list list option" where
  "avcc_decode d =
     (if d = [] then Some []
      else if length d < 4 \<or> length d - 4 < be_val (take 4 d) then None
      else map_option (Cons (take (be_val (take 4 d)) (drop 4 d)))
             (avcc_decode (drop (4 + be_val (take 4 d)) d)))"
  by pat_completeness auto
termination
  by (relation "measure length") auto

declare avcc_decode.simps [simp del]

lemma avcc_decode_concat:
  "\<forall>n \<in> set ns. length n < 2 ^ 32 \<Longrightarrow>
   avcc_decode (concat (map (\<lambda>n. be_bytes 4 (length n) @ n) ns)) = Some ns"
proof (induction ns)
  case Nil
  then show ?case by (simp add: avcc_decode.simps)
next
  case (Cons n ns)
  then show ?case
    by (subst avcc_decode.simps) (simp flip: length_0_conv)
qed

lemma parse_avc_packet_eq:
  "obs_parse_avc_packet base src =
     (let d = pkt_data src; (k, pr) = snd (foldl (serialize_step d) (array_output_serializer_init, pkt_keyframe src, pkt_priority src) (all_ranges d))
      in Some (src\<lparr>pkt_keyframe := k, pkt_priority := pr,
        pkt_data := concat (map (\<lambda>(q, r). be_bytes 4 (unat (word_of_nat (r - q) :: 32 word)) @ segment d q (r - q)) (all_ranges d)),
        pkt_drop_priority := get_drop_priority pr\<rparr>))"
proof -
  let ?d = "pkt_data src"
  let ?f = "foldl (serialize_step ?d) (array_output_serializer_init, pkt_keyframe src, pkt_priority src) (all_ranges ?d)"
  have "startcode_pos ?d 0 (length ?d) \<le> length ?d"
    using startcode_pos_range [of 0 "length ?d" ?d] by simp
  then have "serialize_avc_data base ?d array_output_serializer_init (pkt_keyframe src) (pkt_priority src) = Some ?f"
    by (simp add: serialize_avc_data_def find_startcode_spec serialize_loop_fold all_ranges_def)
  moreover have "sr_data (fst ?f) =
      concat (map (\<lambda>(q, r). be_bytes 4 (unat (word_of_nat (r - q) :: 32 word)) @ segment ?d q (r - q)) (all_ranges ?d))"
    using serialize_data_fold [OF array_output_init(1), of ?d "pkt_keyframe src" "pkt_priority src" "all_ranges ?d"] by simp
  ultimately show ?thesis
    by (cases ?f) (simp add: obs_parse_avc_packet_def Let_def split: prod.splits)
qed

lemma prefixed_annexb:
  assumes "\<forall>x \<in> set xs. nal_ok x"
  shows "concat (map (\<lambda>(q, r). be_bytes 4 (unat (word_of_nat (r - q) :: 32 word)) @ segment (annexb xs) q (r - q)) (all_ranges (annexb xs)))
    = concat (map (\<lambda>n. be_bytes 4 (length n) @ n) (map snd xs))"
proof -
  let ?d = "annexb xs"
  have "be_bytes 4 (unat (word_of_nat (r - q) :: 32 word)) @ segment ?d q (r - q) =
      be_bytes 4 (length (segment ?d q (r - q))) @ segment ?d q (r - q)" if "(q, r) \<in> set (all_ranges ?d)" for q r
  proof -
    have "length (segment ?d q (r - q)) = r - q"
      using ranges_in_annexb [OF assms] that by (auto simp: segment_def)
    moreover have "be_bytes 4 ((r - q) mod 256 ^ 4) = be_bytes 4 (r - q)"
      by (rule be_bytes_mod) simp
    ultimately show ?thesis by (simp add: unat_of_nat)
  qed
  then have "concat (map (\<lambda>(q, r). be_bytes 4 (unat (word_of_nat (r - q) :: 32 word)) @ segment ?d q (r - q)) (all_ranges ?d)) =
      concat (map (\<lambda>n. be_bytes 4 (length n) @ n) (nal_units ?d))"
    unfolding nal_units_def map_map by (intro arg_cong [where f = concat] map_cong) auto
  then show ?thesis by (simp only: nal_units_annexb [OF assms])
qed

lemma parse_flags_annexb:
  assumes "\<forall>x \<in> set xs. nal_ok x"
  shows "snd (foldl (serialize_step (annexb xs)) (s, k, pr) (all_ranges (annexb xs))) =
   (case List.find (\<lambda>n. is_slice (hd n)) (rev (map snd xs)) of
      None \<Rightarrow> (k, pr)
    | Some n \<Rightarrow> (nal_type (hd n) = OBS_NAL_SLICE_IDR, int (unat (drop_bit 5 (hd n)))))"
proof -
  let ?d = "annexb xs" and ?rs = "rev (all_ranges (annexb xs))"
  have *: "map_option (\<lambda>(q, r). segment ?d q (r - q)) (List.find (\<lambda>(q, r). is_slice (?d ! q)) ?rs)
      = List.find (\<lambda>n. is_slice (hd n)) (rev (map snd xs))"
    using find_units [of ?rs ?d is_slice] ranges_in_annexb [OF assms]
    by (simp add: rev_map [symmetric] nal_units_annexb [OF assms, unfolded nal_units_def])
  have "hd (segment ?d q (r - q)) = ?d ! q" if "List.find (\<lambda>(q, r). is_slice (?d ! q)) ?rs = Some (q, r)" for q r
  proof -
    have "(q, r) \<in> set (all_ranges ?d)" using find_SomeD [OF that] by simp
    then have "q < length ?d" "q < r" using ranges_in_annexb [OF assms] by auto
    then show ?thesis by (simp add: segment_def hd_drop_conv_nth)
  qed
  with * show ?thesis
    unfolding serialize_flags_fold by (auto split: option.splits simp: map_option_case)
qed


lemma get_sps_pps_eq:
  "get_sps_pps base d = Some (foldl (sps_pps_step d) (None, None) (all_ranges d))"
  using startcode_pos_range [of 0 "length d" d]
  by (simp add: get_sps_pps_def find_startcode_spec sps_pps_loop_fold all_ranges_def)

lemma keyframe_eq:
  "obs_avc_keyframe base d =
     Some (case List.find (\<lambda>(q, r). is_slice (d ! q)) (all_ranges d) of
             None \<Rightarrow> False | Some (q, r) \<Rightarrow> nal_type (d ! q) = OBS_NAL_SLICE_IDR)"
  using startcode_pos_range [of 0 "length d" d]
  by (simp add: obs_avc_keyframe_def find_startcode_spec keyframe_loop_find all_ranges_def)

text \<open>The units of a well-formed stream that a search over the ranges finds.\<close>

lemma find_range_annexb:
  assumes "\<forall>x \<in> set xs. nal_ok x" and "set rs \<subseteq> set (all_ranges (annexb xs))"
    and "List.find (\<lambda>(q, r). P (annexb xs ! q)) rs = Some (q, r)"
  shows "q < r \<and> r \<le> length (annexb xs) \<and> hd (segment (annexb xs) q (r - q)) = annexb xs ! q"
proof -
  have "(q, r) \<in> set (all_ranges (annexb xs))"
    using assms(2) find_SomeD [OF assms(3)] by auto
  then have "q < length (annexb xs)" "q < r" "r \<le> length (annexb xs)"
    using ranges_in_annexb [OF assms(1)] by auto
  then show ?thesis by (simp add: segment_def hd_drop_conv_nth)
qed

lemma find_last_unit:
  assumes "\<forall>x \<in> set xs. nal_ok x"
  shows "List.find (\<lambda>n. P (hd n)) (rev (map snd xs)) =
    map_option (\<lambda>(q, r). segment (annexb xs) q (r - q))
      (List.find (\<lambda>(q, r). P (annexb xs ! q)) (rev (all_ranges (annexb xs))))"
  using find_units [of "rev (all_ranges (annexb xs))" "annexb xs" P] ranges_in_annexb [OF assms]
  by (simp add: rev_map [symmetric] nal_units_annexb [OF assms, unfolded nal_units_def])

text \<open>The AVC decoder configuration record (ISO/IEC 14496-15, 5.2.4.1) with one set of each kind.\<close>

definition avc_record :: "byte list \<Rightarrow> byte list \<Rightarrow> byte list" where
  "avc_record sps pps =
     [0x01] @ take 3 (drop 1 sps) @ [0xff, 0xe1] @ be_bytes 2 (length sps) @ sps @
     [0x01] @ be_bytes 2 (length pps) @ pps"

lemma has_start_code_annexb:
  assumes "\<forall>x \<in> set xs. nal_ok x" "xs \<noteq> []"
  shows "has_start_code (annexb xs) = Some True"
proof -
  obtain z n ys where xs: "xs = (z, n) # ys" using assms(2) by (cases xs) auto
  have "z = 2 \<or> z = 3" using assms(1) by (auto simp: xs nal_ok_def)
  then show ?thesis
    by (auto simp: xs has_start_code_def rd_def byte_is_def andM_def numeral_eq_Suc)
qed

lemma length_annexb: "\<forall>x \<in> set xs. nal_ok x \<Longrightarrow> n \<in> set (map snd xs) \<Longrightarrow> length n + 3 \<le> length (annexb xs)"
proof (induction xs rule: annexb.induct)
  case (2 z m xs)
  then have "z = 2 \<or> z = 3" by (simp add: nal_ok_def)
  with 2 show ?case by (cases "n = m") auto
qed simp

lemma be_bytes_2_word: "be_bytes 2 (unat (word_of_nat n :: 16 word)) = be_bytes 2 n"
  using be_bytes_mod [of 2 2 n] by (simp add: unat_of_nat)

lemma header_of_ranges:
  assumes "4 \<le> n" "q + n \<le> length d" "q' + n' \<le> length d"
    and "get_sps_pps base d = Some (Some (q, n), Some (q', n'))"
    and "has_start_code d = Some True" "6 < length d"
  shows "obs_parse_avc_header base d =
    (let h = avc_record (segment d q n) (segment d q' n') in Some (Some h, length h))"
proof -
  have "segment d (q + 1) 3 = take 3 (drop 1 (segment d q n))"
    using assms(1) by (simp add: segment_def drop_take min_def)
  moreover have "length (segment d q n) = n" "length (segment d q' n') = n'"
    using assms(1-3) by (simp_all add: segment_def)
  ultimately show ?thesis
    using assms(1,4-6)
    by (simp add: obs_parse_avc_header_def Let_def avc_record_def ao.put_simps be_bytes_2_word)
qed

lemma parse_header_annexb:
  assumes ok: "\<forall>x \<in> set xs. nal_ok x"
  shows "obs_parse_avc_header base (annexb xs) =
    (case (List.find (\<lambda>n. nal_type (hd n) = OBS_NAL_SPS) (rev (map snd xs)),
           List.find (\<lambda>n. nal_type (hd n) = OBS_NAL_PPS) (rev (map snd xs))) of
       (Some sps, Some pps) \<Rightarrow>
         if length sps < 4 then Some (None, 0)
         else Some (Some (avc_record sps pps), length (avc_record sps pps))
     | _ \<Rightarrow> Some (None, 0))"
proof -
  let ?d = "annexb xs"
  let ?find = "\<lambda>t. List.find (\<lambda>(q, r). nal_type (?d ! q) = t) (rev (all_ranges ?d))"
  have units: "List.find (\<lambda>n. nal_type (hd n) = t) (rev (map snd xs)) =
      map_option (\<lambda>(q, r). segment ?d q (r - q)) (?find t)" for t
    using find_last_unit [OF ok, of "\<lambda>b. nal_type b = t"] by simp
  have sets: "get_sps_pps base ?d = Some (map_option (\<lambda>(q, r). (q, r - q)) (?find OBS_NAL_SPS),
      map_option (\<lambda>(q, r). (q, r - q)) (?find OBS_NAL_PPS))"
    by (auto simp: get_sps_pps_eq sps_pps_last split: option.split)
  have range: "q < r" "r \<le> length ?d" if "?find t = Some (q, r)" for q r t
    using find_range_annexb [OF ok, of "rev (all_ranges ?d)" "\<lambda>b. nal_type b = t"] that by auto
  show ?thesis
  proof (cases "6 < length ?d")
    case True
    then have "has_start_code ?d = Some True"
      by (intro has_start_code_annexb [OF ok]) auto
    note start = this
    show ?thesis
    proof (cases "\<exists>q n q' n'. get_sps_pps base ?d = Some (Some (q, n), Some (q', n')) \<and> 4 \<le> n")
      case True
      then obtain q r q' r' where found: "?find OBS_NAL_SPS = Some (q, r)" "?find OBS_NAL_PPS = Some (q', r')"
          and n: "4 \<le> r - q"
        unfolding sets by (auto split: option.splits)
      have "q + (r - q) \<le> length ?d" "q' + (r' - q') \<le> length ?d" "length (segment ?d q (r - q)) = r - q"
        using range [OF found(1)] range [OF found(2)] by (auto simp: segment_def)
      then show ?thesis
        using header_of_ranges [OF n, where d = ?d and q' = q' and n' = "r' - q'" and base = base] start \<open>6 < length ?d\<close> n sets
        unfolding units by (simp add: found Let_def)
    next
      case False
      then show ?thesis
        using start \<open>6 < length ?d\<close> range [of OBS_NAL_SPS] unfolding units
        by (auto simp: obs_parse_avc_header_def sets segment_def split: option.splits)
    qed
  next
    case False
    have "length sps < 4" if "List.find (\<lambda>n. nal_type (hd n) = OBS_NAL_SPS) (rev (map snd xs)) = Some sps" for sps
      using length_annexb [OF ok, of sps] find_SomeD [OF that] False by simp
    with False show ?thesis
      by (auto simp: obs_parse_avc_header_def split: option.splits)
  qed
qed

lemma header_returns: "obs_parse_avc_header base d \<noteq> None \<and> obs_parse_avc_header base d = obs_parse_avc_header 0 d"
proof -
  have "has_start_code d \<noteq> None" if "6 < length d"
  proof -
    have "rd d i = Some (d ! i)" if "i < 4" for i using that \<open>6 < length d\<close> by (simp add: rd_def)
    then have "rd d 0 = Some (d ! 0)" "rd d 1 = Some (d ! 1)" "rd d 2 = Some (d ! 2)" "rd d 3 = Some (d ! 3)"
      by simp_all
    then show ?thesis by (auto simp: has_start_code_def byte_is_def andM_def)
  qed
  then show ?thesis
    by (cases "foldl (sps_pps_step d) (None, None) (all_ranges d)")
       (auto simp: obs_parse_avc_header_def get_sps_pps_eq Let_def split: option.splits)
qed

lemma packet_returns: "obs_parse_avc_packet base src \<noteq> None \<and> obs_parse_avc_packet base src = obs_parse_avc_packet 0 src"
  unfolding parse_avc_packet_eq [of base] parse_avc_packet_eq [of 0] Let_def by (simp split: prod.split)

lemma keyframe_returns: "obs_avc_keyframe base d \<noteq> None \<and> obs_avc_keyframe base d = obs_avc_keyframe 0 d"
  by (simp add: keyframe_eq)

text \<open>C35: every parser of an access unit returns, without a read outside the packet, whatever the
  bytes are, and its result does not depend on the address the data is at.\<close>

theorem avc_parsers_total:
  "obs_parse_avc_packet base src \<noteq> None \<and> obs_parse_avc_packet base src = obs_parse_avc_packet 0 src \<and>
   obs_avc_keyframe base d \<noteq> None \<and> obs_avc_keyframe base d = obs_avc_keyframe 0 d \<and>
   obs_parse_avc_header base d \<noteq> None \<and> obs_parse_avc_header base d = obs_parse_avc_header 0 d"
  using header_returns [of base d] packet_returns [of base src] keyframe_returns [of base d] by blast

text \<open>C34: the start code search with its word-at-a-time loop finds what a plain scan finds: the
  first start code that begins before \<open>end - 3\<close> (moved back over one zero), or \<open>end\<close>.\<close>

theorem avc_find_startcode_correct:
  assumes "p \<le> end_pos" and "end_pos \<le> length d"
  shows "\<exists>q. obs_avc_find_startcode base d p end_pos = Some q \<and> p \<le> q \<and> q \<le> end_pos \<and>
    (\<forall>j. p \<le> j \<and> j < q \<and> j + 3 < end_pos \<longrightarrow> \<not> sc d j) \<and>
    (q < end_pos \<longrightarrow> (if sc d q then p = q \<or> d ! (q - 1) \<noteq> 0 else d ! q = 0 \<and> sc d (q + 1)))"
proof -
  let ?f = "first_sc d p end_pos"
  have before: "\<forall>j. p \<le> j \<and> j < ?f \<and> j + 3 < end_pos \<longrightarrow> \<not> sc d j" and at: "?f < end_pos \<longrightarrow> sc d ?f"
    by (auto simp: first_sc_def find_upt_Some find_upt_None split: option.splits)
  have range: "p \<le> ?f" "?f \<le> end_pos" using first_sc_range [OF assms(1)] by auto
  have "sc d (?f - 1) \<longrightarrow> d ! ?f = 0 \<and> d ! (?f + 1) = 1 \<or> ?f = 0" by (cases ?f) (auto simp: sc_def)
  then show ?thesis
    unfolding find_startcode_spec [OF assms(2)]
    using before at range by (auto simp: startcode_pos_def Let_def sc_def)
qed

theorem avc_find_startcode_correct_witness:
  "\<exists>q. obs_avc_find_startcode 0 [9, 0, 0, 0, 1, 7, 7] 0 7 = Some q \<and> 0 \<le> q \<and> q \<le> 7 \<and>
    (\<forall>j. 0 \<le> j \<and> j < q \<and> j + 3 < 7 \<longrightarrow> \<not> sc [9, 0, 0, 0, 1, 7, 7] j) \<and>
    (q < 7 \<longrightarrow> (if sc [9, 0, 0, 0, 1, 7, 7] q then 0 = q \<or> [9, 0, 0, 0, 1, 7, 7] ! (q - 1) \<noteq> (0 :: byte)
                 else [9, 0, 0, 0, 1, 7, 7] ! q = (0 :: byte) \<and> sc [9, 0, 0, 0, 1, 7, 7] (q + 1)))"
  by (rule avc_find_startcode_correct) simp_all

text \<open>C33: a reader of the length-prefixed packet that \<open>obs_parse_avc_packet\<close> makes of an Annex B
  stream gets back exactly the units of the stream, in order; the timestamps are unchanged, and
  the key frame flag and the drop priority are those of the last slice.\<close>

theorem avc_packet_roundtrip:
  assumes "\<forall>x \<in> set xs. nal_ok x" and "pkt_data src = annexb xs"
  shows "\<exists>dst. obs_parse_avc_packet base src = Some dst \<and>
    avcc_decode (pkt_data dst) = Some (map snd xs) \<and>
    pkt_pts dst = pkt_pts src \<and> pkt_dts dst = pkt_dts src \<and> pkt_dts_usec dst = pkt_dts_usec src \<and>
    (pkt_keyframe dst, pkt_priority dst) =
      (case List.find (\<lambda>n. is_slice (hd n)) (rev (map snd xs)) of
         None \<Rightarrow> (pkt_keyframe src, pkt_priority src)
       | Some n \<Rightarrow> (nal_type (hd n) = OBS_NAL_SLICE_IDR, int (unat (drop_bit 5 (hd n))))) \<and>
    pkt_drop_priority dst = get_drop_priority (pkt_priority dst)"
proof -
  have "\<forall>n \<in> set (map snd xs). length n < 2 ^ 32"
    using assms(1) by (auto simp: nal_ok_def)
  then obtain out where out: "concat (map (\<lambda>n. be_bytes 4 (length n) @ n) (map snd xs)) = out"
      and decode: "avcc_decode out = Some (map snd xs)"
    using avcc_decode_concat by blast
  obtain k pr where kp: "(case List.find (\<lambda>n. is_slice (hd n)) (rev (map snd xs)) of
      None \<Rightarrow> (pkt_keyframe src, pkt_priority src)
    | Some n \<Rightarrow> (nal_type (hd n) = OBS_NAL_SLICE_IDR, int (unat (drop_bit 5 (hd n))))) = (k, pr)"
    by fastforce
  show ?thesis
    unfolding parse_avc_packet_eq assms(2) Let_def parse_flags_annexb [OF assms(1)] prefixed_annexb [OF assms(1)] kp out
    by (simp add: decode)
qed

definition avc_sample :: "(nat \<times> byte list) list" where
  "avc_sample = [(3, [0x67, 1, 2, 3]), (3, [0x68, 9]), (2, [0x65, 0, 0, 4])]"

lemma avc_sample_ok: "\<forall>x \<in> set avc_sample. nal_ok x"
proof -
  have two: "(\<forall>i < Suc (Suc 0). P i) \<longleftrightarrow> P 0 \<and> P (Suc 0)" for P :: "nat \<Rightarrow> bool"
    by (auto simp: less_Suc_eq)
  show ?thesis by (simp add: avc_sample_def nal_ok_def sc_def two)
qed

theorem avc_packet_roundtrip_witness:
  "\<exists>dst. obs_parse_avc_packet 5 (zero_packet\<lparr>pkt_data := annexb avc_sample\<rparr>) = Some dst \<and>
    avcc_decode (pkt_data dst) = Some [[0x67, 1, 2, 3], [0x68, 9], [0x65, 0, 0, 4]]"
  using avc_packet_roundtrip [OF avc_sample_ok, of "zero_packet\<lparr>pkt_data := annexb avc_sample\<rparr>" 5]
  by (auto simp: avc_sample_def)

text \<open>from an Annex B stream \<open>obs_parse_avc_header\<close> builds the decoder configuration record of
  its last sequence and picture parameter sets, and nothing when one is missing or the sequence
  parameter set is too short for the profile bytes.\<close>

theorem avc_header_record:
  assumes "\<forall>x \<in> set xs. nal_ok x"
  shows "obs_parse_avc_header base (annexb xs) =
    (case (List.find (\<lambda>n. nal_type (hd n) = OBS_NAL_SPS) (rev (map snd xs)),
           List.find (\<lambda>n. nal_type (hd n) = OBS_NAL_PPS) (rev (map snd xs))) of
       (Some sps, Some pps) \<Rightarrow>
         if length sps < 4 then Some (None, 0)
         else Some (Some (avc_record sps pps), length (avc_record sps pps))
     | _ \<Rightarrow> Some (None, 0))"
  using assms by (rule parse_header_annexb)

theorem avc_header_record_witness:
  "obs_parse_avc_header 3 (annexb avc_sample) =
     Some (Some [1, 1, 2, 3, 0xff, 0xe1, 0, 4, 0x67, 1, 2, 3, 1, 0, 2, 0x68, 9], 17)"
  unfolding avc_header_record [OF avc_sample_ok]
  by (simp add: avc_sample_def nal_type_def avc_record_def be_bytes_2)

text \<open>\<open>obs_avc_keyframe\<close> answers by the first slice of the stream.\<close>

theorem avc_keyframe_first_slice:
  assumes "\<forall>x \<in> set xs. nal_ok x"
  shows "obs_avc_keyframe base (annexb xs) =
    Some (case List.find (\<lambda>n. is_slice (hd n)) (map snd xs) of
            None \<Rightarrow> False | Some n \<Rightarrow> nal_type (hd n) = OBS_NAL_SLICE_IDR)"
proof -
  let ?d = "annexb xs"
  have "List.find (\<lambda>n. is_slice (hd n)) (map snd xs) =
      map_option (\<lambda>(q, r). segment ?d q (r - q)) (List.find (\<lambda>(q, r). is_slice (?d ! q)) (all_ranges ?d))"
    using find_units [of "all_ranges ?d" ?d is_slice] ranges_in_annexb [OF assms]
    by (simp add: nal_units_annexb [OF assms, unfolded nal_units_def])
  then show ?thesis
    using find_range_annexb [OF assms, of "all_ranges ?d" is_slice]
    by (auto simp: keyframe_eq split: option.splits)
qed

theorem avc_keyframe_first_slice_witness: "obs_avc_keyframe 1 (annexb avc_sample) = Some True"
  unfolding avc_keyframe_first_slice [OF avc_sample_ok]
  by (simp add: avc_sample_def is_slice_def nal_type_def)

end
