(* ===== verification/Circlebuf.thy ===== *)
theory Circlebuf
  imports Prelude
begin

text \<open>
  The dynamic ring buffer of \<open>libobs/util/circlebuf.h\<close>, operation by operation.

  The memory block \<open>data\<close> is a list of cells; a cell is \<open>None\<close> when the program never wrote
  it (fresh memory of \<open>brealloc\<close>). The code counts bytes; every client stores items of one
  size at multiples of that size, so the model is polymorphic in the cell and one cell is
  either one byte or one whole \<open>struct\<close>. Sizes are \<open>nat\<close>: they are sizes of memory blocks
  and never reach the range where \<open>size_t\<close> wraps; the two subtractions that may be negative
  (\<open>add_size\<close>, \<open>new_end_pos\<close> of \<open>circlebuf_upsize\<close>) are discarded by the early return
  that follows them.
\<close>

record 'a circlebuf =
  cb_data :: "'a option list"
  cb_size :: nat
  cb_start_pos :: nat
  cb_end_pos :: nat
  cb_capacity :: nat

definition circlebuf_init :: "'a circlebuf" where
  "circlebuf_init = \<lparr>cb_data = [], cb_size = 0, cb_start_pos = 0, cb_end_pos = 0, cb_capacity = 0\<rparr>"

definition circlebuf_free :: "'a circlebuf \<Rightarrow> 'a circlebuf" where
  "circlebuf_free cb = circlebuf_init"

text \<open>\<open>brealloc\<close>: the old cells, and unwritten memory behind them.\<close>

definition brealloc :: "'a option list \<Rightarrow> nat \<Rightarrow> 'a option list" where
  "brealloc block n = take n block @ replicate (n - length block) None"

definition circlebuf_reorder_data :: "'a circlebuf \<Rightarrow> nat \<Rightarrow> 'a circlebuf" where
  "circlebuf_reorder_data cb new_capacity =
     (if cb_size cb = 0 \<or> cb_start_pos cb = 0 \<or> cb_end_pos cb > cb_start_pos cb then cb
      else
        let difference = new_capacity - cb_capacity cb;
            block = segment (cb_data cb) (cb_start_pos cb) (cb_capacity cb - cb_start_pos cb)
        in cb\<lparr>cb_data := blit (cb_data cb) (cb_start_pos cb + difference) block,
              cb_start_pos := cb_start_pos cb + difference\<rparr>)"

definition circlebuf_ensure_capacity :: "'a circlebuf \<Rightarrow> 'a circlebuf" where
  "circlebuf_ensure_capacity cb =
     (if cb_size cb \<le> cb_capacity cb then cb
      else
        let new_capacity = cb_capacity cb * 2;
            new_capacity = (if cb_size cb > new_capacity then cb_size cb else new_capacity);
            cb = cb\<lparr>cb_data := brealloc (cb_data cb) new_capacity\<rparr>;
            cb = circlebuf_reorder_data cb new_capacity
        in cb\<lparr>cb_capacity := new_capacity\<rparr>)"

definition circlebuf_reserve :: "'a circlebuf \<Rightarrow> nat \<Rightarrow> 'a circlebuf" where
  "circlebuf_reserve cb capacity =
     (if capacity \<le> cb_capacity cb then cb
      else
        let cb = cb\<lparr>cb_data := brealloc (cb_data cb) capacity\<rparr>;
            cb = circlebuf_reorder_data cb capacity
        in cb\<lparr>cb_capacity := capacity\<rparr>)"

text \<open>The first argument is the cell \<open>memset\<close> writes: the zero byte.\<close>

definition circlebuf_upsize :: "'a \<Rightarrow> 'a circlebuf \<Rightarrow> nat \<Rightarrow> 'a circlebuf" where
  "circlebuf_upsize zero cb new_size =
     (let add_size = new_size - cb_size cb;
          new_end_pos = cb_end_pos cb + add_size
      in if new_size \<le> cb_size cb then cb
         else
           let cb = circlebuf_ensure_capacity (cb\<lparr>cb_size := new_size\<rparr>)
           in if new_end_pos > cb_capacity cb then
                let back_size = cb_capacity cb - cb_end_pos cb;
                    loop_size = add_size - back_size;
                    cells = blit (cb_data cb) (cb_end_pos cb) (replicate back_size (Some zero));
                    cells = blit cells 0 (replicate loop_size (Some zero))
                in cb\<lparr>cb_data := cells, cb_end_pos := new_end_pos - cb_capacity cb\<rparr>
              else
                cb\<lparr>cb_data := blit (cb_data cb) (cb_end_pos cb) (replicate add_size (Some zero)),
                   cb_end_pos := new_end_pos\<rparr>)"

definition circlebuf_place :: "'a \<Rightarrow> 'a circlebuf \<Rightarrow> nat \<Rightarrow> 'a list \<Rightarrow> 'a circlebuf" where
  "circlebuf_place zero cb position xs =
     (let len = length xs;
          end_point = position + len;
          cb = (if end_point > cb_size cb then circlebuf_upsize zero cb end_point else cb);
          position = position + cb_start_pos cb;
          position = (if position \<ge> cb_capacity cb then position - cb_capacity cb else position);
          data_end_pos = position + len
      in if data_end_pos > cb_capacity cb then
           let back_size = data_end_pos - cb_capacity cb;
               loop_size = len - back_size;
               cells = blit (cb_data cb) position (map Some (take loop_size xs));
               cells = blit cells 0 (map Some (segment xs loop_size back_size))
           in cb\<lparr>cb_data := cells\<rparr>
         else cb\<lparr>cb_data := blit (cb_data cb) position (map Some xs)\<rparr>)"

definition circlebuf_push_back :: "'a circlebuf \<Rightarrow> 'a list \<Rightarrow> 'a circlebuf" where
  "circlebuf_push_back cb xs =
     (let len = length xs;
          new_end_pos = cb_end_pos cb + len;
          cb = circlebuf_ensure_capacity (cb\<lparr>cb_size := cb_size cb + len\<rparr>)
      in if new_end_pos > cb_capacity cb then
           let back_size = cb_capacity cb - cb_end_pos cb;
               loop_size = len - back_size;
               cells = blit (cb_data cb) (cb_end_pos cb) (map Some (take back_size xs));
               cells = blit cells 0 (map Some (segment xs back_size loop_size))
           in cb\<lparr>cb_data := cells, cb_end_pos := new_end_pos - cb_capacity cb\<rparr>
         else
           cb\<lparr>cb_data := blit (cb_data cb) (cb_end_pos cb) (map Some xs),
              cb_end_pos := new_end_pos\<rparr>)"

definition circlebuf_push_front :: "'a circlebuf \<Rightarrow> 'a list \<Rightarrow> 'a circlebuf" where
  "circlebuf_push_front cb xs =
     (let len = length xs;
          cb = circlebuf_ensure_capacity (cb\<lparr>cb_size := cb_size cb + len\<rparr>)
      in if cb_start_pos cb < len then
           let back_size = len - cb_start_pos cb;
               cells = blit (cb_data cb) 0 (map Some (segment xs back_size (cb_start_pos cb)));
               new_start = cb_capacity cb - back_size;
               cells = blit cells new_start (map Some (take back_size xs))
           in cb\<lparr>cb_data := cells, cb_start_pos := new_start\<rparr>
         else
           let new_start = cb_start_pos cb - len
           in cb\<lparr>cb_data := blit (cb_data cb) new_start (map Some xs), cb_start_pos := new_start\<rparr>)"

text \<open>
  The peeks and pops return the cells copied out; \<open>None\<close> is the failed
  \<open>assert (size \<le> cb->size)\<close>. With a null \<open>data\<close> the code skips the copy: the caller of
  the model ignores the cells. In \<open>circlebuf_peek_back\<close> the last copy starts at
  \<open>end_pos - size\<close>; when that is negative the code reads before the block, which the model
  also reports as \<open>None\<close>.
\<close>

definition circlebuf_peek_front :: "'a circlebuf \<Rightarrow> nat \<Rightarrow> 'a option list option" where
  "circlebuf_peek_front cb n =
     (if n \<le> cb_size cb then
        let start_size = cb_capacity cb - cb_start_pos cb
        in if start_size < n then
             Some (segment (cb_data cb) (cb_start_pos cb) start_size
                   @ segment (cb_data cb) 0 (n - start_size))
           else Some (segment (cb_data cb) (cb_start_pos cb) n)
      else None)"

definition circlebuf_peek_back :: "'a circlebuf \<Rightarrow> nat \<Rightarrow> 'a option list option" where
  "circlebuf_peek_back cb n =
     (if n \<le> cb_size cb then
        let back_size = (if cb_end_pos cb \<noteq> 0 then cb_end_pos cb else cb_capacity cb)
        in if back_size < n then
             let front_size = n - back_size;
                 new_end_pos = cb_capacity cb - front_size
             in Some (segment (cb_data cb) new_end_pos front_size
                      @ segment (cb_data cb) 0 back_size)
           else if n \<le> cb_end_pos cb then Some (segment (cb_data cb) (cb_end_pos cb - n) n)
           else None
      else None)"

definition circlebuf_pop_front :: "'a circlebuf \<Rightarrow> nat \<Rightarrow> ('a option list \<times> 'a circlebuf) option" where
  "circlebuf_pop_front cb n =
     do {
       cells \<leftarrow> circlebuf_peek_front cb n;
       let cb = cb\<lparr>cb_size := cb_size cb - n, cb_start_pos := cb_start_pos cb + n\<rparr>;
       Some (cells,
         if cb_start_pos cb \<ge> cb_capacity cb
         then cb\<lparr>cb_start_pos := cb_start_pos cb - cb_capacity cb\<rparr> else cb)
     }"

text \<open>\<open>circlebuf_pop_back\<close> calls \<open>circlebuf_peek_front\<close>: that is the call in the source.\<close>

definition circlebuf_pop_back :: "'a circlebuf \<Rightarrow> nat \<Rightarrow> ('a option list \<times> 'a circlebuf) option" where
  "circlebuf_pop_back cb n =
     do {
       cells \<leftarrow> circlebuf_peek_front cb n;
       let cb = cb\<lparr>cb_size := cb_size cb - n\<rparr>;
       Some (cells,
         if cb_end_pos cb \<le> n
         then cb\<lparr>cb_end_pos := cb_capacity cb - (n - cb_end_pos cb)\<rparr>
         else cb\<lparr>cb_end_pos := cb_end_pos cb - n\<rparr>)
     }"

subsection \<open>What a ring holds\<close>

text \<open>
  \<open>ring_ok cb n\<close> says that the block holds \<open>n\<close> cells from \<open>start_pos\<close> on, wrapped at
  \<open>capacity\<close>, and that \<open>end_pos\<close> is where the next one goes. \<open>ring_cells cb n\<close> lists them.
\<close>

definition ring_index :: "'a circlebuf \<Rightarrow> nat \<Rightarrow> nat" where
  "ring_index cb i =
     (if cb_start_pos cb + i < cb_capacity cb then cb_start_pos cb + i
      else cb_start_pos cb + i - cb_capacity cb)"

definition ring_cells :: "'a circlebuf \<Rightarrow> nat \<Rightarrow> 'a option list" where
  "ring_cells cb n = map (\<lambda>i. cb_data cb ! ring_index cb i) [0 ..< n]"

definition ring_ok :: "'a circlebuf \<Rightarrow> nat \<Rightarrow> bool" where
  "ring_ok cb n \<longleftrightarrow>
     length (cb_data cb) = cb_capacity cb \<and> n \<le> cb_capacity cb \<and>
     (cb_start_pos cb < cb_capacity cb \<or> cb_start_pos cb = 0 \<and> cb_capacity cb = 0) \<and>
     (if n = 0 then cb_end_pos cb = cb_start_pos cb \<or>
                    cb_start_pos cb = 0 \<and> cb_end_pos cb = cb_capacity cb
      else cb_end_pos cb = (if cb_start_pos cb + n \<le> cb_capacity cb then cb_start_pos cb + n
                            else cb_start_pos cb + n - cb_capacity cb))"

definition cb_ok :: "'a circlebuf \<Rightarrow> bool" where
  "cb_ok cb \<longleftrightarrow> ring_ok cb (cb_size cb)"

definition cb_cells :: "'a circlebuf \<Rightarrow> 'a option list" where
  "cb_cells cb = ring_cells cb (cb_size cb)"

text \<open>
  \<open>can_grow cb\<close>: the block may be reallocated. An empty ring may only grow while both
  positions are still at the origin; \<open>circlebuf_growth_needs_can_grow\<close> below shows what
  happens otherwise.
\<close>

definition can_grow :: "'a circlebuf \<Rightarrow> bool" where
  "can_grow cb \<longleftrightarrow> cb_size cb > 0 \<or> cb_start_pos cb = 0 \<and> cb_end_pos cb = 0"

lemma length_ring_cells [simp]: "length (ring_cells cb n) = n"
  by (simp add: ring_cells_def)

lemma length_cb_cells [simp]: "length (cb_cells cb) = cb_size cb"
  by (simp add: cb_cells_def)

lemma nth_ring_cells [splice_simps]: "i < n \<Longrightarrow> ring_cells cb n ! i = cb_data cb ! ring_index cb i"
  by (simp add: ring_cells_def)

lemma cb_ok_init [simp]: "cb_ok circlebuf_init" "cb_cells circlebuf_init = []"
  by (simp_all add: cb_ok_def ring_ok_def circlebuf_init_def cb_cells_def ring_cells_def)

lemma init_simps [simp]: "can_grow circlebuf_init" "cb_size circlebuf_init = 0"
  by (simp_all add: can_grow_def circlebuf_init_def)

lemma length_brealloc [splice_simps]:
  "length block \<le> n \<Longrightarrow> length (brealloc block n) = n"
  by (simp add: brealloc_def)

lemma nth_brealloc [splice_simps]:
  "length block \<le> n \<Longrightarrow> i < length block \<Longrightarrow> brealloc block n ! i = block ! i"
  by (simp add: brealloc_def nth_append)

subsection \<open>Growing and appending\<close>

text \<open>The step shared by \<open>circlebuf_ensure_capacity\<close> and \<open>circlebuf_reserve\<close>.\<close>

lemma ring_grow:
  fixes cb :: "'a circlebuf"
  defines "g \<equiv> \<lambda>cap. (circlebuf_reorder_data (cb\<lparr>cb_data := brealloc (cb_data cb) cap\<rparr>) cap)
                      \<lparr>cb_capacity := cap\<rparr>"
  assumes ok: "ring_ok cb n" and grow: "n > 0 \<or> cb_start_pos cb = 0 \<and> cb_end_pos cb = 0"
    and size: "n > 0 \<longrightarrow> cb_size cb > 0" and cap: "cb_capacity cb < cap"
  shows "ring_ok (g cap) n" and "ring_cells (g cap) n = ring_cells cb n"
    and "cb_end_pos (g cap) = cb_end_pos cb" and "cb_size (g cap) = cb_size cb"
proof -
  show "ring_ok (g cap) n"
    using assms unfolding ring_ok_def circlebuf_reorder_data_def
    by (auto simp: Let_def splice_simps split: if_splits)
  show "ring_cells (g cap) n = ring_cells cb n"
  proof (rule nth_equalityI)
    fix i assume "i < length (ring_cells (g cap) n)"
    then show "ring_cells (g cap) n ! i = ring_cells cb n ! i"
      using assms unfolding ring_ok_def circlebuf_reorder_data_def
      by (auto simp: Let_def splice_simps ring_index_def split: if_splits)
  qed simp
qed (simp_all add: g_def circlebuf_reorder_data_def Let_def)

text \<open>The copy at the end of \<open>circlebuf_push_back\<close> and of \<open>circlebuf_upsize\<close>.\<close>

definition ring_append :: "'a circlebuf \<Rightarrow> 'a option list \<Rightarrow> 'a circlebuf" where
  "ring_append cb ys =
     (if cb_end_pos cb + length ys > cb_capacity cb then
        cb\<lparr>cb_data := blit (blit (cb_data cb) (cb_end_pos cb) (take (cb_capacity cb - cb_end_pos cb) ys))
                         0 (drop (cb_capacity cb - cb_end_pos cb) ys),
           cb_end_pos := cb_end_pos cb + length ys - cb_capacity cb\<rparr>
      else cb\<lparr>cb_data := blit (cb_data cb) (cb_end_pos cb) ys,
              cb_end_pos := cb_end_pos cb + length ys\<rparr>)"

lemma ring_append_nth:
  assumes "length (cb_data cb) = cb_capacity cb" and "cb_end_pos cb \<le> cb_capacity cb"
    and "length ys \<le> cb_capacity cb" and "j < cb_capacity cb"
  shows "length (cb_data (ring_append cb ys)) = cb_capacity cb"
    and "cb_data (ring_append cb ys) ! j =
      (if cb_end_pos cb \<le> j \<and> j < cb_end_pos cb + length ys then ys ! (j - cb_end_pos cb)
       else if j + cb_capacity cb < cb_end_pos cb + length ys then ys ! (j + cb_capacity cb - cb_end_pos cb)
       else cb_data cb ! j)"
proof -
  show "length (cb_data (ring_append cb ys)) = cb_capacity cb"
    using assms by (simp add: ring_append_def splice_simps)
  show "cb_data (ring_append cb ys) ! j =
      (if cb_end_pos cb \<le> j \<and> j < cb_end_pos cb + length ys then ys ! (j - cb_end_pos cb)
       else if j + cb_capacity cb < cb_end_pos cb + length ys then ys ! (j + cb_capacity cb - cb_end_pos cb)
       else cb_data cb ! j)"
  proof (cases "cb_end_pos cb + length ys > cb_capacity cb")
    case True
    then show ?thesis
      using assms by (auto simp: ring_append_def splice_simps min_def add.commute)
  next
    case False
    then show ?thesis
      using assms by (auto simp: ring_append_def splice_simps)
  qed
qed

lemma ring_index_new:
  assumes "ring_ok cb n" and "n + i < cb_capacity cb"
  shows "ring_index cb (n + i) < cb_capacity cb"
    and "ring_index cb (n + i) = cb_end_pos cb + i \<or>
         ring_index cb (n + i) + cb_capacity cb = cb_end_pos cb + i"
  using assms by (auto simp: ring_ok_def ring_index_def split: if_splits)

lemma ring_index_old:
  assumes "ring_ok cb n" and "i < n" and "n + len \<le> cb_capacity cb"
  shows "ring_index cb i < cb_capacity cb"
    and "\<not> (cb_end_pos cb \<le> ring_index cb i \<and> ring_index cb i < cb_end_pos cb + len)"
    and "\<not> ring_index cb i + cb_capacity cb < cb_end_pos cb + len"
  using assms by (auto simp: ring_ok_def ring_index_def split: if_splits)

lemma ring_append:
  assumes ok: "ring_ok cb n" and room: "n + length ys \<le> cb_capacity cb"
  shows "ring_ok (ring_append cb ys) (n + length ys)"
    and "ring_cells (ring_append cb ys) (n + length ys) = ring_cells cb n @ ys"
    and "cb_size (ring_append cb ys) = cb_size cb"
proof -
  have pre: "length (cb_data cb) = cb_capacity cb" "cb_end_pos cb \<le> cb_capacity cb" "length ys \<le> cb_capacity cb"
    using ok room by (auto simp: ring_ok_def split: if_splits)
  have "length (cb_data (ring_append cb ys)) = cb_capacity cb"
    using pre by (simp add: ring_append_def splice_simps)
  then show "ring_ok (ring_append cb ys) (n + length ys)"
    using ok room unfolding ring_ok_def ring_append_def
    by (cases "n = 0"; cases "ys = []") (auto split: if_splits)
  have same: "ring_index (ring_append cb ys) = ring_index cb"
    by (simp add: ring_index_def ring_append_def fun_eq_iff)
  have old: "cb_data (ring_append cb ys) ! ring_index cb i = cb_data cb ! ring_index cb i" if "i < n" for i
    using ring_index_old [OF ok that room] by (auto simp: ring_append_nth [OF pre])
  have new: "cb_data (ring_append cb ys) ! ring_index cb (n + i) = ys ! i" if "i < length ys" for i
    using ring_index_new [OF ok, of i] that room pre(2) by (auto simp: ring_append_nth [OF pre])
  show "ring_cells (ring_append cb ys) (n + length ys) = ring_cells cb n @ ys"
  proof (rule nth_equalityI)
    fix i assume "i < length (ring_cells (ring_append cb ys) (n + length ys))"
    then show "ring_cells (ring_append cb ys) (n + length ys) ! i = (ring_cells cb n @ ys) ! i"
      using new [of "i - n"] by (auto simp: splice_simps nth_append same old)
  qed simp
qed (simp add: ring_append_def)

lemma ensure_capacity:
  assumes ok: "ring_ok cb (cb_size cb)" and grow: "n \<le> cb_capacity cb \<or> can_grow cb" and "cb_size cb \<le> n"
  defines "cb' \<equiv> circlebuf_ensure_capacity (cb\<lparr>cb_size := n\<rparr>)"
  shows "ring_ok cb' (cb_size cb)" and "ring_cells cb' (cb_size cb) = cb_cells cb"
    and "cb_end_pos cb' = cb_end_pos cb" and "cb_size cb' = n" and "n \<le> cb_capacity cb'"
proof -
  let ?c = "cb\<lparr>cb_size := n\<rparr>"
  let ?cap = "max n (cb_capacity cb * 2)"
  have ok': "ring_ok ?c (cb_size cb)" and cells: "ring_cells ?c (cb_size cb) = cb_cells cb"
    using ok by (auto simp: ring_ok_def ring_cells_def cb_cells_def ring_index_def)
  have fits: "cb' = ?c" if "n \<le> cb_capacity cb"
    using that by (simp add: cb'_def circlebuf_ensure_capacity_def)
  have grows: "cb' = (circlebuf_reorder_data (?c\<lparr>cb_data := brealloc (cb_data ?c) ?cap\<rparr>) ?cap)
      \<lparr>cb_capacity := ?cap\<rparr>" if "cb_capacity cb < n"
    using that by (simp add: cb'_def circlebuf_ensure_capacity_def Let_def max_def not_le)
  consider "n \<le> cb_capacity cb" | "cb_capacity cb < n" "can_grow cb"
    using grow by linarith
  then have "ring_ok cb' (cb_size cb) \<and> ring_cells cb' (cb_size cb) = cb_cells cb \<and>
      cb_end_pos cb' = cb_end_pos cb \<and> cb_size cb' = n \<and> n \<le> cb_capacity cb'"
  proof cases
    case 1
    then show ?thesis using ok' cells fits by simp
  next
    case 2
    note grown = ring_grow [of ?c "cb_size cb" ?cap]
    have "cb_size cb > 0 \<or> cb_start_pos ?c = 0 \<and> cb_end_pos ?c = 0"
      and "cb_size cb > 0 \<longrightarrow> cb_size ?c > 0" and "cb_capacity ?c < ?cap"
      using 2 assms by (auto simp: can_grow_def)
    then show ?thesis using grown [OF ok'] grows [OF 2(1)] cells by simp
  qed
  then show "ring_ok cb' (cb_size cb)" "ring_cells cb' (cb_size cb) = cb_cells cb"
    "cb_end_pos cb' = cb_end_pos cb" "cb_size cb' = n" "n \<le> cb_capacity cb'"
    by blast+
qed

subsection \<open>The operations on the list of cells\<close>

lemma push_back_eq:
  "circlebuf_push_back cb xs =
     ring_append (circlebuf_ensure_capacity (cb\<lparr>cb_size := cb_size cb + length xs\<rparr>)) (map Some xs)"
proof -
  have "cb_end_pos (circlebuf_ensure_capacity c) = cb_end_pos c" for c :: "'a circlebuf"
    by (simp add: circlebuf_ensure_capacity_def circlebuf_reorder_data_def Let_def)
  then show ?thesis
    by (simp add: circlebuf_push_back_def ring_append_def Let_def segment_def take_map drop_map)
qed

lemma upsize_eq:
  "circlebuf_upsize zero cb n =
     (if n \<le> cb_size cb then cb
      else ring_append (circlebuf_ensure_capacity (cb\<lparr>cb_size := n\<rparr>)) (replicate (n - cb_size cb) (Some zero)))"
proof -
  have "cb_end_pos (circlebuf_ensure_capacity c) = cb_end_pos c" for c :: "'a circlebuf"
    by (simp add: circlebuf_ensure_capacity_def circlebuf_reorder_data_def Let_def)
  then show ?thesis
    by (simp add: circlebuf_upsize_def ring_append_def Let_def min_def)
qed

lemma push_back:
  assumes ok: "cb_ok cb" and grow: "cb_size cb + length xs \<le> cb_capacity cb \<or> can_grow cb"
  shows "cb_ok (circlebuf_push_back cb xs)"
    and "cb_cells (circlebuf_push_back cb xs) = cb_cells cb @ map Some xs"
    and "cb_size (circlebuf_push_back cb xs) = cb_size cb + length xs"
proof -
  note e = ensure_capacity [OF ok [unfolded cb_ok_def] grow le_add1]
  note a = ring_append [OF e(1), of "map Some xs"]
  show "cb_ok (circlebuf_push_back cb xs)"
    "cb_cells (circlebuf_push_back cb xs) = cb_cells cb @ map Some xs"
    "cb_size (circlebuf_push_back cb xs) = cb_size cb + length xs"
    using a e by (simp_all add: push_back_eq cb_ok_def cb_cells_def)
qed

lemma upsize:
  assumes ok: "cb_ok cb" and grow: "n \<le> cb_capacity cb \<or> can_grow cb"
  shows "cb_ok (circlebuf_upsize zero cb n)"
    and "cb_cells (circlebuf_upsize zero cb n) = cb_cells cb @ replicate (n - cb_size cb) (Some zero)"
    and "cb_size (circlebuf_upsize zero cb n) = max (cb_size cb) n"
proof -
  have "cb_ok (circlebuf_upsize zero cb n) \<and>
    cb_cells (circlebuf_upsize zero cb n) = cb_cells cb @ replicate (n - cb_size cb) (Some zero) \<and>
    cb_size (circlebuf_upsize zero cb n) = max (cb_size cb) n"
  proof (cases "n \<le> cb_size cb")
    case True
    then show ?thesis using ok by (simp add: upsize_eq max_def)
  next
    case False
    have le: "cb_size cb \<le> n" using False by simp
    note e = ensure_capacity [OF ok [unfolded cb_ok_def] grow le]
    note a = ring_append [OF e(1), of "replicate (n - cb_size cb) (Some zero)"]
    show ?thesis using a e False by (simp add: upsize_eq cb_ok_def cb_cells_def)
  qed
  then show "cb_ok (circlebuf_upsize zero cb n)"
    "cb_cells (circlebuf_upsize zero cb n) = cb_cells cb @ replicate (n - cb_size cb) (Some zero)"
    "cb_size (circlebuf_upsize zero cb n) = max (cb_size cb) n"
    by blast+
qed

lemma reserve:
  assumes ok: "cb_ok cb" and grow: "c \<le> cb_capacity cb \<or> can_grow cb"
  shows "cb_ok (circlebuf_reserve cb c)" and "cb_cells (circlebuf_reserve cb c) = cb_cells cb"
    and "cb_size (circlebuf_reserve cb c) = cb_size cb"
proof -
  have "cb_ok (circlebuf_reserve cb c) \<and> cb_cells (circlebuf_reserve cb c) = cb_cells cb \<and>
      cb_size (circlebuf_reserve cb c) = cb_size cb"
  proof (cases "c \<le> cb_capacity cb")
    case True
    then show ?thesis using ok by (simp add: circlebuf_reserve_def)
  next
    case False
    then show ?thesis
      using ring_grow [of cb "cb_size cb" c] ok grow
      by (simp add: circlebuf_reserve_def Let_def cb_ok_def cb_cells_def can_grow_def)
  qed
  then show "cb_ok (circlebuf_reserve cb c)" "cb_cells (circlebuf_reserve cb c) = cb_cells cb"
    "cb_size (circlebuf_reserve cb c) = cb_size cb"
    by blast+
qed

lemma peek_front:
  assumes ok: "cb_ok cb" and n: "n \<le> cb_size cb"
  shows "circlebuf_peek_front cb n = Some (take n (cb_cells cb))"
proof -
  have facts: "length (cb_data cb) = cb_capacity cb" "n \<le> cb_capacity cb" "cb_start_pos cb \<le> cb_capacity cb"
    using ok n by (auto simp: cb_ok_def ring_ok_def)
  have "circlebuf_peek_front cb n = Some (map (\<lambda>i. cb_data cb ! ring_index cb i) [0 ..< n])"
    unfolding circlebuf_peek_front_def Let_def
    using facts n by (auto intro!: map_upt_eqI [symmetric] simp: splice_simps nth_append ring_index_def less_diff_conv add.commute)
  then show ?thesis
    using n by (simp add: cb_cells_def ring_cells_def take_map)
qed

lemma pop_front:
  assumes ok: "cb_ok cb" and n: "n \<le> cb_size cb"
  obtains cb' where "circlebuf_pop_front cb n = Some (take n (cb_cells cb), cb')"
    and "cb_ok cb'" and "cb_cells cb' = drop n (cb_cells cb)" and "cb_size cb' = cb_size cb - n"
    and "cb_end_pos cb' = cb_end_pos cb" and "cb_capacity cb' = cb_capacity cb"
proof -
  define start' where "start' = (if cb_start_pos cb + n \<ge> cb_capacity cb
      then cb_start_pos cb + n - cb_capacity cb else cb_start_pos cb + n)"
  define cb' where "cb' = cb\<lparr>cb_size := cb_size cb - n, cb_start_pos := start'\<rparr>"
  have "circlebuf_pop_front cb n = Some (take n (cb_cells cb), cb')"
    using peek_front [OF ok n] by (simp add: circlebuf_pop_front_def cb'_def start'_def Let_def)
  moreover have "cb_ok cb'"
    using ok n unfolding cb_ok_def ring_ok_def cb'_def start'_def by (auto split: if_splits)
  moreover have "cb_cells cb' = drop n (cb_cells cb)"
  proof (rule nth_equalityI)
    fix i assume "i < length (cb_cells cb')"
    moreover have "ring_index cb' i = ring_index cb (n + i)" if "i < cb_size cb - n"
      using ok n that unfolding cb_ok_def ring_ok_def cb'_def start'_def ring_index_def by auto
    ultimately show "cb_cells cb' ! i = drop n (cb_cells cb) ! i"
      by (simp add: cb_cells_def ring_cells_def cb'_def less_diff_conv add.commute)
  qed (simp add: cb'_def)
  ultimately show thesis
    by (intro that [of cb']) (simp_all add: cb'_def)
qed

text \<open>
  \<open>circlebuf_pop_back\<close> takes the last \<open>n\<close> cells out of the ring and hands the first \<open>n\<close> to
  its caller.
\<close>

lemma pop_back:
  assumes ok: "cb_ok cb" and n: "n \<le> cb_size cb" "0 < n"
  obtains cb' where "circlebuf_pop_back cb n = Some (take n (cb_cells cb), cb')"
    and "cb_ok cb'" and "cb_cells cb' = take (cb_size cb - n) (cb_cells cb)"
    and "cb_size cb' = cb_size cb - n"
proof -
  define end' where "end' = (if cb_end_pos cb \<le> n then cb_capacity cb - (n - cb_end_pos cb)
      else cb_end_pos cb - n)"
  define cb' where "cb' = cb\<lparr>cb_size := cb_size cb - n, cb_end_pos := end'\<rparr>"
  have "circlebuf_pop_back cb n = Some (take n (cb_cells cb), cb')"
    using peek_front [OF ok n(1)] by (simp add: circlebuf_pop_back_def cb'_def end'_def Let_def)
  moreover have "cb_ok cb'"
    using ok n unfolding cb_ok_def ring_ok_def cb'_def end'_def by (auto split: if_splits)
  moreover have "cb_cells cb' = take (cb_size cb - n) (cb_cells cb)"
    by (simp add: cb_cells_def ring_cells_def cb'_def ring_index_def take_map)
  ultimately show thesis
    by (intro that [of cb']) (simp_all add: cb'_def)
qed

lemma place_inside:
  assumes ok: "cb_ok cb" and fits: "position + length xs \<le> cb_size cb"
  shows "cb_ok (circlebuf_place zero cb position xs)"
    and "cb_cells (circlebuf_place zero cb position xs) = blit (cb_cells cb) position (map Some xs)"
    and "cb_size (circlebuf_place zero cb position xs) = cb_size cb"
proof -
  define p where "p = (if position + cb_start_pos cb \<ge> cb_capacity cb
      then position + cb_start_pos cb - cb_capacity cb else position + cb_start_pos cb)"
  define wrapped where "wrapped = p + length xs - cb_capacity cb"
  define cells' where "cells' = (if p + length xs > cb_capacity cb
     then blit (blit (cb_data cb) p (map Some (take (length xs - wrapped) xs))) 0
            (map Some (segment xs (length xs - wrapped) wrapped))
     else blit (cb_data cb) p (map Some xs))"
  have eq: "circlebuf_place zero cb position xs = cb\<lparr>cb_data := cells'\<rparr>"
    using fits by (simp add: circlebuf_place_def Let_def p_def wrapped_def cells'_def)
  have facts: "length (cb_data cb) = cb_capacity cb" "cb_size cb \<le> cb_capacity cb"
      "p \<le> cb_capacity cb" "length xs \<le> cb_capacity cb"
    using ok fits by (auto simp: cb_ok_def ring_ok_def p_def)
  then have len: "length cells' = cb_capacity cb"
    by (simp add: cells'_def wrapped_def splice_simps)
  then show "cb_ok (circlebuf_place zero cb position xs)"
    using ok by (auto simp: eq cb_ok_def ring_ok_def)
  have cell: "cells' ! j =
      (if p \<le> j \<and> j < p + length xs then Some (xs ! (j - p))
       else if j + cb_capacity cb < p + length xs then Some (xs ! (j + cb_capacity cb - p))
       else cb_data cb ! j)" if "j < cb_capacity cb" for j
    using facts that by (auto simp: cells'_def wrapped_def splice_simps min_def add.commute)
  have index: "cells' ! ring_index cb i =
      (if position \<le> i \<and> i < position + length xs then Some (xs ! (i - position))
       else cb_data cb ! ring_index cb i)" if "i < cb_size cb" for i
  proof -
    have "ring_index cb i < cb_capacity cb"
      using ok that by (auto simp: cb_ok_def ring_ok_def ring_index_def)
    moreover have "(p \<le> ring_index cb i \<and> ring_index cb i < p + length xs \<longrightarrow>
          position \<le> i \<and> i < position + length xs \<and> ring_index cb i - p = i - position) \<and>
        (ring_index cb i + cb_capacity cb < p + length xs \<longrightarrow>
          position \<le> i \<and> i < position + length xs \<and> ring_index cb i + cb_capacity cb - p = i - position) \<and>
        (position \<le> i \<and> i < position + length xs \<longrightarrow>
          p \<le> ring_index cb i \<and> ring_index cb i < p + length xs \<or> ring_index cb i + cb_capacity cb < p + length xs)"
      using ok fits that by (auto simp: cb_ok_def ring_ok_def ring_index_def p_def)
    ultimately show ?thesis by (auto simp: cell)
  qed
  have same: "ring_index (cb\<lparr>cb_data := cells'\<rparr>) = ring_index cb"
    by (simp add: ring_index_def fun_eq_iff)
  show "cb_cells (circlebuf_place zero cb position xs) = blit (cb_cells cb) position (map Some xs)"
  proof (rule nth_equalityI)
    show "length (cb_cells (circlebuf_place zero cb position xs)) =
        length (blit (cb_cells cb) position (map Some xs))"
      using fits by (simp add: eq splice_simps)
  next
    fix i assume "i < length (cb_cells (circlebuf_place zero cb position xs))"
    then have "i < cb_size cb" by (simp add: eq)
    with fits show "cb_cells (circlebuf_place zero cb position xs) ! i =
        blit (cb_cells cb) position (map Some xs) ! i"
      by (auto simp: splice_simps eq cb_cells_def same index)
  qed
qed (use fits in \<open>simp add: circlebuf_place_def Let_def\<close>)

lemma place:
  assumes ok: "cb_ok cb" and grow: "position + length xs \<le> cb_capacity cb \<or> can_grow cb"
  shows "cb_ok (circlebuf_place zero cb position xs)"
    and "cb_cells (circlebuf_place zero cb position xs) =
      blit (cb_cells cb @ replicate (position + length xs - cb_size cb) (Some zero)) position (map Some xs)"
    and "cb_size (circlebuf_place zero cb position xs) = max (cb_size cb) (position + length xs)"
proof -
  define c where "c = (if position + length xs > cb_size cb
      then circlebuf_upsize zero cb (position + length xs) else cb)"
  have eq: "circlebuf_place zero cb position xs = circlebuf_place zero c position xs"
    using upsize(3) [OF ok grow, of zero]
    by (simp add: circlebuf_place_def c_def Let_def max_def split del: if_split cong: if_cong)
      (simp split: if_splits)
  have c: "cb_ok c" "cb_size c = max (cb_size cb) (position + length xs)"
      "cb_cells c = cb_cells cb @ replicate (position + length xs - cb_size cb) (Some zero)"
    using ok upsize [OF ok grow, of zero] by (simp_all add: c_def)
  note inside = place_inside [OF c(1), of position xs zero]
  show "cb_ok (circlebuf_place zero cb position xs)"
    "cb_cells (circlebuf_place zero cb position xs) =
      blit (cb_cells cb @ replicate (position + length xs - cb_size cb) (Some zero)) position (map Some xs)"
    "cb_size (circlebuf_place zero cb position xs) = max (cb_size cb) (position + length xs)"
    using inside c by (simp_all add: eq)
qed

lemma push_front:
  assumes ok: "cb_ok cb" and n: "cb_size cb > 0"
  shows "cb_ok (circlebuf_push_front cb xs)"
    and "cb_cells (circlebuf_push_front cb xs) = map Some xs @ cb_cells cb"
    and "cb_size (circlebuf_push_front cb xs) = cb_size cb + length xs"
proof -
  define len c where "len = length xs"
    and "c = circlebuf_ensure_capacity (cb\<lparr>cb_size := cb_size cb + len\<rparr>)"
  have grow: "cb_size cb + len \<le> cb_capacity cb \<or> can_grow cb"
    using n by (simp add: can_grow_def)
  note e = ensure_capacity [OF ok [unfolded cb_ok_def] grow le_add1, folded c_def]
  define start' where "start' = (if cb_start_pos c < len
      then cb_capacity c - (len - cb_start_pos c) else cb_start_pos c - len)"
  define cells' where "cells' = (if cb_start_pos c < len
      then blit (blit (cb_data c) 0 (map Some (drop (len - cb_start_pos c) xs))) start'
             (map Some (take (len - cb_start_pos c) xs))
      else blit (cb_data c) start' (map Some xs))"
  define c' where "c' = c\<lparr>cb_data := cells', cb_start_pos := start'\<rparr>"
  have eq: "circlebuf_push_front cb xs = c'"
    by (simp add: circlebuf_push_front_def Let_def c'_def cells'_def start'_def len_def
        c_def [unfolded len_def, symmetric] segment_def)
  have facts: "length (cb_data c) = cb_capacity c" "cb_start_pos c < cb_capacity c"
      "cb_size cb + len \<le> cb_capacity c"
    using e(1,5) n by (auto simp: ring_ok_def)
  then have len': "length cells' = cb_capacity c" and start': "start' < cb_capacity c"
    using n by (auto simp: cells'_def start'_def len_def splice_simps)
  show "cb_size (circlebuf_push_front cb xs) = cb_size cb + length xs"
    using e(4) by (simp add: eq c'_def len_def)
  show "cb_ok (circlebuf_push_front cb xs)"
    using e(1,4,5) n len' start' facts unfolding eq cb_ok_def ring_ok_def c'_def start'_def
    by (auto split: if_splits)
  have cell: "cells' ! j =
      (if start' \<le> j \<and> j < start' + len then Some (xs ! (j - start'))
       else if j + cb_capacity c < start' + len then Some (xs ! (j + cb_capacity c - start'))
       else cb_data c ! j)" if "j < cb_capacity c" for j
    using facts that n by (auto simp: cells'_def start'_def len_def splice_simps min_def add.commute
        intro!: arg_cong [where f = "nth xs"])
  have new: "cells' ! ring_index c' i = Some (xs ! i)" if "i < len" for i
  proof -
    define j where "j = ring_index c' i"
    have "j < cb_capacity c" "j = start' + i \<or> j + cb_capacity c = start' + i"
      using that start' facts by (auto simp: j_def ring_index_def c'_def)
    with that start' facts(3) show ?thesis by (auto simp: cell j_def [symmetric])
  qed
  have old: "cells' ! ring_index c' (len + i) = cb_data c ! ring_index c i" if "i < cb_size cb" for i
  proof -
    have "ring_index c' (len + i) = ring_index c i"
      using that facts by (auto simp: ring_index_def c'_def start'_def)
    moreover define j where "j = ring_index c i"
    moreover have "j < cb_capacity c" "\<not> (start' \<le> j \<and> j < start' + len)" "\<not> j + cb_capacity c < start' + len"
      using that facts by (auto simp: j_def ring_index_def start'_def)
    ultimately show ?thesis by (auto simp: cell)
  qed
  show "cb_cells (circlebuf_push_front cb xs) = map Some xs @ cb_cells cb"
  proof (rule nth_equalityI)
    show "length (cb_cells (circlebuf_push_front cb xs)) = length (map Some xs @ cb_cells cb)"
      using e(4) by (simp add: eq c'_def len_def)
  next
    fix i assume "i < length (cb_cells (circlebuf_push_front cb xs))"
    then have i: "i < cb_size cb + len"
      using e(4) by (simp add: eq c'_def)
    have "cb_cells (circlebuf_push_front cb xs) ! i = cells' ! ring_index c' i"
      using i e(4) by (simp add: eq cb_cells_def c'_def splice_simps)
    also have "\<dots> = (map Some xs @ ring_cells c (cb_size cb)) ! i"
      using i new [of i] old [of "i - len"] by (auto simp: nth_append splice_simps len_def)
    finally show "cb_cells (circlebuf_push_front cb xs) ! i = (map Some xs @ cb_cells cb) ! i"
      using e(2) by simp
  qed
qed

subsection \<open>Properties\<close>

text \<open>
  Appending to the ring buffer is list append. For a well-formed ring whose block has
  room or may be reallocated, \<open>circlebuf_push_back\<close> keeps it well formed, keeps every cell
  it held in order and puts the new cells behind them, also when the data wraps around the
  end of the block and when the block is reallocated and the front part has to move.
\<close>

theorem circlebuf_push_back_appends:
  assumes "cb_ok cb" and "cb_size cb + length xs \<le> cb_capacity cb \<or> can_grow cb"
  shows "cb_ok (circlebuf_push_back cb xs) \<and>
    circlebuf_peek_front (circlebuf_push_back cb xs) (cb_size cb + length xs) =
      Some (cb_cells cb @ map Some xs)"
proof -
  note push = push_back [OF assms]
  with peek_front [OF push(1), of "cb_size cb + length xs"] show ?thesis by simp
qed

theorem circlebuf_push_back_appends_witness:
  "cb_ok (circlebuf_push_back (circlebuf_init :: nat circlebuf) [1, 2, 3])"
  using circlebuf_push_back_appends [of "circlebuf_init :: nat circlebuf" "[1, 2, 3]"]
  by simp

text \<open>\<open>circlebuf_place\<close> overwrites exactly the cells from \<open>position\<close> on; a ring that is too
  short is first extended with zero cells, and every other cell keeps its value.
\<close>

theorem circlebuf_place_overwrites:
  assumes "cb_ok cb" and "position + length xs \<le> cb_capacity cb \<or> can_grow cb"
    and "i < max (cb_size cb) (position + length xs)"
  shows "cb_cells (circlebuf_place zero cb position xs) ! i =
    (if position \<le> i \<and> i < position + length xs then Some (xs ! (i - position))
     else if i < cb_size cb then cb_cells cb ! i else Some zero)"
  using assms place(2) [OF assms(1,2), of zero]
  by (auto simp: splice_simps nth_append)

theorem circlebuf_place_overwrites_witness:
  "cb_cells (circlebuf_place (0 :: nat) (circlebuf_push_back circlebuf_init [7, 8]) 3 [9]) ! 2 = Some 0"
proof -
  let ?c = "circlebuf_push_back circlebuf_init [7, 8 :: nat]"
  have "cb_ok ?c" "cb_size ?c = 2"
    using push_back [of "circlebuf_init :: nat circlebuf" "[7, 8]"] by simp_all
  then show ?thesis
    using circlebuf_place_overwrites [of ?c 3 "[9]" 2 0] by (simp add: can_grow_def)
qed

text \<open>
  Growing an empty ring whose positions are not at the origin loses the data. Four cells
  are pushed and popped again, which leaves \<open>end_pos\<close> behind the last cell of the block;
  five cells pushed next do not fit, the block is reallocated without moving the positions,
  and the first four cells read back are not the ones that were pushed.
\<close>

theorem circlebuf_growth_needs_can_grow:
  "\<exists>cb. circlebuf_pop_front (circlebuf_push_back circlebuf_init [1, 2, 3, 4 :: nat]) 4 =
       Some ([Some 1, Some 2, Some 3, Some 4], cb) \<and>
     cb_ok cb \<and> cb_cells cb = [] \<and>
     circlebuf_peek_front (circlebuf_push_back cb [5, 6, 7, 8, 9]) 5 =
       Some [Some 9, Some 2, Some 3, Some 4, Some 5]"
proof -
  define cb where "cb = \<lparr>cb_data = [Some 1, Some 2, Some 3, Some (4 :: nat)], cb_size = 0,
    cb_start_pos = 0, cb_end_pos = 4, cb_capacity = 4\<rparr>"
  have "circlebuf_pop_front (circlebuf_push_back circlebuf_init [1, 2, 3, 4 :: nat]) 4 =
       Some ([Some 1, Some 2, Some 3, Some 4], cb)"
    unfolding cb_def by code_simp
  moreover have "cb_ok cb" "cb_cells cb = []"
    by (simp_all add: cb_def cb_ok_def ring_ok_def cb_cells_def ring_cells_def)
  moreover have "circlebuf_peek_front (circlebuf_push_back cb [5, 6, 7, 8, 9]) 5 =
       Some [Some 9, Some 2, Some 3, Some 4, Some 5]"
    unfolding cb_def by code_simp
  ultimately show ?thesis by blast
qed

text \<open>
  \<open>circlebuf_pop_back\<close> removes the cells at the back of the ring but copies out the cells
  at its front: the cells it returns are the first ones it keeps.
\<close>

theorem circlebuf_pop_back_returns_front:
  assumes "cb_ok cb" and "0 < n" and "2 * n \<le> cb_size cb"
  shows "\<exists>cb'. circlebuf_pop_back cb n = Some (take n (cb_cells cb'), cb') \<and>
    cb_cells cb' = take (cb_size cb - n) (cb_cells cb)"
proof -
  obtain cb' where "circlebuf_pop_back cb n = Some (take n (cb_cells cb), cb')"
      "cb_cells cb' = take (cb_size cb - n) (cb_cells cb)"
    using pop_back [of cb n] assms by auto
  moreover have "n \<le> cb_size cb - n"
    using assms by arith
  with \<open>cb_cells cb' = take (cb_size cb - n) (cb_cells cb)\<close> have "take n (cb_cells cb') = take n (cb_cells cb)"
    by (simp add: min_def)
  ultimately show ?thesis by simp
qed

theorem circlebuf_pop_back_returns_front_witness:
  "\<exists>cb'. circlebuf_pop_back (circlebuf_push_back circlebuf_init [1, 2 :: nat]) 1 =
     Some (take 1 (cb_cells cb'), cb')"
  using circlebuf_pop_back_returns_front [of "circlebuf_push_back circlebuf_init [1, 2 :: nat]" 1]
    push_back [of "circlebuf_init :: nat circlebuf" "[1, 2]"]
  by auto

end
