(* ===== verification/Fifo.thy ===== *)
theory Fifo
  imports Circlebuf
begin

text \<open>
  The interface between the ring buffer and the code that queues whole structures in it
  (\<open>stream->packets\<close>, \<open>output->delay_data\<close>): a first-in first-out queue. The locale states
  the contract, its lemmas are proved once from the contract, and the interpretation at the
  end shows that \<open>circlebuf_push_back\<close>, \<open>circlebuf_peek_front\<close> and \<open>circlebuf_pop_front\<close>
  with \<open>sizeof\<close> the structure meet it.
\<close>

subsection \<open>The contract\<close>

locale fifo =
  fixes empty :: 'q
    and enq :: "'q \<Rightarrow> 'e \<Rightarrow> 'q"
    and deq :: "'q \<Rightarrow> ('e \<times> 'q) option"
    and front :: "'q \<Rightarrow> 'e option"
    and count :: "'q \<Rightarrow> nat"
    and items :: "'q \<Rightarrow> 'e list"
    and inv :: "'q \<Rightarrow> bool"
  assumes inv_empty: "inv empty"
    and items_empty: "items empty = []"
    and inv_enq: "inv q \<Longrightarrow> inv (enq q x)"
    and items_enq: "inv q \<Longrightarrow> items (enq q x) = items q @ [x]"
    and deq_none: "inv q \<Longrightarrow> items q = [] \<Longrightarrow> deq q = None"
    and deq_some: "inv q \<Longrightarrow> items q = x # xs \<Longrightarrow> \<exists>q'. deq q = Some (x, q') \<and> inv q' \<and> items q' = xs"
    and front_items: "inv q \<Longrightarrow> front q = (case items q of [] \<Rightarrow> None | x # _ \<Rightarrow> Some x)"
    and count_items: "inv q \<Longrightarrow> count q = length (items q)"
begin

lemma deq_None_iff: "inv q \<Longrightarrow> deq q = None \<longleftrightarrow> items q = []"
  using deq_none deq_some by (cases "items q") fastforce+

lemma deq_SomeE:
  assumes "inv q" and "deq q = Some (x, q')"
  shows "inv q'" and "items q = x # items q'"
proof -
  have "items q \<noteq> []" using assms deq_none by auto
  then obtain y ys where "items q = y # ys" by (cases "items q") auto
  with deq_some [OF assms(1) this] assms(2) show "inv q'" and "items q = x # items q'"
    by auto
qed

lemma count_zero_iff: "inv q \<Longrightarrow> count q = 0 \<longleftrightarrow> items q = []"
  by (simp add: count_items)

lemma foldl_enq: "inv q \<Longrightarrow> inv (foldl enq q xs) \<and> items (foldl enq q xs) = items q @ xs"
  by (induction xs arbitrary: q) (simp_all add: inv_enq items_enq)

lemma deq_enq_empty: "inv q \<Longrightarrow> items q = [] \<Longrightarrow> \<exists>q'. deq (enq q x) = Some (x, q') \<and> inv q' \<and> items q' = []"
  using deq_some [of "enq q x" x "[]"] by (simp add: inv_enq items_enq)

end

subsection \<open>The ring buffer as a queue of structures\<close>

definition pq_push :: "'a circlebuf \<Rightarrow> 'a \<Rightarrow> 'a circlebuf" where
  "pq_push q x = circlebuf_push_back q [x]"

definition pq_front :: "'a circlebuf \<Rightarrow> 'a option" where
  "pq_front q = (if cb_size q = 0 then None
     else case circlebuf_peek_front q 1 of Some [c] \<Rightarrow> c | _ \<Rightarrow> None)"

definition pq_pop :: "'a circlebuf \<Rightarrow> ('a \<times> 'a circlebuf) option" where
  "pq_pop q = (if cb_size q = 0 then None
     else case circlebuf_pop_front q 1 of Some ([Some x], q') \<Rightarrow> Some (x, q') | _ \<Rightarrow> None)"

definition pq_items :: "'a circlebuf \<Rightarrow> 'a list" where
  "pq_items q = map the (cb_cells q)"

definition pq_ok :: "'a circlebuf \<Rightarrow> bool" where
  "pq_ok q \<longleftrightarrow> cb_ok q \<and> None \<notin> set (cb_cells q)"

lemma pq_room: "cb_ok q \<Longrightarrow> cb_size q + 1 \<le> cb_capacity q \<or> can_grow q"
  by (auto simp: cb_ok_def ring_ok_def can_grow_def)

lemma pq_cells: "pq_ok q \<Longrightarrow> cb_cells q = map Some (pq_items q)"
  unfolding pq_ok_def pq_items_def map_map
  by (rule map_idI [symmetric]) (metis comp_apply option.collapse)

lemma pq_pop_size: "pq_pop q = Some (x, q') \<Longrightarrow> cb_size q' < cb_size q"
  by (auto simp: pq_pop_def circlebuf_pop_front_def Let_def split: if_splits option.splits list.splits
      bind_splits)

lemma pq_pop_Nil: "pq_ok q \<Longrightarrow> pq_items q = [] \<Longrightarrow> pq_pop q = None"
  by (auto simp: pq_items_def pq_pop_def dest: arg_cong [where f = length])

lemma pq_pop_Cons:
  assumes ok: "pq_ok q" and items: "pq_items q = x # xs"
  shows "\<exists>q'. pq_pop q = Some (x, q') \<and> pq_ok q' \<and> pq_items q' = xs"
proof -
  have cells: "cb_cells q = Some x # map Some xs"
    using pq_cells [OF ok] items by simp
  then have size: "cb_size q > 0"
    using length_cb_cells [of q] by (cases "cb_size q") auto
  have cb: "cb_ok q" using ok by (simp add: pq_ok_def)
  obtain q' where "circlebuf_pop_front q 1 = Some (take 1 (cb_cells q), q')" "cb_ok q'"
      "cb_cells q' = drop 1 (cb_cells q)"
    using pop_front [OF cb, of 1] size by auto
  with cells size show ?thesis
    by (auto simp: pq_pop_def pq_ok_def pq_items_def)
qed

lemma pq_front_items:
  assumes ok: "pq_ok q"
  shows "pq_front q = (case pq_items q of [] \<Rightarrow> None | x # _ \<Rightarrow> Some x)"
proof (cases "pq_items q")
  case Nil
  then show ?thesis by (auto simp: pq_items_def pq_front_def dest: arg_cong [where f = length])
next
  case (Cons x xs)
  then have "cb_cells q = Some x # map Some xs"
    using pq_cells [OF ok] by simp
  then show ?thesis
    using peek_front [of q 1] ok Cons length_cb_cells [of q]
    by (cases "cb_size q") (auto simp: pq_front_def pq_ok_def)
qed

interpretation pq: fifo circlebuf_init pq_push pq_pop pq_front cb_size pq_items pq_ok
proof unfold_locales
  fix q :: "'a circlebuf" and x :: 'a
  assume ok: "pq_ok q"
  then have cb: "cb_ok q" by (simp add: pq_ok_def)
  note push = push_back [OF cb, of "[x]", simplified, OF pq_room [OF cb, simplified]]
  show "pq_ok (pq_push q x)" "pq_items (pq_push q x) = pq_items q @ [x]"
    using push ok by (simp_all add: pq_push_def pq_ok_def pq_items_def)
  show "cb_size q = length (pq_items q)"
    by (simp add: pq_items_def)
qed (simp_all add: pq_ok_def [of circlebuf_init] pq_items_def [of circlebuf_init] pq_pop_Nil pq_pop_Cons pq_front_items)

lemmas pq_simps = pq.inv_empty pq.items_empty pq.inv_enq pq.items_enq pq.count_items

subsection \<open>Refinement\<close>

text \<open>A run of pushes and pops, over any queue; a pop of an empty queue is reported as \<open>None\<close>.\<close>

datatype 'e queue_op = Push 'e | Pop

fun queue_run :: "('q \<Rightarrow> 'e \<Rightarrow> 'q) \<Rightarrow> ('q \<Rightarrow> ('e \<times> 'q) option) \<Rightarrow> 'e queue_op list \<Rightarrow> 'q \<Rightarrow> 'e option list"
where
  "queue_run enq deq [] q = []"
| "queue_run enq deq (Push x # ops) q = queue_run enq deq ops (enq q x)"
| "queue_run enq deq (Pop # ops) q =
     (case deq q of None \<Rightarrow> None # queue_run enq deq ops q
      | Some (x, q') \<Rightarrow> Some x # queue_run enq deq ops q')"

fun list_deq :: "'e list \<Rightarrow> ('e \<times> 'e list) option" where
  "list_deq [] = None"
| "list_deq (x # xs) = Some (x, xs)"

context fifo
begin

lemma queue_run_items:
  "inv q \<Longrightarrow> queue_run enq deq ops q = queue_run (\<lambda>xs x. xs @ [x]) list_deq ops (items q)"
proof (induction ops arbitrary: q)
  case (Cons op ops)
  note prems = Cons.prems and IH = Cons.IH
  show ?case
  proof (cases op)
    case (Push x)
    with Cons show ?thesis by (simp add: inv_enq items_enq)
  next
    case Pop
    show ?thesis
    proof (cases "items q")
      case Nil
      with Cons Pop show ?thesis by (simp add: deq_none)
    next
      case (Cons x xs)
      with deq_some [OF prems this] obtain q' where "deq q = Some (x, q')" "inv q'" "items q' = xs"
        by blast
      with Cons IH [of q'] Pop show ?thesis by simp
    qed
  qed
qed simp

end

text \<open>
  C1: every program that pushes structures at the back and pops them at the front sees a
  plain first-in first-out list: whatever the sequence of operations, through every wrap
  around and every reallocation, the ring buffer that starts empty returns exactly what a
  list returns.
\<close>

theorem circlebuf_refines_list_queue:
  "queue_run pq_push pq_pop ops circlebuf_init = queue_run (\<lambda>xs x. xs @ [x]) list_deq ops []"
  using pq.queue_run_items [OF pq.inv_empty, of ops] by (simp add: pq.items_empty)

end
