(* ===== verification/Flv_Mux.thy ===== *)
theory Flv_Mux
  imports Packet Serializer
begin

text \<open>
  \<open>plugins/obs-outputs/flv-mux.c\<close>: wrapping an encoder packet in an FLV tag. The reader
  \<open>flv_read_tag\<close> takes a tag apart again, independently of the writer; the lemmas show that it
  gets back what the packet held.
\<close>

subsection \<open>The muxer\<close>

abbreviation "RTMP_PACKET_TYPE_AUDIO \<equiv> (0x08 :: byte)"
abbreviation "RTMP_PACKET_TYPE_VIDEO \<equiv> (0x09 :: byte)"

text \<open>\<open>(uint32_t)(val * MILLISECOND_DEN / packet->timebase_den)\<close>\<close>

definition get_ms_time :: "encoder_packet \<Rightarrow> int \<Rightarrow> 32 word" where
  "get_ms_time packet val = word_of_int ((val * 1000) sdiv pkt_timebase_den packet)"

definition flv_video :: "'s serializer \<Rightarrow> encoder_packet \<Rightarrow> bool \<Rightarrow> 's serializer" where
  "flv_video s packet is_header =
     (let offset = pkt_pts packet - pkt_dts packet;
          time_ms = get_ms_time packet (pkt_dts packet)
      in if pkt_data packet = [] then s
         else
           let s = s_w8 s RTMP_PACKET_TYPE_VIDEO;
               s = s_wb24 s (word_of_nat (length (pkt_data packet)) + 5);
               s = s_wb24 s time_ms;
               s = s_w8 s (ucast (drop_bit 24 time_ms AND 0x7F));
               s = s_wb24 s 0;
               s = s_w8 s (if pkt_keyframe packet then 0x17 else 0x27);
               s = s_w8 s (if is_header then 0 else 1);
               s = s_wb24 s (get_ms_time packet offset);
               s = s_put s (pkt_data packet)
           in s_wb32 s (word_of_int (serializer_get_pos s) + 4 - 1))"

definition flv_audio :: "'s serializer \<Rightarrow> encoder_packet \<Rightarrow> bool \<Rightarrow> 's serializer" where
  "flv_audio s packet is_header =
     (let time_ms = get_ms_time packet (pkt_dts packet)
      in if pkt_data packet = [] then s
         else
           let s = s_w8 s RTMP_PACKET_TYPE_AUDIO;
               s = s_wb24 s (word_of_nat (length (pkt_data packet)) + 2);
               s = s_wb24 s time_ms;
               s = s_w8 s (ucast (drop_bit 24 time_ms AND 0x7F));
               s = s_wb24 s 0;
               s = s_w8 s 0xaf;
               s = s_w8 s (if is_header then 0 else 1);
               s = s_put s (pkt_data packet)
           in s_wb32 s (word_of_int (serializer_get_pos s) + 4 - 1))"

definition flv_packet_mux :: "encoder_packet \<Rightarrow> bool \<Rightarrow> byte list" where
  "flv_packet_mux packet is_header =
     sr_data (if pkt_type packet = OBS_ENCODER_VIDEO
              then flv_video array_output_serializer_init packet is_header
              else flv_audio array_output_serializer_init packet is_header)"

subsection \<open>A reader of tags\<close>

record flv_tag =
  tag_type :: byte
  tag_time :: nat
  tag_stream :: nat
  tag_body :: "byte list"
  tag_size :: nat

definition flv_read_tag :: "byte list \<Rightarrow> flv_tag option" where
  "flv_read_tag bs =
     (let n = be_val (segment bs 1 3)
      in if length bs \<noteq> 11 + n + 4 then None
         else Some \<lparr>tag_type = bs ! 0,
                    tag_time = be_val (segment bs 4 3) + 16777216 * unat (bs ! 7),
                    tag_stream = be_val (segment bs 8 3),
                    tag_body = segment bs 11 n,
                    tag_size = be_val (segment bs (11 + n) 4)\<rparr>)"

text \<open>The frame headers in the body: the frame and codec byte, the AVC or AAC packet type, and for
  video the composition time.\<close>

definition video_body :: "encoder_packet \<Rightarrow> bool \<Rightarrow> byte list" where
  "video_body packet is_header =
     [if pkt_keyframe packet then 0x17 else 0x27, if is_header then 0 else 1] @
     be_bytes 3 (unat (get_ms_time packet (pkt_pts packet - pkt_dts packet))) @ pkt_data packet"

definition audio_body :: "encoder_packet \<Rightarrow> bool \<Rightarrow> byte list" where
  "audio_body packet is_header = [0xaf, if is_header then 0 else 1] @ pkt_data packet"

definition tag_bytes :: "byte \<Rightarrow> nat \<Rightarrow> 32 word \<Rightarrow> byte list \<Rightarrow> byte list" where
  "tag_bytes ty n time body =
     ty # be_bytes 3 n @ be_bytes 3 (unat time) @ [word_of_nat (unat time div 16777216 mod 128)] @
     be_bytes 3 0 @ body @ be_bytes 4 (11 + length body + 3)"

lemma time_high_byte: "(ucast (drop_bit 24 w AND 0x7F) :: byte) = word_of_nat (unat w div 16777216 mod 128)"
  for w :: "32 word"
proof -
  have "drop_bit 24 w AND 0x7F = take_bit 7 (drop_bit 24 w)"
    by (simp add: take_bit_eq_mask mask_eq_exp_minus_1)
  then have "unat (drop_bit 24 w AND 0x7F) = unat w div 16777216 mod 128"
    by (simp add: take_bit_eq_mod unat_mod_distrib unat_drop_bit_div)
  then show ?thesis by (metis ucast_byte)
qed

lemma be_bytes_len_word: "k \<le> 4 \<Longrightarrow> be_bytes k (unat (word_of_nat n :: 32 word)) = be_bytes k n"
  using be_bytes_mod [of k 4 n] by (simp add: unat_of_nat)

lemma be_bytes_len_add: "k \<le> 4 \<Longrightarrow> be_bytes k (unat (word_of_nat n + numeral m :: 32 word)) = be_bytes k (n + numeral m)"
proof -
  have "(word_of_nat n + numeral m :: 32 word) = word_of_nat (n + numeral m)" by simp
  then show "k \<le> 4 \<Longrightarrow> ?thesis" using be_bytes_len_word by metis
qed

lemma flv_packet_mux_bytes:
  assumes "pkt_data packet \<noteq> []"
  shows "flv_packet_mux packet is_header =
    (let time = get_ms_time packet (pkt_dts packet)
     in if pkt_type packet = OBS_ENCODER_VIDEO
        then tag_bytes RTMP_PACKET_TYPE_VIDEO (length (video_body packet is_header)) time (video_body packet is_header)
        else tag_bytes RTMP_PACKET_TYPE_AUDIO (length (audio_body packet is_header)) time (audio_body packet is_header))"
proof -
  have pos: "(3 + word_of_int (int n) :: 32 word) = word_of_nat (n + 3)" for n by simp
  show ?thesis
    using assms
    by (simp add: flv_packet_mux_def flv_video_def flv_audio_def Let_def ao.put_simps ao.get_pos pos tag_bytes_def
        video_body_def audio_body_def time_high_byte be_bytes_len_word be_bytes_len_add add.commute [of 5] add.commute [of 2]
        del: of_nat_add of_nat_numeral of_int_of_nat_eq)
qed

lemma read_tag_bytes:
  assumes "n = length body" "n < 2 ^ 24"
  shows "flv_read_tag (tag_bytes ty n time body) =
    Some \<lparr>tag_type = ty, tag_time = unat time mod 2 ^ 31, tag_stream = 0, tag_body = body, tag_size = n + 14\<rparr>"
proof -
  have split3: "\<exists>a b c. be_bytes 3 x = [a, b, c]" for x by (simp add: be_bytes_3)
  obtain a b c where abc: "be_bytes 3 n = [a, b, c]" using split3 by blast
  obtain e f g where efg: "be_bytes 3 (unat time) = [e, f, g]" using split3 by blast
  have n: "be_val [a, b, c] = n"
    using be_val_be_bytes [of 3 n] assms unfolding abc by simp
  have low: "be_val [e, f, g] = unat time mod 2 ^ 24"
    using be_val_be_bytes [of 3 "unat time"] unfolding efg by simp
  have time: "unat time mod 2 ^ 24 + 16777216 * (unat time div 16777216 mod 128) = unat time mod 2 ^ 31"
    using mod_mult2_eq [of "unat time" "2 ^ 24" 128] by simp
  have high: "unat (word_of_nat (unat time div 16777216 mod 128) :: byte) = unat time div 16777216 mod 128"
    by (simp only: unat_of_nat) simp
  define h :: byte where "h = word_of_nat (unat time div 16777216 mod 128)"
  define tail where "tail = be_bytes 4 (n + 14)"
  have tail: "length tail = 4" "be_val tail = n + 14"
    using be_val_be_bytes [of 4 "n + 14"] assms by (simp_all add: tail_def)
  have zero: "be_bytes 3 0 = [0, 0, 0]" by (simp add: be_bytes_3)
  define bs where "bs = tag_bytes ty n time body"
  have bs: "bs = [ty, a, b, c, e, f, g, h, 0, 0, 0] @ body @ tail"
    using abc assms(1) by (simp add: bs_def tag_bytes_def efg zero h_def tail_def add.commute)
  define front where "front = [ty, a, b, c, e, f, g, h, 0, 0, 0]"
  have front: "length front = 11" "bs = front @ body @ tail" by (simp_all add: front_def bs)
  have "segment bs (11 + n) 4 = tail"
    using assms(1) tail(1) front(1) unfolding front(2) by (simp add: segment_def)
  moreover have "segment bs 1 3 = [a, b, c]" "segment bs 4 3 = [e, f, g]" "bs ! 7 = h" "segment bs 8 3 = [0, 0, 0]"
      "segment bs 11 n = body" "bs ! 0 = ty" "length bs = 11 + n + 4"
    using assms(1) tail(1) by (simp_all add: bs segment_def)
  ultimately show ?thesis
    using low time high tail n by (simp add: flv_read_tag_def Let_def h_def bs_def [symmetric] del: of_nat_unat)
qed

text \<open>C26: an FLV reader gets back from the output of \<open>flv_packet_mux\<close> the kind of frame, the
  decoding time in milliseconds modulo \<open>2 ^ 31\<close>, the frame headers (key frame flag, sequence
  header flag, composition time) and the payload, unchanged; the trailer holds the payload size
  plus 14, three more than the tag that it follows. A packet with no data gives no tag.\<close>

theorem flv_packet_mux_roundtrip:
  assumes "length (pkt_data packet) + 5 < 2 ^ 24"
  shows "if pkt_data packet = [] then flv_packet_mux packet is_header = []
    else let video = (pkt_type packet = OBS_ENCODER_VIDEO);
             body = (if video then video_body packet is_header else audio_body packet is_header)
         in flv_read_tag (flv_packet_mux packet is_header) =
              Some \<lparr>tag_type = (if video then RTMP_PACKET_TYPE_VIDEO else RTMP_PACKET_TYPE_AUDIO),
                    tag_time = unat (get_ms_time packet (pkt_dts packet)) mod 2 ^ 31,
                    tag_stream = 0, tag_body = body, tag_size = length body + 14\<rparr>"
proof (cases "pkt_data packet = []")
  case True
  then show ?thesis by (simp add: flv_packet_mux_def flv_video_def flv_audio_def)
next
  case False
  have "length (video_body packet is_header) < 2 ^ 24" "length (audio_body packet is_header) < 2 ^ 24"
    using assms by (simp_all add: video_body_def audio_body_def)
  then show ?thesis
    using False by (simp add: flv_packet_mux_bytes Let_def read_tag_bytes [OF refl])
qed

theorem flv_packet_mux_roundtrip_witness:
  "flv_read_tag (flv_packet_mux (zero_packet\<lparr>pkt_data := [1, 2, 3], pkt_type := OBS_ENCODER_VIDEO,
     pkt_keyframe := True, pkt_dts := 90, pkt_pts := 93, pkt_timebase_den := 30\<rparr>) False) =
   Some \<lparr>tag_type = 9, tag_time = 3000, tag_stream = 0, tag_body = [0x17, 1, 0, 0, 100, 1, 2, 3], tag_size = 22\<rparr>"
  using flv_packet_mux_roundtrip [of "zero_packet\<lparr>pkt_data := [1, 2, 3], pkt_type := OBS_ENCODER_VIDEO,
     pkt_keyframe := True, pkt_dts := 90, pkt_pts := 93, pkt_timebase_den := 30\<rparr>" False]
  by (simp add: get_ms_time_def video_body_def be_bytes_3)

end
