(* ===== verification/Output.thy ===== *)
theory Output
  imports Packet Fifo
begin

text \<open>
  The state of an output, \<open>struct obs_output\<close> of \<open>libobs/obs-internal.h\<close>, as the interleaver,
  the stream delay and the capture and reconnect code share it. An encoder is its address;
  \<open>None\<close> is a null pointer. What an output does to the outside is recorded in the state:
  \<open>oo_delivered\<close> the packets given to the plugin (\<open>info.encoded_packet\<close>), \<open>oo_freed\<close> the packets
  given to \<open>obs_free_encoder_packet\<close>, \<open>oo_hooks\<close> the callbacks registered with encoders and raw outputs,
  \<open>oo_signals\<close> the signals sent. \<open>oo_uninit\<close> is the content of an uninitialised local.
\<close>

datatype encoded_callback = Interleave_Packets | Default_Encoded_Callback | Process_Delay

datatype hook = Encoder_Hook nat encoded_callback | Raw_Video_Hook | Raw_Audio_Hook

datatype delay_msg = DELAY_MSG_PACKET | DELAY_MSG_START | DELAY_MSG_STOP

record delay_data =
  dd_msg :: delay_msg
  dd_ts :: "64 word"
  dd_packet :: encoder_packet

datatype out_signal = Out_Signal string | Out_Stop int | Out_Reconnect int

record obs_output =
  oo_info_flags :: "32 word"
  oo_context_data :: bool
  oo_service :: "bool option"
  oo_video :: bool
  oo_audio :: bool
  oo_video_encoder :: "nat option"
  oo_audio_encoders :: "nat option list"
  oo_received_video :: bool
  oo_received_audio :: bool
  oo_video_offset :: int
  oo_audio_offsets :: "int list"
  oo_highest_audio_ts :: int
  oo_highest_video_ts :: int
  oo_interleaved :: "encoder_packet list"
  oo_reconnect_retry_sec :: int
  oo_reconnect_retry_max :: int
  oo_reconnect_retries :: int
  oo_reconnect_retry_cur_sec :: int
  oo_reconnecting :: bool
  oo_reconnect_stop_event :: bool
  oo_total_frames :: int
  oo_active :: bool
  oo_stopped :: bool
  oo_active_delay_ns :: "64 word"
  oo_delay_callback :: encoded_callback
  oo_delay_data :: "delay_data circlebuf"
  oo_delay_sec :: "32 word"
  oo_delay_flags :: "32 word"
  oo_delay_cur_flags :: "32 word"
  oo_delay_restart_refs :: int
  oo_delay_active :: bool
  oo_delay_capturing :: bool
  oo_delivered :: "encoder_packet list"
  oo_freed :: "encoder_packet list"
  oo_hooks :: "hook list"
  oo_signals :: "out_signal list"
  oo_uninit :: int

abbreviation "OBS_OUTPUT_VIDEO \<equiv> (0x01 :: 32 word)"
abbreviation "OBS_OUTPUT_AUDIO \<equiv> (0x02 :: 32 word)"
abbreviation "OBS_OUTPUT_ENCODED \<equiv> (0x04 :: 32 word)"
abbreviation "OBS_OUTPUT_SERVICE \<equiv> (0x08 :: 32 word)"
abbreviation "OBS_OUTPUT_MULTI_TRACK \<equiv> (0x10 :: 32 word)"
abbreviation "MAX_AUDIO_MIXES \<equiv> (4 :: nat)"

text \<open>\<open>obs_output_create\<close>: a zeroed structure with the default retry settings.\<close>

definition obs_output_create :: "32 word \<Rightarrow> bool \<Rightarrow> bool \<Rightarrow> bool \<Rightarrow> obs_output" where
  "obs_output_create info_flags context_data video audio =
     \<lparr>oo_info_flags = info_flags, oo_context_data = context_data, oo_service = None, oo_video = video,
      oo_audio = audio, oo_video_encoder = None, oo_audio_encoders = replicate MAX_AUDIO_MIXES None,
      oo_received_video = False, oo_received_audio = False, oo_video_offset = 0,
      oo_audio_offsets = replicate MAX_AUDIO_MIXES 0, oo_highest_audio_ts = 0, oo_highest_video_ts = 0,
      oo_interleaved = [], oo_reconnect_retry_sec = 2, oo_reconnect_retry_max = 20,
      oo_reconnect_retries = 0, oo_reconnect_retry_cur_sec = 0, oo_reconnecting = False,
      oo_reconnect_stop_event = False, oo_total_frames = 0, oo_active = False, oo_stopped = False,
      oo_active_delay_ns = 0, oo_delay_callback = Interleave_Packets, oo_delay_data = circlebuf_init,
      oo_delay_sec = 0, oo_delay_flags = 0, oo_delay_cur_flags = 0, oo_delay_restart_refs = 0,
      oo_delay_active = False, oo_delay_capturing = False, oo_delivered = [], oo_freed = [],
      oo_hooks = [], oo_signals = [], oo_uninit = 0\<rparr>"

definition has_flag :: "32 word \<Rightarrow> 32 word \<Rightarrow> bool" where
  "has_flag flags f \<longleftrightarrow> flags AND f \<noteq> 0"

definition free_packet :: "obs_output \<Rightarrow> encoder_packet \<Rightarrow> obs_output" where
  "free_packet st p = st\<lparr>oo_freed := oo_freed st @ [p]\<rparr>"

definition deliver :: "obs_output \<Rightarrow> encoder_packet \<Rightarrow> obs_output" where
  "deliver st p = st\<lparr>oo_delivered := oo_delivered st @ [p]\<rparr>"

definition do_output_signal :: "obs_output \<Rightarrow> string \<Rightarrow> obs_output" where
  "do_output_signal st s = st\<lparr>oo_signals := oo_signals st @ [Out_Signal s]\<rparr>"

definition service_supports_multitrack :: "obs_output \<Rightarrow> bool" where
  "service_supports_multitrack st = (case oo_service st of None \<Rightarrow> False | Some multi \<Rightarrow> multi)"

definition num_audio_mixes :: "obs_output \<Rightarrow> nat" where
  "num_audio_mixes st =
     (if has_flag (oo_info_flags st) OBS_OUTPUT_SERVICE \<and> \<not> service_supports_multitrack st then 1
      else if has_flag (oo_info_flags st) OBS_OUTPUT_MULTI_TRACK
      then length (takeWhile (\<lambda>e. e \<noteq> None) (take MAX_AUDIO_MIXES (oo_audio_encoders st)))
      else 1)"

end
