(* ===== verification/Output_Interleave.thy ===== *)
theory Output_Interleave
  imports Output "HOL-Library.Multiset"
begin

text \<open>
  The interleaver of \<open>libobs/obs-output.c\<close>: audio and video packets are kept in one queue sorted
  by time, the start of the stream is pruned and brought to timestamp zero, and a packet is sent
  once a packet of the other kind with a higher timestamp has been seen.
\<close>

subsection \<open>The operations\<close>

definition get_track_index :: "obs_output \<Rightarrow> encoder_packet \<Rightarrow> nat" where
  "get_track_index st pkt =
     (case List.find (\<lambda>i. oo_audio_encoders st ! i = Some (pkt_encoder pkt)) [0 ..< MAX_AUDIO_MIXES] of
        Some i \<Rightarrow> i | None \<Rightarrow> 0)"

definition check_received :: "obs_output \<Rightarrow> encoder_packet \<Rightarrow> obs_output" where
  "check_received st out =
     (if pkt_type out = OBS_ENCODER_VIDEO then st\<lparr>oo_received_video := True\<rparr>
      else st\<lparr>oo_received_audio := True\<rparr>)"

definition apply_interleaved_packet_offset :: "obs_output \<Rightarrow> encoder_packet \<Rightarrow> encoder_packet" where
  "apply_interleaved_packet_offset st out =
     (let offset = (if pkt_type out = OBS_ENCODER_VIDEO then oo_video_offset st
                    else oo_audio_offsets st ! pkt_track_idx out);
          out = out\<lparr>pkt_dts := pkt_dts out - offset, pkt_pts := pkt_pts out - offset\<rparr>
      in out\<lparr>pkt_dts_usec := packet_dts_usec out\<rparr>)"

definition has_higher_opposing_ts :: "obs_output \<Rightarrow> encoder_packet \<Rightarrow> bool" where
  "has_higher_opposing_ts st packet =
     (if pkt_type packet = OBS_ENCODER_VIDEO then oo_highest_audio_ts st > pkt_dts_usec packet
      else oo_highest_video_ts st > pkt_dts_usec packet)"

text \<open>The array is never empty where \<open>send_interleaved\<close> is called.\<close>

definition send_interleaved :: "obs_output \<Rightarrow> obs_output" where
  "send_interleaved st =
     (case oo_interleaved st of
        [] \<Rightarrow> st
      | out # rest \<Rightarrow>
          if \<not> has_higher_opposing_ts st out then st
          else
            let st = (if pkt_type out = OBS_ENCODER_VIDEO
                      then st\<lparr>oo_total_frames := oo_total_frames st + 1\<rparr> else st);
                st = st\<lparr>oo_interleaved := rest\<rparr>;
                st = (if \<not> oo_stopped st then deliver st out else st)
            in free_packet st out)"

definition set_higher_ts :: "obs_output \<Rightarrow> encoder_packet \<Rightarrow> obs_output" where
  "set_higher_ts st packet =
     (if pkt_type packet = OBS_ENCODER_VIDEO
      then (if oo_highest_video_ts st < pkt_dts_usec packet
            then st\<lparr>oo_highest_video_ts := pkt_dts_usec packet\<rparr> else st)
      else (if oo_highest_audio_ts st < pkt_dts_usec packet
            then st\<lparr>oo_highest_audio_ts := pkt_dts_usec packet\<rparr> else st))"

definition find_first_packet_type_idx :: "obs_output \<Rightarrow> obs_encoder_type \<Rightarrow> nat \<Rightarrow> nat option" where
  "find_first_packet_type_idx st type audio_idx =
     List.find (\<lambda>i. let packet = oo_interleaved st ! i
                    in pkt_type packet = type \<and>
                       \<not> (type = OBS_ENCODER_AUDIO \<and> pkt_track_idx packet \<noteq> audio_idx))
       [0 ..< length (oo_interleaved st)]"

definition find_first_packet_type :: "obs_output \<Rightarrow> obs_encoder_type \<Rightarrow> nat \<Rightarrow> encoder_packet option" where
  "find_first_packet_type st type audio_idx =
     map_option ((!) (oo_interleaved st)) (find_first_packet_type_idx st type audio_idx)"

fun start_idx_loop ::
  "nat \<Rightarrow> int \<Rightarrow> nat \<Rightarrow> encoder_packet list \<Rightarrow> int \<Rightarrow> nat option \<Rightarrow> nat \<Rightarrow> nat" where
  "start_idx_loop first_video dts i [] closest_diff video_idx idx =
     (case video_idx of Some v \<Rightarrow> if v < idx then v else idx | None \<Rightarrow> idx)"
| "start_idx_loop first_video dts i (packet # ps) closest_diff video_idx idx =
     (if pkt_type packet \<noteq> OBS_ENCODER_AUDIO
      then start_idx_loop first_video dts (i + 1) ps closest_diff
             (if i = first_video then Some i else video_idx) idx
      else
        let diff = \<bar>pkt_dts_usec packet - dts\<bar>
        in if diff < closest_diff then start_idx_loop first_video dts (i + 1) ps diff video_idx i
           else start_idx_loop first_video dts (i + 1) ps closest_diff video_idx idx)"

text \<open>Only called when there is a video packet; without one the code follows a null pointer.\<close>

definition get_interleaved_start_idx :: "obs_output \<Rightarrow> nat" where
  "get_interleaved_start_idx st =
     (case find_first_packet_type_idx st OBS_ENCODER_VIDEO 0 of
        None \<Rightarrow> 0
      | Some v \<Rightarrow>
          start_idx_loop v (pkt_dts_usec (oo_interleaved st ! v)) 0 (oo_interleaved st)
            0x7FFFFFFFFFFFFFFF None 0)"

text \<open>The loop over the audio tracks of \<open>prune_premature_packets\<close>; \<open>None\<close> is the return inside it.\<close>

fun premature_loop ::
  "obs_output \<Rightarrow> encoder_packet \<Rightarrow> nat list \<Rightarrow> nat \<Rightarrow> int \<Rightarrow> int \<Rightarrow> (nat \<times> int \<times> int) option" where
  "premature_loop st video [] max_idx max_diff diff = Some (max_idx, max_diff, diff)"
| "premature_loop st video (i # is) max_idx max_diff diff =
     (case find_first_packet_type_idx st OBS_ENCODER_AUDIO i of
        None \<Rightarrow> None
      | Some audio_idx \<Rightarrow>
          let audio = oo_interleaved st ! audio_idx;
              max_idx = (if audio_idx > max_idx then audio_idx else max_idx);
              diff = pkt_dts_usec audio - pkt_dts_usec video;
              max_diff = (if diff > max_diff then diff else max_diff)
          in premature_loop st video is max_idx max_diff diff)"

definition prune_premature_packets :: "obs_output \<Rightarrow> int \<times> obs_output" where
  "prune_premature_packets st =
     (let audio_mixes = num_audio_mixes st
      in case find_first_packet_type_idx st OBS_ENCODER_VIDEO 0 of
        None \<Rightarrow> (-1, st\<lparr>oo_received_video := False\<rparr>)
      | Some video_idx \<Rightarrow>
          let video = oo_interleaved st ! video_idx;
              duration_usec = (pkt_timebase_num video * 1000000) sdiv pkt_timebase_den video
          in case premature_loop st video [0 ..< audio_mixes] video_idx 0 (oo_uninit st) of
               None \<Rightarrow> (-1, st\<lparr>oo_received_audio := False\<rparr>)
             | Some (max_idx, max_diff, diff) \<Rightarrow>
                 (if diff > duration_usec then int max_idx + 1 else 0, st))"

definition discard_to_idx :: "obs_output \<Rightarrow> nat \<Rightarrow> obs_output" where
  "discard_to_idx st idx =
     st\<lparr>oo_freed := oo_freed st @ take idx (oo_interleaved st),
        oo_interleaved := drop idx (oo_interleaved st)\<rparr>"

definition prune_interleaved_packets :: "obs_output \<Rightarrow> bool \<times> obs_output" where
  "prune_interleaved_packets st =
     (case prune_premature_packets st of
        (prune_start, st) \<Rightarrow>
          if prune_start = -1 then (False, st)
          else
            let start_idx = (if prune_start \<noteq> 0 then nat prune_start else get_interleaved_start_idx st)
            in (True, if start_idx \<noteq> 0 then discard_to_idx st start_idx else st))"

text \<open>The first packets of the tracks, \<open>None\<close> where the loop returns.\<close>

fun first_audio_packets :: "obs_output \<Rightarrow> nat list \<Rightarrow> encoder_packet list option" where
  "first_audio_packets st [] = Some []"
| "first_audio_packets st (i # is) =
     (case find_first_packet_type st OBS_ENCODER_AUDIO i of
        None \<Rightarrow> None
      | Some a \<Rightarrow> map_option (Cons a) (first_audio_packets st is))"

definition initialize_interleaved_packets :: "obs_output \<Rightarrow> bool \<times> obs_output" where
  "initialize_interleaved_packets st =
     (let video = find_first_packet_type st OBS_ENCODER_VIDEO 0;
          st = (if video = None then st\<lparr>oo_received_video := False\<rparr> else st)
      in case first_audio_packets st [0 ..< num_audio_mixes st] of
           None \<Rightarrow> (False, st\<lparr>oo_received_audio := False\<rparr>)
         | Some audio \<Rightarrow>
             (case video of
                None \<Rightarrow> (False, st)
              | Some video \<Rightarrow>
                  let st = st\<lparr>oo_video_offset := pkt_dts video\<rparr>;
                      st = st\<lparr>oo_audio_offsets := blit (oo_audio_offsets st) 0 (map pkt_dts audio)\<rparr>;
                      st = st\<lparr>oo_highest_audio_ts := oo_highest_audio_ts st - pkt_dts_usec (hd audio),
                              oo_highest_video_ts := oo_highest_video_ts st - pkt_dts_usec video\<rparr>
                  in (True, st\<lparr>oo_interleaved :=
                        map (apply_interleaved_packet_offset st) (oo_interleaved st)\<rparr>)))"

fun insert_packet :: "encoder_packet \<Rightarrow> encoder_packet list \<Rightarrow> encoder_packet list" where
  "insert_packet out [] = [out]"
| "insert_packet out (cur # ps) =
     (if pkt_dts_usec out < pkt_dts_usec cur then out # cur # ps else cur # insert_packet out ps)"

definition insert_interleaved_packet :: "obs_output \<Rightarrow> encoder_packet \<Rightarrow> obs_output" where
  "insert_interleaved_packet st out = st\<lparr>oo_interleaved := insert_packet out (oo_interleaved st)\<rparr>"

definition resort_interleaved_packets :: "obs_output \<Rightarrow> obs_output" where
  "resort_interleaved_packets st =
     foldl insert_interleaved_packet (st\<lparr>oo_interleaved := []\<rparr>) (oo_interleaved st)"

definition discard_unused_audio_packets :: "obs_output \<Rightarrow> int \<Rightarrow> obs_output" where
  "discard_unused_audio_packets st dts_usec =
     (let idx = length (takeWhile (\<lambda>p. \<not> pkt_dts_usec p \<ge> dts_usec) (oo_interleaved st))
      in if idx \<noteq> 0 then discard_to_idx st idx else st)"

text \<open>\<open>packet->track_idx\<close> is set before the lock is taken.\<close>

definition with_track :: "obs_output \<Rightarrow> encoder_packet \<Rightarrow> encoder_packet" where
  "with_track st packet =
     (if pkt_type packet = OBS_ENCODER_AUDIO then packet\<lparr>pkt_track_idx := get_track_index st packet\<rparr>
      else packet)"

definition interleave_packets :: "obs_output \<Rightarrow> encoder_packet \<Rightarrow> obs_output" where
  "interleave_packets st packet =
     (let packet = with_track st packet
      in if \<not> oo_received_video st \<and> pkt_type packet = OBS_ENCODER_VIDEO \<and> \<not> pkt_keyframe packet
         then discard_unused_audio_packets st (pkt_dts_usec packet)
         else
           let was_started = oo_received_audio st \<and> oo_received_video st;
               out = (if oo_active_delay_ns st \<noteq> 0 then packet else obs_duplicate_encoder_packet packet);
               (out, st) = (if was_started then (apply_interleaved_packet_offset st out, st)
                            else (out, check_received st packet));
               st = insert_interleaved_packet st out;
               st = set_higher_ts st out
           in if oo_received_audio st \<and> oo_received_video st then
                if \<not> was_started then
                  (case prune_interleaved_packets st of
                     (pruned, st) \<Rightarrow>
                       if pruned then
                         (case initialize_interleaved_packets st of
                            (ready, st) \<Rightarrow>
                              if ready then send_interleaved (resort_interleaved_packets st) else st)
                       else st)
                else send_interleaved st
              else st)"

definition default_encoded_callback :: "obs_output \<Rightarrow> encoder_packet \<Rightarrow> obs_output" where
  "default_encoded_callback st packet =
     (let packet = with_track st packet;
          st = (if \<not> oo_stopped st then deliver st packet else st);
          st = (if oo_active_delay_ns st \<noteq> 0 then free_packet st packet else st)
      in if pkt_type packet = OBS_ENCODER_VIDEO then st\<lparr>oo_total_frames := oo_total_frames st + 1\<rparr> else st)"

text \<open>\<open>free_packets\<close> and \<open>reset_packet_data\<close>, whose loop clears the first offset again and again.\<close>

definition free_interleaved :: "obs_output \<Rightarrow> obs_output" where
  "free_interleaved st = st\<lparr>oo_freed := oo_freed st @ oo_interleaved st, oo_interleaved := []\<rparr>"

definition reset_packet_data :: "obs_output \<Rightarrow> obs_output" where
  "reset_packet_data st =
     (let st = st\<lparr>oo_received_audio := False, oo_received_video := False, oo_highest_audio_ts := 0,
                 oo_highest_video_ts := 0, oo_video_offset := 0\<rparr>;
          st = foldl (\<lambda>st i. st\<lparr>oo_audio_offsets := (oo_audio_offsets st)[0 := 0]\<rparr>) st [0 ..< MAX_AUDIO_MIXES]
      in free_interleaved st)"


subsection \<open>Insertion and sorting\<close>

lemma mset_insert_packet [simp]: "mset (insert_packet p ps) = add_mset p (mset ps)"
  by (induction ps) auto

lemma set_insert_packet [simp]: "set (insert_packet p ps) = insert p (set ps)"
  by (induction ps) auto

lemma sorted_insert_packet:
  "sorted (map pkt_dts_usec ps) \<Longrightarrow> sorted (map pkt_dts_usec (insert_packet p ps))"
  by (induction ps) auto

lemma stable_insert_packet:
  "sorted (map pkt_dts_usec ps) \<Longrightarrow>
   filter (\<lambda>x. k = pkt_dts_usec x) (insert_packet p ps) = filter (\<lambda>x. k = pkt_dts_usec x) (ps @ [p])"
proof (induction ps)
  case (Cons a ps)
  have "filter (\<lambda>x. k = pkt_dts_usec x) (a # ps) = []" if "k = pkt_dts_usec p" "pkt_dts_usec p < pkt_dts_usec a"
    using Cons.prems that by (auto simp: filter_empty_conv)
  with Cons show ?case by auto
qed simp

lemma foldl_insert_packet: "foldl (\<lambda>ps p. insert_packet p ps) [] xs = sort_key pkt_dts_usec xs"
proof -
  have "sorted (map pkt_dts_usec (foldl (\<lambda>ps p. insert_packet p ps) [] xs)) \<and>
      mset (foldl (\<lambda>ps p. insert_packet p ps) [] xs) = mset xs \<and>
      (\<forall>k. filter (\<lambda>x. k = pkt_dts_usec x) (foldl (\<lambda>ps p. insert_packet p ps) [] xs) =
        filter (\<lambda>x. k = pkt_dts_usec x) xs)"
    by (induction xs rule: rev_induct) (auto simp: sorted_insert_packet stable_insert_packet)
  then show ?thesis by (intro properties_for_sort_key [symmetric]) auto
qed

lemma resort_eq:
  "resort_interleaved_packets st = st\<lparr>oo_interleaved := sort_key pkt_dts_usec (oo_interleaved st)\<rparr>"
proof -
  have "foldl insert_interleaved_packet (st\<lparr>oo_interleaved := qs\<rparr>) ps =
      st\<lparr>oo_interleaved := foldl (\<lambda>ps p. insert_packet p ps) qs ps\<rparr>" for qs ps
    by (induction ps arbitrary: qs) (simp_all add: insert_interleaved_packet_def)
  from this [of "[]"] show ?thesis
    by (simp add: resort_interleaved_packets_def foldl_insert_packet)
qed

subsection \<open>After the start\<close>

definition started :: "obs_output \<Rightarrow> bool" where
  "started st \<longleftrightarrow> oo_received_audio st \<and> oo_received_video st"

definition adjusted :: "obs_output \<Rightarrow> encoder_packet \<Rightarrow> encoder_packet" where
  "adjusted st packet = apply_interleaved_packet_offset st (with_track st packet)"

definition highest :: "obs_output \<Rightarrow> encoder_packet \<Rightarrow> int" where
  "highest st p = (if pkt_type p = OBS_ENCODER_VIDEO then oo_highest_video_ts st else oo_highest_audio_ts st)"

definition opposing :: "obs_output \<Rightarrow> encoder_packet \<Rightarrow> int" where
  "opposing st p = (if pkt_type p = OBS_ENCODER_VIDEO then oo_highest_audio_ts st else oo_highest_video_ts st)"

lemma interleave_started:
  "started st \<Longrightarrow> interleave_packets st p =
     send_interleaved (set_higher_ts (insert_interleaved_packet st (adjusted st p)) (adjusted st p))"
  by (auto simp: started_def interleave_packets_def Let_def adjusted_def insert_interleaved_packet_def set_higher_ts_def)

text \<open>What the callback leaves alone once the stream has started.\<close>

definition same_timing :: "obs_output \<Rightarrow> obs_output \<Rightarrow> bool" where
  "same_timing st st' \<longleftrightarrow> oo_audio_encoders st' = oo_audio_encoders st \<and>
     oo_video_offset st' = oo_video_offset st \<and> oo_audio_offsets st' = oo_audio_offsets st \<and>
     oo_received_audio st' = oo_received_audio st \<and> oo_received_video st' = oo_received_video st \<and>
     oo_stopped st' = oo_stopped st"

lemma same_timing_adjusted: "same_timing st st' \<Longrightarrow> adjusted st' = adjusted st"
  by (auto simp: same_timing_def adjusted_def apply_interleaved_packet_offset_def with_track_def
      get_track_index_def Let_def fun_eq_iff)

lemma same_timing_started: "same_timing st st' \<Longrightarrow> started st' = started st"
  by (simp add: same_timing_def started_def)

lemma send_same_timing: "same_timing st (send_interleaved st)"
  by (auto simp: send_interleaved_def same_timing_def Let_def deliver_def free_packet_def split: list.splits)

lemma insert_same_timing: "same_timing st (set_higher_ts (insert_interleaved_packet st q) q)"
  by (simp add: set_higher_ts_def insert_interleaved_packet_def same_timing_def)

lemma same_timing_trans: "same_timing a b \<Longrightarrow> same_timing b c \<Longrightarrow> same_timing a c"
  by (simp add: same_timing_def)

lemma interleave_same_timing: "started st \<Longrightarrow> same_timing st (interleave_packets st p)"
  using interleave_started same_timing_trans [OF insert_same_timing send_same_timing] by metis

text \<open>The invariant: the queue is sorted and below the highest timestamps, and everything sent
  (\<open>new\<close>) is below the queue and below both highest timestamps.\<close>

definition il_inv :: "encoder_packet list \<Rightarrow> obs_output \<Rightarrow> bool" where
  "il_inv new st \<longleftrightarrow> sorted (map pkt_dts_usec (oo_interleaved st)) \<and>
     (\<forall>p \<in> set (oo_interleaved st). pkt_dts_usec p \<le> highest st p) \<and> sorted (map pkt_dts_usec new) \<and>
     (\<forall>s \<in> set new. (\<forall>p \<in> set (oo_interleaved st). pkt_dts_usec s \<le> pkt_dts_usec p) \<and>
        pkt_dts_usec s \<le> oo_highest_audio_ts st \<and> pkt_dts_usec s \<le> oo_highest_video_ts st)"

lemma insert_il_inv:
  assumes "il_inv new st" "highest st q \<le> pkt_dts_usec q"
  shows "il_inv new (set_higher_ts (insert_interleaved_packet st q) q)"
  using assms
  by (fastforce simp: il_inv_def set_higher_ts_def insert_interleaved_packet_def highest_def
      intro!: sorted_insert_packet split: if_splits)

lemma send_il_inv:
  assumes "il_inv new st" "\<not> oo_stopped st"
  shows "\<exists>sent. il_inv (new @ sent) (send_interleaved st) \<and>
     oo_delivered (send_interleaved st) = oo_delivered st @ sent \<and>
     oo_freed (send_interleaved st) = oo_freed st @ sent \<and>
     oo_interleaved st = sent @ oo_interleaved (send_interleaved st) \<and>
     oo_highest_audio_ts (send_interleaved st) = oo_highest_audio_ts st \<and>
     oo_highest_video_ts (send_interleaved st) = oo_highest_video_ts st"
proof (cases "oo_interleaved st")
  case Nil
  with assms show ?thesis by (intro exI [of _ "[]"]) (simp add: send_interleaved_def)
next
  case (Cons out rest)
  show ?thesis
  proof (cases "has_higher_opposing_ts st out")
    case False
    with assms Cons show ?thesis by (intro exI [of _ "[]"]) (simp add: send_interleaved_def)
  next
    case True
    with assms Cons show ?thesis
      by (intro exI [of _ "[out]"])
         (auto simp: send_interleaved_def Let_def deliver_def free_packet_def il_inv_def highest_def
           sorted_append has_higher_opposing_ts_def split: if_splits)
  qed
qed

text \<open>Arrivals in order: each packet is no earlier than what has been seen of its kind.\<close>

fun in_order :: "int \<Rightarrow> int \<Rightarrow> encoder_packet list \<Rightarrow> bool" where
  "in_order hv ha [] = True"
| "in_order hv ha (q # qs) =
     (if pkt_type q = OBS_ENCODER_VIDEO then hv \<le> pkt_dts_usec q \<and> in_order (pkt_dts_usec q) ha qs
      else ha \<le> pkt_dts_usec q \<and> in_order hv (pkt_dts_usec q) qs)"

lemma interleave_run:
  assumes "started st" "\<not> oo_stopped st" "il_inv new st"
    "in_order (oo_highest_video_ts st) (oo_highest_audio_ts st) (map (adjusted st) ps)"
  shows "\<exists>sent. il_inv (new @ sent) (foldl interleave_packets st ps) \<and>
     oo_delivered (foldl interleave_packets st ps) = oo_delivered st @ sent \<and>
     oo_freed (foldl interleave_packets st ps) = oo_freed st @ sent \<and>
     mset sent + mset (oo_interleaved (foldl interleave_packets st ps)) =
       mset (oo_interleaved st) + mset (map (adjusted st) ps)"
  using assms
proof (induction ps arbitrary: st new)
  case Nil
  then show ?case by (intro exI [of _ "[]"]) simp
next
  case (Cons p ps)
  let ?q = "adjusted st p"
  let ?st1 = "set_higher_ts (insert_interleaved_packet st ?q) ?q"
  have st1: "\<not> oo_stopped ?st1" "oo_delivered ?st1 = oo_delivered st" "oo_freed ?st1 = oo_freed st"
      "mset (oo_interleaved ?st1) = add_mset ?q (mset (oo_interleaved st))"
    using Cons.prems(2) by (simp_all add: set_higher_ts_def insert_interleaved_packet_def)
  have "il_inv new ?st1"
    using Cons.prems(3,4) by (intro insert_il_inv) (auto simp: highest_def split: if_splits)
  from send_il_inv [OF this st1(1)] obtain sent where
    sent: "il_inv (new @ sent) (send_interleaved ?st1)"
      "oo_delivered (send_interleaved ?st1) = oo_delivered ?st1 @ sent"
      "oo_freed (send_interleaved ?st1) = oo_freed ?st1 @ sent"
      "oo_interleaved ?st1 = sent @ oo_interleaved (send_interleaved ?st1)"
      "oo_highest_audio_ts (send_interleaved ?st1) = oo_highest_audio_ts ?st1"
      "oo_highest_video_ts (send_interleaved ?st1) = oo_highest_video_ts ?st1"
    by blast
  let ?st2 = "interleave_packets st p"
  have st2: "?st2 = send_interleaved ?st1" by (rule interleave_started [OF Cons.prems(1)])
  have same: "same_timing st ?st2" by (rule interleave_same_timing [OF Cons.prems(1)])
  have next_order: "in_order (oo_highest_video_ts ?st2) (oo_highest_audio_ts ?st2) (map (adjusted ?st2) ps)"
    using Cons.prems(4) unfolding same_timing_adjusted [OF same] unfolding st2 sent(5,6)
    by (auto simp: set_higher_ts_def insert_interleaved_packet_def max_def split: if_splits)
  have "started ?st2" "\<not> oo_stopped ?st2"
    using same Cons.prems(1,2) by (simp_all add: same_timing_started) (simp add: same_timing_def)
  from Cons.IH [OF this sent(1) [folded st2] next_order] obtain sent' where
    sent': "il_inv ((new @ sent) @ sent') (foldl interleave_packets ?st2 ps)"
      "oo_delivered (foldl interleave_packets ?st2 ps) = oo_delivered ?st2 @ sent'"
      "oo_freed (foldl interleave_packets ?st2 ps) = oo_freed ?st2 @ sent'"
      "mset sent' + mset (oo_interleaved (foldl interleave_packets ?st2 ps)) =
       mset (oo_interleaved ?st2) + mset (map (adjusted ?st2) ps)"
    by blast
  have q: "add_mset ?q (mset (oo_interleaved st)) = mset sent + mset (oo_interleaved ?st2)"
    using st1(4) sent(4) unfolding st2 by (metis mset_append)
  have "mset (sent @ sent') + mset (oo_interleaved (foldl interleave_packets ?st2 ps)) =
      mset sent + (mset sent' + mset (oo_interleaved (foldl interleave_packets ?st2 ps)))"
    by (simp add: union_assoc)
  also have "\<dots> = (mset sent + mset (oo_interleaved ?st2)) + mset (map (adjusted st) ps)"
    unfolding sent'(4) same_timing_adjusted [OF same] by (simp add: union_assoc)
  also have "\<dots> = mset (oo_interleaved st) + mset (map (adjusted st) (p # ps))"
    unfolding q [symmetric] by simp
  finally have "mset (sent @ sent') + mset (oo_interleaved (foldl interleave_packets st (p # ps))) =
      mset (oo_interleaved st) + mset (map (adjusted st) (p # ps))" by simp
  moreover have "oo_delivered ?st2 = oo_delivered st @ sent" "oo_freed ?st2 = oo_freed st @ sent"
    using sent(2,3) st1(2,3) by (simp_all add: st2)
  ultimately show ?case
    using sent'(1-3) by (intro exI [of _ "sent @ sent'"]) simp
qed


subsection \<open>The start of the stream\<close>

lemma offset_keeps [simp]:
  "pkt_type (apply_interleaved_packet_offset st p) = pkt_type p"
  "pkt_track_idx (apply_interleaved_packet_offset st p) = pkt_track_idx p"
  "pkt_data (apply_interleaved_packet_offset st p) = pkt_data p"
  by (simp_all add: apply_interleaved_packet_offset_def Let_def)

lemma find_cong: "(\<And>x. x \<in> set xs \<Longrightarrow> P x = Q x) \<Longrightarrow> List.find P xs = List.find Q xs"
  by (induction xs) auto

lemma find_first_map:
  assumes "oo_interleaved st' = map f (oo_interleaved st)"
    and "\<And>p. pkt_type (f p) = pkt_type p" and "\<And>p. pkt_track_idx (f p) = pkt_track_idx p"
  shows "find_first_packet_type_idx st' type i = find_first_packet_type_idx st type i"
    and "find_first_packet_type st' type i = map_option f (find_first_packet_type st type i)"
proof -
  show idx: "find_first_packet_type_idx st' type i = find_first_packet_type_idx st type i"
    unfolding find_first_packet_type_idx_def assms(1) length_map
    by (rule find_cong) (simp add: Let_def assms)
  show "find_first_packet_type st' type i = map_option f (find_first_packet_type st type i)"
  proof (cases "find_first_packet_type_idx st type i")
    case (Some k)
    then have "k < length (oo_interleaved st)"
      unfolding find_first_packet_type_idx_def by (auto dest: find_SomeD)
    with Some show ?thesis by (simp add: find_first_packet_type_def idx assms(1))
  qed (simp add: find_first_packet_type_def idx)
qed

lemma find_first_type:
  "find_first_packet_type st type i = Some p \<Longrightarrow>
   p \<in> set (oo_interleaved st) \<and> pkt_type p = type \<and> (type = OBS_ENCODER_AUDIO \<longrightarrow> pkt_track_idx p = i)"
  by (auto simp: find_first_packet_type_def find_first_packet_type_idx_def Let_def dest!: find_SomeD)

lemma first_audio_packets_nth:
  "first_audio_packets st is = Some audio \<Longrightarrow>
   length audio = length is \<and> (\<forall>k < length is. find_first_packet_type st OBS_ENCODER_AUDIO (is ! k) = Some (audio ! k))"
proof (induction "is" arbitrary: audio)
  case (Cons i "is")
  then show ?case by (auto simp: nth_Cons split: option.splits nat.split)
qed simp

lemma initialize_zero:
  assumes init: "initialize_interleaved_packets st = (True, st')"
    and mixes: "num_audio_mixes st \<le> length (oo_audio_offsets st)"
  shows "\<exists>v. find_first_packet_type st' OBS_ENCODER_VIDEO 0 = Some v \<and> pkt_dts v = 0 \<and> pkt_dts_usec v = 0"
    and "i < num_audio_mixes st \<Longrightarrow>
      \<exists>a. find_first_packet_type st' OBS_ENCODER_AUDIO i = Some a \<and> pkt_dts a = 0 \<and> pkt_dts_usec a = 0"
    and "map (\<lambda>p. pkt_pts p - pkt_dts p) (oo_interleaved st') = map (\<lambda>p. pkt_pts p - pkt_dts p) (oo_interleaved st)"
    and "map pkt_data (oo_interleaved st') = map pkt_data (oo_interleaved st)"
proof -
  obtain video where video: "find_first_packet_type st OBS_ENCODER_VIDEO 0 = Some video"
    using init by (auto simp: initialize_interleaved_packets_def Let_def split: option.splits if_splits)
  obtain audio where audio: "first_audio_packets st [0 ..< num_audio_mixes st] = Some audio"
    using init video by (auto simp: initialize_interleaved_packets_def Let_def split: option.splits if_splits)
  define st1 where "st1 = st\<lparr>oo_video_offset := pkt_dts video,
      oo_audio_offsets := blit (oo_audio_offsets st) 0 (map pkt_dts audio),
      oo_highest_audio_ts := oo_highest_audio_ts st - pkt_dts_usec (hd audio),
      oo_highest_video_ts := oo_highest_video_ts st - pkt_dts_usec video\<rparr>"
  have st': "st' = st1\<lparr>oo_interleaved := map (apply_interleaved_packet_offset st1) (oo_interleaved st)\<rparr>"
    using init by (simp add: initialize_interleaved_packets_def Let_def video audio st1_def)
  have queue: "oo_interleaved st' = map (apply_interleaved_packet_offset st1) (oo_interleaved st)"
    by (simp add: st')
  note first = find_first_map(2) [OF queue, simplified]
  have "pkt_type video = OBS_ENCODER_VIDEO" using find_first_type [OF video] by simp
  then show "\<exists>v. find_first_packet_type st' OBS_ENCODER_VIDEO 0 = Some v \<and> pkt_dts v = 0 \<and> pkt_dts_usec v = 0"
    by (simp add: first video) (simp add: apply_interleaved_packet_offset_def st1_def packet_dts_usec_def)
  note aud = first_audio_packets_nth [OF audio]
  show "\<exists>a. find_first_packet_type st' OBS_ENCODER_AUDIO i = Some a \<and> pkt_dts a = 0 \<and> pkt_dts_usec a = 0"
    if i: "i < num_audio_mixes st"
  proof -
    have a: "find_first_packet_type st OBS_ENCODER_AUDIO i = Some (audio ! i)" using aud i by simp
    have ty: "pkt_type (audio ! i) = OBS_ENCODER_AUDIO" "pkt_track_idx (audio ! i) = i"
      using find_first_type [OF a] by simp_all
    have len: "length audio = num_audio_mixes st" using aud by simp
    have "oo_audio_offsets st1 ! i = pkt_dts (audio ! i)"
      using i mixes len by (simp add: st1_def nth_blit)
    then show ?thesis
      by (simp add: first a) (simp add: apply_interleaved_packet_offset_def ty packet_dts_usec_def)
  qed
  show "map (\<lambda>p. pkt_pts p - pkt_dts p) (oo_interleaved st') = map (\<lambda>p. pkt_pts p - pkt_dts p) (oo_interleaved st)"
      "map pkt_data (oo_interleaved st') = map pkt_data (oo_interleaved st)"
    by (simp_all add: queue) (simp add: apply_interleaved_packet_offset_def Let_def)
qed

text \<open>A running output with a video and an audio encoder.\<close>

definition running_output :: obs_output where
  "running_output = (obs_output_create 0x07 True True True)\<lparr>oo_video_encoder := Some 1,
     oo_audio_encoders := [Some 2, None, None, None], oo_received_video := True, oo_received_audio := True\<rparr>"

definition sample_video :: "int \<Rightarrow> encoder_packet" where
  "sample_video t = zero_packet\<lparr>pkt_type := OBS_ENCODER_VIDEO, pkt_encoder := 1, pkt_dts := t, pkt_pts := t,
     pkt_dts_usec := t, pkt_keyframe := True, pkt_timebase_num := 1, pkt_timebase_den := 1000000\<rparr>"

definition sample_audio :: "nat \<Rightarrow> int \<Rightarrow> encoder_packet" where
  "sample_audio i t = zero_packet\<lparr>pkt_type := OBS_ENCODER_AUDIO, pkt_encoder := 2, pkt_track_idx := i, pkt_dts := t,
     pkt_pts := t, pkt_dts_usec := t, pkt_timebase_num := 1, pkt_timebase_den := 1000000\<rparr>"

text \<open>C31: re-sorting the start of the stream is a stable sort by timestamp: packets with the same
  timestamp stay in the order they came in, and nothing else of the output changes.\<close>

theorem resort_is_stable_sort:
  "resort_interleaved_packets st = st\<lparr>oo_interleaved := sort_key pkt_dts_usec (oo_interleaved st)\<rparr>"
  by (rule resort_eq)



text \<open>when the interleaver initialises the start of the stream, the first video packet and the
  first packet of every audio track get the timestamp zero, the composition offsets and the data of
  all packets are unchanged.\<close>

theorem initialize_starts_at_zero:
  assumes "initialize_interleaved_packets st = (True, st')"
    and "num_audio_mixes st \<le> length (oo_audio_offsets st)" and "i < num_audio_mixes st"
  shows "(\<exists>v. find_first_packet_type st' OBS_ENCODER_VIDEO 0 = Some v \<and> pkt_dts v = 0 \<and> pkt_dts_usec v = 0) \<and>
    (\<exists>a. find_first_packet_type st' OBS_ENCODER_AUDIO i = Some a \<and> pkt_dts a = 0 \<and> pkt_dts_usec a = 0) \<and>
    map (\<lambda>p. pkt_pts p - pkt_dts p) (oo_interleaved st') = map (\<lambda>p. pkt_pts p - pkt_dts p) (oo_interleaved st) \<and>
    map pkt_data (oo_interleaved st') = map pkt_data (oo_interleaved st)"
  using initialize_zero [OF assms(1,2)] assms(3) by simp

definition starting_output :: obs_output where
  "starting_output = running_output\<lparr>oo_interleaved := [sample_video 100, sample_audio 0 110]\<rparr>"

theorem initialize_starts_at_zero_witness:
  "\<exists>st'. initialize_interleaved_packets starting_output = (True, st') \<and>
    (\<exists>v. find_first_packet_type st' OBS_ENCODER_VIDEO 0 = Some v \<and> pkt_dts v = 0 \<and> pkt_dts_usec v = 0) \<and>
    (\<exists>a. find_first_packet_type st' OBS_ENCODER_AUDIO 0 = Some a \<and> pkt_dts a = 0 \<and> pkt_dts_usec a = 0)"
proof -
  have mixes: "num_audio_mixes starting_output = 1" "length (oo_audio_offsets starting_output) = 4"
    by (simp_all add: num_audio_mixes_def starting_output_def running_output_def obs_output_create_def has_flag_def)
  have "fst (initialize_interleaved_packets starting_output)" by code_simp
  then obtain st' where st': "initialize_interleaved_packets starting_output = (True, st')"
    by (metis prod.collapse)
  show ?thesis
    using initialize_starts_at_zero [OF st', of 0] st' mixes by auto
qed

definition two_track_output :: obs_output where
  "two_track_output = running_output\<lparr>oo_info_flags := 0x17, oo_audio_encoders := [Some 2, Some 3, None, None],
     oo_interleaved := [sample_video 0, sample_audio 1 0, sample_audio 0 1000000]\<rparr>"

text \<open>With several audio tracks \<open>prune_premature_packets\<close> judges by the last track only: here the
  first track starts a second after the video and nothing is pruned, though the largest distance is
  far above the frame duration.\<close>

theorem prune_ignores_largest_distance:
  "fst (prune_premature_packets two_track_output) = 0 \<and>
   (case (find_first_packet_type two_track_output OBS_ENCODER_VIDEO 0,
          find_first_packet_type two_track_output OBS_ENCODER_AUDIO 0) of
      (Some v, Some a) \<Rightarrow> pkt_dts_usec a - pkt_dts_usec v > (pkt_timebase_num v * 1000000) sdiv pkt_timebase_den v
    | _ \<Rightarrow> False)"
  by (simp add: two_track_output_def running_output_def obs_output_create_def prune_premature_packets_def Let_def
      num_audio_mixes_def has_flag_def find_first_packet_type_def find_first_packet_type_idx_def sample_video_def
      sample_audio_def upt_rec)

end
