(* ===== verification/Output_Capture.thy ===== *)
theory Output_Capture
  imports Output_Interleave
begin

text \<open>
  Starting, stopping and reconnecting an output (\<open>libobs/obs-output.c\<close>) and the stream delay
  (\<open>libobs/obs-output-delay.c\<close>). The plugin (\<open>info.start\<close>, \<open>info.stop\<close>) is a parameter: a
  function on the state of the output, because a plugin may call back into it. So are the
  results of initialising encoders and the service and of creating a thread.
\<close>

record output_env =
  ev_start :: "obs_output \<Rightarrow> bool \<times> obs_output"
  ev_stop :: "obs_output \<Rightarrow> obs_output"
  ev_encoder_init :: "nat option \<Rightarrow> bool"
  ev_service_init :: bool

abbreviation "OBS_OUTPUT_SUCCESS \<equiv> (0 :: int)"
abbreviation "OBS_OUTPUT_DISCONNECTED \<equiv> (-5 :: int)"
abbreviation "OBS_OUTPUT_DELAY_PRESERVE \<equiv> (1 :: 32 word)"

subsection \<open>Hooks\<close>

definition hook :: "obs_output \<Rightarrow> hook \<Rightarrow> obs_output" where
  "hook st h = (if h \<in> set (oo_hooks st) then st else st\<lparr>oo_hooks := oo_hooks st @ [h]\<rparr>)"

definition unhook :: "obs_output \<Rightarrow> hook \<Rightarrow> obs_output" where
  "unhook st h = st\<lparr>oo_hooks := remove1 h (oo_hooks st)\<rparr>"

definition encoder_hook :: "obs_output \<Rightarrow> nat option \<Rightarrow> encoded_callback \<Rightarrow> obs_output" where
  "encoder_hook st encoder cb =
     (case encoder of None \<Rightarrow> st | Some e \<Rightarrow> hook st (Encoder_Hook e cb))"

definition encoder_unhook :: "obs_output \<Rightarrow> nat option \<Rightarrow> encoded_callback \<Rightarrow> obs_output" where
  "encoder_unhook st encoder cb =
     (case encoder of None \<Rightarrow> st | Some e \<Rightarrow> unhook st (Encoder_Hook e cb))"

definition start_audio_encoders :: "obs_output \<Rightarrow> encoded_callback \<Rightarrow> obs_output" where
  "start_audio_encoders st cb =
     foldl (\<lambda>s i. encoder_hook s (oo_audio_encoders st ! i) cb) st [0 ..< num_audio_mixes st]"

definition stop_audio_encoders :: "obs_output \<Rightarrow> encoded_callback \<Rightarrow> obs_output" where
  "stop_audio_encoders st cb =
     foldl (\<lambda>s i. encoder_unhook s (oo_audio_encoders st ! i) cb) st [0 ..< num_audio_mixes st]"

definition hook_data_capture :: "obs_output \<Rightarrow> bool \<Rightarrow> bool \<Rightarrow> bool \<Rightarrow> obs_output" where
  "hook_data_capture st encoded has_video has_audio =
     (if encoded then
        let st = reset_packet_data st;
            cb = (if has_video \<and> has_audio then Interleave_Packets else Default_Encoded_Callback);
            (cb, st) =
              (if oo_delay_sec st \<noteq> 0 then
                 (Process_Delay,
                  st\<lparr>oo_active_delay_ns := ucast (oo_delay_sec st) * 1000000000,
                     oo_delay_cur_flags := oo_delay_flags st, oo_delay_callback := cb,
                     oo_delay_active := True\<rparr>)
               else (cb, st));
            st = (if has_audio then start_audio_encoders st cb else st)
        in if has_video then encoder_hook st (oo_video_encoder st) cb else st
      else
        let st = (if has_video then hook st Raw_Video_Hook else st)
        in if has_audio then hook st Raw_Audio_Hook else st)"

subsection \<open>Beginning and ending data capture\<close>

definition signal_stop :: "obs_output \<Rightarrow> int \<Rightarrow> obs_output" where
  "signal_stop st code = st\<lparr>oo_signals := oo_signals st @ [Out_Stop code]\<rparr>"

definition signal_reconnect :: "obs_output \<Rightarrow> obs_output" where
  "signal_reconnect st = st\<lparr>oo_signals := oo_signals st @ [Out_Reconnect (oo_reconnect_retry_cur_sec st)]\<rparr>"

definition audio_valid :: "obs_output \<Rightarrow> bool \<Rightarrow> bool" where
  "audio_valid st encoded =
     (if encoded then num_audio_mixes st \<noteq> 0 \<and>
        list_all (\<lambda>i. oo_audio_encoders st ! i \<noteq> None) [0 ..< num_audio_mixes st]
      else oo_audio st)"

definition can_begin_data_capture :: "obs_output \<Rightarrow> bool \<Rightarrow> bool \<Rightarrow> bool \<Rightarrow> bool \<Rightarrow> bool" where
  "can_begin_data_capture st encoded has_video has_audio has_service \<longleftrightarrow>
     (has_video \<longrightarrow> (if encoded then oo_video_encoder st \<noteq> None else oo_video st)) \<and>
     (has_audio \<longrightarrow> audio_valid st encoded) \<and> (has_service \<longrightarrow> oo_service st \<noteq> None)"

definition convert_flags :: "obs_output \<Rightarrow> 32 word \<Rightarrow> bool \<times> bool \<times> bool \<times> bool" where
  "convert_flags st flags =
     (let encoded = has_flag (oo_info_flags st) OBS_OUTPUT_ENCODED;
          flags = (if flags = 0 then oo_info_flags st else flags AND oo_info_flags st)
      in (encoded, has_flag flags OBS_OUTPUT_VIDEO, has_flag flags OBS_OUTPUT_AUDIO,
          has_flag flags OBS_OUTPUT_SERVICE))"

definition obs_output_can_begin_data_capture :: "obs_output \<Rightarrow> 32 word \<Rightarrow> bool" where
  "obs_output_can_begin_data_capture st flags =
     (if oo_delay_active st then True
      else if oo_active st then False
      else case convert_flags st flags of
        (encoded, has_video, has_audio, has_service) \<Rightarrow>
          can_begin_data_capture st encoded has_video has_audio has_service)"

text \<open>The pairing of a video with an audio encoder is state of the encoders and not modelled.\<close>

definition obs_output_initialize_encoders :: "output_env \<Rightarrow> obs_output \<Rightarrow> 32 word \<Rightarrow> bool" where
  "obs_output_initialize_encoders env st flags =
     (if oo_active st then oo_delay_active st
      else case convert_flags st flags of
        (encoded, has_video, has_audio, has_service) \<Rightarrow>
          encoded \<and> (has_service \<longrightarrow> ev_service_init env) \<and>
          (has_video \<longrightarrow> ev_encoder_init env (oo_video_encoder st)) \<and>
          (has_audio \<longrightarrow>
             list_all (\<lambda>i. ev_encoder_init env (oo_audio_encoders st ! i)) [0 ..< num_audio_mixes st]))"

definition begin_delayed_capture :: "obs_output \<Rightarrow> bool \<times> obs_output" where
  "begin_delayed_capture st =
     (if oo_delay_capturing st then (False, st)
      else
        let st = (reset_packet_data st)\<lparr>oo_delay_capturing := True\<rparr>
        in (True, if oo_reconnecting st
                  then (do_output_signal st ''reconnect_success'')\<lparr>oo_reconnecting := False\<rparr>
                  else do_output_signal st ''start''))"

definition obs_output_begin_data_capture :: "obs_output \<Rightarrow> 32 word \<Rightarrow> bool \<times> obs_output" where
  "obs_output_begin_data_capture st flags =
     (if oo_delay_active st then begin_delayed_capture st
      else if oo_active st then (False, st)
      else
        let st = st\<lparr>oo_total_frames := 0\<rparr>
        in case convert_flags st flags of
             (encoded, has_video, has_audio, has_service) \<Rightarrow>
               if \<not> can_begin_data_capture st encoded has_video has_audio has_service then (False, st)
               else
                 let st = hook_data_capture st encoded has_video has_audio;
                     st = (do_output_signal st ''activate'')\<lparr>oo_active := True\<rparr>
                 in (True,
                     if oo_reconnecting st
                     then (do_output_signal st ''reconnect_success'')\<lparr>oo_reconnecting := False\<rparr>
                     else if oo_delay_active st then do_output_signal st ''starting''
                     else do_output_signal st ''start''))"

text \<open>\<open>obs_output_cleanup_delay\<close>\<close>

function cleanup_loop :: "obs_output \<Rightarrow> obs_output" where
  "cleanup_loop st =
     (case pq_pop (oo_delay_data st) of None \<Rightarrow> st
      | Some (dd, q) \<Rightarrow>
          let st = st\<lparr>oo_delay_data := q\<rparr>
          in cleanup_loop (if dd_msg dd = DELAY_MSG_PACKET then free_packet st (dd_packet dd) else st))"
  by pat_completeness auto
termination
  by (relation "measure (\<lambda>st. cb_size (oo_delay_data st))") (auto simp: pq_pop_size free_packet_def)

declare cleanup_loop.simps [simp del]

definition obs_output_cleanup_delay :: "obs_output \<Rightarrow> obs_output" where
  "obs_output_cleanup_delay st =
     (cleanup_loop st)\<lparr>oo_active_delay_ns := 0, oo_delay_restart_refs := 0\<rparr>"

definition obs_output_end_data_capture :: "obs_output \<Rightarrow> obs_output" where
  "obs_output_end_data_capture st =
     (if oo_delay_active st then st\<lparr>oo_delay_capturing := False\<rparr>
      else if \<not> oo_active st then st
      else case convert_flags st 0 of
        (encoded, has_video, has_audio, has_service) \<Rightarrow>
          let st =
                (if encoded then
                   let cb = (if oo_active_delay_ns st \<noteq> 0 then Process_Delay
                             else if has_video \<and> has_audio then Interleave_Packets
                             else Default_Encoded_Callback);
                       st = (if has_video then encoder_unhook st (oo_video_encoder st) cb else st)
                   in if has_audio then stop_audio_encoders st cb else st
                 else
                   let st = (if has_video then unhook st Raw_Video_Hook else st)
                   in if has_audio then unhook st Raw_Audio_Hook else st);
              st = (if oo_active_delay_ns st \<noteq> 0 then obs_output_cleanup_delay st else st)
          in (do_output_signal st ''deactivate'')\<lparr>oo_active := False\<rparr>)"

subsection \<open>Start and stop\<close>

definition obs_output_actual_start :: "output_env \<Rightarrow> obs_output \<Rightarrow> bool \<times> obs_output" where
  "obs_output_actual_start env st =
     (let st = st\<lparr>oo_stopped := False\<rparr>;
          (success, st) = (if oo_context_data st then ev_start env st else (False, st))
      in (success, if oo_delay_restart_refs st \<noteq> 0
                   then st\<lparr>oo_delay_restart_refs := oo_delay_restart_refs st - 1\<rparr> else st))"

definition obs_output_actual_stop :: "output_env \<Rightarrow> obs_output \<Rightarrow> bool \<Rightarrow> obs_output" where
  "obs_output_actual_stop env st force =
     (let st = st\<lparr>oo_stopped := True, oo_reconnect_stop_event := True\<rparr>;
          st = (if oo_context_data st then ev_stop env st else st);
          st = (if oo_delay_active st \<and> (force \<or> oo_delay_restart_refs st = 0)
                then obs_output_end_data_capture (st\<lparr>oo_delay_active := False\<rparr>) else st)
      in if force \<or> \<not> oo_delay_active st then signal_stop st OBS_OUTPUT_SUCCESS else st)"

definition delay_push :: "obs_output \<Rightarrow> delay_data \<Rightarrow> obs_output" where
  "delay_push st dd = st\<lparr>oo_delay_data := pq_push (oo_delay_data st) dd\<rparr>"

definition obs_output_delay_start :: "output_env \<Rightarrow> 64 word \<Rightarrow> obs_output \<Rightarrow> bool \<times> obs_output" where
  "obs_output_delay_start env now st =
     (if \<not> oo_delay_active st \<and>
         \<not> (obs_output_can_begin_data_capture st 0 \<and> obs_output_initialize_encoders env st 0)
      then (False, st)
      else
        let st = delay_push st \<lparr>dd_msg = DELAY_MSG_START, dd_ts = now, dd_packet = zero_packet\<rparr>
        in if oo_delay_active st
           then (True, do_output_signal (st\<lparr>oo_delay_restart_refs := oo_delay_restart_refs st + 1\<rparr>) ''starting'')
           else case obs_output_begin_data_capture st 0 of
                  (ok, st) \<Rightarrow> if ok then (True, st) else (False, obs_output_cleanup_delay st))"

definition obs_output_delay_stop :: "64 word \<Rightarrow> obs_output \<Rightarrow> obs_output" where
  "obs_output_delay_stop now st =
     do_output_signal (delay_push st \<lparr>dd_msg = DELAY_MSG_STOP, dd_ts = now, dd_packet = zero_packet\<rparr>) ''stopping''"

definition obs_output_start :: "output_env \<Rightarrow> 64 word \<Rightarrow> obs_output \<Rightarrow> bool \<times> obs_output" where
  "obs_output_start env now st =
     (if \<not> oo_context_data st then (False, st)
      else if has_flag (oo_info_flags st) OBS_OUTPUT_ENCODED \<and> oo_delay_sec st \<noteq> 0
      then obs_output_delay_start env now st
      else case obs_output_actual_start env st of
             (ok, st) \<Rightarrow> if ok then (True, do_output_signal st ''starting'') else (False, st))"

definition obs_output_stop :: "output_env \<Rightarrow> 64 word \<Rightarrow> obs_output \<Rightarrow> obs_output" where
  "obs_output_stop env now st =
     (if \<not> oo_context_data st then st
      else if has_flag (oo_info_flags st) OBS_OUTPUT_ENCODED \<and> oo_active_delay_ns st \<noteq> 0
      then obs_output_delay_stop now st
      else do_output_signal (obs_output_actual_stop env st False) ''stopping'')"

definition obs_output_force_stop :: "output_env \<Rightarrow> obs_output \<Rightarrow> obs_output" where
  "obs_output_force_stop env st = obs_output_actual_stop env st True"

definition obs_output_set_delay :: "obs_output \<Rightarrow> 32 word \<Rightarrow> 32 word \<Rightarrow> obs_output" where
  "obs_output_set_delay st delay_sec flags =
     (if \<not> has_flag (oo_info_flags st) OBS_OUTPUT_ENCODED then st
      else st\<lparr>oo_delay_sec := delay_sec, oo_delay_flags := flags\<rparr>)"


subsection \<open>Reconnecting\<close>

text \<open>\<open>thread_ok\<close> is whether \<open>pthread_create\<close> succeeds.\<close>

definition output_reconnect :: "bool \<Rightarrow> obs_output \<Rightarrow> obs_output" where
  "output_reconnect thread_ok st =
     (let st = (if \<not> oo_reconnecting st
                then st\<lparr>oo_reconnect_retry_cur_sec := oo_reconnect_retry_sec st, oo_reconnect_retries := 0\<rparr>
                else st)
      in if oo_reconnect_retries st \<ge> oo_reconnect_retry_max st then
           let st = st\<lparr>oo_reconnecting := False\<rparr>;
               st = (if oo_delay_active st
                     then obs_output_end_data_capture (st\<lparr>oo_delay_active := False\<rparr>) else st)
           in signal_stop st OBS_OUTPUT_DISCONNECTED
         else
           let st = (if \<not> oo_reconnecting st
                     then st\<lparr>oo_reconnecting := True, oo_reconnect_stop_event := False\<rparr> else st);
               st = (if oo_reconnect_retries st \<noteq> 0
                     then st\<lparr>oo_reconnect_retry_cur_sec := oo_reconnect_retry_cur_sec st * 2\<rparr> else st);
               st = st\<lparr>oo_reconnect_retries := oo_reconnect_retries st + 1\<rparr>
           in if \<not> thread_ok
              then signal_stop (st\<lparr>oo_reconnecting := False\<rparr>) OBS_OUTPUT_DISCONNECTED
              else signal_reconnect st)"

definition obs_output_signal_stop :: "bool \<Rightarrow> obs_output \<Rightarrow> int \<Rightarrow> obs_output" where
  "obs_output_signal_stop thread_ok st code =
     (let st = obs_output_end_data_capture st
      in if (oo_reconnecting st \<and> code \<noteq> OBS_OUTPUT_SUCCESS) \<or> code = OBS_OUTPUT_DISCONNECTED
         then output_reconnect thread_ok st
         else
           let st = (if oo_delay_active st
                     then obs_output_end_data_capture (st\<lparr>oo_delay_active := False\<rparr>) else st)
           in signal_stop st code)"

text \<open>\<open>timed_out\<close>: nobody asked to stop while the thread waited; \<open>stop_later\<close>: somebody did by the
  time the start returned.\<close>

definition reconnect_thread :: "output_env \<Rightarrow> bool \<Rightarrow> bool \<Rightarrow> obs_output \<Rightarrow> obs_output" where
  "reconnect_thread env timed_out stop_later st =
     (let st = (if timed_out then snd (obs_output_actual_start env st) else st)
      in if stop_later then st\<lparr>oo_reconnecting := False\<rparr> else st)"

subsection \<open>The delay queue\<close>

text \<open>The callback pointer; \<open>delay_callback\<close> is never \<open>process_delay\<close> itself.\<close>

definition run_callback :: "obs_output \<Rightarrow> encoded_callback \<Rightarrow> encoder_packet \<Rightarrow> obs_output" where
  "run_callback st cb packet =
     (case cb of Interleave_Packets \<Rightarrow> interleave_packets st packet
      | Default_Encoded_Callback \<Rightarrow> default_encoded_callback st packet
      | Process_Delay \<Rightarrow> st)"

definition push_packet :: "obs_output \<Rightarrow> encoder_packet \<Rightarrow> 64 word \<Rightarrow> obs_output" where
  "push_packet st packet t =
     delay_push st \<lparr>dd_msg = DELAY_MSG_PACKET, dd_ts = t, dd_packet = obs_duplicate_encoder_packet packet\<rparr>"

definition process_delay_data :: "output_env \<Rightarrow> obs_output \<Rightarrow> delay_data \<Rightarrow> obs_output" where
  "process_delay_data env st dd =
     (case dd_msg dd of
        DELAY_MSG_PACKET \<Rightarrow>
          if \<not> oo_delay_active st \<or> \<not> oo_delay_capturing st then free_packet st (dd_packet dd)
          else run_callback st (oo_delay_callback st) (dd_packet dd)
      | DELAY_MSG_START \<Rightarrow> snd (obs_output_actual_start env st)
      | DELAY_MSG_STOP \<Rightarrow> obs_output_actual_stop env st False)"

definition pop_packet :: "output_env \<Rightarrow> obs_output \<Rightarrow> 64 word \<Rightarrow> bool \<times> obs_output" where
  "pop_packet env st t =
     (let preserve = has_flag (oo_delay_cur_flags st) OBS_OUTPUT_DELAY_PRESERVE
      in case pq_front (oo_delay_data st) of
           None \<Rightarrow> (False, st)
         | Some dd \<Rightarrow>
             let elapsed_time = t - dd_ts dd
             in if preserve \<and> oo_reconnecting st
                then (False, st\<lparr>oo_active_delay_ns := elapsed_time\<rparr>)
                else if elapsed_time > oo_active_delay_ns st
                then (case pq_pop (oo_delay_data st) of
                        None \<Rightarrow> (False, st)
                      | Some (_, q) \<Rightarrow> (True, process_delay_data env (st\<lparr>oo_delay_data := q\<rparr>) dd))
                else (False, st))"

text \<open>\<open>while (pop_packet(output, t));\<close> may not end if the plugin keeps queueing: \<open>None\<close>.\<close>

partial_function (option) pop_loop :: "output_env \<Rightarrow> obs_output \<Rightarrow> 64 word \<Rightarrow> obs_output option" where
  "pop_loop env st t =
     (case pop_packet env st t of (popped, st) \<Rightarrow> if popped then pop_loop env st t else Some st)"

definition process_delay :: "output_env \<Rightarrow> obs_output \<Rightarrow> encoder_packet \<Rightarrow> 64 word \<Rightarrow> obs_output option" where
  "process_delay env st packet t = pop_loop env (push_packet st packet t) t"

subsection \<open>The callbacks do not touch the delay queue\<close>

named_theorems delay_frame

lemma find_first_frame [delay_frame]:
  "find_first_packet_type_idx (st\<lparr>oo_delay_data := q\<rparr>) = find_first_packet_type_idx st"
  "find_first_packet_type (st\<lparr>oo_delay_data := q\<rparr>) = find_first_packet_type st"
  by (simp_all add: find_first_packet_type_idx_def find_first_packet_type_def fun_eq_iff)

lemma small_frame [delay_frame]:
  "num_audio_mixes (st\<lparr>oo_delay_data := q\<rparr>) = num_audio_mixes st"
  "with_track (st\<lparr>oo_delay_data := q\<rparr>) = with_track st"
  "apply_interleaved_packet_offset (st\<lparr>oo_delay_data := q\<rparr>) = apply_interleaved_packet_offset st"
  "get_interleaved_start_idx (st\<lparr>oo_delay_data := q\<rparr>) = get_interleaved_start_idx st"
  "has_higher_opposing_ts (st\<lparr>oo_delay_data := q\<rparr>) = has_higher_opposing_ts st"
  by (simp_all add: num_audio_mixes_def service_supports_multitrack_def with_track_def get_track_index_def
      apply_interleaved_packet_offset_def get_interleaved_start_idx_def has_higher_opposing_ts_def
      find_first_frame fun_eq_iff cong: option.case_cong)

lemma first_audio_frame [delay_frame]:
  "first_audio_packets (st\<lparr>oo_delay_data := q\<rparr>) is = first_audio_packets st is"
  "premature_loop (st\<lparr>oo_delay_data := q\<rparr>) v is a b c = premature_loop st v is a b c"
  by (induction "is" arbitrary: a b c) (simp_all add: find_first_frame Let_def split: option.split)

lemma update_frame [delay_frame]:
  "check_received (st\<lparr>oo_delay_data := q\<rparr>) p = (check_received st p)\<lparr>oo_delay_data := q\<rparr>"
  "set_higher_ts (st\<lparr>oo_delay_data := q\<rparr>) p = (set_higher_ts st p)\<lparr>oo_delay_data := q\<rparr>"
  "insert_interleaved_packet (st\<lparr>oo_delay_data := q\<rparr>) p = (insert_interleaved_packet st p)\<lparr>oo_delay_data := q\<rparr>"
  "discard_to_idx (st\<lparr>oo_delay_data := q\<rparr>) i = (discard_to_idx st i)\<lparr>oo_delay_data := q\<rparr>"
  "deliver (st\<lparr>oo_delay_data := q\<rparr>) p = (deliver st p)\<lparr>oo_delay_data := q\<rparr>"
  "free_packet (st\<lparr>oo_delay_data := q\<rparr>) p = (free_packet st p)\<lparr>oo_delay_data := q\<rparr>"
  by (simp_all add: check_received_def set_higher_ts_def insert_interleaved_packet_def discard_to_idx_def
      deliver_def free_packet_def)

lemma send_frame [delay_frame]:
  "send_interleaved (st\<lparr>oo_delay_data := q\<rparr>) = (send_interleaved st)\<lparr>oo_delay_data := q\<rparr>"
  by (auto simp: send_interleaved_def Let_def small_frame deliver_def free_packet_def split: list.split)

lemma discard_unused_frame [delay_frame]:
  "discard_unused_audio_packets (st\<lparr>oo_delay_data := q\<rparr>) t = (discard_unused_audio_packets st t)\<lparr>oo_delay_data := q\<rparr>"
  by (simp add: discard_unused_audio_packets_def Let_def discard_to_idx_def)

lemma resort_frame [delay_frame]:
  "resort_interleaved_packets (st\<lparr>oo_delay_data := q\<rparr>) = (resort_interleaved_packets st)\<lparr>oo_delay_data := q\<rparr>"
  by (simp add: resort_eq)

lemma prune_frame [delay_frame]:
  "prune_premature_packets (st\<lparr>oo_delay_data := q\<rparr>) =
     (case prune_premature_packets st of (n, st) \<Rightarrow> (n, st\<lparr>oo_delay_data := q\<rparr>))"
  "prune_interleaved_packets (st\<lparr>oo_delay_data := q\<rparr>) =
     (case prune_interleaved_packets st of (b, st) \<Rightarrow> (b, st\<lparr>oo_delay_data := q\<rparr>))"
proof -
  show 1: "prune_premature_packets (st\<lparr>oo_delay_data := q\<rparr>) =
     (case prune_premature_packets st of (n, st) \<Rightarrow> (n, st\<lparr>oo_delay_data := q\<rparr>))"
    by (auto simp: prune_premature_packets_def Let_def find_first_frame small_frame first_audio_frame split: option.split)
  show "prune_interleaved_packets (st\<lparr>oo_delay_data := q\<rparr>) =
     (case prune_interleaved_packets st of (b, st) \<Rightarrow> (b, st\<lparr>oo_delay_data := q\<rparr>))"
    by (auto simp: prune_interleaved_packets_def 1 Let_def small_frame discard_to_idx_def split: prod.split)
qed

lemma received_frame:
  "num_audio_mixes (st\<lparr>oo_received_video := b\<rparr>) = num_audio_mixes st"
  "first_audio_packets (st\<lparr>oo_received_video := b\<rparr>) is = first_audio_packets st is"
proof -
  show "num_audio_mixes (st\<lparr>oo_received_video := b\<rparr>) = num_audio_mixes st"
    by (simp add: num_audio_mixes_def service_supports_multitrack_def)
  show "first_audio_packets (st\<lparr>oo_received_video := b\<rparr>) is = first_audio_packets st is"
    by (induction "is") (simp_all add: find_first_packet_type_def find_first_packet_type_idx_def split: option.split)
qed

lemma initialize_frame [delay_frame]:
  "initialize_interleaved_packets (st\<lparr>oo_delay_data := q\<rparr>) =
     (case initialize_interleaved_packets st of (b, st) \<Rightarrow> (b, st\<lparr>oo_delay_data := q\<rparr>))"
  by (auto simp: initialize_interleaved_packets_def Let_def find_first_frame small_frame first_audio_frame
      received_frame apply_interleaved_packet_offset_def split: option.split)

text \<open>The callback before the start of the stream, once the packet is in the queue.\<close>

definition try_start :: "obs_output \<Rightarrow> obs_output" where
  "try_start st =
     (if started st then
        (case prune_interleaved_packets st of
           (pruned, st) \<Rightarrow>
             if pruned then
               (case initialize_interleaved_packets st of
                  (ready, st) \<Rightarrow> if ready then send_interleaved (resort_interleaved_packets st) else st)
             else st)
      else st)"

lemma interleave_not_started:
  assumes "\<not> started st"
  shows "interleave_packets st p =
    (let q = with_track st p
     in if \<not> oo_received_video st \<and> pkt_type q = OBS_ENCODER_VIDEO \<and> \<not> pkt_keyframe q
        then discard_unused_audio_packets st (pkt_dts_usec q)
        else try_start (set_higher_ts (insert_interleaved_packet (check_received st q) q) q))"
proof -
  have no: "(oo_received_audio st \<and> oo_received_video st) = False" using assms by (simp add: started_def)
  show ?thesis
    unfolding interleave_packets_def Let_def duplicate_packet if_cancel no if_False prod.case try_start_def
      started_def not_False_eq_True if_True ..
qed

lemma try_start_frame: "try_start (st\<lparr>oo_delay_data := q\<rparr>) = (try_start st)\<lparr>oo_delay_data := q\<rparr>"
proof -
  obtain b st1 where 1: "prune_interleaved_packets st = (b, st1)" by fastforce
  obtain r st2 where 2: "initialize_interleaved_packets st1 = (r, st2)" by fastforce
  show ?thesis by (simp add: try_start_def started_def prune_frame initialize_frame resort_frame send_frame 1 2)
qed

lemma started_frame: "started (st\<lparr>oo_delay_data := q\<rparr>) = started st" "adjusted (st\<lparr>oo_delay_data := q\<rparr>) = adjusted st"
  by (simp_all add: started_def adjusted_def small_frame fun_eq_iff)

lemma interleave_frame [delay_frame]:
  "interleave_packets (st\<lparr>oo_delay_data := q\<rparr>) p = (interleave_packets st p)\<lparr>oo_delay_data := q\<rparr>"
proof (cases "started st")
  case True
  then show ?thesis by (simp add: interleave_started started_frame update_frame send_frame)
next
  case False
  then show ?thesis
    by (simp add: interleave_not_started started_frame small_frame update_frame discard_unused_frame try_start_frame Let_def)
qed

lemma run_callback_frame:
  "run_callback (st\<lparr>oo_delay_data := q\<rparr>) cb p = (run_callback st cb p)\<lparr>oo_delay_data := q\<rparr>"
  by (cases cb) (simp_all add: run_callback_def interleave_frame default_encoded_callback_def Let_def delay_frame)


subsection \<open>The delay queue is a queue\<close>

definition same_delay :: "obs_output \<Rightarrow> obs_output \<Rightarrow> bool" where
  "same_delay st st' \<longleftrightarrow> oo_delay_active st' = oo_delay_active st \<and> oo_delay_capturing st' = oo_delay_capturing st \<and>
     oo_delay_cur_flags st' = oo_delay_cur_flags st \<and> oo_reconnecting st' = oo_reconnecting st \<and>
     oo_active_delay_ns st' = oo_active_delay_ns st \<and> oo_delay_callback st' = oo_delay_callback st \<and>
     oo_active st' = oo_active st \<and> oo_hooks st' = oo_hooks st \<and> oo_info_flags st' = oo_info_flags st \<and>
     oo_video_encoder st' = oo_video_encoder st \<and> oo_audio_encoders st' = oo_audio_encoders st \<and>
     oo_service st' = oo_service st"

lemma same_delay_refl [simp]: "same_delay st st"
  by (simp add: same_delay_def)

lemma same_delay_trans: "same_delay a b \<Longrightarrow> same_delay b c \<Longrightarrow> same_delay a c"
  by (simp add: same_delay_def)

lemma same_delay_ops:
  "same_delay st (check_received st p)" "same_delay st (set_higher_ts st p)"
  "same_delay st (insert_interleaved_packet st p)" "same_delay st (discard_to_idx st i)"
  "same_delay st (free_packet st p)" "same_delay st (deliver st p)"
  "same_delay st (send_interleaved st)" "same_delay st (discard_unused_audio_packets st t)"
  "same_delay st (resort_interleaved_packets st)"
  by (simp_all add: same_delay_def check_received_def set_higher_ts_def insert_interleaved_packet_def
      discard_to_idx_def free_packet_def deliver_def discard_unused_audio_packets_def resort_eq
      send_interleaved_def Let_def split: list.split)

lemma same_delay_prune: "prune_interleaved_packets st = (b, st') \<Longrightarrow> same_delay st st'"
  by (auto simp: prune_interleaved_packets_def prune_premature_packets_def Let_def discard_to_idx_def same_delay_def
      split: option.splits if_splits)

lemma same_delay_initialize: "initialize_interleaved_packets st = (b, st') \<Longrightarrow> same_delay st st'"
  by (auto simp: initialize_interleaved_packets_def Let_def same_delay_def split: option.splits if_splits)

lemma same_delay_try_start: "same_delay st (try_start st)"
proof -
  obtain b st1 where 1: "prune_interleaved_packets st = (b, st1)" by fastforce
  obtain r st2 where 2: "initialize_interleaved_packets st1 = (r, st2)" by fastforce
  note s1 = same_delay_prune [OF 1] and s2 = same_delay_initialize [OF 2]
  have "same_delay st (send_interleaved (resort_interleaved_packets st2))"
    by (intro same_delay_trans [OF _ same_delay_ops(7)] same_delay_trans [OF _ same_delay_ops(9)]
        same_delay_trans [OF s1 s2])
  with s1 s2 show ?thesis by (auto simp: try_start_def 1 2 intro: same_delay_trans)
qed

lemma same_delay_interleave: "same_delay st (interleave_packets st p)"
proof (cases "started st")
  case True
  show ?thesis
    unfolding interleave_started [OF True]
    by (intro same_delay_trans [OF _ same_delay_ops(7)] same_delay_trans [OF _ same_delay_ops(2)] same_delay_ops(3))
next
  case False
  have "same_delay st (try_start (set_higher_ts (insert_interleaved_packet (check_received st q) q) q))" for q
    by (intro same_delay_trans [OF _ same_delay_try_start] same_delay_trans [OF _ same_delay_ops(2)]
        same_delay_trans [OF _ same_delay_ops(3)] same_delay_ops(1))
  then show ?thesis unfolding interleave_not_started [OF False] Let_def by (simp add: same_delay_ops)
qed

lemma same_delay_callback: "same_delay st (run_callback st cb p)"
proof (cases cb)
  case Interleave_Packets
  then show ?thesis by (simp add: run_callback_def same_delay_interleave)
qed (simp_all add: run_callback_def default_encoded_callback_def Let_def deliver_def free_packet_def same_delay_def)

lemma callback_delay_data: "oo_delay_data (run_callback st cb p) = oo_delay_data st"
proof -
  have "run_callback st cb p = (run_callback st cb p)\<lparr>oo_delay_data := oo_delay_data st\<rparr>"
    using run_callback_frame [where st = st and q = "oo_delay_data st" and cb = cb and p = p] by simp
  from arg_cong [OF this, of oo_delay_data] show ?thesis by simp
qed

lemma callback_delay_callback [simp]: "oo_delay_callback (run_callback st cb p) = oo_delay_callback st"
  using same_delay_callback [of st cb p] by (simp add: same_delay_def)

text \<open>Old enough to be sent at time \<open>t\<close>.\<close>

definition expired :: "obs_output \<Rightarrow> 64 word \<Rightarrow> delay_data \<Rightarrow> bool" where
  "expired st t dd \<longleftrightarrow> t - dd_ts dd > oo_active_delay_ns st"

definition delaying :: "obs_output \<Rightarrow> bool" where
  "delaying st \<longleftrightarrow> oo_delay_active st \<and> oo_delay_capturing st \<and>
     \<not> (has_flag (oo_delay_cur_flags st) OBS_OUTPUT_DELAY_PRESERVE \<and> oo_reconnecting st)"

definition callback_run :: "obs_output \<Rightarrow> delay_data list \<Rightarrow> obs_output" where
  "callback_run st dds = foldl (\<lambda>s dd. run_callback s (oo_delay_callback st) (dd_packet dd)) st dds"

lemma same_delay_expired: "same_delay st st' \<Longrightarrow> expired st' t = expired st t \<and> delaying st' = delaying st"
  by (simp add: same_delay_def expired_def delaying_def fun_eq_iff)

lemma pop_loop_fifo:
  "pq_ok (oo_delay_data st) \<Longrightarrow> pq_items (oo_delay_data st) = dds \<Longrightarrow> \<forall>dd \<in> set dds. dd_msg dd = DELAY_MSG_PACKET \<Longrightarrow>
   delaying st \<Longrightarrow>
   \<exists>q. pop_loop env st t = Some (callback_run (st\<lparr>oo_delay_data := q\<rparr>) (takeWhile (expired st t) dds)) \<and>
     pq_ok q \<and> pq_items q = dropWhile (expired st t) dds"
proof (induction dds arbitrary: st)
  case Nil
  then have "pop_packet env st t = (False, st)" by (simp add: pop_packet_def pq.front_items)
  with Nil show ?case
    by (intro exI [of _ "oo_delay_data st"], subst pop_loop.simps) (simp add: callback_run_def)
next
  case (Cons dd dds)
  have front: "pq_front (oo_delay_data st) = Some dd" using Cons.prems by (simp add: pq.front_items)
  obtain q1 where q1: "pq_pop (oo_delay_data st) = Some (dd, q1)" "pq_ok q1" "pq_items q1 = dds"
    using pq.deq_some [OF Cons.prems(1,2)] by blast
  show ?case
  proof (cases "expired st t dd")
    case False
    then have "pop_packet env st t = (False, st)"
      using Cons.prems(4) front by (auto simp: pop_packet_def delaying_def expired_def Let_def)
    with False Cons.prems show ?thesis
      by (intro exI [of _ "oo_delay_data st"], subst pop_loop.simps) (simp add: callback_run_def)
  next
    case True
    define st1 where "st1 = run_callback (st\<lparr>oo_delay_data := q1\<rparr>) (oo_delay_callback st) (dd_packet dd)"
    have pop: "pop_packet env st t = (True, st1)"
      using Cons.prems(3,4) front q1(1) True
      by (auto simp: pop_packet_def delaying_def expired_def Let_def process_delay_data_def st1_def)
    have same: "same_delay st st1"
      using same_delay_callback [of "st\<lparr>oo_delay_data := q1\<rparr>"] unfolding st1_def
      by (rule same_delay_trans [rotated]) (simp add: same_delay_def)
    have data: "oo_delay_data st1 = q1" by (simp add: st1_def callback_delay_data)
    have "\<exists>q. pop_loop env st1 t = Some (callback_run (st1\<lparr>oo_delay_data := q\<rparr>) (takeWhile (expired st1 t) dds)) \<and>
        pq_ok q \<and> pq_items q = dropWhile (expired st1 t) dds"
      using q1 data Cons.prems(3,4) same_delay_expired [OF same, of t] by (intro Cons.IH) simp_all
    then obtain q where q: "pop_loop env st1 t = Some (callback_run (st1\<lparr>oo_delay_data := q\<rparr>) (takeWhile (expired st t) dds))"
        "pq_ok q" "pq_items q = dropWhile (expired st t) dds"
      using same_delay_expired [OF same, of t] by auto
    have cb: "oo_delay_callback st1 = oo_delay_callback st" using same by (simp add: same_delay_def)
    have "st1\<lparr>oo_delay_data := q\<rparr> = run_callback (st\<lparr>oo_delay_data := q\<rparr>) (oo_delay_callback st) (dd_packet dd)"
      by (simp add: st1_def flip: run_callback_frame)
    with q True pop cb show ?thesis
      by (intro exI [of _ q], subst pop_loop.simps) (simp add: callback_run_def)
  qed
qed

subsection \<open>Reconnecting doubles the wait\<close>

definition retry_signals :: "obs_output \<Rightarrow> out_signal list" where
  "retry_signals st = filter (\<lambda>s. case s of Out_Signal _ \<Rightarrow> False | _ \<Rightarrow> True) (oo_signals st)"

definition same_retry :: "obs_output \<Rightarrow> obs_output \<Rightarrow> bool" where
  "same_retry st st' \<longleftrightarrow> oo_reconnect_retry_sec st' = oo_reconnect_retry_sec st \<and>
     oo_reconnect_retry_max st' = oo_reconnect_retry_max st \<and> oo_reconnect_retries st' = oo_reconnect_retries st \<and>
     oo_reconnect_retry_cur_sec st' = oo_reconnect_retry_cur_sec st \<and> oo_reconnecting st' = oo_reconnecting st \<and>
     retry_signals st' = retry_signals st"

lemma same_retry_refl [simp]: "same_retry st st"
  by (simp add: same_retry_def)

lemma same_retry_trans: "same_retry a b \<Longrightarrow> same_retry b c \<Longrightarrow> same_retry a c"
  by (simp add: same_retry_def)

lemma cleanup_spec:
  "pq_ok (oo_delay_data st) \<Longrightarrow> pq_items (oo_delay_data st) = dds \<Longrightarrow>
   \<exists>q. cleanup_loop st = st\<lparr>oo_delay_data := q,
        oo_freed := oo_freed st @ map dd_packet (filter (\<lambda>dd. dd_msg dd = DELAY_MSG_PACKET) dds)\<rparr> \<and>
     pq_ok q \<and> pq_items q = []"
proof (induction dds arbitrary: st)
  case Nil
  then show ?case
    by (intro exI [of _ "oo_delay_data st"], subst cleanup_loop.simps) (simp add: pq.deq_none)
next
  case (Cons dd dds)
  obtain q where q: "pq_pop (oo_delay_data st) = Some (dd, q)" "pq_ok q" "pq_items q = dds"
    using pq.deq_some [OF Cons.prems] by blast
  with Cons.IH [of "if dd_msg dd = DELAY_MSG_PACKET then free_packet (st\<lparr>oo_delay_data := q\<rparr>) (dd_packet dd) else st\<lparr>oo_delay_data := q\<rparr>"]
  show ?case by (subst cleanup_loop.simps) (auto simp: free_packet_def)
qed

lemma hook_fold:
  assumes "\<And>s i. same_retry s (f s i)"
  shows "same_retry s (foldl f s is)"
  by (induction "is" arbitrary: s) (auto intro: same_retry_trans assms)

lemma same_retry_stop_audio: "same_retry st (stop_audio_encoders st cb)"
  unfolding stop_audio_encoders_def
  by (rule hook_fold) (simp add: encoder_unhook_def unhook_def same_retry_def retry_signals_def split: option.split)

lemma same_retry_end:
  assumes "pq_ok (oo_delay_data st)"
  shows "same_retry st (obs_output_end_data_capture st) \<and> pq_ok (oo_delay_data (obs_output_end_data_capture st)) \<and>
    oo_delay_active (obs_output_end_data_capture st) = oo_delay_active st"
proof (cases "oo_delay_active st \<or> \<not> oo_active st")
  case True
  with assms show ?thesis by (auto simp: obs_output_end_data_capture_def same_retry_def retry_signals_def)
next
  case False
  obtain e v a sv where flags: "convert_flags st 0 = (e, v, a, sv)" by (cases "convert_flags st 0") auto
  define cb where "cb = (if oo_active_delay_ns st \<noteq> 0 then Process_Delay
    else if v \<and> a then Interleave_Packets else Default_Encoded_Callback)"
  define st1 where "st1 = (if e then
       let st = (if v then encoder_unhook st (oo_video_encoder st) cb else st)
       in if a then stop_audio_encoders st cb else st
     else let st = (if v then unhook st Raw_Video_Hook else st) in if a then unhook st Raw_Audio_Hook else st)"
  have keep: "oo_delay_data (stop_audio_encoders s cb) = oo_delay_data s \<and>
      oo_delay_active (stop_audio_encoders s cb) = oo_delay_active s" for s
  proof -
    have "oo_delay_data (foldl (\<lambda>s i. encoder_unhook s (es i) cb) s is) = oo_delay_data s \<and>
        oo_delay_active (foldl (\<lambda>s i. encoder_unhook s (es i) cb) s is) = oo_delay_active s" for es "is"
      by (induction "is" arbitrary: s) (auto simp: encoder_unhook_def unhook_def split: option.splits)
    then show ?thesis by (simp add: stop_audio_encoders_def)
  qed
  have video: "same_retry st (encoder_unhook st enc cb)" for enc
    by (simp add: encoder_unhook_def unhook_def same_retry_def retry_signals_def split: option.split)
  have "same_retry st st1"
    using video same_retry_stop_audio same_retry_trans [OF video same_retry_stop_audio]
    by (auto simp: st1_def Let_def unhook_def) (simp_all add: same_retry_def retry_signals_def)
  moreover have "oo_delay_data st1 = oo_delay_data st" "oo_delay_active st1 = oo_delay_active st"
    by (simp_all add: st1_def Let_def keep unhook_def encoder_unhook_def split: option.split)
  moreover from this assms obtain q fr where "cleanup_loop st1 = st1\<lparr>oo_delay_data := q, oo_freed := fr\<rparr>" "pq_ok q"
    using cleanup_spec [OF _ refl, of st1] by auto
  moreover have "obs_output_end_data_capture st =
      (do_output_signal (if oo_active_delay_ns st1 \<noteq> 0 then obs_output_cleanup_delay st1 else st1) ''deactivate'')\<lparr>oo_active := False\<rparr>"
    using False by (simp add: obs_output_end_data_capture_def flags cb_def st1_def Let_def)
  ultimately show ?thesis
    using assms by (auto simp: obs_output_cleanup_delay_def do_output_signal_def same_retry_def retry_signals_def)
qed

text \<open>\<open>n\<close> failed attempts in a row, each reported with a code other than success.\<close>

definition fail_run :: "obs_output \<Rightarrow> int list \<Rightarrow> obs_output" where
  "fail_run st codes = foldl (obs_output_signal_stop True) st codes"

definition retrying :: "obs_output \<Rightarrow> obs_output \<Rightarrow> nat \<Rightarrow> bool" where
  "retrying st0 st n \<longleftrightarrow> pq_ok (oo_delay_data st) \<and>
     oo_reconnect_retry_sec st = oo_reconnect_retry_sec st0 \<and>
     oo_reconnect_retry_max st = oo_reconnect_retry_max st0 \<and> oo_reconnecting st \<and>
     oo_reconnect_retries st = int n \<and> oo_reconnect_retry_cur_sec st = oo_reconnect_retry_sec st0 * 2 ^ (n - 1) \<and>
     retry_signals st = retry_signals st0 @ map (\<lambda>i. Out_Reconnect (oo_reconnect_retry_sec st0 * 2 ^ i)) [0 ..< n]"

lemma first_failure:
  assumes "pq_ok (oo_delay_data st)" "\<not> oo_reconnecting st" "0 < oo_reconnect_retry_max st"
  shows "retrying st (obs_output_signal_stop True st OBS_OUTPUT_DISCONNECTED) 1"
proof -
  have "same_retry st (obs_output_end_data_capture st)" "pq_ok (oo_delay_data (obs_output_end_data_capture st))"
    using same_retry_end [OF assms(1)] by simp_all
  then show ?thesis
    using assms by (simp add: retrying_def obs_output_signal_stop_def output_reconnect_def Let_def same_retry_def
        signal_reconnect_def retry_signals_def)
qed

lemma next_failure:
  assumes "retrying st0 st n" "0 < n" "int n < oo_reconnect_retry_max st0" "code \<noteq> OBS_OUTPUT_SUCCESS"
  shows "retrying st0 (obs_output_signal_stop True st code) (Suc n)"
proof -
  have "same_retry st (obs_output_end_data_capture st)" "pq_ok (oo_delay_data (obs_output_end_data_capture st))"
    using same_retry_end [of st] assms(1) by (simp_all add: retrying_def)
  moreover obtain m where "n = Suc m" using assms(2) by (cases n) auto
  ultimately show ?thesis
    using assms by (simp add: retrying_def obs_output_signal_stop_def output_reconnect_def Let_def same_retry_def
        signal_reconnect_def retry_signals_def)
qed

lemma last_failure:
  assumes "retrying st0 st n" "0 < n" "int n = oo_reconnect_retry_max st0" "code \<noteq> OBS_OUTPUT_SUCCESS"
  shows "\<not> oo_reconnecting (obs_output_signal_stop True st code) \<and>
    retry_signals (obs_output_signal_stop True st code) = retry_signals st @ [Out_Stop OBS_OUTPUT_DISCONNECTED]"
proof -
  let ?st1 = "obs_output_end_data_capture st"
  have 1: "same_retry st ?st1" "pq_ok (oo_delay_data ?st1)"
    using same_retry_end [of st] assms(1) by (simp_all add: retrying_def)
  let ?st2 = "?st1\<lparr>oo_reconnecting := False, oo_delay_active := False\<rparr>"
  have "same_retry ?st2 (obs_output_end_data_capture ?st2)"
    using same_retry_end [of ?st2] 1 by simp
  with 1 assms show ?thesis
    by (auto simp: retrying_def obs_output_signal_stop_def output_reconnect_def Let_def same_retry_def
        signal_stop_def retry_signals_def)
qed

lemma fail_run_retrying:
  assumes "pq_ok (oo_delay_data st)" "\<not> oo_reconnecting st"
    "length codes < nat (oo_reconnect_retry_max st)" "\<forall>c \<in> set codes. c \<noteq> OBS_OUTPUT_SUCCESS"
  shows "retrying st (fail_run st (OBS_OUTPUT_DISCONNECTED # codes)) (Suc (length codes))"
  using assms(3,4)
proof (induction codes rule: rev_induct)
  case Nil
  then show ?case using first_failure [OF assms(1,2)] by (simp add: fail_run_def)
next
  case (snoc c codes)
  then have "retrying st (fail_run st (OBS_OUTPUT_DISCONNECTED # codes)) (Suc (length codes))" by simp
  from next_failure [OF this] snoc.prems show ?case by (simp add: fail_run_def)
qed


subsection \<open>Hooks and the active flag\<close>

definition current_callback :: "obs_output \<Rightarrow> bool \<Rightarrow> bool \<Rightarrow> encoded_callback" where
  "current_callback st v a =
     (if oo_active_delay_ns st \<noteq> 0 then Process_Delay
      else if v \<and> a then Interleave_Packets else Default_Encoded_Callback)"

definition audio_hooks :: "obs_output \<Rightarrow> encoded_callback \<Rightarrow> hook set" where
  "audio_hooks st cb =
     {Encoder_Hook e cb | e. \<exists>i < num_audio_mixes st. oo_audio_encoders st ! i = Some e}"

definition video_hooks :: "obs_output \<Rightarrow> encoded_callback \<Rightarrow> hook set" where
  "video_hooks st cb = {Encoder_Hook e cb | e. oo_video_encoder st = Some e}"

text \<open>The hooks that \<open>obs_output_end_data_capture\<close> is going to remove.\<close>

definition expected_hooks :: "obs_output \<Rightarrow> hook set" where
  "expected_hooks st =
     (case convert_flags st 0 of (e, v, a, _) \<Rightarrow>
        let cb = current_callback st v a
        in if e then (if v then video_hooks st cb else {}) \<union> (if a then audio_hooks st cb else {})
           else (if v then {Raw_Video_Hook} else {}) \<union> (if a then {Raw_Audio_Hook} else {}))"

definition capture_inv :: "obs_output \<Rightarrow> bool" where
  "capture_inv st \<longleftrightarrow> distinct (oo_hooks st) \<and> pq_ok (oo_delay_data st) \<and>
     (if oo_active st then set (oo_hooks st) = expected_hooks st
      else oo_hooks st = [] \<and> oo_active_delay_ns st = 0 \<and> \<not> oo_delay_active st)"

text \<open>Fields the invariant depends on besides the hooks.\<close>

definition same_setup :: "obs_output \<Rightarrow> obs_output \<Rightarrow> bool" where
  "same_setup st st' \<longleftrightarrow> oo_info_flags st' = oo_info_flags st \<and> oo_service st' = oo_service st \<and>
     oo_video_encoder st' = oo_video_encoder st \<and> oo_audio_encoders st' = oo_audio_encoders st"

lemma same_setup_mixes: "same_setup st st' \<Longrightarrow> num_audio_mixes st' = num_audio_mixes st"
  by (simp add: same_setup_def num_audio_mixes_def service_supports_multitrack_def)

lemma same_setup_flags: "same_setup st st' \<Longrightarrow> convert_flags st' = convert_flags st"
  by (simp add: same_setup_def convert_flags_def fun_eq_iff)

lemma same_setup_hooks: "same_setup st st' \<Longrightarrow> audio_hooks st' = audio_hooks st \<and> video_hooks st' = video_hooks st"
  by (auto simp: audio_hooks_def video_hooks_def fun_eq_iff same_setup_mixes) (auto simp: same_setup_def)

lemma same_setup_expected:
  "same_setup st st' \<Longrightarrow> oo_active_delay_ns st' = oo_active_delay_ns st \<Longrightarrow> expected_hooks st' = expected_hooks st"
  using same_setup_hooks [of st st']
  by (cases "convert_flags st 0") (simp add: expected_hooks_def same_setup_flags current_callback_def Let_def)

lemma capture_inv_cong:
  assumes "capture_inv st" "same_setup st st'" "oo_hooks st' = oo_hooks st" "oo_active st' = oo_active st"
    "oo_active_delay_ns st' = oo_active_delay_ns st" "pq_ok (oo_delay_data st')"
    "oo_delay_active st' \<longrightarrow> oo_delay_active st"
  shows "capture_inv st'"
  using assms same_setup_expected [OF assms(2,5)] by (auto simp: capture_inv_def)

lemma hook_spec: "distinct (oo_hooks st) \<Longrightarrow> distinct (oo_hooks (hook st h)) \<and> set (oo_hooks (hook st h)) = insert h (set (oo_hooks st))"
  by (auto simp: hook_def)

lemma unhook_spec: "distinct (oo_hooks st) \<Longrightarrow> distinct (oo_hooks (unhook st h)) \<and> set (oo_hooks (unhook st h)) = set (oo_hooks st) - {h}"
  by (auto simp: unhook_def)

text \<open>Only the hooks change.\<close>

definition hooks_only :: "obs_output \<Rightarrow> obs_output \<Rightarrow> bool" where
  "hooks_only st st' \<longleftrightarrow> (\<exists>hs. st' = st\<lparr>oo_hooks := hs\<rparr>)"

lemma hooks_only_trans: "hooks_only a b \<Longrightarrow> hooks_only b c \<Longrightarrow> hooks_only a c"
  by (auto simp: hooks_only_def)

lemma hooks_only_refl [simp]: "hooks_only st st"
  unfolding hooks_only_def by (rule exI [of _ "oo_hooks st"]) simp

lemma hooks_only_upd [simp]: "hooks_only st (st\<lparr>oo_hooks := hs\<rparr>)"
  unfolding hooks_only_def by (rule exI) (rule refl)

lemma hooks_only_ops [simp]: "hooks_only st (hook st h)" "hooks_only st (unhook st h)"
    "hooks_only st (encoder_hook st e cb)" "hooks_only st (encoder_unhook st e cb)"
proof -
  show h: "hooks_only st (hook st h)" for h
    by (simp add: hook_def)
  show u: "hooks_only st (unhook st h)" for h by (simp add: unhook_def)
  show "hooks_only st (encoder_hook st e cb)" "hooks_only st (encoder_unhook st e cb)"
    by (simp_all add: encoder_hook_def encoder_unhook_def h u split: option.split)
qed

lemma start_audio_spec:
  assumes "distinct (oo_hooks st)"
  shows "hooks_only st (start_audio_encoders st cb) \<and> distinct (oo_hooks (start_audio_encoders st cb)) \<and>
    set (oo_hooks (start_audio_encoders st cb)) = set (oo_hooks st) \<union> audio_hooks st cb"
proof -
  have "hooks_only s (foldl (\<lambda>s i. encoder_hook s (es ! i) cb) s is) \<and>
      distinct (oo_hooks (foldl (\<lambda>s i. encoder_hook s (es ! i) cb) s is)) \<and>
      set (oo_hooks (foldl (\<lambda>s i. encoder_hook s (es ! i) cb) s is)) =
        set (oo_hooks s) \<union> {Encoder_Hook e cb | e. \<exists>i \<in> set is. es ! i = Some e}"
    if "distinct (oo_hooks s)" for s es "is"
    using that
  proof (induction "is" arbitrary: s)
    case (Cons i "is")
    have "distinct (oo_hooks (encoder_hook s (es ! i) cb)) \<and>
        set (oo_hooks (encoder_hook s (es ! i) cb)) = set (oo_hooks s) \<union> {Encoder_Hook e cb | e. es ! i = Some e}"
      using hook_spec [OF Cons.prems] Cons.prems by (auto simp: encoder_hook_def split: option.split)
    with Cons.IH [of "encoder_hook s (es ! i) cb"] show ?case
      by (auto intro: hooks_only_trans [OF hooks_only_ops(3)])
  qed simp
  from this [OF assms, of "oo_audio_encoders st" "[0 ..< num_audio_mixes st]"] show ?thesis
    by (auto simp: start_audio_encoders_def audio_hooks_def)
qed

lemma stop_audio_spec:
  assumes "distinct (oo_hooks st)"
  shows "hooks_only st (stop_audio_encoders st cb) \<and> distinct (oo_hooks (stop_audio_encoders st cb)) \<and>
    set (oo_hooks (stop_audio_encoders st cb)) = set (oo_hooks st) - audio_hooks st cb"
proof -
  have "hooks_only s (foldl (\<lambda>s i. encoder_unhook s (es ! i) cb) s is) \<and>
      distinct (oo_hooks (foldl (\<lambda>s i. encoder_unhook s (es ! i) cb) s is)) \<and>
      set (oo_hooks (foldl (\<lambda>s i. encoder_unhook s (es ! i) cb) s is)) =
        set (oo_hooks s) - {Encoder_Hook e cb | e. \<exists>i \<in> set is. es ! i = Some e}"
    if "distinct (oo_hooks s)" for s es "is"
    using that
  proof (induction "is" arbitrary: s)
    case (Cons i "is")
    have "distinct (oo_hooks (encoder_unhook s (es ! i) cb)) \<and>
        set (oo_hooks (encoder_unhook s (es ! i) cb)) = set (oo_hooks s) - {Encoder_Hook e cb | e. es ! i = Some e}"
      using unhook_spec [OF Cons.prems] Cons.prems by (auto simp: encoder_unhook_def split: option.split)
    with Cons.IH [of "encoder_unhook s (es ! i) cb"] show ?case
      by (auto intro: hooks_only_trans [OF hooks_only_ops(4)])
  qed simp
  from this [OF assms, of "oo_audio_encoders st" "[0 ..< num_audio_mixes st]"] show ?thesis
    by (auto simp: stop_audio_encoders_def audio_hooks_def)
qed

lemma hooks_only_setup: "hooks_only st st' \<Longrightarrow> same_setup st st' \<and> oo_active_delay_ns st' = oo_active_delay_ns st \<and>
   oo_delay_data st' = oo_delay_data st \<and> oo_delay_active st' = oo_delay_active st \<and> oo_active st' = oo_active st"
  by (auto simp: hooks_only_def same_setup_def)

lemma same_setup_refl [simp]: "same_setup st st"
  by (simp add: same_setup_def)

text \<open>Ending the capture of an active output removes every hook.\<close>

lemma end_capture_inv:
  assumes inv: "capture_inv st"
  shows "capture_inv (obs_output_end_data_capture st)"
    and "\<not> oo_delay_active st \<Longrightarrow> \<not> oo_active (obs_output_end_data_capture st)"
proof -
  let ?st' = "obs_output_end_data_capture st"
  show "capture_inv ?st'"
  proof (cases "oo_delay_active st \<or> \<not> oo_active st")
    case True
    then have "?st' = st\<lparr>oo_delay_capturing := False\<rparr> \<or> ?st' = st" by (auto simp: obs_output_end_data_capture_def)
    moreover have "capture_inv (st\<lparr>oo_delay_capturing := False\<rparr>)"
      using inv by (rule capture_inv_cong) (use inv in \<open>simp_all add: same_setup_def capture_inv_def split: if_splits\<close>)
    ultimately show ?thesis using inv by metis
  next
    case False
    obtain e v a sv where flags: "convert_flags st 0 = (e, v, a, sv)" by (cases "convert_flags st 0") auto
    define cb where "cb = current_callback st v a"
    define s1 where "s1 = (if e then (if v then encoder_unhook st (oo_video_encoder st) cb else st)
      else (if v then unhook st Raw_Video_Hook else st))"
    define s2 where "s2 = (if e then (if a then stop_audio_encoders s1 cb else s1)
      else (if a then unhook s1 Raw_Audio_Hook else s1))"
    have d: "distinct (oo_hooks st)" and set: "set (oo_hooks st) = expected_hooks st" and pq: "pq_ok (oo_delay_data st)"
      using inv False by (auto simp: capture_inv_def)
    have s1: "hooks_only st s1" "distinct (oo_hooks s1)"
      "set (oo_hooks s1) = set (oo_hooks st) - (if v then (if e then video_hooks st cb else {Raw_Video_Hook}) else {})"
      using d unhook_spec [OF d] by (auto simp: s1_def encoder_unhook_def video_hooks_def split: option.split)
    have aud: "audio_hooks s1 = audio_hooks st" using same_setup_hooks hooks_only_setup [OF s1(1)] by blast
    have s2: "hooks_only st s2"
      "set (oo_hooks s2) = set (oo_hooks s1) - (if a then (if e then audio_hooks st cb else {Raw_Audio_Hook}) else {})"
      using stop_audio_spec [OF s1(2), of cb] unhook_spec [OF s1(2)]
        hooks_only_trans [OF s1(1), of s2] s1(1)
      by (cases e; cases a; simp add: s2_def aud)+
    have "set (oo_hooks s2) = {}"
      using set flags unfolding s2(2) s1(3) by (auto simp: expected_hooks_def cb_def Let_def split: if_splits)
    moreover have "?st' = (do_output_signal (if oo_active_delay_ns s2 \<noteq> 0 then obs_output_cleanup_delay s2 else s2) ''deactivate'')\<lparr>oo_active := False\<rparr>"
      using False flags by (auto simp: obs_output_end_data_capture_def s1_def s2_def cb_def current_callback_def Let_def)
    moreover obtain q fr where "cleanup_loop s2 = s2\<lparr>oo_delay_data := q, oo_freed := fr\<rparr>" "pq_ok q"
      using cleanup_spec [OF _ refl, of s2] hooks_only_setup [OF s2(1)] pq by auto
    ultimately show ?thesis
      using hooks_only_setup [OF s2(1)] pq False
      by (auto simp: capture_inv_def obs_output_cleanup_delay_def do_output_signal_def)
  qed
  show "\<not> oo_delay_active st \<Longrightarrow> \<not> oo_active ?st'"
    by (simp add: obs_output_end_data_capture_def Let_def do_output_signal_def split: prod.split)
qed

lemma capture_inv_upd:
  assumes "capture_inv st" "same_setup st st'" "oo_hooks st' = oo_hooks st" "oo_active st' = oo_active st"
    "oo_active_delay_ns st' = oo_active_delay_ns st" "oo_delay_data st' = oo_delay_data st"
    "oo_delay_active st' = oo_delay_active st"
  shows "capture_inv st'"
  using assms by (intro capture_inv_cong [OF assms(1)]) (auto simp: capture_inv_def)

lemma capture_inv_signal: "capture_inv st \<Longrightarrow> capture_inv (do_output_signal st s)"
    "capture_inv st \<Longrightarrow> capture_inv (signal_stop st code)" "capture_inv st \<Longrightarrow> capture_inv (signal_reconnect st)"
  by (rule capture_inv_upd; simp add: do_output_signal_def signal_stop_def signal_reconnect_def same_setup_def)+

lemma capture_inv_push: "capture_inv st \<Longrightarrow> capture_inv (delay_push st dd)"
  by (rule capture_inv_cong) (auto simp: delay_push_def same_setup_def capture_inv_def pq.inv_enq)

lemma capture_inv_delay_off: "capture_inv st \<Longrightarrow> capture_inv (st\<lparr>oo_delay_active := False\<rparr>)"
  by (rule capture_inv_cong) (auto simp: same_setup_def capture_inv_def)

lemma reset_spec: "\<exists>ao fr. reset_packet_data st = st\<lparr>oo_received_audio := False, oo_received_video := False,
    oo_highest_audio_ts := 0, oo_highest_video_ts := 0, oo_video_offset := 0, oo_audio_offsets := ao,
    oo_freed := fr, oo_interleaved := []\<rparr>"
proof -
  have "foldl (\<lambda>st i. st\<lparr>oo_audio_offsets := (oo_audio_offsets st)[0 := 0]\<rparr>) s is =
      s\<lparr>oo_audio_offsets := foldl (\<lambda>ao i. ao[0 := 0]) (oo_audio_offsets s) is\<rparr>" for s :: obs_output and "is" :: "nat list"
    by (induction "is" arbitrary: s) simp_all
  then show ?thesis by (auto simp: reset_packet_data_def free_interleaved_def Let_def)
qed

lemma delay_ns_nonzero: "w \<noteq> 0 \<Longrightarrow> (ucast w * 1000000000 :: 64 word) \<noteq> 0" for w :: "32 word"
proof
  assume w: "w \<noteq> 0" and z: "(ucast w * 1000000000 :: 64 word) = 0"
  have lt: "unat w < 2 ^ 32" using unsigned_less [of w] by simp
  have u: "unat (ucast w :: 64 word) = unat w" using lt by (simp add: unsigned_ucast_eq take_bit_nat_eq_self)
  have "unat (ucast w * 1000000000 :: 64 word) = unat w * 1000000000"
    using lt by (simp add: unat_word_ariths u)
  with z have "unat w = 0" by simp
  with w show False by (simp add: unat_eq_0)
qed

text \<open>Beginning the capture of an inactive output hooks exactly what ending it unhooks.\<close>

lemma hook_capture_inv:
  assumes inv: "capture_inv st" and off: "\<not> oo_active st" and flags: "convert_flags st 0 = (e, v, a, sv)"
  shows "capture_inv ((hook_data_capture st e v a)\<lparr>oo_active := True\<rparr>)"
proof -
  have h: "oo_hooks st = []" and ns: "oo_active_delay_ns st = 0" and pq: "pq_ok (oo_delay_data st)"
    and noa: "\<not> oo_delay_active st" using inv off by (simp_all add: capture_inv_def)
  show ?thesis
  proof (cases e)
    case False
    define s1 where "s1 = (if v then hook st Raw_Video_Hook else st)"
    define s2 where "s2 = (if a then hook s1 Raw_Audio_Hook else s1)"
    have "hooks_only st s1" by (simp add: s1_def)
    then have "hooks_only st s2" by (auto simp: s2_def intro: hooks_only_trans)
    moreover have "distinct (oo_hooks s2)"
      "set (oo_hooks s2) = (if v then {Raw_Video_Hook} else {}) \<union> (if a then {Raw_Audio_Hook} else {})"
      using h by (auto simp: s1_def s2_def hook_def)
    moreover have "hook_data_capture st e v a = s2" using False by (simp add: hook_data_capture_def s1_def s2_def Let_def)
    moreover have "same_setup st (s2\<lparr>oo_active := True\<rparr>)"
      using hooks_only_setup [OF \<open>hooks_only st s2\<close>] by (simp add: same_setup_def)
    ultimately show ?thesis
      using hooks_only_setup [of st s2] pq flags False same_setup_flags [of st "s2\<lparr>oo_active := True\<rparr>"]
      by (simp add: capture_inv_def expected_hooks_def)
  next
    case True
    define cb where "cb = (if oo_delay_sec st \<noteq> 0 then Process_Delay
      else if v \<and> a then Interleave_Packets else Default_Encoded_Callback)"
    obtain ao fr where reset: "reset_packet_data st = st\<lparr>oo_received_audio := False, oo_received_video := False,
      oo_highest_audio_ts := 0, oo_highest_video_ts := 0, oo_video_offset := 0, oo_audio_offsets := ao,
      oo_freed := fr, oo_interleaved := []\<rparr>" using reset_spec by blast
    define s0 where "s0 = (if oo_delay_sec st \<noteq> 0 then
      (reset_packet_data st)\<lparr>oo_active_delay_ns := ucast (oo_delay_sec st) * 1000000000,
        oo_delay_cur_flags := oo_delay_flags st,
        oo_delay_callback := (if v \<and> a then Interleave_Packets else Default_Encoded_Callback),
        oo_delay_active := True\<rparr> else reset_packet_data st)"
    have s0: "same_setup st s0" "oo_hooks s0 = []" "pq_ok (oo_delay_data s0)" "current_callback s0 v a = cb"
      using h pq ns delay_ns_nonzero [of "oo_delay_sec st"]
      by (auto simp: s0_def reset same_setup_def current_callback_def cb_def)
    define s1 where "s1 = (if a then start_audio_encoders s0 cb else s0)"
    define s2 where "s2 = (if v then encoder_hook s1 (oo_video_encoder s1) cb else s1)"
    have s1: "hooks_only s0 s1" "distinct (oo_hooks s1)" "set (oo_hooks s1) = (if a then audio_hooks s0 cb else {})"
      using start_audio_spec [of s0 cb] s0(2) by (auto simp: s1_def)
    have "hooks_only s0 s2" using s1(1) by (auto simp: s2_def intro: hooks_only_trans)
    note frm = hooks_only_setup [OF this] and vid = hooks_only_setup [OF s1(1)]
    have s2: "distinct (oo_hooks s2)" "set (oo_hooks s2) =
        (if v then video_hooks s0 cb else {}) \<union> (if a then audio_hooks s0 cb else {})"
      using s1 hook_spec [OF s1(2)] vid
      by (auto simp: s2_def encoder_hook_def video_hooks_def same_setup_def split: option.split)
    have "hook_data_capture st e v a = s2"
      using True by (simp add: hook_data_capture_def s0_def s1_def s2_def cb_def Let_def reset split: if_splits)
    moreover have fl: "convert_flags (s2\<lparr>oo_active := True\<rparr>) 0 = (e, v, a, sv)"
      using flags frm s0(1) same_setup_flags [of st "s2\<lparr>oo_active := True\<rparr>"] by (simp add: same_setup_def)
    have cur: "current_callback (s2\<lparr>oo_active := True\<rparr>) v a = cb"
      using frm s0(4) by (simp add: current_callback_def)
    have sets: "audio_hooks (s2\<lparr>oo_active := True\<rparr>) cb = audio_hooks s0 cb" "video_hooks (s2\<lparr>oo_active := True\<rparr>) cb = video_hooks s0 cb"
      using same_setup_hooks [of s0 "s2\<lparr>oo_active := True\<rparr>"] frm by (simp_all add: same_setup_def)
    have "expected_hooks (s2\<lparr>oo_active := True\<rparr>) =
        (if v then video_hooks s0 cb else {}) \<union> (if a then audio_hooks s0 cb else {})"
      unfolding expected_hooks_def fl prod.case Let_def cur sets using True by simp
    ultimately show ?thesis
      using s2 s0(3) frm by (simp add: capture_inv_def)
  qed
qed

lemma begin_delayed_inv: "capture_inv st \<Longrightarrow> capture_inv (snd (begin_delayed_capture st))"
proof -
  assume inv: "capture_inv st"
  obtain ao fr where reset: "reset_packet_data st = st\<lparr>oo_received_audio := False, oo_received_video := False,
      oo_highest_audio_ts := 0, oo_highest_video_ts := 0, oo_video_offset := 0, oo_audio_offsets := ao,
      oo_freed := fr, oo_interleaved := []\<rparr>" using reset_spec by blast
  show ?thesis
    by (rule capture_inv_upd [OF inv])
       (simp_all add: begin_delayed_capture_def reset Let_def do_output_signal_def same_setup_def)
qed

lemma begin_inv:
  assumes inv: "capture_inv st"
  shows "capture_inv (snd (obs_output_begin_data_capture st 0))"
proof (cases "oo_delay_active st \<or> oo_active st")
  case True
  then show ?thesis
    using begin_delayed_inv [OF inv] inv by (auto simp: obs_output_begin_data_capture_def)
next
  case False
  note off = this
  let ?st = "st\<lparr>oo_total_frames := 0\<rparr>"
  obtain e v a sv where flags: "convert_flags ?st 0 = (e, v, a, sv)" by (cases "convert_flags ?st 0") auto
  have inv': "capture_inv ?st" using inv by (rule capture_inv_upd) (simp_all add: same_setup_def)
  show ?thesis
  proof (cases "can_begin_data_capture ?st e v a sv")
    case True
    let ?h = "(hook_data_capture ?st e v a)\<lparr>oo_active := True\<rparr>"
    have h: "capture_inv ?h" by (rule hook_capture_inv [OF inv' _ flags]) (use False in simp)
    have fin: "capture_inv (do_output_signal ((do_output_signal (hook_data_capture ?st e v a) s)\<lparr>oo_active := True\<rparr>) s')"
      "capture_inv ((do_output_signal ((do_output_signal (hook_data_capture ?st e v a) s)\<lparr>oo_active := True\<rparr>) s')\<lparr>oo_reconnecting := False\<rparr>)" for s s'
      by (rule capture_inv_upd [OF h]; simp add: do_output_signal_def same_setup_def)+
    show ?thesis
      using True off flags by (simp add: obs_output_begin_data_capture_def Let_def fin)
  next
    case False
    with off flags inv' show ?thesis by (simp add: obs_output_begin_data_capture_def Let_def)
  qed
qed

definition plugin_ok :: "output_env \<Rightarrow> bool" where
  "plugin_ok env \<longleftrightarrow> (\<forall>st. capture_inv st \<longrightarrow> capture_inv (snd (ev_start env st)) \<and> capture_inv (ev_stop env st))"

lemma actual_start_inv:
  assumes "plugin_ok env" "capture_inv st"
  shows "capture_inv (snd (obs_output_actual_start env st))"
proof -
  have 1: "capture_inv (st\<lparr>oo_stopped := False\<rparr>)" by (rule capture_inv_upd [OF assms(2)]) (simp_all add: same_setup_def)
  have 2: "capture_inv (s\<lparr>oo_delay_restart_refs := n\<rparr>)" if "capture_inv s" for s n
    by (rule capture_inv_upd [OF that]) (simp_all add: same_setup_def)
  have 3: "capture_inv (snd (ev_start env (st\<lparr>oo_stopped := False\<rparr>)))"
    using assms(1) 1 by (simp add: plugin_ok_def)
  show ?thesis
    using 1 2 [OF 1] 3 2 [OF 3] by (auto simp: obs_output_actual_start_def Let_def split: prod.split)
qed

lemma actual_stop_inv:
  assumes "plugin_ok env" "capture_inv st"
  shows "capture_inv (obs_output_actual_stop env st force)"
proof -
  let ?st = "st\<lparr>oo_stopped := True, oo_reconnect_stop_event := True\<rparr>"
  have 1: "capture_inv ?st" by (rule capture_inv_upd [OF assms(2)]) (simp_all add: same_setup_def)
  define s1 where "s1 = (if oo_context_data ?st then ev_stop env ?st else ?st)"
  have s1: "capture_inv s1" using 1 assms(1) by (simp add: s1_def plugin_ok_def)
  define s2 where "s2 = (if oo_delay_active s1 \<and> (force \<or> oo_delay_restart_refs s1 = 0)
    then obs_output_end_data_capture (s1\<lparr>oo_delay_active := False\<rparr>) else s1)"
  have s2: "capture_inv s2"
    using end_capture_inv(1) [OF capture_inv_delay_off [OF s1]] s1 by (simp add: s2_def)
  have "obs_output_actual_stop env st force =
      (if force \<or> \<not> oo_delay_active s2 then signal_stop s2 OBS_OUTPUT_SUCCESS else s2)"
    by (simp add: obs_output_actual_stop_def Let_def s1_def s2_def)
  then show ?thesis using s2 capture_inv_signal by simp
qed

lemma cleanup_inv: "capture_inv st \<Longrightarrow> \<not> oo_active st \<Longrightarrow> capture_inv (obs_output_cleanup_delay st)"
  using cleanup_spec [OF _ refl, of st]
  by (auto simp: obs_output_cleanup_delay_def capture_inv_def)

lemma delay_start_inv:
  assumes inv: "capture_inv st"
  shows "capture_inv (snd (obs_output_delay_start env now st))"
proof -
  define s1 where "s1 = delay_push st \<lparr>dd_msg = DELAY_MSG_START, dd_ts = now, dd_packet = zero_packet\<rparr>"
  have s1: "capture_inv s1" unfolding s1_def by (rule capture_inv_push [OF inv])
  have 1: "capture_inv (do_output_signal (s1\<lparr>oo_delay_restart_refs := n\<rparr>) s)" for n s
    by (rule capture_inv_signal, rule capture_inv_upd [OF s1]) (simp_all add: same_setup_def)
  obtain ok s2 where s2: "obs_output_begin_data_capture s1 0 = (ok, s2)" by fastforce
  have b: "capture_inv s2" using begin_inv [OF s1] by (simp add: s2)
  have c: "capture_inv (obs_output_cleanup_delay s2)" if "\<not> ok" "\<not> oo_active s2"
    using cleanup_inv [OF b that(2)] .
  show ?thesis
  proof (cases "\<not> oo_delay_active st \<and> \<not> (obs_output_can_begin_data_capture st 0 \<and> obs_output_initialize_encoders env st 0)")
    case True
    with inv show ?thesis by (simp add: obs_output_delay_start_def)
  next
    case False
    note ready = this
    show ?thesis
    proof (cases "oo_delay_active s1")
      case True
      with 1 ready show ?thesis unfolding obs_output_delay_start_def s1_def [symmetric] Let_def by (simp only: if_False if_True snd_conv)
    next
      case False
      then have "\<not> oo_active st"
        using ready by (auto simp: s1_def delay_push_def obs_output_can_begin_data_capture_def)
      then have "\<not> oo_active s1" by (simp add: s1_def delay_push_def)
      then have "\<not> ok \<Longrightarrow> \<not> oo_active s2"
        using s2 False by (auto simp: obs_output_begin_data_capture_def Let_def split: prod.splits if_splits)
      with c b False ready show ?thesis
        by (auto simp: obs_output_delay_start_def s1_def [symmetric] s2 Let_def)
    qed
  qed
qed


lemma output_start_inv:
  assumes "plugin_ok env" "capture_inv st"
  shows "capture_inv (snd (obs_output_start env now st))"
proof -
  obtain ok st1 where 1: "obs_output_actual_start env st = (ok, st1)" by fastforce
  have "capture_inv st1" using actual_start_inv [OF assms] by (simp add: 1)
  then show ?thesis
    using assms(2) delay_start_inv [OF assms(2)] capture_inv_signal(1) by (simp add: obs_output_start_def 1)
qed

lemma output_stop_inv:
  assumes "plugin_ok env" "capture_inv st"
  shows "capture_inv (obs_output_stop env now st)"
  using assms actual_stop_inv [OF assms] capture_inv_push [OF assms(2)] capture_inv_signal(1)
  by (simp add: obs_output_stop_def obs_output_delay_stop_def)

lemma reconnect_inv:
  assumes inv: "capture_inv st"
  shows "capture_inv (output_reconnect thread_ok st)"
proof -
  have upd: "capture_inv s'" if "capture_inv s" "s' = s\<lparr>oo_reconnecting := r, oo_reconnect_stop_event := e,
      oo_reconnect_retry_cur_sec := c, oo_reconnect_retries := n\<rparr>" for s s' r e c n
    by (rule capture_inv_upd [OF that(1)]) (simp_all add: that(2) same_setup_def)
  define s1 where "s1 = (if \<not> oo_reconnecting st
    then st\<lparr>oo_reconnect_retry_cur_sec := oo_reconnect_retry_sec st, oo_reconnect_retries := 0\<rparr> else st)"
  have s1: "capture_inv s1"
    by (rule upd [OF inv, where r = "oo_reconnecting st" and e = "oo_reconnect_stop_event st" and
          c = "if oo_reconnecting st then oo_reconnect_retry_cur_sec st else oo_reconnect_retry_sec st" and
          n = "if oo_reconnecting st then oo_reconnect_retries st else 0"]) (simp add: s1_def)
  show ?thesis
  proof (cases "oo_reconnect_retries s1 \<ge> oo_reconnect_retry_max s1")
    case True
    have s2: "capture_inv (s1\<lparr>oo_reconnecting := False\<rparr>)"
      by (rule capture_inv_upd [OF s1]) (simp_all add: same_setup_def)
    note off = end_capture_inv(1) [OF capture_inv_delay_off [OF s2]]
    show ?thesis
      using True s2 off capture_inv_signal(2)
      by (simp add: output_reconnect_def Let_def s1_def [symmetric])
  next
    case False
    define a where "a = (if \<not> oo_reconnecting s1
      then s1\<lparr>oo_reconnecting := True, oo_reconnect_stop_event := False\<rparr> else s1)"
    have a: "capture_inv a" by (rule capture_inv_upd [OF s1]) (simp_all add: a_def same_setup_def)
    define b where "b = (if oo_reconnect_retries a \<noteq> 0
      then a\<lparr>oo_reconnect_retry_cur_sec := oo_reconnect_retry_cur_sec a * 2\<rparr> else a)"
    have b: "capture_inv b" by (rule capture_inv_upd [OF a]) (simp_all add: b_def same_setup_def)
    define s2 where "s2 = b\<lparr>oo_reconnect_retries := oo_reconnect_retries b + 1\<rparr>"
    have s2: "capture_inv s2" by (rule capture_inv_upd [OF b]) (simp_all add: s2_def same_setup_def)
    have "output_reconnect thread_ok st = (if \<not> thread_ok
        then signal_stop (s2\<lparr>oo_reconnecting := False\<rparr>) OBS_OUTPUT_DISCONNECTED else signal_reconnect s2)"
      using False by (simp add: output_reconnect_def Let_def s1_def [symmetric] a_def [symmetric] b_def [symmetric] s2_def)
    moreover have "capture_inv (s2\<lparr>oo_reconnecting := False\<rparr>)"
      by (rule capture_inv_upd [OF s2]) (simp_all add: same_setup_def)
    ultimately show ?thesis using s2 capture_inv_signal by simp
  qed
qed

lemma signal_stop_inv:
  assumes "capture_inv st"
  shows "capture_inv (obs_output_signal_stop thread_ok st code)"
proof -
  note e = end_capture_inv(1) [OF assms]
  note off = end_capture_inv(1) [OF capture_inv_delay_off [OF e]]
  show ?thesis
    using e off reconnect_inv [OF e] capture_inv_signal(2) by (simp add: obs_output_signal_stop_def Let_def)
qed

lemma reconnect_thread_inv:
  assumes "plugin_ok env" "capture_inv st"
  shows "capture_inv (reconnect_thread env timed_out stop_later st)"
proof -
  have "capture_inv (s\<lparr>oo_reconnecting := False\<rparr>)" if "capture_inv s" for s
    by (rule capture_inv_upd [OF that]) (simp_all add: same_setup_def)
  then show ?thesis
    using actual_start_inv [OF assms] assms(2) by (simp add: reconnect_thread_def Let_def)
qed

lemma process_data_inv:
  assumes "plugin_ok env" "capture_inv st"
  shows "capture_inv (process_delay_data env st dd)"
proof -
  have "same_setup st (run_callback st cb p) \<and> oo_hooks (run_callback st cb p) = oo_hooks st \<and>
      oo_active (run_callback st cb p) = oo_active st \<and>
      oo_active_delay_ns (run_callback st cb p) = oo_active_delay_ns st \<and>
      oo_delay_active (run_callback st cb p) = oo_delay_active st" for cb p
    using same_delay_callback [of st cb p] by (simp add: same_delay_def same_setup_def)
  then have "capture_inv (run_callback st cb p)" for cb p
    by (intro capture_inv_upd [OF assms(2)]) (simp_all add: callback_delay_data)
  moreover have "capture_inv (free_packet st p)" for p
    by (rule capture_inv_upd [OF assms(2)]) (simp_all add: free_packet_def same_setup_def)
  ultimately show ?thesis
    using actual_start_inv [OF assms] actual_stop_inv [OF assms]
    by (simp add: process_delay_data_def split: delay_msg.split)
qed

lemma set_delay_inv: "capture_inv st \<Longrightarrow> capture_inv (obs_output_set_delay st sec flags)"
  by (erule capture_inv_upd) (simp_all add: obs_output_set_delay_def same_setup_def)

text \<open>Every way the output is driven from outside.\<close>

datatype capture_op = Op_Start "64 word" | Op_Stop "64 word" | Op_Force_Stop | Op_Begin | Op_End
  | Op_Signal_Stop bool int | Op_Reconnect bool bool | Op_Set_Delay "32 word" "32 word" | Op_Data delay_data

fun output_op :: "output_env \<Rightarrow> obs_output \<Rightarrow> capture_op \<Rightarrow> obs_output" where
  "output_op env st (Op_Start now) = snd (obs_output_start env now st)"
| "output_op env st (Op_Stop now) = obs_output_stop env now st"
| "output_op env st Op_Force_Stop = obs_output_force_stop env st"
| "output_op env st Op_Begin = snd (obs_output_begin_data_capture st 0)"
| "output_op env st Op_End = obs_output_end_data_capture st"
| "output_op env st (Op_Signal_Stop thread_ok code) = obs_output_signal_stop thread_ok st code"
| "output_op env st (Op_Reconnect timed_out stop_later) = reconnect_thread env timed_out stop_later st"
| "output_op env st (Op_Set_Delay sec flags) = obs_output_set_delay st sec flags"
| "output_op env st (Op_Data dd) = process_delay_data env st dd"

lemma output_op_inv: "plugin_ok env \<Longrightarrow> capture_inv st \<Longrightarrow> capture_inv (output_op env st op)"
  by (cases op)
     (simp_all add: output_start_inv output_stop_inv obs_output_force_stop_def actual_stop_inv begin_inv
       end_capture_inv signal_stop_inv reconnect_thread_inv set_delay_inv process_data_inv)

lemma output_run_inv: "plugin_ok env \<Longrightarrow> capture_inv st \<Longrightarrow> capture_inv (foldl (output_op env) st ops)"
  by (induction ops arbitrary: st) (simp_all add: output_op_inv)

text \<open>A plugin that begins the capture when it is started and ends it when it is stopped.\<close>

definition sample_plugin :: output_env where
  "sample_plugin = \<lparr>ev_start = (\<lambda>st. obs_output_begin_data_capture st 0),
     ev_stop = obs_output_end_data_capture, ev_encoder_init = (\<lambda>_. True), ev_service_init = True\<rparr>"

lemma sample_plugin_ok: "plugin_ok sample_plugin"
  by (simp add: plugin_ok_def sample_plugin_def begin_inv end_capture_inv)

definition sample_output :: obs_output where
  "sample_output = (obs_output_create 0x07 True True True)\<lparr>oo_video_encoder := Some 1,
     oo_audio_encoders := [Some 2, None, None, None]\<rparr>"

lemma sample_output_inv: "capture_inv sample_output"
  by (simp add: capture_inv_def sample_output_def obs_output_create_def pq.inv_empty)



text \<open>C30: when the attempts to reconnect keep failing, the output waits twice as long before each new
  attempt, announces each wait, and after \<open>reconnect_retry_max\<close> attempts gives up: it reports
  "disconnected" once and is no longer reconnecting.\<close>

theorem reconnect_backoff:
  assumes "pq_ok (oo_delay_data st)" "\<not> oo_reconnecting st"
    and "int n = oo_reconnect_retry_max st" "length codes = n" "0 < n"
    and "\<forall>c \<in> set codes. c \<noteq> OBS_OUTPUT_SUCCESS"
  shows "let st' = fail_run st (OBS_OUTPUT_DISCONNECTED # codes)
    in \<not> oo_reconnecting st' \<and> retry_signals st' = retry_signals st @
       map (\<lambda>i. Out_Reconnect (oo_reconnect_retry_sec st * 2 ^ i)) [0 ..< n] @ [Out_Stop OBS_OUTPUT_DISCONNECTED]"
proof -
  obtain cs c where codes: "codes = cs @ [c]" using assms(4,5) by (cases codes rule: rev_cases) auto
  have n: "n = Suc (length cs)" using assms(4) codes by simp
  have r: "retrying st (fail_run st (OBS_OUTPUT_DISCONNECTED # cs)) n"
    unfolding n using assms codes n by (intro fail_run_retrying) auto
  have "c \<noteq> OBS_OUTPUT_SUCCESS" using assms(6) codes by simp
  from last_failure [OF r assms(5,3) this] r show ?thesis
    by (simp add: fail_run_def codes Let_def retrying_def)
qed

theorem reconnect_backoff_witness:
  "retry_signals (fail_run (sample_output\<lparr>oo_reconnect_retry_max := 3\<rparr>) [-5, -2, -2, -5]) =
     [Out_Reconnect 2, Out_Reconnect 4, Out_Reconnect 8, Out_Stop (-5)]"
  using reconnect_backoff [of "sample_output\<lparr>oo_reconnect_retry_max := 3\<rparr>" 3 "[-2, -2, -5]"]
  by (simp add: sample_output_def obs_output_create_def pq.inv_empty retry_signals_def Let_def upt_rec)

text \<open>C29: \<open>process_delay\<close> always returns, and it is a queue: while the output is delaying, the new packet
  goes to the back, exactly the packets at the front that are older than the delay reach the
  callback, each once and in the order they came, and the others stay.\<close>

theorem process_delay_fifo:
  assumes "pq_ok (oo_delay_data st)" and "delaying st"
    and "\<forall>dd \<in> set (pq_items (oo_delay_data st)). dd_msg dd = DELAY_MSG_PACKET"
  shows "\<exists>q. let queued = pq_items (oo_delay_data st) @
                 [\<lparr>dd_msg = DELAY_MSG_PACKET, dd_ts = t, dd_packet = packet\<rparr>]
    in process_delay env st packet t =
         Some (foldl (\<lambda>s dd. run_callback s (oo_delay_callback st) (dd_packet dd)) (st\<lparr>oo_delay_data := q\<rparr>)
                 (takeWhile (expired st t) queued)) \<and>
       pq_ok q \<and> pq_items q = dropWhile (expired st t) queued"
proof -
  let ?st = "push_packet st packet t"
  have push: "?st = st\<lparr>oo_delay_data := oo_delay_data ?st\<rparr>" "pq_ok (oo_delay_data ?st)"
      "pq_items (oo_delay_data ?st) = pq_items (oo_delay_data st) @
         [\<lparr>dd_msg = DELAY_MSG_PACKET, dd_ts = t, dd_packet = packet\<rparr>]"
    using assms(1) by (simp_all add: push_packet_def delay_push_def pq_simps)
  have same: "same_delay st ?st" by (simp add: same_delay_def push_packet_def delay_push_def)
  have "\<exists>q. pop_loop env ?st t = Some (callback_run (?st\<lparr>oo_delay_data := q\<rparr>)
        (takeWhile (expired ?st t) (pq_items (oo_delay_data ?st)))) \<and>
      pq_ok q \<and> pq_items q = dropWhile (expired ?st t) (pq_items (oo_delay_data ?st))"
    using push(2,3) assms(2,3) same_delay_expired [OF same, of t]
    by (intro pop_loop_fifo) simp_all
  moreover have "callback_run (?st\<lparr>oo_delay_data := q\<rparr>) dds =
      foldl (\<lambda>s dd. run_callback s (oo_delay_callback st) (dd_packet dd)) (st\<lparr>oo_delay_data := q\<rparr>) dds" for q dds
    by (simp add: callback_run_def push_packet_def delay_push_def)
  ultimately show ?thesis
    using same_delay_expired [OF same, of t] push(3) by (simp add: process_delay_def Let_def)
qed

definition delayed_output :: obs_output where
  "delayed_output = sample_output\<lparr>oo_active := True, oo_delay_active := True, oo_delay_capturing := True, oo_active_delay_ns := 10,
     oo_delay_callback := Default_Encoded_Callback,
     oo_delay_data := pq_push circlebuf_init \<lparr>dd_msg = DELAY_MSG_PACKET, dd_ts = 5, dd_packet = sample_video 0\<rparr>\<rparr>"

theorem process_delay_fifo_witness:
  "\<exists>st'. process_delay sample_plugin delayed_output (sample_video 1) 20 = Some st' \<and>
    map pkt_dts (oo_delivered st') = [0] \<and> map (\<lambda>dd. pkt_dts (dd_packet dd)) (pq_items (oo_delay_data st')) = [1]"
proof -
  have items: "pq_items (oo_delay_data delayed_output) = [\<lparr>dd_msg = DELAY_MSG_PACKET, dd_ts = 5, dd_packet = sample_video 0\<rparr>]"
      "pq_ok (oo_delay_data delayed_output)"
    by (simp_all add: delayed_output_def pq_simps)
  have "delaying delayed_output"
    by (simp add: delaying_def delayed_output_def sample_output_def obs_output_create_def)
  from process_delay_fifo [OF items(2) this, of 20 "sample_video 1" sample_plugin] items(1)
  obtain q where "process_delay sample_plugin delayed_output (sample_video 1) 20 =
      Some (run_callback (delayed_output\<lparr>oo_delay_data := q\<rparr>) Default_Encoded_Callback (sample_video 0))"
      "pq_items q = [\<lparr>dd_msg = DELAY_MSG_PACKET, dd_ts = 20, dd_packet = sample_video 1\<rparr>]"
    by (auto simp: expired_def delayed_output_def Let_def)
  then show ?thesis
    by (simp add: run_callback_def default_encoded_callback_def Let_def deliver_def free_packet_def with_track_def
        delayed_output_def sample_output_def obs_output_create_def sample_video_def)
qed

end
