(* ===== verification/Rtmp_Stream.thy ===== *)
theory Rtmp_Stream
  imports Avc Fifo Flv_Mux "HOL-Library.Sublist"
begin

text \<open>
  \<open>plugins/obs-outputs/rtmp-stream.c\<close>: the queue between the encoder callback
  (\<open>rtmp_stream_data\<close>) and the sending thread (\<open>send_thread\<close>), with the frame dropping that
  bounds the latency. The queue is the ring buffer of \<open>Fifo\<close>.

  The network is an environment: the results of the \<open>k\<close>-th \<open>ioctl\<close>, \<open>recv\<close>, \<open>RTMP_Write\<close> and
  clock call. What the code does to the outside is recorded in the state: \<open>rs_written\<close> lists the
  buffers given to \<open>RTMP_Write\<close>, \<open>rs_freed\<close> the packets given to \<open>obs_free_encoder_packet\<close>,
  \<open>rs_stop_signals\<close> the codes given to \<open>obs_output_signal_stop\<close>.
  The bodies of the critical sections are functions; the threads are the step relation at the end.
\<close>

subsection \<open>State\<close>

record rtmp_env =
  en_poll :: "nat \<Rightarrow> int \<times> int"
  en_recv :: "nat \<Rightarrow> int"
  en_write :: "nat \<Rightarrow> int"
  en_clock :: "nat \<Rightarrow> 64 word"
  en_audio :: "byte list option list"
  en_video :: "byte list"
  en_base :: nat

record rtmp_stream =
  rs_packets :: "encoder_packet circlebuf"
  rs_sent_headers :: bool
  rs_active :: bool
  rs_disconnected :: bool
  rs_max_shutdown_time_sec :: int
  rs_send_sem :: nat
  rs_stop_event :: bool
  rs_drop_threshold_usec :: int
  rs_min_drop_dts_usec :: int
  rs_min_priority :: int
  rs_last_dts_usec :: int
  rs_total_bytes_sent :: "64 word"
  rs_dropped_frames :: int
  rs_written :: "(nat \<times> byte list) list"
  rs_freed :: "encoder_packet list"
  rs_polls :: nat
  rs_recvs :: nat
  rs_clocks :: nat
  rs_stop_signals :: "int list"

abbreviation "rs_queue st \<equiv> pq_items (rs_packets st)"

definition obs_free_encoder_packet :: "rtmp_stream \<Rightarrow> encoder_packet \<Rightarrow> rtmp_stream" where
  "obs_free_encoder_packet st packet = st\<lparr>rs_freed := rs_freed st @ [packet]\<rparr>"

definition stopping :: "rtmp_stream \<Rightarrow> bool" where
  "stopping st = rs_stop_event st"

subsection \<open>The queue\<close>

definition num_buffered_packets :: "rtmp_stream \<Rightarrow> nat" where
  "num_buffered_packets st = cb_size (rs_packets st)"

definition get_next_packet :: "rtmp_stream \<Rightarrow> (encoder_packet \<times> rtmp_stream) option" where
  "get_next_packet st =
     (case pq_pop (rs_packets st) of None \<Rightarrow> None
      | Some (packet, q) \<Rightarrow> Some (packet, st\<lparr>rs_packets := q\<rparr>))"

function free_packets :: "rtmp_stream \<Rightarrow> rtmp_stream" where
  "free_packets st =
     (case get_next_packet st of None \<Rightarrow> st
      | Some (packet, st) \<Rightarrow> free_packets (obs_free_encoder_packet st packet))"
  by pat_completeness auto
termination
  by (relation "measure (\<lambda>st. cb_size (rs_packets st))")
     (auto simp: get_next_packet_def obs_free_encoder_packet_def pq_pop_size split: option.splits)

declare free_packets.simps [simp del]

definition add_packet :: "rtmp_stream \<Rightarrow> encoder_packet \<Rightarrow> rtmp_stream" where
  "add_packet st packet =
     st\<lparr>rs_packets := pq_push (rs_packets st) packet, rs_last_dts_usec := pkt_dts_usec packet\<rparr>"

text \<open>The loop of \<open>drop_frames\<close> over the old queue, the new one and the two locals.\<close>

function drop_loop ::
  "rtmp_stream \<Rightarrow> encoder_packet circlebuf \<Rightarrow> int \<Rightarrow> int \<Rightarrow> int \<Rightarrow>
   rtmp_stream \<times> encoder_packet circlebuf \<times> int \<times> int \<times> int" where
  "drop_loop st new_buf drop_priority last_drop_dts_usec num_frames_dropped =
     (case get_next_packet st of
        None \<Rightarrow> (st, new_buf, drop_priority, last_drop_dts_usec, num_frames_dropped)
      | Some (packet, st) \<Rightarrow>
          if pkt_type packet = OBS_ENCODER_AUDIO \<or> pkt_drop_priority packet = OBS_NAL_PRIORITY_HIGHEST
          then drop_loop st (pq_push new_buf packet) drop_priority (pkt_dts_usec packet) num_frames_dropped
          else drop_loop (obs_free_encoder_packet st packet) new_buf
                 (if drop_priority < pkt_drop_priority packet then pkt_drop_priority packet else drop_priority)
                 (pkt_dts_usec packet) (num_frames_dropped + 1))"
  by pat_completeness auto
termination
  by (relation "measure (\<lambda>(st, _). cb_size (rs_packets st))")
     (auto simp: get_next_packet_def obs_free_encoder_packet_def pq_pop_size split: option.splits)

declare drop_loop.simps [simp del]

definition drop_frames :: "rtmp_stream \<Rightarrow> rtmp_stream" where
  "drop_frames st =
     (case drop_loop st (circlebuf_reserve circlebuf_init 8) 0 0 0 of
        (st, new_buf, drop_priority, last_drop_dts_usec, num_frames_dropped) \<Rightarrow>
          st\<lparr>rs_packets := new_buf, rs_min_priority := drop_priority,
             rs_min_drop_dts_usec := last_drop_dts_usec,
             rs_dropped_frames := rs_dropped_frames st + num_frames_dropped\<rparr>)"

definition check_to_drop_frames :: "rtmp_stream \<Rightarrow> rtmp_stream" where
  "check_to_drop_frames st =
     (if num_buffered_packets st < 5 then st
      else case pq_front (rs_packets st) of
        None \<Rightarrow> st
      | Some first \<Rightarrow>
          if pkt_dts_usec first < rs_min_drop_dts_usec st then st
          else if rs_last_dts_usec st - pkt_dts_usec first > rs_drop_threshold_usec st
          then drop_frames st
          else st)"

definition add_video_packet :: "rtmp_stream \<Rightarrow> encoder_packet \<Rightarrow> bool \<times> rtmp_stream" where
  "add_video_packet st packet =
     (let st = check_to_drop_frames st
      in if pkt_priority packet < rs_min_priority st
         then (False, st\<lparr>rs_dropped_frames := rs_dropped_frames st + 1\<rparr>)
         else (True, add_packet (st\<lparr>rs_min_priority := 0\<rparr>) packet))"

text \<open>\<open>rtmp_stream_data\<close>: the packet made for the queue, the section under \<open>packets_mutex\<close>, and
  the whole callback.\<close>

definition make_packet :: "rtmp_env \<Rightarrow> encoder_packet \<Rightarrow> encoder_packet option" where
  "make_packet env packet =
     (if pkt_type packet = OBS_ENCODER_VIDEO then obs_parse_avc_packet (en_base env) packet
      else Some (obs_duplicate_encoder_packet packet))"

definition queue_packet :: "rtmp_stream \<Rightarrow> encoder_packet \<Rightarrow> bool \<times> rtmp_stream" where
  "queue_packet st new_packet =
     (if rs_disconnected st then (False, st)
      else if pkt_type new_packet = OBS_ENCODER_VIDEO then add_video_packet st new_packet
      else (True, add_packet st new_packet))"

definition os_sem_post :: "rtmp_stream \<Rightarrow> rtmp_stream" where
  "os_sem_post st = st\<lparr>rs_send_sem := rs_send_sem st + 1\<rparr>"

definition rtmp_stream_data :: "rtmp_env \<Rightarrow> rtmp_stream \<Rightarrow> encoder_packet \<Rightarrow> rtmp_stream" where
  "rtmp_stream_data env st packet =
     (if rs_disconnected st then st
      else case make_packet env packet of
        None \<Rightarrow> st
      | Some new_packet \<Rightarrow>
          (case queue_packet st new_packet of
             (added_packet, st) \<Rightarrow>
               if added_packet then os_sem_post st else obs_free_encoder_packet st new_packet))"

subsection \<open>Sending\<close>

function discard_recv_data :: "rtmp_env \<Rightarrow> rtmp_stream \<Rightarrow> nat \<Rightarrow> bool \<times> rtmp_stream" where
  "discard_recv_data env st n =
     (let bytes = (if n > 512 then 512 else n);
          left = n - bytes;
          ret = en_recv env (rs_recvs st);
          st = st\<lparr>rs_recvs := rs_recvs st + 1\<rparr>
      in if ret \<le> 0 then (False, st)
         else if left > 0 then discard_recv_data env st left
         else (True, st))"
  by pat_completeness auto
termination
  by (relation "measure (\<lambda>(env, st, n). n)") (auto split: if_splits)

declare discard_recv_data.simps [simp del]

definition send_packet ::
  "rtmp_env \<Rightarrow> rtmp_stream \<Rightarrow> encoder_packet \<Rightarrow> bool \<Rightarrow> nat \<Rightarrow> int \<times> rtmp_stream" where
  "send_packet env st packet is_header idx =
     (let (ret, recv_size) = en_poll env (rs_polls st);
          st = st\<lparr>rs_polls := rs_polls st + 1\<rparr>;
          (ok, st) = (if ret \<ge> 0 \<and> recv_size > 0 then discard_recv_data env st (nat recv_size)
                      else (True, st))
      in if \<not> ok then (-1, st)
         else
           let data = flv_packet_mux packet is_header;
               ret = en_write env (length (rs_written st));
               st = st\<lparr>rs_written := rs_written st @ [(idx, data)]\<rparr>;
               st = obs_free_encoder_packet st packet
           in (ret, st\<lparr>rs_total_bytes_sent := rs_total_bytes_sent st + word_of_nat (length data)\<rparr>))"

definition send_audio_header :: "rtmp_env \<Rightarrow> rtmp_stream \<Rightarrow> nat \<Rightarrow> bool \<times> rtmp_stream" where
  "send_audio_header env st idx =
     (if idx < length (en_audio env) then
        (case en_audio env ! idx of
           None \<Rightarrow> (False, st)
         | Some header \<Rightarrow>
             (True, snd (send_packet env st
                (zero_packet\<lparr>pkt_type := OBS_ENCODER_AUDIO, pkt_timebase_den := 1, pkt_data := header\<rparr>) True idx)))
      else (False, st))"

definition send_video_header :: "rtmp_env \<Rightarrow> rtmp_stream \<Rightarrow> rtmp_stream" where
  "send_video_header env st =
     (case obs_parse_avc_header (en_base env) (en_video env) of
        None \<Rightarrow> st
      | Some (header, n) \<Rightarrow>
          snd (send_packet env st
            (zero_packet\<lparr>pkt_type := OBS_ENCODER_VIDEO, pkt_timebase_den := 1, pkt_keyframe := True,
               pkt_data := (case header of None \<Rightarrow> [] | Some h \<Rightarrow> take n h)\<rparr>) True 0))"

function send_more_headers :: "rtmp_env \<Rightarrow> rtmp_stream \<Rightarrow> nat \<Rightarrow> rtmp_stream" where
  "send_more_headers env st i =
     (case send_audio_header env st i of
        (again, st) \<Rightarrow> if again then send_more_headers env st (i + 1) else st)"
  by pat_completeness auto
termination
  by (relation "measure (\<lambda>(env, st, i). length (en_audio env) - i)")
     (auto simp: send_audio_header_def split: if_splits option.splits)

declare send_more_headers.simps [simp del]

definition send_headers :: "rtmp_env \<Rightarrow> rtmp_stream \<Rightarrow> rtmp_stream" where
  "send_headers env st =
     (let st = st\<lparr>rs_sent_headers := True\<rparr>;
          st = snd (send_audio_header env st 0);
          st = send_video_header env st
      in send_more_headers env st 1)"

definition os_gettime_ns :: "rtmp_env \<Rightarrow> rtmp_stream \<Rightarrow> 64 word \<times> rtmp_stream" where
  "os_gettime_ns env st = (en_clock env (rs_clocks st), st\<lparr>rs_clocks := rs_clocks st + 1\<rparr>)"

text \<open>The body of the loop of \<open>send_remaining_packets\<close> after the packet is taken: \<open>True\<close> goes on.\<close>

definition send_remaining_one ::
  "rtmp_env \<Rightarrow> 64 word \<Rightarrow> rtmp_stream \<Rightarrow> encoder_packet \<Rightarrow> bool \<times> rtmp_stream" where
  "send_remaining_one env begin_time_ns st packet =
     (let max_ns = word_of_int (rs_max_shutdown_time_sec st) * 1000000000;
          (ret, st) = send_packet env st packet False (pkt_track_idx packet)
      in if ret < 0 then (False, st)
         else
           let (now, st) = os_gettime_ns env st
           in (\<not> now - begin_time_ns > max_ns, st))"

text \<open>What sending leaves alone: only the counters, the log of writes, the frees and the totals change.\<close>

definition same_queue :: "rtmp_stream \<Rightarrow> rtmp_stream \<Rightarrow> bool" where
  "same_queue st st' \<longleftrightarrow> rs_packets st' = rs_packets st \<and> rs_disconnected st' = rs_disconnected st \<and>
     rs_send_sem st' = rs_send_sem st \<and> rs_stop_event st' = rs_stop_event st \<and>
     rs_min_priority st' = rs_min_priority st \<and> rs_min_drop_dts_usec st' = rs_min_drop_dts_usec st \<and>
     rs_last_dts_usec st' = rs_last_dts_usec st \<and> rs_dropped_frames st' = rs_dropped_frames st \<and>
     rs_drop_threshold_usec st' = rs_drop_threshold_usec st \<and> rs_active st' = rs_active st"

lemma same_queue_refl [simp]: "same_queue st st"
  by (simp add: same_queue_def)

lemma same_queue_updates [simp]:
  "same_queue st (st'\<lparr>rs_polls := n\<rparr>) = same_queue st st'"
  "same_queue st (st'\<lparr>rs_recvs := n\<rparr>) = same_queue st st'"
  "same_queue st (st'\<lparr>rs_clocks := n\<rparr>) = same_queue st st'"
  "same_queue st (st'\<lparr>rs_written := ws\<rparr>) = same_queue st st'"
  "same_queue st (st'\<lparr>rs_freed := ps\<rparr>) = same_queue st st'"
  "same_queue st (st'\<lparr>rs_total_bytes_sent := w\<rparr>) = same_queue st st'"
  "same_queue st (st'\<lparr>rs_sent_headers := b\<rparr>) = same_queue st st'"
  by (simp_all add: same_queue_def)

lemma same_queue_trans: "same_queue a b \<Longrightarrow> same_queue b c \<Longrightarrow> same_queue a c"
  by (simp add: same_queue_def)

lemma discard_same_queue: "same_queue st (snd (discard_recv_data env st n))"
proof (induction env st n rule: discard_recv_data.induct)
  case (1 env st n)
  let ?st = "st\<lparr>rs_recvs := rs_recvs st + 1\<rparr>"
  have step: "same_queue st ?st" by (simp add: same_queue_def)
  show ?case
    using "1.IH" [OF refl refl refl refl] step same_queue_trans [OF step]
    by (subst discard_recv_data.simps) (auto simp: Let_def)
qed

lemma send_packet_same_queue: "same_queue st (snd (send_packet env st p h i))"
proof -
  let ?st = "st\<lparr>rs_polls := rs_polls st + 1\<rparr>"
  have "same_queue st (snd (discard_recv_data env ?st n))" for n
    using same_queue_trans [OF _ discard_same_queue, of st ?st] by simp
  then have "same_queue st st'" if "discard_recv_data env ?st n = (ok, st')" for n ok st'
    using that by (metis snd_conv)
  then show ?thesis
    by (auto simp: send_packet_def Let_def obs_free_encoder_packet_def split: prod.splits if_splits)
qed

lemma send_audio_header_same_queue: "same_queue st (snd (send_audio_header env st i))"
  using send_packet_same_queue by (auto simp: send_audio_header_def split: option.splits)

lemma send_more_headers_same_queue: "same_queue st (send_more_headers env st i)"
proof (induction env st i rule: send_more_headers.induct)
  case (1 env st i)
  then show ?case
    using send_audio_header_same_queue [of st env i] same_queue_trans
    by (subst send_more_headers.simps) (auto split: prod.splits)
qed

lemma send_video_header_same_queue: "same_queue st (send_video_header env st)"
  using send_packet_same_queue by (auto simp: send_video_header_def split: option.splits prod.splits)

lemma send_headers_same_queue: "same_queue st (send_headers env st)"
proof -
  have "same_queue st (st\<lparr>rs_sent_headers := True\<rparr>)" by (simp add: same_queue_def)
  then show ?thesis
    unfolding send_headers_def Let_def
    by (intro same_queue_trans [OF _ send_more_headers_same_queue]
        same_queue_trans [OF _ send_video_header_same_queue]
        same_queue_trans [OF _ send_audio_header_same_queue])
qed

lemma send_remaining_one_same_queue: "same_queue st (snd (send_remaining_one env t st p))"
  using send_packet_same_queue [of st env p False "pkt_track_idx p"]
  by (auto simp: send_remaining_one_def os_gettime_ns_def Let_def split: prod.splits)

lemma send_remaining_one_packets: "send_remaining_one env t st p = (ok, st') \<Longrightarrow> rs_packets st' = rs_packets st"
  using send_remaining_one_same_queue [of st env t p] by (simp add: same_queue_def)

lemma get_next_packet_size: "get_next_packet st = Some (p, st') \<Longrightarrow> cb_size (rs_packets st') < cb_size (rs_packets st)"
  by (auto simp: get_next_packet_def pq_pop_size split: option.splits)

function send_remaining_loop :: "rtmp_env \<Rightarrow> 64 word \<Rightarrow> rtmp_stream \<Rightarrow> bool \<times> rtmp_stream" where
  "send_remaining_loop env begin_time_ns st =
     (case get_next_packet st of None \<Rightarrow> (True, st)
      | Some (packet, st) \<Rightarrow>
          (case send_remaining_one env begin_time_ns st packet of
             (ok, st) \<Rightarrow> if ok then send_remaining_loop env begin_time_ns st else (False, st)))"
  by pat_completeness auto
termination
  by (relation "measure (\<lambda>(env, t, st). cb_size (rs_packets st))")
     (auto simp: send_remaining_one_packets dest!: get_next_packet_size sym [of "(_, _)" "send_remaining_one _ _ _ _"])

declare send_remaining_loop.simps [simp del]

definition send_remaining_packets :: "rtmp_env \<Rightarrow> rtmp_stream \<Rightarrow> bool \<times> rtmp_stream" where
  "send_remaining_packets env st =
     (let (begin_time_ns, st) = os_gettime_ns env st;
          st = (if rs_sent_headers st then st else send_headers env st)
      in send_remaining_loop env begin_time_ns st)"


subsection \<open>What the queue operations do to the list of packets\<close>

text \<open>The frames that \<open>drop_frames\<close> keeps, and the priority that it raises the bar to.\<close>

definition undroppable :: "encoder_packet \<Rightarrow> bool" where
  "undroppable p \<longleftrightarrow> pkt_type p = OBS_ENCODER_AUDIO \<or> pkt_drop_priority p = OBS_NAL_PRIORITY_HIGHEST"

definition dropped :: "encoder_packet list \<Rightarrow> encoder_packet list" where
  "dropped ps = filter (\<lambda>p. \<not> undroppable p) ps"

definition bar :: "int \<Rightarrow> encoder_packet list \<Rightarrow> int" where
  "bar m ps = foldl max m (map pkt_drop_priority ps)"

lemma bar_Cons: "bar m (p # ps) = bar (max m (pkt_drop_priority p)) ps"
  by (simp add: bar_def)

lemma bar_ge: "m \<le> bar m ps \<and> (\<forall>p \<in> set ps. pkt_drop_priority p \<le> bar m ps)"
proof (induction ps arbitrary: m)
  case (Cons p ps)
  from Cons [of "max m (pkt_drop_priority p)"] show ?case by (simp add: bar_Cons)
qed (simp add: bar_def)

lemma bar_le: "m \<le> k \<Longrightarrow> \<forall>p \<in> set ps. pkt_drop_priority p \<le> k \<Longrightarrow> bar m ps \<le> k"
  by (induction ps arbitrary: m) (simp_all add: bar_def)

lemma get_next_packet_Nil: "pq_ok (rs_packets st) \<Longrightarrow> rs_queue st = [] \<Longrightarrow> get_next_packet st = None"
  by (simp add: get_next_packet_def pq.deq_none)

lemma get_next_packet_Cons:
  "pq_ok (rs_packets st) \<Longrightarrow> rs_queue st = p # ps \<Longrightarrow>
   \<exists>q. get_next_packet st = Some (p, st\<lparr>rs_packets := q\<rparr>) \<and> pq_ok q \<and> pq_items q = ps"
  using pq.deq_some [of "rs_packets st" p ps] by (auto simp: get_next_packet_def)

lemma get_next_packet_SomeD:
  assumes "pq_ok (rs_packets st)" "get_next_packet st = Some (p, st')"
  shows "pq_ok (rs_packets st')" "rs_queue st = p # rs_queue st'" "\<exists>q. st' = st\<lparr>rs_packets := q\<rparr>"
proof -
  obtain q where q: "pq_pop (rs_packets st) = Some (p, q)" "st' = st\<lparr>rs_packets := q\<rparr>"
    using assms(2) by (auto simp: get_next_packet_def split: option.splits)
  then show "pq_ok (rs_packets st')" "rs_queue st = p # rs_queue st'" "\<exists>q. st' = st\<lparr>rs_packets := q\<rparr>"
    using pq.deq_SomeE [OF assms(1) q(1)] by auto
qed

lemma free_packets_spec:
  "pq_ok (rs_packets st) \<Longrightarrow> rs_queue st = ps \<Longrightarrow>
   \<exists>q. free_packets st = st\<lparr>rs_packets := q, rs_freed := rs_freed st @ ps\<rparr> \<and> pq_ok q \<and> pq_items q = []"
proof (induction ps arbitrary: st)
  case Nil
  then show ?case
    by (subst free_packets.simps) (auto simp: get_next_packet_Nil intro!: exI [of _ "rs_packets st"])
next
  case (Cons p ps)
  then obtain q where q: "get_next_packet st = Some (p, st\<lparr>rs_packets := q\<rparr>)" "pq_ok q" "pq_items q = ps"
    using get_next_packet_Cons by blast
  with Cons.IH [of "st\<lparr>rs_packets := q, rs_freed := rs_freed st @ [p]\<rparr>"] show ?case
    by (subst free_packets.simps) (auto simp: obs_free_encoder_packet_def)
qed

lemma drop_loop_spec:
  "pq_ok (rs_packets st) \<Longrightarrow> rs_queue st = ps \<Longrightarrow> pq_ok new_buf \<Longrightarrow>
   \<exists>q new_buf'. drop_loop st new_buf m last_dts n =
     (st\<lparr>rs_packets := q, rs_freed := rs_freed st @ dropped ps\<rparr>, new_buf', bar m (dropped ps),
      (if ps = [] then last_dts else pkt_dts_usec (last ps)), n + int (length (dropped ps))) \<and>
     pq_ok new_buf' \<and> pq_items new_buf' = pq_items new_buf @ filter undroppable ps"
proof (induction ps arbitrary: st new_buf m last_dts n)
  case Nil
  then show ?case
    by (subst drop_loop.simps)
       (auto simp: get_next_packet_Nil dropped_def bar_def intro!: exI [of _ "rs_packets st"])
next
  case (Cons p ps)
  then obtain q where q: "get_next_packet st = Some (p, st\<lparr>rs_packets := q\<rparr>)" "pq_ok q" "pq_items q = ps"
    using get_next_packet_Cons by blast
  show ?case
  proof (cases "undroppable p")
    case True
    with q Cons.prems Cons.IH [of "st\<lparr>rs_packets := q\<rparr>" "pq_push new_buf p" m "pkt_dts_usec p" n]
    show ?thesis
      by (subst drop_loop.simps) (auto simp: undroppable_def [symmetric] dropped_def pq_simps cong: if_cong)
  next
    case False
    have max: "(if m < pkt_drop_priority p then pkt_drop_priority p else m) = max m (pkt_drop_priority p)"
      by (simp add: max_def)
    from False q Cons.prems Cons.IH [of "st\<lparr>rs_packets := q, rs_freed := rs_freed st @ [p]\<rparr>" new_buf
        "max m (pkt_drop_priority p)" "pkt_dts_usec p" "n + 1"]
    show ?thesis
      by (subst drop_loop.simps)
         (auto simp: undroppable_def [symmetric] dropped_def bar_Cons max obs_free_encoder_packet_def cong: if_cong)
  qed
qed

lemma reserve_empty: "pq_ok (circlebuf_reserve (circlebuf_init :: 'a circlebuf) n)"
  "pq_items (circlebuf_reserve (circlebuf_init :: 'a circlebuf) n) = []"
proof -
  have "cb_ok (circlebuf_init :: 'a circlebuf)" "cb_cells (circlebuf_init :: 'a circlebuf) = []"
    using pq.inv_empty [where 'a = 'a] pq.items_empty [where 'a = 'a] by (simp_all add: pq_ok_def pq_items_def)
  moreover have "can_grow (circlebuf_init :: 'a circlebuf)" by (simp add: can_grow_def circlebuf_init_def)
  ultimately show "pq_ok (circlebuf_reserve (circlebuf_init :: 'a circlebuf) n)"
      "pq_items (circlebuf_reserve (circlebuf_init :: 'a circlebuf) n) = []"
    using reserve [of "circlebuf_init :: 'a circlebuf" n] by (simp_all add: pq_ok_def pq_items_def)
qed

lemma drop_frames_spec:
  assumes "pq_ok (rs_packets st)"
  shows "\<exists>q. drop_frames st =
      st\<lparr>rs_packets := q, rs_min_priority := bar 0 (dropped (rs_queue st)),
        rs_min_drop_dts_usec := (if rs_queue st = [] then 0 else pkt_dts_usec (last (rs_queue st))),
        rs_dropped_frames := rs_dropped_frames st + int (length (dropped (rs_queue st))),
        rs_freed := rs_freed st @ dropped (rs_queue st)\<rparr> \<and>
      pq_ok q \<and> pq_items q = filter undroppable (rs_queue st)"
proof -
  obtain q new_buf where "drop_loop st (circlebuf_reserve circlebuf_init 8) 0 0 0 =
      (st\<lparr>rs_packets := q, rs_freed := rs_freed st @ dropped (rs_queue st)\<rparr>, new_buf, bar 0 (dropped (rs_queue st)),
       (if rs_queue st = [] then 0 else pkt_dts_usec (last (rs_queue st))), int (length (dropped (rs_queue st))))"
      and "pq_ok new_buf" "pq_items new_buf = filter undroppable (rs_queue st)"
    using drop_loop_spec [OF assms refl reserve_empty(1) [of 8], of 0 0 0] by (auto simp: reserve_empty)
  then show ?thesis
    by (intro exI [of _ new_buf]) (simp add: drop_frames_def)
qed

text \<open>The condition under which \<open>check_to_drop_frames\<close> drops.\<close>

definition must_drop :: "rtmp_stream \<Rightarrow> bool" where
  "must_drop st \<longleftrightarrow> 5 \<le> length (rs_queue st) \<and>
     rs_min_drop_dts_usec st \<le> pkt_dts_usec (hd (rs_queue st)) \<and>
     rs_drop_threshold_usec st < rs_last_dts_usec st - pkt_dts_usec (hd (rs_queue st))"

lemma check_to_drop_frames_spec:
  "pq_ok (rs_packets st) \<Longrightarrow> check_to_drop_frames st = (if must_drop st then drop_frames st else st)"
  by (cases "rs_queue st")
     (auto simp: check_to_drop_frames_def num_buffered_packets_def pq.count_items pq.front_items must_drop_def)

lemma add_packet_spec:
  "pq_ok (rs_packets st) \<Longrightarrow> pq_ok (rs_packets (add_packet st p)) \<and> rs_queue (add_packet st p) = rs_queue st @ [p]"
  by (simp add: add_packet_def pq_simps)


text \<open>The queue after \<open>check_to_drop_frames\<close>, and the bar a video packet has to reach.\<close>

definition kept :: "rtmp_stream \<Rightarrow> encoder_packet list" where
  "kept st = (if must_drop st then filter undroppable (rs_queue st) else rs_queue st)"

definition bar_now :: "rtmp_stream \<Rightarrow> int" where
  "bar_now st = (if must_drop st then bar 0 (dropped (rs_queue st)) else rs_min_priority st)"

lemma add_video_packet_spec:
  fixes st :: rtmp_stream and p :: encoder_packet
  assumes ok: "pq_ok (rs_packets st)"
  defines "accepted \<equiv> bar_now st \<le> pkt_priority p"
  shows "\<exists>q. add_video_packet st p = (accepted,
      st\<lparr>rs_packets := q,
        rs_min_priority := (if accepted then 0 else bar_now st),
        rs_min_drop_dts_usec := (if must_drop st then pkt_dts_usec (last (rs_queue st)) else rs_min_drop_dts_usec st),
        rs_last_dts_usec := (if accepted then pkt_dts_usec p else rs_last_dts_usec st),
        rs_dropped_frames := rs_dropped_frames st +
          (if must_drop st then int (length (dropped (rs_queue st))) else 0) + (if accepted then 0 else 1),
        rs_freed := rs_freed st @ (if must_drop st then dropped (rs_queue st) else [])\<rparr>) \<and>
    pq_ok q \<and> pq_items q = kept st @ (if accepted then [p] else [])"
proof (cases "must_drop st")
  case True
  then have "rs_queue st \<noteq> []" by (auto simp: must_drop_def)
  moreover obtain q where "drop_frames st =
      st\<lparr>rs_packets := q, rs_min_priority := bar 0 (dropped (rs_queue st)),
        rs_min_drop_dts_usec := (if rs_queue st = [] then 0 else pkt_dts_usec (last (rs_queue st))),
        rs_dropped_frames := rs_dropped_frames st + int (length (dropped (rs_queue st))),
        rs_freed := rs_freed st @ dropped (rs_queue st)\<rparr>" "pq_ok q" "pq_items q = filter undroppable (rs_queue st)"
    using drop_frames_spec [OF ok] by blast
  ultimately show ?thesis
    using True ok
    by (intro exI [of _ "if accepted then pq_push q p else q"])
      (simp add: add_video_packet_def check_to_drop_frames_spec add_packet_def kept_def bar_now_def
        accepted_def pq_simps Let_def not_less)
next
  case False
  then show ?thesis
    using ok by (intro exI [of _ "if accepted then pq_push (rs_packets st) p else rs_packets st"])
      (simp add: add_video_packet_def check_to_drop_frames_spec add_packet_def kept_def bar_now_def
        accepted_def pq_simps Let_def not_less)
qed

text \<open>The packets the callback makes.\<close>

definition packet_ok :: "encoder_packet \<Rightarrow> bool" where
  "packet_ok p \<longleftrightarrow> pkt_type p = OBS_ENCODER_VIDEO \<longrightarrow> pkt_drop_priority p = get_drop_priority (pkt_priority p)"

lemma make_packet_returns: "\<exists>new. make_packet env packet = Some new \<and> packet_ok new \<and> pkt_type new = pkt_type packet"
proof -
  have "\<exists>new. obs_parse_avc_packet base packet = Some new \<and> packet_ok new \<and> pkt_type new = pkt_type packet" for base
    unfolding parse_avc_packet_eq by (auto simp: Let_def packet_ok_def split: prod.split)
  then show ?thesis
    by (cases "pkt_type packet") (auto simp: make_packet_def packet_ok_def)
qed

subsection \<open>A session: connecting, the two threads, closing\<close>

definition init_connect :: "rtmp_stream \<Rightarrow> bool \<Rightarrow> int \<Rightarrow> int \<Rightarrow> bool \<times> rtmp_stream" where
  "init_connect st service drop_threshold_ms max_shutdown_time_sec =
     (let st = free_packets st
      in if \<not> service then (False, st)
         else (True, st\<lparr>rs_disconnected := False, rs_total_bytes_sent := 0, rs_dropped_frames := 0,
                 rs_min_drop_dts_usec := 0, rs_min_priority := 0,
                 rs_drop_threshold_usec := drop_threshold_ms * 1000,
                 rs_max_shutdown_time_sec := max_shutdown_time_sec\<rparr>))"

definition reset_semaphore :: "rtmp_stream \<Rightarrow> rtmp_stream" where
  "reset_semaphore st = st\<lparr>rs_send_sem := 0\<rparr>"

definition init_send :: "rtmp_stream \<Rightarrow> rtmp_stream" where
  "init_send st = (reset_semaphore st)\<lparr>rs_active := True\<rparr>"

definition rtmp_stream_stop :: "rtmp_stream \<Rightarrow> rtmp_stream" where
  "rtmp_stream_stop st =
     (if stopping st then st
      else let st = st\<lparr>rs_stop_event := True\<rparr> in if rs_active st then os_sem_post st else st)"

abbreviation "OBS_OUTPUT_DISCONNECTED \<equiv> (-5 :: int)"

text \<open>The end of \<open>send_thread\<close>, after its loops.\<close>

definition send_thread_exit :: "rtmp_stream \<Rightarrow> rtmp_stream" where
  "send_thread_exit st =
     (let st = (if rs_disconnected st then free_packets st else st);
          st = (if stopping st then st
                else st\<lparr>rs_stop_signals := rs_stop_signals st @ [OBS_OUTPUT_DISCONNECTED]\<rparr>)
      in st\<lparr>rs_stop_event := False, rs_active := False, rs_sent_headers := False\<rparr>)"

text \<open>Where the sending thread is.\<close>

datatype sender = Waiting | Woken | Sending encoder_packet | Leaving | Draining "64 word"
  | Draining_Send "64 word" encoder_packet | Closing | Finished

text \<open>
  The system: the stream, the thread, the packets the encoder thread has queued but not yet
  posted, and two histories: the packets handed to the queue while connected, and the packets
  the thread has taken out.
\<close>

record rtmp_system =
  sy_st :: rtmp_stream
  sy_pc :: sender
  sy_pending :: nat
  sy_arrived :: "encoder_packet list"
  sy_taken :: "encoder_packet list"

definition with_headers :: "rtmp_env \<Rightarrow> rtmp_stream \<Rightarrow> rtmp_stream" where
  "with_headers env st = (if rs_sent_headers st then st else send_headers env st)"

inductive rtmp_step :: "rtmp_env \<Rightarrow> rtmp_system \<Rightarrow> rtmp_system \<Rightarrow> bool" for env :: rtmp_env where
  sem_wait: "sy_pc s = Waiting \<Longrightarrow> rs_send_sem (sy_st s) = Suc n \<Longrightarrow>
    rtmp_step env s (s\<lparr>sy_st := (sy_st s)\<lparr>rs_send_sem := n\<rparr>, sy_pc := Woken\<rparr>)"
| stop_seen: "sy_pc s = Woken \<Longrightarrow> stopping (sy_st s) \<Longrightarrow> rtmp_step env s (s\<lparr>sy_pc := Leaving\<rparr>)"
| nothing_there: "sy_pc s = Woken \<Longrightarrow> \<not> stopping (sy_st s) \<Longrightarrow> get_next_packet (sy_st s) = None \<Longrightarrow>
    rtmp_step env s (s\<lparr>sy_pc := Waiting\<rparr>)"
| take_packet: "sy_pc s = Woken \<Longrightarrow> \<not> stopping (sy_st s) \<Longrightarrow> get_next_packet (sy_st s) = Some (p, st') \<Longrightarrow>
    rtmp_step env s (s\<lparr>sy_st := st', sy_pc := Sending p, sy_taken := sy_taken s @ [p]\<rparr>)"
| sent: "sy_pc s = Sending p \<Longrightarrow>
    send_packet env (with_headers env (sy_st s)) p False (pkt_track_idx p) = (ret, st') \<Longrightarrow> ret \<ge> 0 \<Longrightarrow>
    rtmp_step env s (s\<lparr>sy_st := st', sy_pc := Waiting\<rparr>)"
| send_failed: "sy_pc s = Sending p \<Longrightarrow>
    send_packet env (with_headers env (sy_st s)) p False (pkt_track_idx p) = (ret, st') \<Longrightarrow> ret < 0 \<Longrightarrow>
    rtmp_step env s (s\<lparr>sy_st := st'\<lparr>rs_disconnected := True\<rparr>, sy_pc := Leaving\<rparr>)"
| leave_lost: "sy_pc s = Leaving \<Longrightarrow> rs_disconnected (sy_st s) \<Longrightarrow> rtmp_step env s (s\<lparr>sy_pc := Closing\<rparr>)"
| leave_drain: "sy_pc s = Leaving \<Longrightarrow> \<not> rs_disconnected (sy_st s) \<Longrightarrow>
    os_gettime_ns env (sy_st s) = (begin_time_ns, st') \<Longrightarrow>
    rtmp_step env s (s\<lparr>sy_st := with_headers env st', sy_pc := Draining begin_time_ns\<rparr>)"
| drained: "sy_pc s = Draining t \<Longrightarrow> get_next_packet (sy_st s) = None \<Longrightarrow>
    rtmp_step env s (s\<lparr>sy_pc := Closing\<rparr>)"
| drain_take: "sy_pc s = Draining t \<Longrightarrow> get_next_packet (sy_st s) = Some (p, st') \<Longrightarrow>
    rtmp_step env s (s\<lparr>sy_st := st', sy_pc := Draining_Send t p, sy_taken := sy_taken s @ [p]\<rparr>)"
| drain_sent: "sy_pc s = Draining_Send t p \<Longrightarrow> send_remaining_one env t (sy_st s) p = (True, st') \<Longrightarrow>
    rtmp_step env s (s\<lparr>sy_st := st', sy_pc := Draining t\<rparr>)"
| drain_failed: "sy_pc s = Draining_Send t p \<Longrightarrow> send_remaining_one env t (sy_st s) p = (False, st') \<Longrightarrow>
    rtmp_step env s (s\<lparr>sy_st := st'\<lparr>rs_disconnected := True\<rparr>, sy_pc := Closing\<rparr>)"
| close: "sy_pc s = Closing \<Longrightarrow>
    rtmp_step env s (s\<lparr>sy_st := send_thread_exit (sy_st s), sy_pc := Finished\<rparr>)"
| data_added: "make_packet env packet = Some new_packet \<Longrightarrow> queue_packet (sy_st s) new_packet = (True, st') \<Longrightarrow>
    rtmp_step env s (s\<lparr>sy_st := st', sy_pending := sy_pending s + 1, sy_arrived := sy_arrived s @ [new_packet]\<rparr>)"
| data_refused: "make_packet env packet = Some new_packet \<Longrightarrow> queue_packet (sy_st s) new_packet = (False, st') \<Longrightarrow>
    rtmp_step env s (s\<lparr>sy_st := obs_free_encoder_packet st' new_packet,
      sy_arrived := (if rs_disconnected (sy_st s) then sy_arrived s else sy_arrived s @ [new_packet])\<rparr>)"
| post: "sy_pending s = Suc n \<Longrightarrow> rtmp_step env s (s\<lparr>sy_st := os_sem_post (sy_st s), sy_pending := n\<rparr>)"
| stop: "rtmp_step env s (s\<lparr>sy_st := rtmp_stream_stop (sy_st s)\<rparr>)"

inductive_cases rtmp_stepE: "rtmp_step env s s'"

definition session_start :: "rtmp_stream \<Rightarrow> rtmp_system \<Rightarrow> bool" where
  "session_start st0 s \<longleftrightarrow> (\<exists>ms sec. s =
     \<lparr>sy_st = init_send (snd (init_connect st0 True ms sec)), sy_pc = Waiting, sy_pending = 0,
      sy_arrived = [], sy_taken = []\<rparr>)"

inductive rtmp_reachable :: "rtmp_env \<Rightarrow> rtmp_stream \<Rightarrow> rtmp_system \<Rightarrow> bool"
  for env :: rtmp_env and st0 :: rtmp_stream where
  start: "session_start st0 s \<Longrightarrow> rtmp_reachable env st0 s"
| step: "rtmp_reachable env st0 s \<Longrightarrow> rtmp_step env s s' \<Longrightarrow> rtmp_reachable env st0 s'"

text \<open>What never gets lost: audio, and frames other frames refer to (\<open>nal_ref_idc \<ge> 2\<close>).\<close>

definition must_arrive :: "encoder_packet \<Rightarrow> bool" where
  "must_arrive p \<longleftrightarrow> pkt_type p = OBS_ENCODER_AUDIO \<or> 2 \<le> pkt_priority p"

fun in_loop :: "sender \<Rightarrow> bool" where
  "in_loop Waiting = True"
| "in_loop Woken = True"
| "in_loop (Sending p) = True"
| "in_loop _ = False"

definition queue_inv :: "rtmp_system \<Rightarrow> bool" where
  "queue_inv s \<longleftrightarrow>
     pq_ok (rs_packets (sy_st s)) \<and> (\<forall>p \<in> set (rs_queue (sy_st s)). packet_ok p) \<and>
     rs_min_priority (sy_st s) \<le> 1 \<and>
     subseq (sy_taken s @ rs_queue (sy_st s)) (sy_arrived s) \<and>
     (\<not> rs_disconnected (sy_st s) \<longrightarrow>
        filter must_arrive (sy_taken s @ rs_queue (sy_st s)) = filter must_arrive (sy_arrived s)) \<and>
     (in_loop (sy_pc s) \<longrightarrow>
        length (rs_queue (sy_st s)) \<le> rs_send_sem (sy_st s) + sy_pending s + (if sy_pc s = Woken then 1 else 0)) \<and>
     (sy_pc s = Finished \<and> rs_disconnected (sy_st s) \<longrightarrow> rs_queue (sy_st s) = [])"

lemma must_arrive_undroppable: "packet_ok p \<Longrightarrow> must_arrive p \<Longrightarrow> undroppable p"
  by (cases "pkt_type p") (auto simp: packet_ok_def must_arrive_def undroppable_def get_drop_priority_def)

lemma dropped_priority: "packet_ok p \<Longrightarrow> \<not> undroppable p \<Longrightarrow> pkt_drop_priority p \<le> 1"
  by (cases "pkt_type p") (auto simp: packet_ok_def undroppable_def get_drop_priority_def split: if_splits)

lemma bar_now_le: "\<forall>p \<in> set (rs_queue st). packet_ok p \<Longrightarrow> rs_min_priority st \<le> 1 \<Longrightarrow> bar_now st \<le> 1"
  using dropped_priority by (auto simp: bar_now_def dropped_def intro!: bar_le)

lemma kept_subseq: "subseq (kept st) (rs_queue st)"
  by (simp add: kept_def subseq_filter_left)

lemma kept_must_arrive:
  assumes "\<forall>p \<in> set (rs_queue st). packet_ok p"
  shows "filter must_arrive (kept st) = filter must_arrive (rs_queue st)"
  using assms must_arrive_undroppable by (auto simp: kept_def intro!: filter_cong)

lemma queue_inv_start: "pq_ok (rs_packets st0) \<Longrightarrow> session_start st0 s \<Longrightarrow> queue_inv s"
  using free_packets_spec [OF _ refl, of st0]
  by (auto simp: session_start_def init_connect_def init_send_def reset_semaphore_def queue_inv_def)

text \<open>Steps of the sending thread that do not touch the queue.\<close>

lemma queue_inv_same:
  assumes "queue_inv s" "same_queue (sy_st s) st'" "pc \<noteq> Finished" "sy_pc s \<noteq> Woken" "in_loop pc \<longrightarrow> in_loop (sy_pc s)"
  shows "queue_inv (s\<lparr>sy_st := st', sy_pc := pc\<rparr>)"
    and "queue_inv (s\<lparr>sy_st := st'\<lparr>rs_disconnected := True\<rparr>, sy_pc := pc\<rparr>)"
  using assms by (auto simp: queue_inv_def same_queue_def)

lemma queue_inv_pc:
  assumes "queue_inv s" "pc \<noteq> Finished" "\<not> in_loop pc \<or> (pc = Waiting \<and> in_loop (sy_pc s) \<and> rs_queue (sy_st s) = [])"
  shows "queue_inv (s\<lparr>sy_pc := pc\<rparr>)"
  using assms by (auto simp: queue_inv_def)

lemma with_headers_same_queue: "same_queue st (with_headers env st)"
  by (simp add: with_headers_def send_headers_same_queue)

lemma queue_inv_take:
  assumes "queue_inv s" "get_next_packet (sy_st s) = Some (p, st')" "pc \<noteq> Finished" "pc \<noteq> Woken"
    "in_loop pc \<longrightarrow> in_loop (sy_pc s)"
  shows "queue_inv (s\<lparr>sy_st := st', sy_pc := pc, sy_taken := sy_taken s @ [p]\<rparr>)"
proof -
  have "pq_ok (rs_packets (sy_st s))" using assms(1) by (simp add: queue_inv_def)
  note * = get_next_packet_SomeD [OF this assms(2)]
  then show ?thesis using assms(1,3-5) by (auto simp: queue_inv_def split: if_splits)
qed

lemma subseq_appendI: "subseq (xs @ ys) zs \<Longrightarrow> subseq xs zs"
  by (rule subseq_order.trans [of _ "xs @ ys"]) (use subseq_append' [of xs "[]" ys] in simp_all)

lemma queue_inv_exit:
  assumes "queue_inv s" "sy_pc s = Closing"
  shows "queue_inv (s\<lparr>sy_st := send_thread_exit (sy_st s), sy_pc := Finished\<rparr>)"
proof -
  have "pq_ok (rs_packets (sy_st s))" using assms(1) by (simp add: queue_inv_def)
  from free_packets_spec [OF this refl] obtain q where
    "free_packets (sy_st s) = (sy_st s)\<lparr>rs_packets := q, rs_freed := rs_freed (sy_st s) @ rs_queue (sy_st s)\<rparr>"
    "pq_ok q" "pq_items q = []" by blast
  then show ?thesis
    using assms subseq_appendI by (auto simp: queue_inv_def send_thread_exit_def Let_def)
qed

lemma queue_packet_inv:
  assumes inv: "queue_inv s" and ok: "packet_ok p" and q: "queue_packet (sy_st s) p = (added, st')"
  shows "queue_inv (s\<lparr>sy_st := st', sy_pending := sy_pending s + (if added then 1 else 0),
    sy_arrived := (if rs_disconnected (sy_st s) then sy_arrived s else sy_arrived s @ [p])\<rparr>)"
proof -
  let ?st = "sy_st s" and ?done = "\<lambda>ps. sy_taken s @ ps"
  have pq: "pq_ok (rs_packets ?st)" and oks: "\<forall>p \<in> set (rs_queue ?st). packet_ok p"
    and low: "rs_min_priority ?st \<le> 1" and sub: "subseq (?done (rs_queue ?st)) (sy_arrived s)"
    using inv by (simp_all add: queue_inv_def)
  consider "rs_disconnected ?st" | "\<not> rs_disconnected ?st" "pkt_type p = OBS_ENCODER_AUDIO"
    | "\<not> rs_disconnected ?st" "pkt_type p = OBS_ENCODER_VIDEO" by (cases "pkt_type p") auto
  then show ?thesis
  proof cases
    case 1
    with q inv show ?thesis by (auto simp: queue_packet_def queue_inv_def)
  next
    case 2
    then have "st' = add_packet ?st p" "added" using q by (auto simp: queue_packet_def)
    with 2 inv ok show ?thesis
      by (auto simp: queue_inv_def add_packet_def pq_simps list_emb_append_mono simp flip: append_assoc)
  next
    case 3
    then have "add_video_packet ?st p = (added, st')" using q by (simp add: queue_packet_def)
    from add_video_packet_spec [OF pq, of p, unfolded this] obtain q where
      added: "added \<longleftrightarrow> bar_now ?st \<le> pkt_priority p" and
      fields: "rs_packets st' = q" "rs_min_priority st' = (if added then 0 else bar_now ?st)"
        "rs_disconnected st' = rs_disconnected ?st" "rs_send_sem st' = rs_send_sem ?st" and
      items: "pq_ok q" "pq_items q = kept ?st @ (if added then [p] else [])" by auto
    have len: "length (kept ?st) \<le> length (rs_queue ?st)" by (simp add: kept_def)
    have kept_ok: "\<forall>p \<in> set (kept ?st). packet_ok p" using oks by (auto simp: kept_def)
    have bar: "bar_now ?st \<le> 1" by (rule bar_now_le [OF oks low])
    have sub': "subseq (?done (kept ?st)) (sy_arrived s)"
      using sub kept_subseq [of ?st] subseq_append' [of "sy_taken s" "kept ?st" "rs_queue ?st"]
      by (meson subseq_order.trans)
    have must: "\<not> must_arrive p" if "\<not> added" using that 3(2) bar by (auto simp: added must_arrive_def)
    have arrived: "filter must_arrive (?done (rs_queue ?st)) = filter must_arrive (sy_arrived s)"
      using inv 3(1) by (simp add: queue_inv_def)
    show ?thesis
    proof (cases added)
      case True
      have "subseq ((?done (kept ?st)) @ [p]) (sy_arrived s @ [p])"
        using sub' by (intro list_emb_append_mono) simp_all
      with True 3(1) inv fields items kept_ok ok len arrived kept_must_arrive [OF oks] show ?thesis
        by (auto simp: queue_inv_def)
    next
      case False
      with 3(1) inv fields items kept_ok ok len arrived kept_must_arrive [OF oks] sub' bar must show ?thesis
        by (auto simp: queue_inv_def)
    qed
  qed
qed

lemma queue_inv_step:
  assumes "rtmp_step env s s'" "queue_inv s"
  shows "queue_inv s'"
  using assms
proof (induction rule: rtmp_step.induct)
  case (sem_wait s n)
  then show ?case by (auto simp: queue_inv_def)
next
  case (stop_seen s)
  then show ?case by (intro queue_inv_pc) auto
next
  case (nothing_there s)
  moreover from this have "rs_queue (sy_st s) = []"
    using get_next_packet_Cons [of "sy_st s"] by (cases "rs_queue (sy_st s)") (auto simp: queue_inv_def)
  ultimately show ?case by (intro queue_inv_pc) auto
next
  case (take_packet s p st')
  then show ?case by (intro queue_inv_take) auto
next
  case (sent s p ret st')
  then have "same_queue (sy_st s) st'"
    using same_queue_trans [OF with_headers_same_queue send_packet_same_queue] by (metis snd_conv)
  with sent show ?case by (intro queue_inv_same) auto
next
  case (send_failed s p ret st')
  then have "same_queue (sy_st s) st'"
    using same_queue_trans [OF with_headers_same_queue send_packet_same_queue] by (metis snd_conv)
  with send_failed show ?case by (intro queue_inv_same) auto
next
  case (leave_lost s)
  then show ?case by (intro queue_inv_pc) auto
next
  case (leave_drain s t st')
  then have "same_queue (sy_st s) (with_headers env st')"
    by (intro same_queue_trans [OF _ with_headers_same_queue]) (auto simp: os_gettime_ns_def)
  with leave_drain show ?case by (intro queue_inv_same) auto
next
  case (drained s t)
  then show ?case by (intro queue_inv_pc) auto
next
  case (drain_take s t p st')
  then show ?case by (intro queue_inv_take) auto
next
  case (drain_sent s t p st')
  then have "same_queue (sy_st s) st'" using send_remaining_one_same_queue by (metis snd_conv)
  with drain_sent show ?case by (intro queue_inv_same) auto
next
  case (drain_failed s t p st')
  then have "same_queue (sy_st s) st'" using send_remaining_one_same_queue by (metis snd_conv)
  with drain_failed show ?case by (intro queue_inv_same) auto
next
  case (close s)
  then show ?case by (intro queue_inv_exit)
next
  case (data_added packet p s st')
  then have "packet_ok p" using make_packet_returns [of env packet] by auto
  moreover have "\<not> rs_disconnected (sy_st s)" using data_added by (auto simp: queue_packet_def)
  ultimately show ?case using queue_packet_inv [OF data_added(3) _ data_added(2)] by simp
next
  case (data_refused packet p s st')
  then have "packet_ok p" using make_packet_returns [of env packet] by auto
  then show ?case
    using queue_packet_inv [OF data_refused(3) _ data_refused(2)]
    by (auto simp: queue_inv_def obs_free_encoder_packet_def)
next
  case (post s n)
  then show ?case by (auto simp: queue_inv_def os_sem_post_def)
next
  case (stop s)
  then show ?case by (auto simp: queue_inv_def rtmp_stream_stop_def os_sem_post_def Let_def)
qed

lemma queue_inv_reachable: "pq_ok (rs_packets st0) \<Longrightarrow> rtmp_reachable env st0 s \<Longrightarrow> queue_inv s"
  by (rotate_tac, induction rule: rtmp_reachable.induct) (auto intro: queue_inv_start queue_inv_step)


definition rtmp_stream_create :: rtmp_stream where
  "rtmp_stream_create =
     \<lparr>rs_packets = circlebuf_init, rs_sent_headers = False, rs_active = False, rs_disconnected = False,
      rs_max_shutdown_time_sec = 0, rs_send_sem = 0, rs_stop_event = False, rs_drop_threshold_usec = 0,
      rs_min_drop_dts_usec = 0, rs_min_priority = 0, rs_last_dts_usec = 0, rs_total_bytes_sent = 0,
      rs_dropped_frames = 0, rs_written = [], rs_freed = [], rs_polls = 0, rs_recvs = 0, rs_clocks = 0,
      rs_stop_signals = []\<rparr>"

lemma create_ok: "pq_ok (rs_packets rtmp_stream_create)"
  by (simp add: rtmp_stream_create_def pq.inv_empty)

text \<open>What a successful send wrote.\<close>

lemma discard_written: "rs_written (snd (discard_recv_data env st n)) = rs_written st"
proof (induction env st n rule: discard_recv_data.induct)
  case (1 env st n)
  from "1.IH" [OF refl refl refl refl] show ?case
    by (subst discard_recv_data.simps) (auto simp: Let_def)
qed

lemma send_packet_written:
  assumes "send_packet env st p h i = (ret, st')" "0 \<le> ret"
  shows "rs_written st' = rs_written st @ [(i, flv_packet_mux p h)]"
proof -
  have "rs_written st'' = rs_written st" if "discard_recv_data env (st\<lparr>rs_polls := rs_polls st + 1\<rparr>) n = (ok, st'')" for n ok st''
    using discard_written [of env "st\<lparr>rs_polls := rs_polls st + 1\<rparr>" n] that by simp
  then show ?thesis
    using assms by (auto simp: send_packet_def Let_def obs_free_encoder_packet_def split: prod.splits if_splits)
qed

lemma send_remaining_loop_flushes:
  "pq_ok (rs_packets st) \<Longrightarrow> rs_queue st = ps \<Longrightarrow> send_remaining_loop env t st = (True, st') \<Longrightarrow>
   rs_queue st' = [] \<and>
   rs_written st' = rs_written st @ map (\<lambda>p. (pkt_track_idx p, flv_packet_mux p False)) ps"
proof (induction ps arbitrary: st)
  case Nil
  then show ?case by (subst (asm) send_remaining_loop.simps) (simp add: get_next_packet_Nil)
next
  case (Cons p ps)
  then obtain q where q: "get_next_packet st = Some (p, st\<lparr>rs_packets := q\<rparr>)" "pq_ok q" "pq_items q = ps"
    using get_next_packet_Cons by blast
  obtain st2 where one: "send_remaining_one env t (st\<lparr>rs_packets := q\<rparr>) p = (True, st2)"
      and loop: "send_remaining_loop env t st2 = (True, st')"
    using Cons.prems(3) q by (subst (asm) send_remaining_loop.simps) (auto split: prod.splits if_splits)
  have "rs_packets st2 = q" using send_remaining_one_packets [OF one] by simp
  moreover have "rs_written st2 = rs_written st @ [(pkt_track_idx p, flv_packet_mux p False)]"
    using one send_packet_written [of env "st\<lparr>rs_packets := q\<rparr>" p False "pkt_track_idx p"]
    by (auto simp: send_remaining_one_def os_gettime_ns_def Let_def split: prod.splits if_splits)
  ultimately show ?case using Cons.IH [of st2] loop q by simp
qed

text \<open>C14: the sending thread never sleeps on work: when it waits on the semaphore, no post is
  outstanding and a packet is queued, the semaphore is positive, so the thread can go on. This
  holds in every interleaving of the encoder callback, the thread and a stop request.\<close>

theorem rtmp_no_lost_wakeup:
  assumes "pq_ok (rs_packets st0)" and "rtmp_reachable env st0 s"
    and "sy_pc s = Waiting" and "sy_pending s = 0" and "rs_queue (sy_st s) \<noteq> []"
  shows "\<exists>s'. rtmp_step env s s' \<and> sy_pc s' = Woken"
proof -
  have "length (rs_queue (sy_st s)) \<le> rs_send_sem (sy_st s)"
    using queue_inv_reachable [OF assms(1,2)] assms(3,4) by (simp add: queue_inv_def)
  then obtain n where "rs_send_sem (sy_st s) = Suc n" using assms(5) by (cases "rs_send_sem (sy_st s)") auto
  from sem_wait [OF assms(3) this] show ?thesis by (metis (no_types) rtmp_system.select_convs(2) rtmp_system.surjective rtmp_system.update_convs(2))
qed

text \<open>A session that has queued one audio packet.\<close>

definition sample_env :: rtmp_env where
  "sample_env = \<lparr>en_poll = (\<lambda>_. (0, 0)), en_recv = (\<lambda>_. 0), en_write = (\<lambda>_. 1), en_clock = (\<lambda>_. 0),
     en_audio = [], en_video = [], en_base = 0\<rparr>"

definition sample_start :: rtmp_system where
  "sample_start = \<lparr>sy_st = init_send (snd (init_connect rtmp_stream_create True 600 5)), sy_pc = Waiting,
     sy_pending = 0, sy_arrived = [], sy_taken = []\<rparr>"

definition sample_queued :: rtmp_system where
  "sample_queued = sample_start\<lparr>sy_st := add_packet (sy_st sample_start) zero_packet, sy_pending := 1,
     sy_arrived := [zero_packet]\<rparr>"

definition sample_posted :: rtmp_system where
  "sample_posted = sample_queued\<lparr>sy_st := os_sem_post (sy_st sample_queued), sy_pending := 0\<rparr>"

lemma sample_start_reachable: "rtmp_reachable env rtmp_stream_create sample_start"
  by (rule start) (auto simp: session_start_def sample_start_def)

lemma sample_start_state:
  "pq_ok (rs_packets (sy_st sample_start))" "rs_queue (sy_st sample_start) = []"
  "rs_disconnected (sy_st sample_start) = False"
  using free_packets_spec [OF create_ok refl]
  by (auto simp: sample_start_def init_send_def init_connect_def reset_semaphore_def)

lemma sample_posted_reachable: "rtmp_reachable env rtmp_stream_create sample_posted"
proof -
  have "rtmp_step env sample_start (sample_start\<lparr>sy_st := add_packet (sy_st sample_start) zero_packet,
      sy_pending := sy_pending sample_start + 1, sy_arrived := sy_arrived sample_start @ [zero_packet]\<rparr>)"
    by (rule data_added [of _ zero_packet])
       (simp_all add: make_packet_def zero_packet_def queue_packet_def sample_start_state)
  then have "rtmp_step env sample_start sample_queued"
    by (simp add: sample_queued_def sample_start_def)
  moreover have "rtmp_step env sample_queued (sample_queued\<lparr>sy_st := os_sem_post (sy_st sample_queued), sy_pending := 0\<rparr>)"
    by (rule post) (simp add: sample_queued_def)
  ultimately show ?thesis
    using sample_start_reachable rtmp_reachable.step unfolding sample_posted_def by blast
qed

lemma sample_posted_state:
  "sy_pc sample_posted = Waiting" "sy_pending sample_posted = 0" "sy_arrived sample_posted = [zero_packet]"
  "sy_taken sample_posted = []" "rs_queue (sy_st sample_posted) = [zero_packet]"
  "\<not> rs_disconnected (sy_st sample_posted)"
  using add_packet_spec [OF sample_start_state(1), of zero_packet] sample_start_state
  by (simp_all add: sample_posted_def sample_queued_def os_sem_post_def add_packet_def)
     (simp_all add: sample_start_def)

theorem rtmp_no_lost_wakeup_witness: "\<exists>s'. rtmp_step sample_env sample_posted s' \<and> sy_pc s' = Woken"
  by (rule rtmp_no_lost_wakeup [OF create_ok sample_posted_reachable]) (simp_all add: sample_posted_state)



text \<open>C24: when the remaining packets are flushed at a stop and \<open>send_remaining_packets\<close> reports
  success, the queue is empty and every packet that was queued has been written, in order, each muxed
  once and on its own track, after the headers.\<close>

theorem send_remaining_packets_flushes:
  assumes "pq_ok (rs_packets st)" and "send_remaining_packets env st = (True, st')"
  shows "rs_queue st' = [] \<and> (\<exists>headers. rs_written st' =
    headers @ map (\<lambda>p. (pkt_track_idx p, flv_packet_mux p False)) (rs_queue st) \<and>
    (rs_sent_headers st \<longrightarrow> headers = rs_written st))"
proof -
  define st1 where "st1 = st\<lparr>rs_clocks := rs_clocks st + 1\<rparr>"
  define st2 where "st2 = (if rs_sent_headers st1 then st1 else send_headers env st1)"
  have "same_queue st st2" unfolding st2_def
    using same_queue_trans [OF _ send_headers_same_queue, of st st1] by (simp add: st1_def)
  then have "rs_packets st2 = rs_packets st" by (simp add: same_queue_def)
  moreover have "send_remaining_loop env (en_clock env (rs_clocks st)) st2 = (True, st')"
    using assms(2) by (simp add: send_remaining_packets_def os_gettime_ns_def st1_def st2_def Let_def split: if_splits)
  ultimately have "rs_queue st' = [] \<and> rs_written st' =
      rs_written st2 @ map (\<lambda>p. (pkt_track_idx p, flv_packet_mux p False)) (rs_queue st)"
    using send_remaining_loop_flushes [of st2 "rs_queue st"] assms(1) by simp
  moreover have "rs_sent_headers st \<Longrightarrow> rs_written st2 = rs_written st" by (simp add: st2_def st1_def)
  ultimately show ?thesis by blast
qed

lemma sample_flush: "\<exists>st'. send_remaining_packets sample_env (sy_st sample_posted) = (True, st')"
proof -
  have send: "\<exists>st'. send_packet sample_env st p h i = (1, st')" for st p h i
    by (simp add: send_packet_def sample_env_def Let_def)
  have one: "\<exists>st'. send_remaining_one sample_env 0 st p = (True, st')" for st p
    using send [of st p False "pkt_track_idx p"]
    by (auto simp: send_remaining_one_def os_gettime_ns_def Let_def) (simp add: sample_env_def)
  have "\<exists>st'. send_remaining_loop sample_env 0 st = (True, st')" for st
  proof (induction "sample_env" "0 :: 64 word" st rule: send_remaining_loop.induct)
    case (1 st)
    then show ?case
    proof (cases "get_next_packet st")
      case None
      then show ?thesis by (subst send_remaining_loop.simps) simp
    next
      case (Some ps)
      obtain p st1 where p: "ps = (p, st1)" by (cases ps)
      obtain st2 where st2: "send_remaining_one sample_env 0 st1 p = (True, st2)" using one by blast
      from 1 [OF Some p [symmetric] st2 [symmetric]] show ?thesis
        using Some p st2 by (subst send_remaining_loop.simps) simp
    qed
  qed
  then show ?thesis by (simp add: send_remaining_packets_def os_gettime_ns_def Let_def) (simp add: sample_env_def)
qed

theorem send_remaining_packets_flushes_witness:
  "\<exists>st' headers. send_remaining_packets sample_env (sy_st sample_posted) = (True, st') \<and>
     rs_written st' = headers @ [(0, flv_packet_mux zero_packet False)]"
proof -
  obtain st' where st': "send_remaining_packets sample_env (sy_st sample_posted) = (True, st')"
    using sample_flush by blast
  have "queue_inv sample_posted" using queue_inv_reachable [OF create_ok sample_posted_reachable] .
  then have "pq_ok (rs_packets (sy_st sample_posted))" by (simp add: queue_inv_def)
  from send_remaining_packets_flushes [OF this st'] st' show ?thesis
    by (auto simp: sample_posted_state zero_packet_def)
qed

text \<open>C23: what the encoder callback does with a video frame while connected: it first drops the
  droppable frames if the queue holds five packets or more, spans more than the threshold and does
  not end before the last drop; then the frame is queued, and the thread signalled, exactly when its
  priority reaches the highest priority dropped (or the bar left by an earlier drop); otherwise it is
  counted as dropped and freed, and the bar stays.\<close>

theorem rtmp_stream_data_video:
  assumes ok: "pq_ok (rs_packets st)" and connected: "\<not> rs_disconnected st"
    and video: "pkt_type packet = OBS_ENCODER_VIDEO"
  shows "\<exists>new. obs_parse_avc_packet (en_base env) packet = Some new \<and>
    (let st' = rtmp_stream_data env st packet; accepted = bar_now st \<le> pkt_priority new;
         gone = (if must_drop st then dropped (rs_queue st) else [])
     in rs_queue st' = kept st @ (if accepted then [new] else []) \<and>
        rs_send_sem st' = rs_send_sem st + (if accepted then 1 else 0) \<and>
        rs_freed st' = rs_freed st @ gone @ (if accepted then [] else [new]) \<and>
        rs_dropped_frames st' = rs_dropped_frames st + int (length gone) + (if accepted then 0 else 1) \<and>
        rs_min_priority st' = (if accepted then 0 else bar_now st) \<and> pq_ok (rs_packets st'))"
proof -
  obtain new where new: "make_packet env packet = Some new" "pkt_type new = OBS_ENCODER_VIDEO"
    using make_packet_returns [of env packet] video by auto
  then have parse: "obs_parse_avc_packet (en_base env) packet = Some new"
    using video by (simp add: make_packet_def)
  from add_video_packet_spec [OF ok, of new] new(2) connected parse show ?thesis
    by (auto simp: rtmp_stream_data_def new(1) queue_packet_def os_sem_post_def obs_free_encoder_packet_def Let_def)
qed

theorem rtmp_stream_data_video_witness:
  "\<exists>new. obs_parse_avc_packet 0 (zero_packet\<lparr>pkt_type := OBS_ENCODER_VIDEO, pkt_data := annexb avc_sample\<rparr>) = Some new \<and>
    (let st' = rtmp_stream_data sample_env rtmp_stream_create
           (zero_packet\<lparr>pkt_type := OBS_ENCODER_VIDEO, pkt_data := annexb avc_sample\<rparr>)
     in rs_send_sem st' = (if bar_now rtmp_stream_create \<le> pkt_priority new then 1 else 0))"
  using rtmp_stream_data_video [OF create_ok, of "zero_packet\<lparr>pkt_type := OBS_ENCODER_VIDEO, pkt_data := annexb avc_sample\<rparr>" sample_env]
  by (auto simp: rtmp_stream_create_def sample_env_def Let_def)

text \<open>C25: after a lost connection nothing stays behind: once the thread has ended, the queue is
  empty, and no later callback of the encoder puts a packet in it.\<close>

theorem rtmp_disconnected_queue_empty:
  assumes "pq_ok (rs_packets st0)" and "rtmp_reachable env st0 s"
    and "sy_pc s = Finished" and "rs_disconnected (sy_st s)"
  shows "rs_queue (sy_st s) = [] \<and> rs_queue (rtmp_stream_data env (sy_st s) packet) = []"
  using queue_inv_reachable [OF assms(1,2)] assms(3,4) by (simp add: queue_inv_def rtmp_stream_data_def)

text \<open>A session whose first write fails.\<close>

definition lossy_env :: rtmp_env where
  "lossy_env = sample_env\<lparr>en_write := (\<lambda>_. -1)\<rparr>"

lemma lossy_session: "\<exists>s. rtmp_reachable lossy_env rtmp_stream_create s \<and> sy_pc s = Finished \<and> rs_disconnected (sy_st s)"
proof -
  let ?s = sample_posted
  obtain n where n: "rs_send_sem (sy_st ?s) = Suc n" by (simp add: sample_posted_def os_sem_post_def)
  define s1 where "s1 = ?s\<lparr>sy_st := (sy_st ?s)\<lparr>rs_send_sem := n\<rparr>, sy_pc := Woken\<rparr>"
  have r1: "rtmp_reachable lossy_env rtmp_stream_create s1"
    using rtmp_reachable.step [OF sample_posted_reachable sem_wait [OF sample_posted_state(1) n]] by (simp add: s1_def)
  then have "queue_inv s1" by (rule queue_inv_reachable [OF create_ok])
  then obtain q where "get_next_packet (sy_st s1) = Some (zero_packet, (sy_st s1)\<lparr>rs_packets := q\<rparr>)"
    using get_next_packet_Cons [of "sy_st s1" zero_packet "[]"] sample_posted_state(5)
    by (auto simp: queue_inv_def s1_def)
  moreover have "\<not> stopping (sy_st s1)" "sy_pc s1 = Woken"
    using free_packets_spec [OF create_ok refl]
    by (auto simp: s1_def stopping_def sample_posted_def sample_queued_def sample_start_def os_sem_post_def add_packet_def
        init_send_def init_connect_def reset_semaphore_def rtmp_stream_create_def)
  ultimately obtain st2 where r2: "rtmp_reachable lossy_env rtmp_stream_create
      (s1\<lparr>sy_st := st2, sy_pc := Sending zero_packet, sy_taken := sy_taken s1 @ [zero_packet]\<rparr>)"
    using rtmp_reachable.step [OF r1 take_packet] by blast
  define s2 where "s2 = s1\<lparr>sy_st := st2, sy_pc := Sending zero_packet, sy_taken := sy_taken s1 @ [zero_packet]\<rparr>"
  have "\<exists>st'. send_packet lossy_env st p h i = (-1, st')" for st p h i
    by (simp add: send_packet_def sample_env_def lossy_env_def Let_def)
  then obtain st3 where "send_packet lossy_env (with_headers lossy_env (sy_st s2)) zero_packet False (pkt_track_idx zero_packet) = (-1, st3)"
    by blast
  from rtmp_reachable.step [OF r2 [folded s2_def] send_failed [OF _ this]] obtain s3 where
    r3: "rtmp_reachable lossy_env rtmp_stream_create s3" "sy_pc s3 = Leaving" "rs_disconnected (sy_st s3)"
    by (force simp: s2_def)
  from rtmp_reachable.step [OF r3(1) leave_lost [OF r3(2,3)]] obtain s4 where
    r4: "rtmp_reachable lossy_env rtmp_stream_create s4" "sy_pc s4 = Closing" "rs_disconnected (sy_st s4)"
    using r3(3) by force
  then have ok4: "pq_ok (rs_packets (sy_st s4))"
    using queue_inv_reachable [OF create_ok r4(1)] by (simp add: queue_inv_def)
  have "rs_disconnected (send_thread_exit (sy_st s4))"
    using free_packets_spec [OF ok4 refl] r4(3) by (auto simp: send_thread_exit_def Let_def)
  then show ?thesis
    using rtmp_reachable.step [OF r4(1) close [OF r4(2)]] by force
qed

theorem rtmp_disconnected_queue_empty_witness:
  "\<exists>s. rtmp_reachable lossy_env rtmp_stream_create s \<and> sy_pc s = Finished \<and> rs_queue (sy_st s) = []"
  using rtmp_disconnected_queue_empty [OF create_ok, of lossy_env] lossy_session by blast

end
