(* ===== verification/Crc32.thy ===== *)
theory Crc32
  imports Prelude
begin

text \<open>
  \<open>libobs/util/crc32.c\<close>: the table driven CRC-32, against the bit by bit division by the
  polynomial \<open>0xEDB88320\<close> (reflected) that the table abbreviates.
\<close>

definition crc32_tab :: "32 word list" where
  "crc32_tab = [
   0x00000000, 0x77073096, 0xee0e612c, 0x990951ba, 0x076dc419, 0x706af48f, 0xe963a535, 0x9e6495a3,
   0x0edb8832, 0x79dcb8a4, 0xe0d5e91e, 0x97d2d988, 0x09b64c2b, 0x7eb17cbd, 0xe7b82d07, 0x90bf1d91,
   0x1db71064, 0x6ab020f2, 0xf3b97148, 0x84be41de, 0x1adad47d, 0x6ddde4eb, 0xf4d4b551, 0x83d385c7,
   0x136c9856, 0x646ba8c0, 0xfd62f97a, 0x8a65c9ec, 0x14015c4f, 0x63066cd9, 0xfa0f3d63, 0x8d080df5,
   0x3b6e20c8, 0x4c69105e, 0xd56041e4, 0xa2677172, 0x3c03e4d1, 0x4b04d447, 0xd20d85fd, 0xa50ab56b,
   0x35b5a8fa, 0x42b2986c, 0xdbbbc9d6, 0xacbcf940, 0x32d86ce3, 0x45df5c75, 0xdcd60dcf, 0xabd13d59,
   0x26d930ac, 0x51de003a, 0xc8d75180, 0xbfd06116, 0x21b4f4b5, 0x56b3c423, 0xcfba9599, 0xb8bda50f,
   0x2802b89e, 0x5f058808, 0xc60cd9b2, 0xb10be924, 0x2f6f7c87, 0x58684c11, 0xc1611dab, 0xb6662d3d,
   0x76dc4190, 0x01db7106, 0x98d220bc, 0xefd5102a, 0x71b18589, 0x06b6b51f, 0x9fbfe4a5, 0xe8b8d433,
   0x7807c9a2, 0x0f00f934, 0x9609a88e, 0xe10e9818, 0x7f6a0dbb, 0x086d3d2d, 0x91646c97, 0xe6635c01,
   0x6b6b51f4, 0x1c6c6162, 0x856530d8, 0xf262004e, 0x6c0695ed, 0x1b01a57b, 0x8208f4c1, 0xf50fc457,
   0x65b0d9c6, 0x12b7e950, 0x8bbeb8ea, 0xfcb9887c, 0x62dd1ddf, 0x15da2d49, 0x8cd37cf3, 0xfbd44c65,
   0x4db26158, 0x3ab551ce, 0xa3bc0074, 0xd4bb30e2, 0x4adfa541, 0x3dd895d7, 0xa4d1c46d, 0xd3d6f4fb,
   0x4369e96a, 0x346ed9fc, 0xad678846, 0xda60b8d0, 0x44042d73, 0x33031de5, 0xaa0a4c5f, 0xdd0d7cc9,
   0x5005713c, 0x270241aa, 0xbe0b1010, 0xc90c2086, 0x5768b525, 0x206f85b3, 0xb966d409, 0xce61e49f,
   0x5edef90e, 0x29d9c998, 0xb0d09822, 0xc7d7a8b4, 0x59b33d17, 0x2eb40d81, 0xb7bd5c3b, 0xc0ba6cad,
   0xedb88320, 0x9abfb3b6, 0x03b6e20c, 0x74b1d29a, 0xead54739, 0x9dd277af, 0x04db2615, 0x73dc1683,
   0xe3630b12, 0x94643b84, 0x0d6d6a3e, 0x7a6a5aa8, 0xe40ecf0b, 0x9309ff9d, 0x0a00ae27, 0x7d079eb1,
   0xf00f9344, 0x8708a3d2, 0x1e01f268, 0x6906c2fe, 0xf762575d, 0x806567cb, 0x196c3671, 0x6e6b06e7,
   0xfed41b76, 0x89d32be0, 0x10da7a5a, 0x67dd4acc, 0xf9b9df6f, 0x8ebeeff9, 0x17b7be43, 0x60b08ed5,
   0xd6d6a3e8, 0xa1d1937e, 0x38d8c2c4, 0x4fdff252, 0xd1bb67f1, 0xa6bc5767, 0x3fb506dd, 0x48b2364b,
   0xd80d2bda, 0xaf0a1b4c, 0x36034af6, 0x41047a60, 0xdf60efc3, 0xa867df55, 0x316e8eef, 0x4669be79,
   0xcb61b38c, 0xbc66831a, 0x256fd2a0, 0x5268e236, 0xcc0c7795, 0xbb0b4703, 0x220216b9, 0x5505262f,
   0xc5ba3bbe, 0xb2bd0b28, 0x2bb45a92, 0x5cb36a04, 0xc2d7ffa7, 0xb5d0cf31, 0x2cd99e8b, 0x5bdeae1d,
   0x9b64c2b0, 0xec63f226, 0x756aa39c, 0x026d930a, 0x9c0906a9, 0xeb0e363f, 0x72076785, 0x05005713,
   0x95bf4a82, 0xe2b87a14, 0x7bb12bae, 0x0cb61b38, 0x92d28e9b, 0xe5d5be0d, 0x7cdcefb7, 0x0bdbdf21,
   0x86d3d2d4, 0xf1d4e242, 0x68ddb3f8, 0x1fda836e, 0x81be16cd, 0xf6b9265b, 0x6fb077e1, 0x18b74777,
   0x88085ae6, 0xff0f6a70, 0x66063bca, 0x11010b5c, 0x8f659eff, 0xf862ae69, 0x616bffd3, 0x166ccf45,
   0xa00ae278, 0xd70dd2ee, 0x4e048354, 0x3903b3c2, 0xa7672661, 0xd06016f7, 0x4969474d, 0x3e6e77db,
   0xaed16a4a, 0xd9d65adc, 0x40df0b66, 0x37d83bf0, 0xa9bcae53, 0xdebb9ec5, 0x47b2cf7f, 0x30b5ffe9,
   0xbdbdf21c, 0xcabac28a, 0x53b39330, 0x24b4a3a6, 0xbad03605, 0xcdd70693, 0x54de5729, 0x23d967bf,
   0xb3667a2e, 0xc4614ab8, 0x5d681b02, 0x2a6f2b94, 0xb40bbe37, 0xc30c8ea1, 0x5a05df1b, 0x2d02ef8d]"

fun crc_loop :: "32 word \<Rightarrow> byte list \<Rightarrow> 32 word" where
  "crc_loop crc [] = crc"
| "crc_loop crc (b # bs) = crc_loop (crc32_tab ! unat ((crc XOR ucast b) AND 0xFF) XOR drop_bit 8 crc) bs"

definition calc_crc32 :: "32 word \<Rightarrow> byte list \<Rightarrow> 32 word" where
  "calc_crc32 crc buf = NOT (crc_loop (NOT crc) buf)"

subsection \<open>The reference\<close>

definition crc_bit :: "32 word \<Rightarrow> 32 word" where
  "crc_bit x = (if bit x 0 then drop_bit 1 x XOR 0xEDB88320 else drop_bit 1 x)"

definition crc_byte :: "32 word \<Rightarrow> byte \<Rightarrow> 32 word" where
  "crc_byte crc b = (crc_bit ^^ 8) (crc XOR ucast b)"

definition crc_reference :: "32 word \<Rightarrow> byte list \<Rightarrow> 32 word" where
  "crc_reference crc bs = NOT (foldl crc_byte (NOT crc) bs)"

lemma crc_bit_xor: "crc_bit (x XOR y) = crc_bit x XOR crc_bit y"
  by (rule bit_word_eqI) (auto simp: crc_bit_def bit_xor_iff bit_drop_bit_eq)

lemma crc_bits_xor: "(crc_bit ^^ n) (x XOR y) = (crc_bit ^^ n) x XOR (crc_bit ^^ n) y"
  by (induction n) (simp_all add: crc_bit_xor)

text \<open>As long as the low bits are zero a step is a shift.\<close>

lemma crc_bits_shift: "(\<forall>i < n. \<not> bit x i) \<Longrightarrow> (crc_bit ^^ n) x = drop_bit n x"
proof (induction n)
  case (Suc n)
  then have "(crc_bit ^^ n) x = drop_bit n x" "\<not> bit x n" by simp_all
  then have "(crc_bit ^^ Suc n) x = crc_bit (drop_bit n x)" "\<not> bit (drop_bit n x) 0"
    by (simp_all add: bit_drop_bit_eq)
  moreover have "crc_bit y = drop_bit 1 y" if "\<not> bit y 0" for y using that by (simp add: crc_bit_def)
  ultimately show ?case by (simp del: funpow.simps)
qed simp

text \<open>The table is linear: each half is the half before, shifted by the entry of a power of two.\<close>

definition double :: "32 word \<Rightarrow> 32 word list \<Rightarrow> 32 word list" where
  "double p xs = xs @ map (\<lambda>x. p XOR x) xs"

definition entry :: "nat \<Rightarrow> 32 word" where
  "entry i = (crc_bit ^^ 8) (word_of_nat i)"

lemma entry_add: "j < 2 ^ k \<Longrightarrow> entry (2 ^ k + j) = entry (2 ^ k) XOR entry j"
proof -
  assume j: "j < 2 ^ k"
  have disjoint: "word_of_nat (2 ^ k) AND word_of_nat j = (0 :: 32 word)"
  proof (rule bit_word_eqI)
    fix n show "bit (word_of_nat (2 ^ k) AND word_of_nat j :: 32 word) n = bit (0 :: 32 word) n"
      using j by (auto simp: bit_and_iff bit_of_nat_iff bit_exp_iff bit_iff_odd [of j] simp del: of_nat_power)
  qed
  have "(word_of_nat (2 ^ k + j) :: 32 word) = word_of_nat (2 ^ k) XOR word_of_nat j"
    using disjoint by (simp add: disjunctive_xor_eq_or disjunctive_add_eq_or del: of_nat_power)
  then show ?thesis by (simp add: entry_def crc_bits_xor)
qed

lemma double_entry:
  assumes "xs = map entry [0 ..< 2 ^ k]" "p = entry (2 ^ k)"
  shows "double p xs = map entry [0 ..< 2 ^ Suc k]"
proof -
  have "[0 ..< 2 ^ Suc k] = [0 ..< 2 ^ k] @ map (\<lambda>j. 2 ^ k + j) [0 ..< 2 ^ k]"
    using upt_add_eq_append [of 0 "2 ^ k" "2 ^ k"] map_add_upt [of "2 ^ k" "2 ^ k"]
    by (simp add: add.commute mult_2)
  then show ?thesis
    by (simp add: double_def assms entry_add)
qed

lemma table_doubling:
  "crc32_tab = double 0xedb88320 (double 0x76dc4190 (double 0x3b6e20c8 (double 0x1db71064
     (double 0x0edb8832 (double 0x076dc419 (double 0xee0e612c (double 0x77073096 [0])))))))"
  by (simp add: crc32_tab_def double_def)

lemma entries: "entry 1 = 0x77073096" "entry 2 = 0xee0e612c" "entry 4 = 0x076dc419" "entry 8 = 0x0edb8832"
    "entry 16 = 0x1db71064" "entry 32 = 0x3b6e20c8" "entry 64 = 0x76dc4190" "entry 128 = 0xedb88320" "entry 0 = 0"
proof -
  have eight: "(f ^^ 8) x = f (f (f (f (f (f (f (f x)))))))" for f :: "32 word \<Rightarrow> 32 word" and x
    by (simp add: numeral_eq_Suc)
  show "entry 1 = 0x77073096" "entry 2 = 0xee0e612c" "entry 4 = 0x076dc419" "entry 8 = 0x0edb8832"
    "entry 16 = 0x1db71064" "entry 32 = 0x3b6e20c8" "entry 64 = 0x76dc4190" "entry 128 = 0xedb88320" "entry 0 = 0"
    by (simp_all add: entry_def eight crc_bit_def)
qed

lemma table_entry: "i < 256 \<Longrightarrow> crc32_tab ! i = entry i"
proof -
  have start: "[0 :: 32 word] = map entry [0 ..< 2 ^ 0]" by (simp add: entries)
  have powers: "0x77073096 = entry (2 ^ 0)" "0xee0e612c = entry (2 ^ 1)" "0x076dc419 = entry (2 ^ 2)"
    "0x0edb8832 = entry (2 ^ 3)" "0x1db71064 = entry (2 ^ 4)" "0x3b6e20c8 = entry (2 ^ 5)"
    "0x76dc4190 = entry (2 ^ 6)" "0xedb88320 = entry (2 ^ 7)"
    using entries by simp_all
  have d: "xs = map entry [0 ..< 2 ^ k] \<Longrightarrow> p = entry (2 ^ k) \<Longrightarrow> n = Suc k \<Longrightarrow>
      double p xs = map entry [0 ..< 2 ^ n]" for xs k p n
    using double_entry by blast
  have "crc32_tab = map entry [0 ..< 2 ^ 8]"
    unfolding table_doubling
    by (rule d [where k = 7], rule d [where k = 6], rule d [where k = 5], rule d [where k = 4], rule d [where k = 3],
        rule d [where k = 2], rule d [where k = 1], rule d [where k = 0], rule start)
       (rule powers | simp)+
  then have tab: "crc32_tab = map entry [0 ..< 256]" by (simp del: upt_rec_numeral)
  show "i < 256 \<Longrightarrow> crc32_tab ! i = entry i" unfolding tab by (simp del: upt_rec_numeral)
qed

lemma crc_step_byte: "crc32_tab ! unat ((crc XOR ucast b) AND 0xFF) XOR drop_bit 8 crc = crc_byte crc b"
proof -
  define x where "x = crc XOR ucast b"
  have mask: "x AND 0xFF = take_bit 8 x" by (simp add: take_bit_eq_mask mask_eq_exp_minus_1)
  have "unat (take_bit 8 x) < 2 ^ 8"
    by (simp add: unsigned_take_bit_eq del: take_bit_of_nat) (simp add: take_bit_eq_mod)
  then have tab: "crc32_tab ! unat (x AND 0xFF) = (crc_bit ^^ 8) (take_bit 8 x)"
    by (simp add: table_entry mask entry_def)
  have "x = take_bit 8 x XOR (x AND NOT (mask 8))"
    by (rule bit_word_eqI) (auto simp: bit_xor_iff bit_take_bit_iff bit_and_iff bit_not_iff bit_mask_iff)
  then have "(crc_bit ^^ 8) x = (crc_bit ^^ 8) (take_bit 8 x) XOR (crc_bit ^^ 8) (x AND NOT (mask 8))"
    by (metis crc_bits_xor)
  also have "(crc_bit ^^ 8) (x AND NOT (mask 8)) = drop_bit 8 (x AND NOT (mask 8))"
    by (rule crc_bits_shift) (simp add: bit_and_iff bit_not_iff bit_mask_iff)
  also have "drop_bit 8 (x AND NOT (mask 8)) = drop_bit 8 crc"
    by (rule bit_word_eqI)
       (auto simp: x_def bit_drop_bit_eq bit_xor_iff bit_and_iff bit_not_iff bit_mask_iff bit_ucast_iff dest: bit_imp_le_length)
  finally show ?thesis by (simp add: tab crc_byte_def x_def [symmetric])
qed

lemma crc_loop_reference: "crc_loop crc bs = foldl crc_byte crc bs"
  by (induction bs arbitrary: crc) (simp_all add: crc_step_byte)

text \<open>A step can be undone: the polynomial has its top bit set.\<close>

lemma crc_bit_inj: "crc_bit x = crc_bit y \<Longrightarrow> x = y"
proof -
  have top: "bit (crc_bit z) 31 \<longleftrightarrow> bit z 0" for z
    by (auto simp: crc_bit_def bit_xor_iff bit_drop_bit_eq dest: bit_imp_le_length)
  assume eq: "crc_bit x = crc_bit y"
  then have low: "bit x 0 \<longleftrightarrow> bit y 0" using top by metis
  have cancel: "u = v" if "u XOR 0xEDB88320 = v XOR (0xEDB88320 :: 32 word)" for u v
    using arg_cong [OF that, of "\<lambda>w. w XOR 0xEDB88320"] by (simp add: xor.assoc)
  have rest: "drop_bit 1 x = drop_bit 1 y"
  proof (cases "bit x 0")
    case True
    then have "drop_bit 1 x XOR 0xEDB88320 = drop_bit 1 y XOR 0xEDB88320"
      using eq low by (simp only: crc_bit_def if_True)
    then show ?thesis by (rule cancel)
  next
    case False
    then show ?thesis using eq low by (simp only: crc_bit_def if_False)
  qed
  show "x = y"
  proof (rule bit_word_eqI)
    fix n assume "n < LENGTH(32)"
    show "bit x n = bit y n"
      using low arg_cong [OF rest, of "\<lambda>w. bit w (n - 1)"] by (cases n) (simp_all add: bit_drop_bit_eq)
  qed
qed

lemma crc_byte_inj: "crc_byte x b = crc_byte y c \<Longrightarrow> x XOR ucast b = y XOR ucast c"
proof -
  have "(crc_bit ^^ n) u = (crc_bit ^^ n) v \<Longrightarrow> u = v" for n u v
    by (induction n) (auto dest: crc_bit_inj)
  then show "crc_byte x b = crc_byte y c \<Longrightarrow> ?thesis" unfolding crc_byte_def by blast
qed

lemma crc_fold_inj: "foldl crc_byte x bs = foldl crc_byte y bs \<Longrightarrow> x = y"
proof (induction bs arbitrary: x y)
  case (Cons b bs)
  have "crc_byte x b = crc_byte y b" by (rule Cons.IH) (use Cons.prems in simp)
  then have "x XOR ucast b = y XOR ucast b" by (rule crc_byte_inj)
  then have "(x XOR ucast b) XOR ucast b = (y XOR ucast b) XOR ucast b" by simp
  then show ?case by (simp add: xor.assoc)
qed simp

lemma ucast_byte_inj: "(ucast b :: 32 word) = ucast c \<Longrightarrow> b = (c :: byte)"
proof (rule bit_word_eqI)
  fix n
  assume eq: "(ucast b :: 32 word) = ucast c" and n: "n < LENGTH(8)"
  have "bit (ucast b :: 32 word) n = bit (ucast c :: 32 word) n" by (simp only: eq)
  then show "bit b n = bit c n" using n by (simp add: bit_ucast_iff)
qed

text \<open>C32: the table driven \<open>calc_crc32\<close> is the bit by bit division by the polynomial, it can be fed a
  message in pieces, and it detects every change of a single byte.\<close>

theorem calc_crc32_correct:
  "calc_crc32 crc bs = crc_reference crc bs \<and>
   calc_crc32 (calc_crc32 crc xs) ys = calc_crc32 crc (xs @ ys) \<and>
   (b \<noteq> c \<longrightarrow> calc_crc32 crc (xs @ b # ys) \<noteq> calc_crc32 crc (xs @ c # ys))"
proof -
  have "b = c" if "calc_crc32 crc (xs @ b # ys) = calc_crc32 crc (xs @ c # ys)"
  proof -
    let ?x = "foldl crc_byte (NOT crc) xs"
    have "foldl crc_byte (crc_byte ?x b) ys = foldl crc_byte (crc_byte ?x c) ys"
      using that by (simp add: calc_crc32_def crc_loop_reference)
    then have "?x XOR ucast b = ?x XOR ucast c" using crc_fold_inj crc_byte_inj by blast
    then have "?x XOR (?x XOR ucast b) = ?x XOR (?x XOR ucast c)" by simp
    then show ?thesis by (intro ucast_byte_inj) (simp flip: xor.assoc)
  qed
  then show ?thesis by (auto simp: calc_crc32_def crc_reference_def crc_loop_reference)
qed

theorem calc_crc32_correct_witness:
  "calc_crc32 0 [49, 50] = crc_reference 0 [49, 50] \<and> calc_crc32 0 ([49] @ 50 # []) \<noteq> calc_crc32 0 ([49] @ 51 # [])"
proof -
  have "(50 :: byte) \<noteq> 51" by simp
  then show ?thesis
    using calc_crc32_correct [of 0 "[49, 50]" "[49]" "[]" 50 51] by blast
qed

end
