(* ===== verification/Memory.thy ===== *)
theory Memory
  imports Prelude
begin

text \<open>
  Blocks of bytes and C strings, for the components that are modelled down to the byte: copies that stay
  inside their block, memory fresh from the allocator, strings up to their terminator. An access outside
  the block, which C leaves undefined, is \<open>None\<close>.
\<close>

subsection \<open>Accesses inside a block\<close>

text \<open>A \<open>memcpy\<close>, \<open>memmove\<close> or \<open>memset\<close> into the block, and the bytes such a copy reads.\<close>

definition poke :: "byte list \<Rightarrow> nat \<Rightarrow> byte list \<Rightarrow> byte list option" where
  "poke block pos xs = (if pos + length xs \<le> length block then Some (blit block pos xs) else None)"

definition peek :: "byte list \<Rightarrow> nat \<Rightarrow> nat \<Rightarrow> byte list option" where
  "peek block pos n = (if pos + n \<le> length block then Some (segment block pos n) else None)"

text \<open>The bytes that \<open>bmalloc\<close> and \<open>brealloc\<close> hand out are arbitrary: \<open>fresh i\<close> is what byte \<open>i\<close> holds.\<close>

definition malloc :: "(nat \<Rightarrow> byte) \<Rightarrow> nat \<Rightarrow> byte list" where
  "malloc fresh n = map fresh [0 ..< n]"

definition realloc :: "(nat \<Rightarrow> byte) \<Rightarrow> byte list \<Rightarrow> nat \<Rightarrow> byte list" where
  "realloc fresh block n = take n block @ map fresh [length block ..< n]"

text \<open>A C string: the bytes up to the terminator.\<close>

fun c_string :: "byte list \<Rightarrow> byte list option" where
  "c_string [] = None"
| "c_string (c # cs) = (if c = 0 then Some [] else map_option ((#) c) (c_string cs))"

lemma length_malloc [simp]: "length (malloc fresh n) = n"
  by (simp add: malloc_def)

lemma length_realloc [simp]: "length (realloc fresh block n) = n"
  by (simp add: realloc_def)

lemma take_realloc [simp]: "k \<le> n \<Longrightarrow> k \<le> length block \<Longrightarrow> take k (realloc fresh block n) = take k block"
  by (simp add: realloc_def min_def)

lemma c_string_terminated [simp]: "0 \<notin> set s \<Longrightarrow> c_string (s @ 0 # rest) = Some s"
  by (induction s) auto

lemma c_string_Some: "c_string bs = Some s \<longleftrightarrow> 0 \<notin> set s \<and> (\<exists>rest. bs = s @ 0 # rest)"
proof (induction bs arbitrary: s)
  case (Cons c cs)
  show ?case
  proof (cases "c = 0")
    case False
    then show ?thesis using Cons by (cases s) (auto simp: eq_commute [of 0])
  qed (cases s; auto)
qed simp

text \<open>Writes at the end of a prefix.\<close>

lemma poke_at: "length ys \<le> length X \<Longrightarrow> poke (A @ X) (length A) ys = Some (A @ ys @ drop (length ys) X)"
  by (simp add: poke_def blit_def)

lemma poke_at': "length ys \<le> length X \<Longrightarrow> pos = length A \<Longrightarrow> poke (A @ X) pos ys = Some (A @ ys @ drop (length ys) X)"
  by (simp add: poke_at)

text \<open>Reads are stated by what follows the position.\<close>

lemma drop_le:
  assumes "drop pos stack = xs @ rest" "xs \<noteq> []"
  shows "pos + length xs \<le> length stack"
proof -
  have "length stack - pos = length xs + length rest" using arg_cong [OF assms(1), of length] by simp
  moreover have "0 < length xs" using assms(2) by simp
  ultimately show ?thesis by linarith
qed

lemma drop_next: "drop pos stack = xs @ rest \<Longrightarrow> drop (pos + length xs) stack = rest"
  by (metis add.commute append_eq_conv_conj drop_drop)

lemma peek_start: "drop pos stack = xs @ rest \<Longrightarrow> xs \<noteq> [] \<Longrightarrow> peek stack pos (length xs) = Some xs"
  using drop_le by (fastforce simp: peek_def segment_def)

end
