(* ===== verification/Calldata.thy ===== *)
theory Calldata
  imports Memory Serializer "HOL-Library.AList"
begin

text \<open>
  The parameter stack of \<open>libobs/callback/calldata.c\<close> that signals and procedures pass their
  arguments in: named byte strings laid out one behind the other in one block of memory,
  each a name and a value with its size in front, with a zero size behind the last.

  The block is modelled byte by byte. A size is eight bytes, least significant first. An
  operation returns \<open>None\<close> where the C code reads or writes outside the block. The bytes
  that \<open>bmalloc\<close> and \<open>brealloc\<close> hand out are arbitrary: \<open>fresh i\<close> is what byte \<open>i\<close> holds. A
  name is a C string without its terminator; \<open>[]\<close> stands for \<open>NULL\<close> and for the empty string,
  which the code treats alike.
\<close>

record calldata =
  cd_stack :: "byte list option"
  cd_size :: nat
  cd_capacity :: nat
  cd_fixed :: bool

definition cd_init :: calldata where
  "cd_init = \<lparr>cd_stack = None, cd_size = 0, cd_capacity = 0, cd_fixed = False\<rparr>"

definition zero_size :: "byte list" where
  "zero_size = replicate 8 0"

definition calldata_clear :: "calldata \<Rightarrow> calldata option" where
  "calldata_clear data =
     (case cd_stack data of
        None \<Rightarrow> Some data
      | Some stack \<Rightarrow> do {
          stack \<leftarrow> poke stack 0 zero_size;
          Some (data\<lparr>cd_size := 8, cd_stack := Some stack\<rparr>) })"

definition calldata_init_fixed :: "byte list \<Rightarrow> calldata option" where
  "calldata_init_fixed stack =
     calldata_clear \<lparr>cd_stack = Some stack, cd_size = 0, cd_capacity = length stack, cd_fixed = True\<rparr>"

definition cd_serialize_size :: "byte list \<Rightarrow> nat \<Rightarrow> (nat \<times> nat) option" where
  "cd_serialize_size stack pos = do {
     bs \<leftarrow> peek stack pos 8;
     Some (le_val bs, pos + 8) }"

text \<open>\<open>strcmp (param_name, name) == 0\<close>, reading the stack from \<open>param_name\<close> up to the first difference.\<close>

fun strcmp_eq :: "byte list \<Rightarrow> byte list \<Rightarrow> bool option" where
  "strcmp_eq [] name = None"
| "strcmp_eq (c # cs) [] = Some (c = 0)"
| "strcmp_eq (c # cs) (n # ns) = (if c = n then strcmp_eq cs ns else Some False)"

function cd_getparam_loop :: "byte list \<Rightarrow> byte list \<Rightarrow> nat \<Rightarrow> nat \<Rightarrow> (bool \<times> nat) option" where
  "cd_getparam_loop stack name name_size pos =
     (if name_size = 0 then Some (False, pos - 8)
      else case strcmp_eq (drop pos stack) name of
        None \<Rightarrow> None
      | Some True \<Rightarrow> Some (True, pos + name_size)
      | Some False \<Rightarrow>
         (case cd_serialize_size stack (pos + name_size) of
            None \<Rightarrow> None
          | Some (param_size, pos') \<Rightarrow>
             (case cd_serialize_size stack (pos' + param_size) of
                None \<Rightarrow> None
              | Some (name_size', pos'') \<Rightarrow> cd_getparam_loop stack name name_size' pos'')))"
  by pat_completeness auto
termination
  by (relation "measure (\<lambda>(stack, name, name_size, pos). Suc (length stack) - pos)")
     (auto simp: cd_serialize_size_def peek_def split: if_splits)

declare cd_getparam_loop.simps [simp del]

text \<open>The position is \<open>None\<close> when \<open>cd_getparam\<close> leaves \<open>*pos\<close> as it was.\<close>

definition cd_getparam :: "calldata \<Rightarrow> byte list \<Rightarrow> (bool \<times> nat option) option" where
  "cd_getparam data name =
     (if cd_size data = 0 then Some (False, None)
      else do {
        stack \<leftarrow> cd_stack data;
        (name_size, pos) \<leftarrow> cd_serialize_size stack 0;
        (found, pos) \<leftarrow> cd_getparam_loop stack name name_size pos;
        Some (found, Some pos) })"

definition cd_copy_string :: "byte list \<Rightarrow> nat \<Rightarrow> byte list \<Rightarrow> (byte list \<times> nat) option" where
  "cd_copy_string stack pos str = do {
     stack \<leftarrow> poke stack pos (le_bytes 8 (length str + 1));
     stack \<leftarrow> poke stack (pos + 8) (str @ [0]);
     Some (stack, pos + 8 + (length str + 1)) }"

definition cd_copy_data :: "byte list \<Rightarrow> nat \<Rightarrow> byte list \<Rightarrow> (byte list \<times> nat) option" where
  "cd_copy_data stack pos xs = do {
     stack \<leftarrow> poke stack pos (le_bytes 8 (length xs));
     if xs \<noteq> [] then do { stack \<leftarrow> poke stack (pos + 8) xs; Some (stack, pos + 8 + length xs) }
     else Some (stack, pos + 8) }"

definition cd_set_first_param :: "(nat \<Rightarrow> byte) \<Rightarrow> calldata \<Rightarrow> byte list \<Rightarrow> byte list \<Rightarrow> calldata option" where
  "cd_set_first_param fresh data name xs =
     (let name_len = length name + 1;
          size = 8 * 3 + name_len + length xs;
          capacity = (if size < 128 then 128 else size)
      in do {
        (stack, pos) \<leftarrow> cd_copy_string (malloc fresh capacity) 0 name;
        (stack, pos) \<leftarrow> cd_copy_data stack pos xs;
        stack \<leftarrow> poke stack pos zero_size;
        Some (data\<lparr>cd_size := size, cd_capacity := capacity, cd_stack := Some stack\<rparr>) })"

text \<open>The positions of the model are offsets, so the pointer is not recomputed after \<open>brealloc\<close>.\<close>

definition cd_ensure_capacity :: "(nat \<Rightarrow> byte) \<Rightarrow> calldata \<Rightarrow> byte list \<Rightarrow> nat \<Rightarrow> (bool \<times> calldata \<times> byte list)" where
  "cd_ensure_capacity fresh data stack new_size =
     (if new_size < cd_capacity data then (True, data, stack)
      else if cd_fixed data then (False, data, stack)
      else
        let new_capacity = cd_capacity data * 2;
            new_capacity = (if new_capacity < new_size then new_size else new_capacity);
            stack = realloc fresh stack new_capacity
        in (True, data\<lparr>cd_stack := Some stack, cd_capacity := new_capacity\<rparr>, stack))"

definition calldata_get_data :: "calldata \<Rightarrow> byte list \<Rightarrow> nat \<Rightarrow> byte list option option" where
  "calldata_get_data data name n =
     (if name = [] then Some None
      else do {
        (found, pos) \<leftarrow> cd_getparam data name;
        if \<not> found then Some None
        else do {
          stack \<leftarrow> cd_stack data;
          pos \<leftarrow> pos;
          (data_size, pos) \<leftarrow> cd_serialize_size stack pos;
          if data_size \<noteq> n then Some None
          else do { xs \<leftarrow> peek stack pos n; Some (Some xs) } } })"

text \<open>The three ways \<open>calldata_set_data\<close> goes on once the stack exists.\<close>

definition cd_grow_param ::
  "(nat \<Rightarrow> byte) \<Rightarrow> calldata \<Rightarrow> byte list \<Rightarrow> nat \<Rightarrow> nat \<Rightarrow> byte list \<Rightarrow> calldata option" where
  "cd_grow_param fresh data stack pos cur_size xs =
     (let offset = length xs - cur_size;
          bytes = cd_size data;
          (ok, data', stack) = cd_ensure_capacity fresh data stack (bytes + offset)
      in if \<not> ok then Some data
         else do {
           block \<leftarrow> peek stack pos (bytes - pos);
           stack \<leftarrow> poke stack (pos + offset) block;
           (stack, _) \<leftarrow> cd_copy_data stack pos xs;
           Some (data'\<lparr>cd_size := bytes + offset, cd_stack := Some stack\<rparr>) })"

definition cd_shrink_param :: "calldata \<Rightarrow> byte list \<Rightarrow> nat \<Rightarrow> nat \<Rightarrow> byte list \<Rightarrow> calldata option" where
  "cd_shrink_param data stack pos cur_size xs =
     (let offset = cur_size - length xs;
          bytes = cd_size data - offset
      in do {
           block \<leftarrow> peek stack (pos + offset) (bytes - pos);
           stack \<leftarrow> poke stack pos block;
           (stack, _) \<leftarrow> cd_copy_data stack pos xs;
           Some (data\<lparr>cd_size := bytes, cd_stack := Some stack\<rparr>) })"

definition cd_new_param ::
  "(nat \<Rightarrow> byte) \<Rightarrow> calldata \<Rightarrow> byte list \<Rightarrow> nat \<Rightarrow> byte list \<Rightarrow> byte list \<Rightarrow> calldata option" where
  "cd_new_param fresh data stack pos name xs =
     (let name_len = length name + 1;
          offset = name_len + length xs + 8 * 2;
          (ok, data', stack) = cd_ensure_capacity fresh data stack (cd_size data + offset)
      in if \<not> ok then Some data
         else do {
           (stack, pos) \<leftarrow> cd_copy_string stack pos name;
           (stack, pos) \<leftarrow> cd_copy_data stack pos xs;
           stack \<leftarrow> poke stack pos zero_size;
           Some (data'\<lparr>cd_size := cd_size data + offset, cd_stack := Some stack\<rparr>) })"

definition calldata_set_data :: "(nat \<Rightarrow> byte) \<Rightarrow> calldata \<Rightarrow> byte list \<Rightarrow> byte list \<Rightarrow> calldata option" where
  "calldata_set_data fresh data name xs =
     (if name = [] then Some data
      else if \<not> cd_fixed data \<and> cd_stack data = None then cd_set_first_param fresh data name xs
      else do {
        (found, pos) \<leftarrow> cd_getparam data name;
        stack \<leftarrow> cd_stack data;
        pos \<leftarrow> pos;
        if found then do {
          (cur_size, _) \<leftarrow> cd_serialize_size stack pos;
          if cur_size < length xs then cd_grow_param fresh data stack pos cur_size xs
          else if cur_size > length xs then cd_shrink_param data stack pos cur_size xs
          else do {
            (stack, _) \<leftarrow> cd_copy_data stack pos xs;
            Some (data\<lparr>cd_stack := Some stack\<rparr>) } }
        else cd_new_param fresh data stack pos name xs })"

text \<open>\<open>calldata_get_string\<close> returns whether the parameter exists, and the string (\<open>None\<close> for \<open>NULL\<close>).\<close>

definition cd_serialize_string :: "byte list \<Rightarrow> nat \<Rightarrow> byte list option option" where
  "cd_serialize_string stack pos = do {
     (n, pos) \<leftarrow> cd_serialize_size stack pos;
     if n \<noteq> 0 then map_option Some (c_string (drop pos stack)) else Some None }"

definition calldata_get_string :: "calldata \<Rightarrow> byte list \<Rightarrow> byte list option option option" where
  "calldata_get_string data name =
     (if name = [] then Some None
      else do {
        (found, pos) \<leftarrow> cd_getparam data name;
        if \<not> found then Some None
        else do {
          stack \<leftarrow> cd_stack data;
          pos \<leftarrow> pos;
          str \<leftarrow> cd_serialize_string stack pos;
          Some (Some str) } })"

definition calldata_set_string :: "(nat \<Rightarrow> byte) \<Rightarrow> calldata \<Rightarrow> byte list \<Rightarrow> byte list option \<Rightarrow> calldata option" where
  "calldata_set_string fresh data name str =
     (case str of
        Some s \<Rightarrow> calldata_set_data fresh data name (s @ [0])
      | None \<Rightarrow> calldata_set_data fresh data name [])"

text \<open>The typed accessors. A \<open>double\<close> and a pointer are eight bytes, kept as their bit pattern.\<close>

definition calldata_set_int :: "(nat \<Rightarrow> byte) \<Rightarrow> calldata \<Rightarrow> byte list \<Rightarrow> 64 word \<Rightarrow> calldata option" where
  "calldata_set_int fresh data name val = calldata_set_data fresh data name (le_bytes 8 (unat val))"

definition calldata_set_ptr :: "(nat \<Rightarrow> byte) \<Rightarrow> calldata \<Rightarrow> byte list \<Rightarrow> 64 word \<Rightarrow> calldata option" where
  "calldata_set_ptr fresh data name ptr = calldata_set_data fresh data name (le_bytes 8 (unat ptr))"

definition calldata_set_float :: "(nat \<Rightarrow> byte) \<Rightarrow> calldata \<Rightarrow> byte list \<Rightarrow> 64 word \<Rightarrow> calldata option" where
  "calldata_set_float fresh data name bits = calldata_set_data fresh data name (le_bytes 8 (unat bits))"

definition calldata_set_bool :: "(nat \<Rightarrow> byte) \<Rightarrow> calldata \<Rightarrow> byte list \<Rightarrow> bool \<Rightarrow> calldata option" where
  "calldata_set_bool fresh data name val = calldata_set_data fresh data name [if val then 1 else 0]"

definition calldata_get_int :: "calldata \<Rightarrow> byte list \<Rightarrow> 64 word option option" where
  "calldata_get_int data name =
     map_option (map_option (\<lambda>xs. word_of_nat (le_val xs))) (calldata_get_data data name 8)"

definition calldata_get_float :: "calldata \<Rightarrow> byte list \<Rightarrow> 64 word option option" where
  "calldata_get_float data name =
     map_option (map_option (\<lambda>xs. word_of_nat (le_val xs))) (calldata_get_data data name 8)"

definition calldata_get_bool :: "calldata \<Rightarrow> byte list \<Rightarrow> bool option option" where
  "calldata_get_bool data name =
     map_option (map_option (\<lambda>xs. xs \<noteq> [0])) (calldata_get_data data name 1)"

definition calldata_get_ptr :: "calldata \<Rightarrow> byte list \<Rightarrow> 64 word option option" where
  "calldata_get_ptr data name =
     map_option (map_option (\<lambda>xs. word_of_nat (le_val xs))) (calldata_get_data data name 8)"

text \<open>The accessors with a default value for a missing parameter.\<close>

definition calldata_int :: "calldata \<Rightarrow> byte list \<Rightarrow> 64 word option" where
  "calldata_int data name = map_option (\<lambda>v. case v of Some val \<Rightarrow> val | None \<Rightarrow> 0) (calldata_get_int data name)"

definition calldata_float :: "calldata \<Rightarrow> byte list \<Rightarrow> 64 word option" where
  "calldata_float data name = map_option (\<lambda>v. case v of Some val \<Rightarrow> val | None \<Rightarrow> 0) (calldata_get_float data name)"

definition calldata_bool :: "calldata \<Rightarrow> byte list \<Rightarrow> bool option" where
  "calldata_bool data name = map_option (\<lambda>v. case v of Some val \<Rightarrow> val | None \<Rightarrow> False) (calldata_get_bool data name)"

definition calldata_ptr :: "calldata \<Rightarrow> byte list \<Rightarrow> 64 word option" where
  "calldata_ptr data name = map_option (\<lambda>v. case v of Some val \<Rightarrow> val | None \<Rightarrow> 0) (calldata_get_ptr data name)"

definition calldata_string :: "calldata \<Rightarrow> byte list \<Rightarrow> byte list option option" where
  "calldata_string data name =
     map_option (\<lambda>v. case v of Some val \<Rightarrow> val | None \<Rightarrow> None) (calldata_get_string data name)"


subsection \<open>What the stack holds\<close>

text \<open>The layout of a list of parameters, and the invariant that a stack holds just that list.\<close>

definition param_bytes :: "byte list \<times> byte list \<Rightarrow> byte list" where
  "param_bytes p = le_bytes 8 (length (fst p) + 1) @ fst p @ [0] @ le_bytes 8 (length (snd p)) @ snd p"

definition params_bytes :: "(byte list \<times> byte list) list \<Rightarrow> byte list" where
  "params_bytes ps = concat (map param_bytes ps)"

definition name_ok :: "byte list \<Rightarrow> bool" where
  "name_ok name \<longleftrightarrow> name \<noteq> [] \<and> 0 \<notin> set name \<and> length name + 1 < 2 ^ 64"

definition param_ok :: "byte list \<times> byte list \<Rightarrow> bool" where
  "param_ok p \<longleftrightarrow> name_ok (fst p) \<and> length (snd p) < 2 ^ 64"

definition cd_holds :: "calldata \<Rightarrow> (byte list \<times> byte list) list \<Rightarrow> bool" where
  "cd_holds data ps \<longleftrightarrow> list_all param_ok ps \<and> distinct (map fst ps) \<and>
     (case cd_stack data of
        None \<Rightarrow> ps = [] \<and> cd_size data = 0 \<and> \<not> cd_fixed data
      | Some stack \<Rightarrow> length stack = cd_capacity data \<and> cd_size data \<le> length stack \<and>
          take (cd_size data) stack = params_bytes ps @ zero_size)"

subsection \<open>Sizes\<close>

lemma length_zero_size [simp]: "length zero_size = 8"
  by (simp add: zero_size_def)

lemma zero_size_not_Nil [simp]: "zero_size \<noteq> []"
  by (simp add: zero_size_def)

lemma be_val_zeros [simp]: "be_val (replicate n 0) = 0"
  by (induction n) simp_all

lemma le_val_zero_size [simp]: "le_val zero_size = 0"
  by (simp add: le_val_def zero_size_def)

lemma params_bytes_simps [simp]:
  "params_bytes [] = []"
  "params_bytes (p # ps) = param_bytes p @ params_bytes ps"
  "params_bytes (ps @ qs) = params_bytes ps @ params_bytes qs"
  by (simp_all add: params_bytes_def)

lemma length_param_bytes [simp]: "length (param_bytes p) = 17 + length (fst p) + length (snd p)"
  by (simp add: param_bytes_def)

lemma read_size:
  assumes "drop pos stack = le_bytes 8 n @ rest" "n < 2 ^ 64"
  shows "cd_serialize_size stack pos = Some (n, pos + 8)"
proof -
  have "le_bytes 8 n \<noteq> []" by (metis length_le_bytes list.size(3) numeral_eq_Suc nat.distinct(1))
  then show ?thesis
    using peek_start [OF assms(1)] assms(2) by (simp add: cd_serialize_size_def)
qed

lemma read_zero_size: "drop pos stack = zero_size @ rest \<Longrightarrow> cd_serialize_size stack pos = Some (0, pos + 8)"
  using peek_start [of pos stack zero_size rest] by (simp add: cd_serialize_size_def)

lemma strcmp_terminated: "0 \<notin> set s \<Longrightarrow> 0 \<notin> set t \<Longrightarrow> strcmp_eq (s @ 0 # rest) t = Some (s = t)"
proof (induction s arbitrary: t)
  case Nil
  then show ?case by (cases t) auto
next
  case (Cons c s)
  then show ?case by (cases t) auto
qed

subsection \<open>Finding a parameter\<close>

definition scan_params :: "byte list \<Rightarrow> byte list \<Rightarrow> nat \<Rightarrow> (bool \<times> nat) option" where
  "scan_params stack name pos = do {
     (name_size, pos) \<leftarrow> cd_serialize_size stack pos;
     cd_getparam_loop stack name name_size pos }"

lemma scan_params_end: "drop pos stack = zero_size @ rest \<Longrightarrow> scan_params stack name pos = Some (False, pos)"
  by (simp add: scan_params_def read_zero_size cd_getparam_loop.simps)

lemma scan_params_step:
  assumes "drop pos stack = param_bytes p @ rest" "param_ok p" "0 \<notin> set name"
  shows "scan_params stack name pos =
    (if fst p = name then Some (True, pos + 8 + (length name + 1))
     else scan_params stack name (pos + length (param_bytes p)))"
proof -
  define q where "q = pos + 8"
  define r where "r = q + (length (fst p) + 1)"
  have at: "drop pos stack = le_bytes 8 (length (fst p) + 1) @ (fst p @ [0]) @ le_bytes 8 (length (snd p)) @ snd p @ rest"
    using assms(1) by (simp add: param_bytes_def)
  have q: "drop q stack = (fst p @ [0]) @ le_bytes 8 (length (snd p)) @ snd p @ rest"
    using drop_next [OF at] by (simp add: q_def)
  have r: "drop r stack = le_bytes 8 (length (snd p)) @ snd p @ rest"
    using drop_next [OF q] by (simp add: r_def)
  have ok: "name_ok (fst p)" "length (snd p) < 2 ^ 64" using assms(2) by (simp_all add: param_ok_def)
  have size: "cd_serialize_size stack pos = Some (length (fst p) + 1, q)"
    using read_size [OF at] ok by (simp add: q_def name_ok_def)
  have eq: "strcmp_eq (drop q stack) name = Some (fst p = name)"
    using strcmp_terminated [of "fst p" name] assms(3) ok by (simp add: q name_ok_def)
  have size2: "cd_serialize_size stack r = Some (length (snd p), r + 8)"
    using read_size [OF r] ok by simp
  have fin: "r + 8 + length (snd p) = pos + length (param_bytes p)" by (simp add: r_def q_def)
  have "scan_params stack name pos = cd_getparam_loop stack name (length (fst p) + 1) q"
    by (simp add: scan_params_def size)
  also have "\<dots> = (if fst p = name then Some (True, r)
      else case cd_serialize_size stack (r + 8 + length (snd p)) of None \<Rightarrow> None
        | Some (n, pos) \<Rightarrow> cd_getparam_loop stack name n pos)"
    using eq size2 unfolding r_def by (subst cd_getparam_loop.simps) simp
  finally show ?thesis
    by (simp only: fin) (auto simp: scan_params_def r_def q_def split: option.splits)
qed

lemma scan_params_found:
  assumes "drop pos stack = params_bytes ps @ param_bytes (name, v) @ rest"
    and "list_all param_ok ps" "param_ok (name, v)" "name \<notin> fst ` set ps"
  shows "scan_params stack name pos = Some (True, pos + length (params_bytes ps) + 8 + (length name + 1))"
  using assms
proof (induction ps arbitrary: pos)
  case Nil
  then show ?case using scan_params_step [of pos stack "(name, v)" rest name]
    by (simp add: param_ok_def name_ok_def)
next
  case (Cons p ps)
  then have next_at: "drop (pos + length (param_bytes p)) stack = params_bytes ps @ param_bytes (name, v) @ rest"
    using drop_next [of pos stack "param_bytes p"] by simp
  have z: "0 \<notin> set name" using Cons.prems(3) by (simp add: param_ok_def name_ok_def)
  show ?case
    using scan_params_step [of pos stack p _ name] Cons.IH [OF next_at] Cons.prems z
    by (auto simp: add.assoc)
qed

lemma scan_params_missing:
  assumes "drop pos stack = params_bytes ps @ zero_size @ rest"
    and "list_all param_ok ps" "0 \<notin> set name" "name \<notin> fst ` set ps"
  shows "scan_params stack name pos = Some (False, pos + length (params_bytes ps))"
  using assms
proof (induction ps arbitrary: pos)
  case Nil
  then show ?case by (simp add: scan_params_end)
next
  case (Cons p ps)
  then have next_at: "drop (pos + length (param_bytes p)) stack = params_bytes ps @ zero_size @ rest"
    using drop_next [of pos stack "param_bytes p"] by simp
  show ?case
    using scan_params_step [of pos stack p _ name] Cons.IH [OF next_at] Cons.prems
    by (auto simp: add.assoc)
qed

lemma getparam_scan:
  "cd_size data \<noteq> 0 \<Longrightarrow> cd_stack data = Some stack \<Longrightarrow>
   cd_getparam data name = map_option (\<lambda>(found, pos). (found, Some pos)) (scan_params stack name 0)"
  by (auto simp: cd_getparam_def scan_params_def split: option.splits Option.bind_splits)

lemma holds_stack:
  assumes "cd_holds data ps" "cd_stack data = Some stack"
  shows "stack = params_bytes ps @ zero_size @ drop (cd_size data) stack"
    and "cd_size data = length (params_bytes ps) + 8" "length stack = cd_capacity data" "cd_size data \<le> length stack"
proof -
  have h: "take (cd_size data) stack = params_bytes ps @ zero_size" "cd_size data \<le> length stack"
    "length stack = cd_capacity data"
    using assms by (simp_all add: cd_holds_def)
  then show "stack = params_bytes ps @ zero_size @ drop (cd_size data) stack"
    by (metis append.assoc append_take_drop_id)
  show "cd_size data = length (params_bytes ps) + 8"
    using arg_cong [OF h(1), of length] h(2) by simp
  show "length stack = cd_capacity data" "cd_size data \<le> length stack" using h by simp_all
qed

lemma getparam_found:
  assumes "cd_holds data (ps @ (name, v) # qs)" "cd_stack data = Some stack"
  shows "cd_getparam data name = Some (True, Some (length (params_bytes ps) + 8 + (length name + 1)))"
proof -
  have "scan_params stack name 0 = Some (True, 0 + length (params_bytes ps) + 8 + (length name + 1))"
    using assms(1) holds_stack(1) [OF assms]
    by (intro scan_params_found [where v = v and rest = "params_bytes qs @ zero_size @ drop (cd_size data) stack"])
       (auto simp: cd_holds_def)
  then show ?thesis using getparam_scan [of data stack] holds_stack(2) [OF assms] assms(2) by simp
qed

lemma getparam_missing:
  assumes "cd_holds data ps" "cd_stack data = Some stack" "name \<notin> fst ` set ps" "0 \<notin> set name"
  shows "cd_getparam data name = Some (False, Some (length (params_bytes ps)))"
proof -
  have "scan_params stack name 0 = Some (False, 0 + length (params_bytes ps))"
    using assms holds_stack(1) [OF assms(1,2)]
    by (intro scan_params_missing [where rest = "drop (cd_size data) stack"]) (auto simp: cd_holds_def)
  then show ?thesis using getparam_scan [of data stack] holds_stack(2) [OF assms(1,2)] assms(2) by simp
qed


subsection \<open>Reading a parameter\<close>

lemma holds_split:
  assumes "cd_holds data ps" "name \<in> fst ` set ps"
  obtains ps1 v ps2 where "ps = ps1 @ (name, v) # ps2" "name \<notin> fst ` set ps1" "map_of ps name = Some v"
    "AList.update name w ps = ps1 @ (name, w) # ps2"
proof -
  obtain v where v: "map_of ps name = Some v" using assms(2) by (metis map_of_eq_None_iff not_Some_eq)
  then obtain ps1 ps2 where s: "ps = ps1 @ (name, v) # ps2" by (metis map_of_SomeD split_list)
  have "distinct (map fst ps)" using assms(1) by (simp add: cd_holds_def)
  then have n: "name \<notin> fst ` set ps1" by (auto simp: s)
  then have "AList.update name w ps = ps1 @ (name, w) # ps2" unfolding s by (induction ps1) auto
  then show ?thesis using that s n v by blast
qed

lemma read_value:
  assumes "cd_holds data (ps1 @ (name, v) # ps2)" "cd_stack data = Some stack"
  defines "pos \<equiv> length (params_bytes ps1) + 8 + (length name + 1)"
  shows "drop pos stack = le_bytes 8 (length v) @ v @ params_bytes ps2 @ zero_size @ drop (cd_size data) stack"
    and "take pos stack = params_bytes ps1 @ le_bytes 8 (length name + 1) @ name @ [0]"
    and "cd_serialize_size stack pos = Some (length v, pos + 8)"
proof -
  let ?A = "params_bytes ps1 @ le_bytes 8 (length name + 1) @ name @ [0]"
  let ?X = "le_bytes 8 (length v) @ v @ params_bytes ps2 @ zero_size @ drop (cd_size data) stack"
  have "stack = ?A @ ?X" using holds_stack(1) [OF assms(1,2)] by (simp add: param_bytes_def)
  moreover have "length ?A = pos" by (simp add: pos_def)
  ultimately show d: "drop pos stack = ?X" and "take pos stack = ?A" by (metis append_eq_conv_conj)+
  show "cd_serialize_size stack pos = Some (length v, pos + 8)"
    using read_size [OF d] assms(1) by (simp add: cd_holds_def param_ok_def)
qed

lemma get_data_holds:
  assumes "cd_holds data ps" "name_ok name"
  shows "calldata_get_data data name n =
    Some (case map_of ps name of Some v \<Rightarrow> if length v = n then Some v else None | None \<Rightarrow> None)"
proof (cases "cd_stack data")
  case None
  then have "ps = []" "cd_size data = 0" using assms(1) by (simp_all add: cd_holds_def)
  then show ?thesis using assms(2) by (simp add: calldata_get_data_def cd_getparam_def name_ok_def)
next
  case (Some stack)
  show ?thesis
  proof (cases "name \<in> fst ` set ps")
    case True
    obtain ps1 v ps2 where ps: "ps = ps1 @ (name, v) # ps2" "map_of ps name = Some v"
      using holds_split [OF assms(1) True] by metis
    note h = assms(1) [unfolded ps(1)]
    define pos where "pos = length (params_bytes ps1) + 8 + (length name + 1)"
    note at = read_value [OF h Some, folded pos_def]
    have d: "drop (pos + 8) stack = v @ params_bytes ps2 @ zero_size @ drop (cd_size data) stack"
      using drop_next [OF at(1)] by simp
    then have "pos + 8 + length v \<le> length stack"
      using drop_le [of "pos + 8" stack "v @ params_bytes ps2 @ zero_size" "drop (cd_size data) stack"] by simp
    then have "peek stack (pos + 8) (length v) = Some v"
      by (simp add: peek_def segment_def d)
    then show ?thesis
      using getparam_found [OF h Some, folded pos_def] at(3) ps(2) Some assms(2)
      by (auto simp: calldata_get_data_def name_ok_def)
  next
    case False
    then have "map_of ps name = None" by (simp add: map_of_eq_None_iff)
    then show ?thesis
      using getparam_missing [OF assms(1) Some False] assms(2)
      by (simp add: calldata_get_data_def name_ok_def)
  qed
qed

subsection \<open>Writing a parameter\<close>

lemma copy_data_at:
  assumes "8 + length v \<le> length X" "pos = length A"
  shows "cd_copy_data (A @ X) pos v = Some (A @ le_bytes 8 (length v) @ v @ drop (8 + length v) X, pos + 8 + length v)"
proof -
  have 1: "poke (A @ X) pos (le_bytes 8 (length v)) = Some ((A @ le_bytes 8 (length v)) @ drop 8 X)"
    using poke_at' [of "le_bytes 8 (length v)" X pos A] assms by simp
  have 2: "poke ((A @ le_bytes 8 (length v)) @ drop 8 X) (pos + 8) v =
      Some ((A @ le_bytes 8 (length v)) @ v @ drop (length v) (drop 8 X))"
    by (rule poke_at') (use assms in auto)
  show ?thesis
    unfolding cd_copy_data_def 1 using 2 by (simp add: add.commute)
qed

lemma copy_string_at:
  assumes "8 + (length s + 1) \<le> length X" "pos = length A"
  shows "cd_copy_string (A @ X) pos s =
    Some (A @ le_bytes 8 (length s + 1) @ s @ [0] @ drop (8 + (length s + 1)) X, pos + 8 + (length s + 1))"
proof -
  have 1: "poke (A @ X) pos (le_bytes 8 (length s + 1)) = Some ((A @ le_bytes 8 (length s + 1)) @ drop 8 X)"
    using poke_at' [of "le_bytes 8 (length s + 1)" X pos A] assms by simp
  have 2: "poke ((A @ le_bytes 8 (length s + 1)) @ drop 8 X) (pos + 8) (s @ [0]) =
      Some ((A @ le_bytes 8 (length s + 1)) @ (s @ [0]) @ drop (length (s @ [0])) (drop 8 X))"
    by (rule poke_at') (use assms in auto)
  show ?thesis
    unfolding cd_copy_string_def 1 using 2 by (simp add: add.commute)
qed

lemma new_param_at:
  assumes "length name + 1 + length v + 24 \<le> length X" "pos = length A"
  shows "do {
      (stack, pos) \<leftarrow> cd_copy_string (A @ X) pos name;
      (stack, pos) \<leftarrow> cd_copy_data stack pos v;
      poke stack pos zero_size } =
    Some (A @ param_bytes (name, v) @ zero_size @ drop (length name + 1 + length v + 24) X)"
proof -
  let ?A1 = "A @ le_bytes 8 (length name + 1) @ name @ [0]" let ?X1 = "drop (8 + (length name + 1)) X"
  let ?A2 = "?A1 @ le_bytes 8 (length v) @ v" let ?X2 = "drop (8 + length v) ?X1"
  have 1: "cd_copy_string (A @ X) pos name = Some (?A1 @ ?X1, pos + 8 + (length name + 1))"
    using copy_string_at [of name X pos A] assms by simp
  have 2: "cd_copy_data (?A1 @ ?X1) (pos + 8 + (length name + 1)) v =
      Some (?A2 @ ?X2, pos + 8 + (length name + 1) + 8 + length v)"
    using copy_data_at [of v ?X1 "pos + 8 + (length name + 1)" ?A1] assms by simp
  have 3: "poke (?A2 @ ?X2) (pos + 8 + (length name + 1) + 8 + length v) zero_size =
      Some (?A2 @ zero_size @ drop (length zero_size) ?X2)"
    by (rule poke_at') (use assms in auto)
  have n: "length zero_size + (8 + length v + (8 + (length name + 1))) = length name + 1 + length v + 24" by simp
  show ?thesis
    unfolding 1 using 2 3 by (simp only: bind.bind_lunit case_prod_conv param_bytes_def fst_conv snd_conv append_assoc drop_drop n)
qed


definition fits :: "calldata \<Rightarrow> (byte list \<times> byte list) list \<Rightarrow> bool" where
  "fits data ps \<longleftrightarrow> \<not> cd_fixed data \<or> length (params_bytes ps) + 8 \<le> cd_size data \<or>
     length (params_bytes ps) + 8 < cd_capacity data"

lemma ensure_fits:
  assumes "length stack = cd_capacity data" "\<not> cd_fixed data \<or> n < cd_capacity data"
  obtains data' R where "cd_ensure_capacity fresh data stack n = (True, data', stack @ R)"
    "n \<le> length (stack @ R)" "cd_capacity data' = length (stack @ R)" "cd_fixed data' = cd_fixed data"
    "cd_fixed data \<longrightarrow> cd_capacity data' = cd_capacity data"
proof (cases "n < cd_capacity data")
  case True
  show ?thesis by (rule that [of data "[]"]) (use True assms in \<open>simp_all add: cd_ensure_capacity_def\<close>)
next
  case False
  let ?c = "if cd_capacity data * 2 < n then n else cd_capacity data * 2"
  have c: "length stack \<le> ?c" "n \<le> ?c" unfolding assms(1) using False by simp_all
  let ?R = "map fresh [length stack ..< ?c]"
  have "cd_ensure_capacity fresh data stack n = (True, data\<lparr>cd_stack := Some (stack @ ?R), cd_capacity := ?c\<rparr>, stack @ ?R)"
    using False assms(2) c(1) by (simp add: cd_ensure_capacity_def Let_def realloc_def)
  then show ?thesis by (rule that) (use False assms c in simp_all)
qed

lemma ensure_refused:
  "cd_fixed data \<Longrightarrow> cd_capacity data \<le> n \<Longrightarrow> cd_ensure_capacity fresh data stack n = (False, data, stack)"
  by (simp add: cd_ensure_capacity_def)

lemma holdsI:
  assumes "list_all param_ok ps" "distinct (map fst ps)" "cd_stack data = Some (params_bytes ps @ zero_size @ R)"
    "cd_size data = length (params_bytes ps) + 8" "cd_capacity data = length (params_bytes ps) + 8 + length R"
  shows "cd_holds data ps"
  using assms by (simp add: cd_holds_def)

text \<open>A new parameter, behind the others.\<close>

lemma new_param_holds:
  assumes h: "cd_holds data ps" "cd_stack data = Some stack" and new: "name \<notin> fst ` set ps" "param_ok (name, v)"
    and fit: "\<not> cd_fixed data \<or> cd_size data + (length name + 1 + length v + 16) < cd_capacity data"
  shows "\<exists>data'. cd_new_param fresh data stack (length (params_bytes ps)) name v = Some data' \<and>
    cd_holds data' (ps @ [(name, v)]) \<and> cd_fixed data' = cd_fixed data \<and>
    (cd_fixed data \<longrightarrow> cd_capacity data' = cd_capacity data)"
proof -
  let ?n = "cd_size data + (length name + 1 + length v + 16)"
  note st = holds_stack [OF h]
  obtain data' R where e: "cd_ensure_capacity fresh data stack ?n = (True, data', stack @ R)"
    "?n \<le> length (stack @ R)" "cd_capacity data' = length (stack @ R)" "cd_fixed data' = cd_fixed data"
    "cd_fixed data \<longrightarrow> cd_capacity data' = cd_capacity data"
    using ensure_fits [OF st(3) fit, of fresh] by blast
  let ?X = "zero_size @ drop (cd_size data) stack @ R"
  have X: "stack @ R = params_bytes ps @ ?X" using arg_cong [OF st(1), of "\<lambda>s. s @ R"] by simp
  have lX: "length name + 1 + length v + 24 \<le> length ?X" using e(2) st(2,4) by simp
  let ?Y = "drop (length name + 1 + length v + 24) ?X"
  let ?d = "data'\<lparr>cd_size := ?n, cd_stack := Some (params_bytes (ps @ [(name, v)]) @ zero_size @ ?Y)\<rparr>"
  have "cd_new_param fresh data stack (length (params_bytes ps)) name v = Some ?d"
    using new_param_at [OF lX refl, where A = "params_bytes ps"] e(1) [unfolded X]
    by (auto simp: cd_new_param_def Let_def split: Option.bind_splits)
  moreover have "cd_holds ?d (ps @ [(name, v)])"
    by (rule holdsI [where R = ?Y])
       (use h new e(2,3) st(2,4) lX in \<open>auto simp: cd_holds_def X\<close>)
  ultimately show ?thesis using e(4,5) by auto
qed

text \<open>A parameter that is there: the value is replaced and what follows is moved.\<close>

lemma put_value:
  assumes "cd_holds data (ps1 @ (name, w) # ps2)" "param_ok (name, v)"
    and "drop (8 + length v) X = params_bytes ps2 @ zero_size @ R" "8 + length v \<le> length X"
  defines "pos \<equiv> length (params_bytes ps1) + 8 + (length name + 1)"
  shows "cd_copy_data ((params_bytes ps1 @ le_bytes 8 (length name + 1) @ name @ [0]) @ X) pos v =
      Some (params_bytes (ps1 @ (name, v) # ps2) @ zero_size @ R, pos + 8 + length v)"
    and "cd_size d = length (params_bytes (ps1 @ (name, v) # ps2)) + 8 \<Longrightarrow>
      cd_capacity d = pos + length X \<Longrightarrow> cd_stack d = Some (params_bytes (ps1 @ (name, v) # ps2) @ zero_size @ R) \<Longrightarrow>
      cd_holds d (ps1 @ (name, v) # ps2)"
proof -
  show "cd_copy_data ((params_bytes ps1 @ le_bytes 8 (length name + 1) @ name @ [0]) @ X) pos v =
      Some (params_bytes (ps1 @ (name, v) # ps2) @ zero_size @ R, pos + 8 + length v)"
    using copy_data_at [OF assms(4), of pos "params_bytes ps1 @ le_bytes 8 (length name + 1) @ name @ [0]"] assms(3)
    by (simp add: pos_def param_bytes_def)
  have "length X = 8 + length v + (length (params_bytes ps2) + 8 + length R)"
    using arg_cong [OF assms(3), of length] assms(4) by simp
  then show "cd_size d = length (params_bytes (ps1 @ (name, v) # ps2)) + 8 \<Longrightarrow>
      cd_capacity d = pos + length X \<Longrightarrow> cd_stack d = Some (params_bytes (ps1 @ (name, v) # ps2) @ zero_size @ R) \<Longrightarrow>
      cd_holds d (ps1 @ (name, v) # ps2)"
    using assms(1,2) by (intro holdsI [where R = R]) (simp_all add: cd_holds_def pos_def)
qed

text \<open>Moving what follows a value up or down, with the value before it overwritten afterwards.\<close>

lemma move_up:
  assumes "stack = A @ M @ T" "off \<le> length T" "0 < length M"
  shows "peek stack (length A) (length M) = Some M"
    and "poke stack (length A + off) M = Some (A @ take off (M @ T) @ M @ drop off T)"
proof -
  show "peek stack (length A) (length M) = Some M"
    by (simp add: peek_def segment_def assms(1))
  show "poke stack (length A + off) M = Some (A @ take off (M @ T) @ M @ drop off T)"
    using assms(2) by (simp add: poke_def blit_def assms(1))
qed

lemma move_down:
  assumes "stack = A @ M @ T" "off \<le> length M"
  shows "peek stack (length A + off) (length M - off) = Some (drop off M)"
    and "poke stack (length A) (drop off M) = Some (A @ drop off M @ drop (length M - off) (M @ T))"
proof -
  show "peek stack (length A + off) (length M - off) = Some (drop off M)"
    using assms(2) by (simp add: peek_def segment_def assms(1))
  show "poke stack (length A) (drop off M) = Some (A @ drop off M @ drop (length M - off) (M @ T))"
    using poke_at [of "drop off M" "M @ T" A] unfolding assms(1) by simp
qed

lemma grow_param_holds:
  assumes h: "cd_holds data (ps1 @ (name, w) # ps2)" "cd_stack data = Some stack" and new: "param_ok (name, v)"
    and longer: "length w < length v"
    and fit: "\<not> cd_fixed data \<or> cd_size data + (length v - length w) < cd_capacity data"
  shows "\<exists>data'. cd_grow_param fresh data stack (length (params_bytes ps1) + 8 + (length name + 1)) (length w) v = Some data' \<and>
    cd_holds data' (ps1 @ (name, v) # ps2) \<and> cd_fixed data' = cd_fixed data \<and>
    (cd_fixed data \<longrightarrow> cd_capacity data' = cd_capacity data)"
proof -
  define off where "off = length v - length w"
  define pos where "pos = length (params_bytes ps1) + 8 + (length name + 1)"
  define A where "A = params_bytes ps1 @ le_bytes 8 (length name + 1) @ name @ [0]"
  define V where "V = le_bytes 8 (length w) @ w"
  define B where "B = params_bytes ps2 @ zero_size"
  define M where "M = V @ B"
  note st = holds_stack [OF h]
  obtain data' R where e: "cd_ensure_capacity fresh data stack (cd_size data + off) = (True, data', stack @ R)"
    "cd_size data + off \<le> length (stack @ R)" "cd_capacity data' = length (stack @ R)" "cd_fixed data' = cd_fixed data"
    "cd_fixed data \<longrightarrow> cd_capacity data' = cd_capacity data"
    using ensure_fits [OF st(3) fit, of fresh] by (auto simp: off_def)
  define T where "T = drop (cd_size data) stack @ R"
  have stack: "stack @ R = A @ M @ T"
    using arg_cong [OF st(1), of "\<lambda>s. s @ R"] by (simp add: param_bytes_def T_def A_def V_def B_def M_def)
  have len: "length A = pos" "length V = 8 + length w" "0 < length M" by (simp_all add: A_def pos_def V_def M_def)
  have size: "cd_size data - pos = length M" "cd_size data = pos + length M"
    using st(2) by (simp_all add: pos_def V_def B_def M_def)
  have T: "off \<le> length T" using e(2) st(4) by (simp add: T_def)
  note mv = move_up [OF stack T len(3), unfolded len]
  define X where "X = take off (M @ T) @ M @ drop off T"
  have X: "drop (8 + length v) X = params_bytes ps2 @ zero_size @ drop off T" "8 + length v \<le> length X"
    using T longer by (auto simp: X_def off_def len B_def M_def)
  let ?d = "data'\<lparr>cd_size := cd_size data + off,
    cd_stack := Some (params_bytes (ps1 @ (name, v) # ps2) @ zero_size @ drop off T)\<rparr>"
  note put = put_value [OF h(1) new X, folded pos_def A_def]
  have "cd_grow_param fresh data stack pos (length w) v = Some ?d"
    unfolding cd_grow_param_def Let_def off_def [symmetric]
    using e(1) mv put(1) by (simp add: size(1) X_def)
  moreover have "cd_holds ?d (ps1 @ (name, v) # ps2)"
    by (rule put(2)) (use e(3) st(2) longer size T arg_cong [OF stack, of length] in \<open>auto simp: X_def off_def len M_def\<close>)
  ultimately show ?thesis using e(4,5) unfolding pos_def by auto
qed

lemma shrink_param_holds:
  assumes h: "cd_holds data (ps1 @ (name, w) # ps2)" "cd_stack data = Some stack" and new: "param_ok (name, v)"
    and shorter: "length v < length w"
  shows "\<exists>data'. cd_shrink_param data stack (length (params_bytes ps1) + 8 + (length name + 1)) (length w) v = Some data' \<and>
    cd_holds data' (ps1 @ (name, v) # ps2) \<and> cd_fixed data' = cd_fixed data \<and> cd_capacity data' = cd_capacity data"
proof -
  define off where "off = length w - length v"
  define pos where "pos = length (params_bytes ps1) + 8 + (length name + 1)"
  define A where "A = params_bytes ps1 @ le_bytes 8 (length name + 1) @ name @ [0]"
  define V where "V = le_bytes 8 (length w) @ w"
  define B where "B = params_bytes ps2 @ zero_size"
  define M where "M = V @ B"
  define T where "T = drop (cd_size data) stack"
  note st = holds_stack [OF h]
  have stack: "stack = A @ M @ T"
    using st(1) by (simp add: param_bytes_def T_def A_def V_def B_def M_def)
  have len: "length A = pos" "length V = 8 + length w" by (simp_all add: A_def pos_def V_def M_def)
  have size: "cd_size data - off - pos = length M - off" "cd_size data = pos + length M"
    using st(2) by (simp_all add: pos_def V_def B_def M_def)
  have off: "off \<le> length M" using shorter by (simp add: len M_def off_def)
  note mv = move_down [OF stack off, unfolded len]
  define R where "R = drop (length M - off) (M @ T)"
  define P where "P = drop off M"
  have X: "drop (8 + length v) (P @ R) = params_bytes ps2 @ zero_size @ R"
      "8 + length v \<le> length (P @ R)"
    using shorter by (auto simp: P_def off_def len B_def M_def)
  let ?d = "data\<lparr>cd_size := cd_size data - off, cd_stack := Some (params_bytes (ps1 @ (name, v) # ps2) @ zero_size @ R)\<rparr>"
  note put = put_value [OF h(1) new X, folded pos_def A_def]
  have "cd_shrink_param data stack pos (length w) v = Some ?d"
    unfolding cd_shrink_param_def Let_def off_def [symmetric]
    using put(1) by (simp only: size(1) mv [folded P_def R_def] bind.bind_lunit case_prod_conv)
  moreover have "cd_holds ?d (ps1 @ (name, v) # ps2)"
    by (rule put(2)) (use st(2,3) shorter size arg_cong [OF stack, of length] in \<open>auto simp: P_def R_def off_def len M_def\<close>)
  ultimately show ?thesis unfolding pos_def by auto
qed


subsection \<open>The stack as an association list\<close>

lemma first_param_holds:
  assumes "cd_holds data ps" "cd_stack data = None" "param_ok (name, v)"
  shows "\<exists>data'. cd_set_first_param fresh data name v = Some data' \<and> cd_holds data' [(name, v)] \<and> \<not> cd_fixed data'"
proof -
  define n where "n = 8 * 3 + (length name + 1) + length v"
  define X where "X = malloc fresh (if n < 128 then 128 else n)"
  have X: "length name + 1 + length v + 24 \<le> length X" "length X = (if n < 128 then 128 else n)"
    by (simp_all add: X_def n_def malloc_def)
  let ?R = "drop (length name + 1 + length v + 24) X"
  let ?d = "data\<lparr>cd_size := n, cd_capacity := length X, cd_stack := Some (param_bytes (name, v) @ zero_size @ ?R)\<rparr>"
  have "cd_set_first_param fresh data name v = Some ?d"
    using new_param_at [OF X(1) refl, of "[]"] unfolding cd_set_first_param_def Let_def n_def [symmetric] X_def [symmetric]
    by (auto simp: X(2) split: Option.bind_splits)
  moreover have "cd_holds ?d [(name, v)]"
    by (rule holdsI [where R = ?R]) (use assms X(1) in \<open>auto simp: n_def\<close>)
  moreover have "\<not> cd_fixed data" using assms(1,2) by (simp add: cd_holds_def)
  ultimately show ?thesis by auto
qed

lemma update_new: "name \<notin> fst ` set ps \<Longrightarrow> AList.update name v ps = ps @ [(name, v)]"
  by (induction ps) auto

lemma set_data_holds:
  assumes h: "cd_holds data ps" and ok: "param_ok (name, v)"
  shows "\<exists>data'. calldata_set_data fresh data name v = Some data' \<and>
    (if fits data (AList.update name v ps) then cd_holds data' (AList.update name v ps) else data' = data) \<and>
    cd_fixed data' = cd_fixed data \<and> (cd_fixed data \<longrightarrow> cd_capacity data' = cd_capacity data)"
proof -
  have name: "name \<noteq> []" "0 \<notin> set name" using ok by (simp_all add: param_ok_def name_ok_def)
  show ?thesis
  proof (cases "cd_stack data")
    case None
    then have e: "ps = []" "\<not> cd_fixed data" using h by (simp_all add: cd_holds_def)
    then show ?thesis
      using first_param_holds [OF h None ok, of fresh] None name by (auto simp: calldata_set_data_def fits_def)
  next
    case (Some stack)
    note st = holds_stack [OF h Some]
    show ?thesis
    proof (cases "name \<in> fst ` set ps")
      case True
      obtain ps1 w ps2 where ps: "ps = ps1 @ (name, w) # ps2" "AList.update name v ps = ps1 @ (name, v) # ps2"
        using holds_split [OF h True] by metis
      define pos where "pos = length (params_bytes ps1) + 8 + (length name + 1)"
      note h' = h [unfolded ps(1)]
      have set: "calldata_set_data fresh data name v =
          (if length w < length v then cd_grow_param fresh data stack pos (length w) v
           else if length w > length v then cd_shrink_param data stack pos (length w) v
           else do { (stack, _) \<leftarrow> cd_copy_data stack pos v; Some (data\<lparr>cd_stack := Some stack\<rparr>) })"
        using getparam_found [OF h' Some] read_value(3) [OF h' Some] name Some
        by (simp add: calldata_set_data_def pos_def)
      have bytes: "length (params_bytes (ps1 @ (name, v) # ps2)) + length w = length (params_bytes ps) + length v"
        by (simp add: ps(1))
      consider "length w < length v" "fits data (AList.update name v ps)"
        | "length w < length v" "\<not> fits data (AList.update name v ps)"
        | "length v < length w" | "length w = length v" by linarith
      then show ?thesis
      proof cases
        case 1
        then have "\<not> cd_fixed data \<or> cd_size data + (length v - length w) < cd_capacity data"
          using bytes st(2) by (auto simp: fits_def ps(2))
        then show ?thesis
          using grow_param_holds [OF h' Some ok 1(1), of fresh] 1 by (auto simp: set ps(2) pos_def)
      next
        case 2
        then have "cd_fixed data" "cd_capacity data \<le> cd_size data + (length v - length w)"
          using bytes st(2) by (auto simp: fits_def ps(2))
        then show ?thesis
          using 2 by (simp add: set cd_grow_param_def ensure_refused)
      next
        case 3
        then have "fits data (AList.update name v ps)" using bytes st(2) by (auto simp: fits_def ps(2))
        then show ?thesis
          using shrink_param_holds [OF h' Some ok 3] 3 by (auto simp: set ps(2) pos_def)
      next
        case 4
        let ?X = "le_bytes 8 (length w) @ w @ params_bytes ps2 @ zero_size @ drop (cd_size data) stack"
        have at: "stack = (params_bytes ps1 @ le_bytes 8 (length name + 1) @ name @ [0]) @ ?X"
          using read_value(1,2) [OF h' Some] by (metis append_take_drop_id)
        have X: "drop (8 + length v) ?X = params_bytes ps2 @ zero_size @ drop (cd_size data) stack"
          "8 + length v \<le> length ?X" using 4 by simp_all
        let ?d = "data\<lparr>cd_stack := Some (params_bytes (ps1 @ (name, v) # ps2) @ zero_size @ drop (cd_size data) stack)\<rparr>"
        note put = put_value [OF h' ok X, folded pos_def]
        have "length stack = pos + length ?X" by (subst at) (simp add: pos_def)
        then have "cd_holds ?d (ps1 @ (name, v) # ps2)"
          by (intro put(2)) (use st(2,3) 4 ps(1) in auto)
        moreover have "calldata_set_data fresh data name v = Some ?d"
          using put(1) [unfolded at [symmetric]] 4 by (simp only: set) simp
        moreover have "fits data (AList.update name v ps)" using bytes st(2) 4 by (auto simp: fits_def ps(2))
        ultimately show ?thesis by (simp add: ps(2))
      qed
    next
      case False
      have set: "calldata_set_data fresh data name v = cd_new_param fresh data stack (length (params_bytes ps)) name v"
        using getparam_missing [OF h Some False] name Some by (simp add: calldata_set_data_def)
      let ?n = "cd_size data + (length name + 1 + length v + 16)"
      have bytes: "length (params_bytes (AList.update name v ps)) + 8 = ?n"
        using st(2) by (simp add: update_new [OF False])
      show ?thesis
      proof (cases "fits data (AList.update name v ps)")
        case True
        then have "\<not> cd_fixed data \<or> ?n < cd_capacity data" using bytes by (auto simp: fits_def)
        then show ?thesis
          using new_param_holds [OF h Some False ok, of fresh] True by (auto simp: set update_new [OF False])
      next
        case False
        then have "cd_fixed data" "cd_capacity data \<le> ?n" using bytes by (auto simp: fits_def)
        then show ?thesis using False by (simp add: set cd_new_param_def ensure_refused)
      qed
    qed
  qed
qed

lemma init_holds: "cd_holds cd_init []"
  by (simp add: cd_init_def cd_holds_def)

lemma init_fixed_holds:
  assumes "8 \<le> length stack"
  shows "\<exists>data. calldata_init_fixed stack = Some data \<and> cd_holds data [] \<and> cd_fixed data \<and> cd_capacity data = length stack"
  using assms by (simp add: calldata_init_fixed_def calldata_clear_def poke_def cd_holds_def blit_def)

lemma clear_holds: "cd_holds data ps \<Longrightarrow> \<exists>data'. calldata_clear data = Some data' \<and> cd_holds data' []"
proof (cases "cd_stack data")
  case (Some stack)
  assume h: "cd_holds data ps"
  have "8 \<le> length stack" using holds_stack(2,4) [OF h Some] by simp
  then show ?thesis
    using Some holds_stack(3) [OF h Some] by (simp add: calldata_clear_def cd_holds_def poke_def blit_def)
qed (simp add: calldata_clear_def cd_holds_def)

lemma name_ok_sample [simp]: "name_ok [c]" if "c \<noteq> 0"
  using that by (auto simp: name_ok_def)

text \<open>C38: \<open>calldata_set_data\<close> never touches memory outside its block, and the parameters it leaves are
  the association list with the one parameter replaced in place or added at the end. Only a stack
  of fixed size that is too small refuses, and then it is unchanged.\<close>

theorem calldata_set_updates:
  assumes "cd_holds data ps" "name_ok name" "length v < 2 ^ 64"
  shows "\<exists>data'. calldata_set_data fresh data name v = Some data' \<and>
    (if fits data (AList.update name v ps) then cd_holds data' (AList.update name v ps) else data' = data)"
  using set_data_holds [of data ps name v fresh] assms by (auto simp: param_ok_def)

theorem calldata_set_updates_witness:
  "\<exists>data'. calldata_set_data (\<lambda>_. 7) cd_init [97] [1, 2, 3] = Some data' \<and> cd_holds data' [([97], [1, 2, 3])]"
  using calldata_set_updates [OF init_holds, of "[97]" "[1, 2, 3]" "\<lambda>_. 7"] by (simp add: fits_def cd_init_def)

subsection \<open>The contract of a parameter store\<close>

text \<open>What a caller that passes parameters relies on, whatever the layout: a store that can grow takes every
  parameter, and a read gives the value written last under the name.\<close>

definition put_all :: "('s \<Rightarrow> byte list \<Rightarrow> byte list \<Rightarrow> 's option) \<Rightarrow> 's \<Rightarrow> (byte list \<times> byte list) list \<Rightarrow> 's option" where
  "put_all put s kvs = foldl (\<lambda>s kv. s \<bind> (\<lambda>s. put s (fst kv) (snd kv))) (Some s) kvs"

locale param_store =
  fixes holds :: "'s \<Rightarrow> (byte list \<times> byte list) list \<Rightarrow> bool"
    and put :: "'s \<Rightarrow> byte list \<Rightarrow> byte list \<Rightarrow> 's option"
    and get :: "'s \<Rightarrow> byte list \<Rightarrow> nat \<Rightarrow> byte list option option"
    and growable :: "'s \<Rightarrow> bool"
  assumes put_holds: "holds s ps \<Longrightarrow> growable s \<Longrightarrow> param_ok (k, v) \<Longrightarrow>
      \<exists>s'. put s k v = Some s' \<and> holds s' (AList.update k v ps) \<and> growable s'"
    and get_holds: "holds s ps \<Longrightarrow> name_ok k \<Longrightarrow>
      get s k n = Some (case map_of ps k of Some v \<Rightarrow> if length v = n then Some v else None | None \<Rightarrow> None)"
begin

lemma put_all_holds:
  "holds s ps \<Longrightarrow> growable s \<Longrightarrow> list_all param_ok kvs \<Longrightarrow>
   \<exists>s' ps'. put_all put s kvs = Some s' \<and> holds s' ps' \<and> growable s' \<and> map_of ps' = map_of ps ++ map_of (rev kvs)"
proof (induction kvs arbitrary: s ps)
  case (Cons kv kvs)
  obtain k v where kv: "kv = (k, v)" by (cases kv)
  then obtain s1 where s1: "put s k v = Some s1" "holds s1 (AList.update k v ps)" "growable s1"
    using put_holds [OF Cons.prems(1,2), of k v] Cons.prems(3) by auto
  obtain s' ps' where s': "put_all put s1 kvs = Some s'" "holds s' ps'" "growable s'"
      "map_of ps' = map_of (AList.update k v ps) ++ map_of (rev kvs)"
    using Cons.IH [OF s1(2,3)] Cons.prems(3) by auto
  have "map_of (AList.update k v ps) ++ map_of (rev kvs) = map_of ps ++ map_of (rev (kv # kvs))"
    by (rule ext) (simp add: kv update_conv' map_add_def split: option.splits)
  then show ?case using s' s1(1) by (auto simp: put_all_def kv)
qed (auto simp: put_all_def)

lemma get_put_all:
  assumes "holds s ps" "growable s" "list_all param_ok kvs" "put_all put s kvs = Some s'" "name_ok k"
  shows "get s' k n = Some (case (map_of ps ++ map_of (rev kvs)) k of
    Some v \<Rightarrow> if length v = n then Some v else None | None \<Rightarrow> None)"
  using put_all_holds [OF assms(1-3)] get_holds [OF _ assms(5), of s' _ n] assms(4) by auto

end

interpretation cdp: param_store cd_holds "calldata_set_data fresh" calldata_get_data "\<lambda>data. \<not> cd_fixed data" for fresh
proof unfold_locales
  fix data ps k v
  assume "cd_holds data ps" "\<not> cd_fixed data" "param_ok (k, v)"
  then show "\<exists>s'. calldata_set_data fresh data k v = Some s' \<and> cd_holds s' (AList.update k v ps) \<and> \<not> cd_fixed s'"
    using set_data_holds [of data ps k v fresh] by (auto simp: fits_def)
qed (rule get_data_holds)

subsection \<open>Typed parameters\<close>

lemma get_string_holds:
  assumes "cd_holds data ps" "name_ok name" "map_of ps name = Some v" "v = [] \<or> (\<exists>s. v = s @ [0] \<and> 0 \<notin> set s)"
  shows "calldata_get_string data name = Some (Some (if v = [] then None else Some (butlast v)))"
proof -
  have "name \<in> fst ` set ps" using assms(3) by (metis map_of_eq_None_iff not_Some_eq)
  then obtain ps1 ps2 where ps: "ps = ps1 @ (name, v) # ps2"
    using holds_split [OF assms(1)] assms(3) by (metis option.inject)
  then obtain stack where Some: "cd_stack data = Some stack" using assms(1) by (auto simp: cd_holds_def split: option.splits)
  note h = assms(1) [unfolded ps]
  define pos where "pos = length (params_bytes ps1) + 8 + (length name + 1)"
  note at = read_value [OF h Some, folded pos_def]
  have "drop (pos + 8) stack = v @ params_bytes ps2 @ zero_size @ drop (cd_size data) stack"
    using drop_next [OF at(1)] by simp
  then have "cd_serialize_string stack pos = Some (if v = [] then None else Some (butlast v))"
    using assms(4) by (auto simp: cd_serialize_string_def at(3))
  then show ?thesis
    using getparam_found [OF h Some, folded pos_def] Some assms(2) by (simp add: calldata_get_string_def name_ok_def)
qed

lemma word64_le_bytes [simp]: "word_of_nat (le_val (le_bytes 8 (unat w))) = (w :: 64 word)"
proof -
  have "unat w < 256 ^ 8" using unsigned_less [of w] by simp
  then show ?thesis by simp
qed

text \<open>parameters that are set one after the other on growing memory are all there: a read of a
  name gives the value set last, unless it asks for another size.\<close>

theorem calldata_last_value_wins:
  assumes "list_all param_ok kvs" "name_ok name"
  shows "\<exists>data. put_all (calldata_set_data fresh) cd_init kvs = Some data \<and>
    calldata_get_data data name n =
      Some (case map_of (rev kvs) name of Some v \<Rightarrow> if length v = n then Some v else None | None \<Rightarrow> None)"
proof -
  have g: "\<not> cd_fixed cd_init" by (simp add: cd_init_def)
  obtain data where "put_all (calldata_set_data fresh) cd_init kvs = Some data"
    using cdp.put_all_holds [OF init_holds g assms(1)] by blast
  then show ?thesis using cdp.get_put_all [OF init_holds g assms(1) _ assms(2)] by auto
qed

theorem calldata_last_value_wins_witness:
  "\<exists>data. put_all (calldata_set_data (\<lambda>_. 7)) cd_init [([97], [1]), ([98], [2, 2]), ([97], [3, 3, 3])] = Some data \<and>
    calldata_get_data data [97] 3 = Some (Some [3, 3, 3])"
  using calldata_last_value_wins [of "[([97], [1]), ([98], [2, 2]), ([97], [3, 3, 3])]" "[97]" "\<lambda>_. 7" 3]
  by (simp add: param_ok_def)

text \<open>every typed parameter is read back as it was set: integers, pointers, floats bit by bit,
  booleans and strings; the other parameters keep their values.\<close>

theorem calldata_typed_roundtrip:
  assumes "cd_holds data ps" "\<not> cd_fixed data" "name_ok name" "0 \<notin> set s" "length s + 1 < 2 ^ 64"
  shows "(\<exists>d. calldata_set_int fresh data name i = Some d \<and> calldata_get_int d name = Some (Some i) \<and> calldata_int d name = Some i) \<and>
    (\<exists>d. calldata_set_ptr fresh data name i = Some d \<and> calldata_get_ptr d name = Some (Some i)) \<and>
    (\<exists>d. calldata_set_float fresh data name i = Some d \<and> calldata_get_float d name = Some (Some i)) \<and>
    (\<exists>d. calldata_set_bool fresh data name b = Some d \<and> calldata_get_bool d name = Some (Some b)) \<and>
    (\<exists>d. calldata_set_string fresh data name (Some s) = Some d \<and> calldata_string d name = Some (Some s)) \<and>
    (\<exists>d. calldata_set_string fresh data name None = Some d \<and> calldata_string d name = Some None)"
proof -
  have put: "\<exists>d. calldata_set_data fresh data name v = Some d \<and> cd_holds d (AList.update name v ps)" if "length v < 2 ^ 64" for v
    using cdp.put_holds [OF assms(1,2), of name v fresh] that assms(3) by (auto simp: param_ok_def)
  have bytes: "\<exists>d. calldata_set_data fresh data name v = Some d \<and> calldata_get_data d name (length v) = Some (Some v)"
    if "length v < 2 ^ 64" for v
    using put [OF that] cdp.get_holds [OF _ assms(3)] by (fastforce simp: update_conv')
  have str: "\<exists>d. calldata_set_data fresh data name v = Some d \<and>
      calldata_get_string d name = Some (Some (if v = [] then None else Some (butlast v)))"
    if "length v < 2 ^ 64" "v = [] \<or> v = s @ [0]" for v
    using put [OF that(1)] get_string_holds [OF _ assms(3), of _ "AList.update name v ps" v] that(2) assms(4)
    by (fastforce simp: update_conv')
  show ?thesis
    using bytes [of "le_bytes 8 (unat i)"] bytes [of "[if b then 1 else 0]"] str [of "s @ [0]"] str [of "[]"] assms(5)
    by (auto simp: calldata_set_int_def calldata_get_int_def calldata_int_def calldata_set_ptr_def calldata_get_ptr_def
        calldata_set_float_def calldata_get_float_def calldata_set_bool_def calldata_get_bool_def
        calldata_set_string_def calldata_string_def simp del: of_nat_unat)
qed

theorem calldata_typed_roundtrip_witness:
  "\<exists>d. calldata_set_int (\<lambda>_. 7) cd_init [105] 42 = Some d \<and> calldata_int d [105] = Some 42"
  using calldata_typed_roundtrip [OF init_holds, of "[105]" "[]" "\<lambda>_. 7" 42] by (auto simp: cd_init_def)

end
