(* ===== verification/Signal.thy ===== *)
theory Signal
  imports Prelude
begin

text \<open>
  Signal handlers (\<open>libobs/callback/signal.c\<close>) and procedure handlers (\<open>libobs/callback/proc.c\<close>).

  A callback is a function pointer together with its \<open>data\<close>, here two numbers. A callback that is
  called may itself connect, disconnect and emit: what it does is a list of actions, given by the
  environment. Emitting is therefore a machine with a stack of frames: the actions a callback still
  has to do, and the loops of \<open>signal_handler_signal\<close> that are under way. The mutex of a signal is
  recursive, so the thread that emits may enter again; other threads wait. The parser of
  declarations is a parameter that gives the name a declaration declares.
\<close>

type_synonym target = "nat \<times> nat"

record signal_callback =
  sc_target :: target
  sc_remove :: bool

record signal_info =
  si_name :: string
  si_callbacks :: "signal_callback list"
  si_signalling :: bool

type_synonym signal_handler = "signal_info list"

definition signal_info_create :: "string \<Rightarrow> signal_info" where
  "signal_info_create name = \<lparr>si_name = name, si_callbacks = [], si_signalling = False\<rparr>"

fun signal_get_callback_idx :: "signal_callback list \<Rightarrow> target \<Rightarrow> nat option" where
  "signal_get_callback_idx [] t = None"
| "signal_get_callback_idx (sc # scs) t =
     (if sc_target sc = t then Some 0 else map_option Suc (signal_get_callback_idx scs t))"

definition getsignal :: "signal_handler \<Rightarrow> string \<Rightarrow> signal_info option" where
  "getsignal handler name = List.find (\<lambda>si. si_name si = name) handler"

text \<open>A write through the pointer that \<open>getsignal\<close> returned.\<close>

fun set_signal :: "(signal_info \<Rightarrow> signal_info) \<Rightarrow> string \<Rightarrow> signal_handler \<Rightarrow> signal_handler" where
  "set_signal f name [] = []"
| "set_signal f name (si # handler) =
     (if si_name si = name then f si # handler else si # set_signal f name handler)"

definition signal_handler_create :: signal_handler where
  "signal_handler_create = []"

definition signal_handler_add :: "(string \<Rightarrow> string option) \<Rightarrow> signal_handler \<Rightarrow> string \<Rightarrow> bool \<times> signal_handler" where
  "signal_handler_add parse handler signal_decl =
     (case parse signal_decl of
        None \<Rightarrow> (False, handler)
      | Some name \<Rightarrow>
          (case getsignal handler name of
             Some _ \<Rightarrow> (False, handler)
           | None \<Rightarrow> (True, handler @ [signal_info_create name])))"

text \<open>What is done to the signal under its mutex.\<close>

definition connect_callback :: "target \<Rightarrow> signal_info \<Rightarrow> signal_info" where
  "connect_callback t si =
     (case signal_get_callback_idx (si_callbacks si) t of
        None \<Rightarrow> si\<lparr>si_callbacks := si_callbacks si @ [\<lparr>sc_target = t, sc_remove = False\<rparr>]\<rparr>
      | Some _ \<Rightarrow> si)"

definition signal_handler_connect :: "signal_handler \<Rightarrow> string \<Rightarrow> target \<Rightarrow> signal_handler" where
  "signal_handler_connect handler name t = set_signal (connect_callback t) name handler"

definition da_erase :: "'a list \<Rightarrow> nat \<Rightarrow> 'a list" where
  "da_erase xs i = take i xs @ drop (Suc i) xs"

definition disconnect_callback :: "target \<Rightarrow> signal_info \<Rightarrow> signal_info" where
  "disconnect_callback t si =
     (case signal_get_callback_idx (si_callbacks si) t of
        None \<Rightarrow> si
      | Some idx \<Rightarrow>
          if si_signalling si
          then si\<lparr>si_callbacks := (si_callbacks si)[idx := (si_callbacks si ! idx)\<lparr>sc_remove := True\<rparr>]\<rparr>
          else si\<lparr>si_callbacks := da_erase (si_callbacks si) idx\<rparr>)"

definition signal_handler_disconnect :: "signal_handler \<Rightarrow> string \<Rightarrow> target \<Rightarrow> signal_handler" where
  "signal_handler_disconnect handler name t = set_signal (disconnect_callback t) name handler"

text \<open>The loop that erases what was marked, from the last index down to the first.\<close>

fun erase_marked :: "signal_callback list \<Rightarrow> nat \<Rightarrow> signal_callback list" where
  "erase_marked cbs 0 = cbs"
| "erase_marked cbs (Suc i) = erase_marked (if sc_remove (cbs ! i) then da_erase cbs i else cbs) i"

subsection \<open>Emitting\<close>

definition end_signalling :: "signal_info \<Rightarrow> signal_info" where
  "end_signalling si = si\<lparr>si_callbacks := erase_marked (si_callbacks si) (length (si_callbacks si)), si_signalling := False\<rparr>"

datatype sig_action = Connect string target | Disconnect string target | Emit string

datatype frame = Do "sig_action list" | Calling string nat

record sig_system =
  sy_handler :: signal_handler
  sy_calls :: "(string \<times> target) list"
  sy_frames :: "frame list"

fun sig_act :: "sig_system \<Rightarrow> sig_action \<Rightarrow> sig_system" where
  "sig_act s (Connect name t) = s\<lparr>sy_handler := signal_handler_connect (sy_handler s) name t\<rparr>"
| "sig_act s (Disconnect name t) = s\<lparr>sy_handler := signal_handler_disconnect (sy_handler s) name t\<rparr>"
| "sig_act s (Emit name) =
     (case getsignal (sy_handler s) name of
        None \<Rightarrow> s
      | Some _ \<Rightarrow> s\<lparr>sy_handler := set_signal (\<lambda>si. si\<lparr>si_signalling := True\<rparr>) name (sy_handler s),
                     sy_frames := Calling name 0 # sy_frames s\<rparr>)"

text \<open>One step: the next action of a callback, the next callback of a loop, or the end of the loop.\<close>

definition sig_step :: "(target \<Rightarrow> sig_action list) \<Rightarrow> sig_system \<Rightarrow> sig_system option" where
  "sig_step does s =
     (case sy_frames s of
        [] \<Rightarrow> None
      | Do [] # fs \<Rightarrow> Some (s\<lparr>sy_frames := fs\<rparr>)
      | Do (a # as) # fs \<Rightarrow> Some (sig_act (s\<lparr>sy_frames := Do as # fs\<rparr>) a)
      | Calling name i # fs \<Rightarrow>
          (case getsignal (sy_handler s) name of
             None \<Rightarrow> Some (s\<lparr>sy_frames := fs\<rparr>)
           | Some si \<Rightarrow>
               if i < length (si_callbacks si) then
                 let cb = si_callbacks si ! i
                 in if \<not> sc_remove cb
                    then Some (s\<lparr>sy_calls := sy_calls s @ [(name, sc_target cb)],
                                 sy_frames := Do (does (sc_target cb)) # Calling name (Suc i) # fs\<rparr>)
                    else Some (s\<lparr>sy_frames := Calling name (Suc i) # fs\<rparr>)
               else
                 Some (s\<lparr>sy_handler := set_signal end_signalling name (sy_handler s), sy_frames := fs\<rparr>)))"

partial_function (option) sig_run :: "(target \<Rightarrow> sig_action list) \<Rightarrow> sig_system \<Rightarrow> sig_system option" where
  "sig_run does s = (case sig_step does s of None \<Rightarrow> Some s | Some s' \<Rightarrow> sig_run does s')"

definition signal_handler_signal ::
  "(target \<Rightarrow> sig_action list) \<Rightarrow> signal_handler \<Rightarrow> string \<Rightarrow> (signal_handler \<times> (string \<times> target) list) option" where
  "signal_handler_signal does handler name =
     map_option (\<lambda>s. (sy_handler s, sy_calls s))
       (sig_run does (sig_act \<lparr>sy_handler = handler, sy_calls = [], sy_frames = []\<rparr> (Emit name)))"

inductive sig_reachable :: "(target \<Rightarrow> sig_action list) \<Rightarrow> sig_system \<Rightarrow> sig_system \<Rightarrow> bool"
  for does :: "target \<Rightarrow> sig_action list" and s0 :: sig_system where
  start: "sig_reachable does s0 s0"
| step: "sig_reachable does s0 s \<Longrightarrow> sig_step does s = Some s' \<Longrightarrow> sig_reachable does s0 s'"

subsection \<open>Procedures\<close>

record proc_info =
  pi_name :: string
  pi_target :: target

definition proc_handler_create :: "proc_info list" where
  "proc_handler_create = []"

definition proc_handler_add :: "(string \<Rightarrow> string option) \<Rightarrow> proc_info list \<Rightarrow> string \<Rightarrow> target \<Rightarrow> proc_info list" where
  "proc_handler_add parse handler decl_string proc =
     (case parse decl_string of
        None \<Rightarrow> handler
      | Some name \<Rightarrow> handler @ [\<lparr>pi_name = name, pi_target = proc\<rparr>])"

text \<open>The procedure that is called, if any.\<close>

fun proc_handler_call :: "proc_info list \<Rightarrow> string \<Rightarrow> target option" where
  "proc_handler_call [] name = None"
| "proc_handler_call (p # handler) name =
     (if pi_name p = name then Some (pi_target p) else proc_handler_call handler name)"


subsection \<open>Lookups and updates\<close>

named_theorems signal_simps \<open>lookups in a signal handler after an update\<close>

lemma getsignal_simps [signal_simps]:
  "getsignal [] m = None"
  "getsignal (si # h) m = (if si_name si = m then Some si else getsignal h m)"
  by (simp_all add: getsignal_def)

lemma getsignal_set [signal_simps]:
  "(\<And>si. si_name (f si) = si_name si) \<Longrightarrow>
   getsignal (set_signal f n h) m = (if n = m then map_option f (getsignal h m) else getsignal h m)"
  by (induction h) (auto simp: signal_simps)

lemma getsignal_name: "getsignal h n = Some si \<Longrightarrow> si_name si = n \<and> si \<in> set h"
  by (auto simp: getsignal_def dest: find_SomeD)

lemma map_name_set: "(\<And>si. si_name (f si) = si_name si) \<Longrightarrow> map si_name (set_signal f n h) = map si_name h"
  by (induction h) auto

lemma set_set_signal:
  "distinct (map si_name h) \<Longrightarrow> si' \<in> set (set_signal f n h) \<Longrightarrow>
   si' \<in> set h \<and> si_name si' \<noteq> n \<or> (\<exists>si \<in> set h. si_name si = n \<and> si' = f si)"
proof (induction h)
  case (Cons si h)
  have "si_name si \<notin> si_name ` set h" using Cons.prems(1) by simp
  then have "si' \<in> set h \<Longrightarrow> si_name si' \<noteq> si_name si" by (metis imageI)
  then show ?case using Cons by (cases "si_name si = n") auto
qed simp

lemma idx_None_iff: "signal_get_callback_idx cbs t = None \<longleftrightarrow> t \<notin> sc_target ` set cbs"
  by (induction cbs) auto

lemma idx_SomeD: "signal_get_callback_idx cbs t = Some i \<Longrightarrow>
    i < length cbs \<and> sc_target (cbs ! i) = t \<and> t \<notin> sc_target ` set (take i cbs)"
  by (induction cbs arbitrary: i) (auto split: if_splits)

lemma erase_marked_take:
  "n \<le> length cbs \<Longrightarrow> erase_marked cbs n = filter (\<lambda>cb. \<not> sc_remove cb) (take n cbs) @ drop n cbs"
proof (induction n arbitrary: cbs)
  case (Suc n)
  then have n: "n < length cbs" by simp
  then have c: "drop n cbs = cbs ! n # drop (Suc n) cbs" by (simp add: Cons_nth_drop_Suc)
  have "take n (da_erase cbs n) = take n cbs" "drop n (da_erase cbs n) = drop (Suc n) cbs" "n \<le> length (da_erase cbs n)"
    using n by (auto simp: da_erase_def)
  then show ?case using Suc.IH [of cbs] Suc.IH [of "da_erase cbs n"] n c
    by (simp add: take_Suc_conv_app_nth)
qed simp

lemma erase_marked_filter [simp]: "erase_marked cbs (length cbs) = filter (\<lambda>cb. \<not> sc_remove cb) cbs"
  using erase_marked_take [of "length cbs" cbs] by simp

subsection \<open>The invariant\<close>

text \<open>Signals and callbacks are listed once; a mark is only left while its signal is being emitted.\<close>

definition si_ok :: "frame list \<Rightarrow> signal_info \<Rightarrow> bool" where
  "si_ok fs si \<longleftrightarrow> distinct (map sc_target (si_callbacks si)) \<and>
     ((\<exists>cb \<in> set (si_callbacks si). sc_remove cb) \<longrightarrow> si_signalling si) \<and>
     (si_signalling si \<longrightarrow> (\<exists>i. Calling (si_name si) i \<in> set fs))"

definition sig_inv :: "sig_system \<Rightarrow> bool" where
  "sig_inv s \<longleftrightarrow> distinct (map si_name (sy_handler s)) \<and> (\<forall>si \<in> set (sy_handler s). si_ok (sy_frames s) si)"

lemma si_ok_frames:
  "si_ok fs si \<Longrightarrow> (\<And>i. Calling (si_name si) i \<in> set fs \<Longrightarrow> \<exists>j. Calling (si_name si) j \<in> set fs') \<Longrightarrow> si_ok fs' si"
  unfolding si_ok_def by blast

lemma inv_frames:
  "sig_inv s \<Longrightarrow> (\<And>n i. Calling n i \<in> set (sy_frames s) \<Longrightarrow> \<exists>j. Calling n j \<in> set fs') \<Longrightarrow> sig_inv (s\<lparr>sy_frames := fs'\<rparr>)"
  by (auto simp: sig_inv_def intro: si_ok_frames)

lemma inv_set_signal:
  assumes "sig_inv s" "\<And>si. si_name (f si) = si_name si"
    and "\<And>si. si_ok (sy_frames s) si \<Longrightarrow> si_name si = n \<Longrightarrow> si_ok fs' (f si)"
    and "\<And>m i. m \<noteq> n \<Longrightarrow> Calling m i \<in> set (sy_frames s) \<Longrightarrow> \<exists>j. Calling m j \<in> set fs'"
  shows "sig_inv (s\<lparr>sy_handler := set_signal f n (sy_handler s), sy_frames := fs'\<rparr>)"
proof -
  have d: "distinct (map si_name (sy_handler s))" using assms(1) by (simp add: sig_inv_def)
  have "si_ok fs' si'" if "si' \<in> set (set_signal f n (sy_handler s))" for si'
    using set_set_signal [OF d that]
  proof (elim disjE bexE conjE)
    assume "si' \<in> set (sy_handler s)" "si_name si' \<noteq> n"
    then have "si_ok (sy_frames s) si'" using assms(1) by (simp add: sig_inv_def)
    then show "si_ok fs' si'" by (rule si_ok_frames) (rule assms(4) [OF \<open>si_name si' \<noteq> n\<close>])
  next
    fix si assume "si \<in> set (sy_handler s)" "si_name si = n" "si' = f si"
    then show "si_ok fs' si'" using assms(1,3) by (simp add: sig_inv_def)
  qed
  then show ?thesis using d by (simp add: sig_inv_def map_name_set [OF assms(2)])
qed

lemma distinct_da_erase: "distinct (map f xs) \<Longrightarrow> distinct (map f (da_erase xs i))"
  using set_take_disj_set_drop_if_distinct [of "map f xs" i "Suc i"]
  by (simp add: da_erase_def take_map [symmetric] drop_map [symmetric])

lemma set_da_erase: "set (da_erase xs i) \<subseteq> set xs"
  by (auto simp: da_erase_def dest: in_set_takeD in_set_dropD)

lemma callback_names [simp]:
  "si_name (connect_callback t si) = si_name si" "si_name (disconnect_callback t si) = si_name si"
  "si_name (end_signalling si) = si_name si"
  by (simp_all add: connect_callback_def disconnect_callback_def end_signalling_def split: option.split)

lemma connect_ok: "si_ok fs si \<Longrightarrow> si_ok fs (connect_callback t si)"
  by (auto simp: si_ok_def connect_callback_def idx_None_iff split: option.split)

lemma disconnect_ok: "si_ok fs si \<Longrightarrow> si_ok fs (disconnect_callback t si)"
proof (cases "signal_get_callback_idx (si_callbacks si) t")
  case (Some i)
  assume ok: "si_ok fs si"
  have "map sc_target ((si_callbacks si)[i := (si_callbacks si ! i)\<lparr>sc_remove := True\<rparr>]) = map sc_target (si_callbacks si)"
    using idx_SomeD [OF Some] by (simp add: map_update list_update_same_conv)
  then show ?thesis
    using ok Some set_da_erase [of "si_callbacks si" i]
    by (auto simp: si_ok_def disconnect_callback_def distinct_da_erase)
qed (simp add: disconnect_callback_def)

lemma end_ok: "si_ok fs si \<Longrightarrow> si_ok fs' (end_signalling si)"
  by (auto simp: si_ok_def end_signalling_def distinct_map_filter)

lemma act_inv: "sig_inv s \<Longrightarrow> sig_inv (sig_act s a)"
proof (cases a)
  case (Connect n t)
  assume "sig_inv s"
  then have "sig_inv (s\<lparr>sy_handler := signal_handler_connect (sy_handler s) n t, sy_frames := sy_frames s\<rparr>)"
    unfolding signal_handler_connect_def by (rule inv_set_signal) (auto intro: connect_ok)
  then show ?thesis by (simp add: Connect)
next
  case (Disconnect n t)
  assume "sig_inv s"
  then have "sig_inv (s\<lparr>sy_handler := signal_handler_disconnect (sy_handler s) n t, sy_frames := sy_frames s\<rparr>)"
    unfolding signal_handler_disconnect_def by (rule inv_set_signal) (auto intro: disconnect_ok)
  then show ?thesis by (simp add: Disconnect)
next
  case (Emit n)
  assume inv: "sig_inv s"
  have "sig_inv (s\<lparr>sy_handler := set_signal (\<lambda>si. si\<lparr>si_signalling := True\<rparr>) n (sy_handler s),
      sy_frames := Calling n 0 # sy_frames s\<rparr>)"
    using inv by (rule inv_set_signal) (auto simp: si_ok_def)
  then show ?thesis using inv by (auto simp: Emit split: option.split)
qed

lemma step_inv:
  assumes "sig_inv s" "sig_step does s = Some s'"
  shows "sig_inv s'"
proof (cases "sy_frames s")
  case (Cons f fs)
  show ?thesis
  proof (cases f)
    case (Do as)
    have "sig_inv (s\<lparr>sy_frames := (case as of [] \<Rightarrow> fs | a # as \<Rightarrow> Do as # fs)\<rparr>)"
      using assms(1) Cons Do by (intro inv_frames) (auto split: list.split)
    then show ?thesis using assms(2) Cons Do by (cases as) (auto simp: sig_step_def intro: act_inv)
  next
    case (Calling n i)
    show ?thesis
    proof (cases "getsignal (sy_handler s) n")
      case None
      then have no: "n \<notin> si_name ` set (sy_handler s)" by (auto simp: getsignal_def find_None_iff)
      have "si_ok fs si" if si: "si \<in> set (sy_handler s)" for si
      proof (rule si_ok_frames)
        show "si_ok (sy_frames s) si" using assms(1) si by (simp add: sig_inv_def)
        fix j assume "Calling (si_name si) j \<in> set (sy_frames s)"
        moreover have "si_name si \<noteq> n" using no si by blast
        ultimately show "\<exists>j. Calling (si_name si) j \<in> set fs" using Cons Calling by auto
      qed
      then have "sig_inv (s\<lparr>sy_frames := fs\<rparr>)" using assms(1) by (simp add: sig_inv_def)
      then show ?thesis using assms(2) Cons Calling None by (simp add: sig_step_def)
    next
      case (Some si)
      show ?thesis
      proof (cases "i < length (si_callbacks si)")
        case True
        have "sig_inv (s\<lparr>sy_frames := Calling n (Suc i) # fs\<rparr>)"
          "sig_inv (s\<lparr>sy_frames := Do as # Calling n (Suc i) # fs\<rparr>)" for as
          by (rule inv_frames [OF assms(1)], use Cons Calling in fastforce)+
        then show ?thesis
          using assms(2) Cons Calling Some True by (auto simp: sig_step_def Let_def sig_inv_def split: if_splits)
      next
        case False
        have "sig_inv (s\<lparr>sy_handler := set_signal end_signalling n (sy_handler s), sy_frames := fs\<rparr>)"
          by (rule inv_set_signal [OF assms(1)]) (use Cons Calling in \<open>auto intro: end_ok\<close>)
        then show ?thesis using assms(2) Cons Calling Some False by (simp add: sig_step_def)
      qed
    qed
  qed
qed (use assms in \<open>simp add: sig_step_def\<close>)

lemma reachable_inv: "sig_reachable does s0 s \<Longrightarrow> sig_inv s0 \<Longrightarrow> sig_inv s"
  by (induction rule: sig_reachable.induct) (auto intro: step_inv)


subsection \<open>A disconnected callback\<close>

definition live_in :: "target \<Rightarrow> signal_info \<Rightarrow> bool" where
  "live_in t si \<longleftrightarrow> (\<exists>cb \<in> set (si_callbacks si). sc_target cb = t \<and> \<not> sc_remove cb)"

definition live :: "signal_handler \<Rightarrow> string \<Rightarrow> target \<Rightarrow> bool" where
  "live h n t \<longleftrightarrow> (case getsignal h n of None \<Rightarrow> False | Some si \<Rightarrow> live_in t si)"

lemma live_set_signal:
  assumes "\<And>si. si_name (f si) = si_name si" "\<And>si. m = n \<Longrightarrow> live_in t (f si) \<Longrightarrow> live_in t si"
  shows "live (set_signal f m h) n t \<Longrightarrow> live h n t"
  using assms by (auto simp: live_def getsignal_set split: option.splits if_splits)

lemma live_in_connect: "live_in t (connect_callback u si) \<Longrightarrow> live_in t si \<or> u = t"
  by (auto simp: live_in_def connect_callback_def split: option.splits)

lemma live_connect: "live (signal_handler_connect h m u) n t \<Longrightarrow> live h n t \<or> (m = n \<and> u = t)"
  by (auto simp: live_def signal_handler_connect_def getsignal_set dest: live_in_connect split: option.splits if_splits)

lemma live_in_disconnect: "live_in t (disconnect_callback u si) \<Longrightarrow> live_in t si"
proof (cases "signal_get_callback_idx (si_callbacks si) u")
  case (Some i)
  have "set ((si_callbacks si)[i := (si_callbacks si ! i)\<lparr>sc_remove := True\<rparr>]) \<subseteq>
      insert ((si_callbacks si ! i)\<lparr>sc_remove := True\<rparr>) (set (si_callbacks si))" by (rule set_update_subset_insert)
  then show "live_in t (disconnect_callback u si) \<Longrightarrow> ?thesis"
    using Some set_da_erase [of "si_callbacks si" i] by (auto simp: live_in_def disconnect_callback_def split: if_splits)
qed (simp add: disconnect_callback_def)

lemma live_disconnect: "live (signal_handler_disconnect h m u) n t \<Longrightarrow> live h n t"
  unfolding signal_handler_disconnect_def by (rule live_set_signal) (auto intro: live_in_disconnect)

lemma not_in_da_erase: "distinct xs \<Longrightarrow> i < length xs \<Longrightarrow> xs ! i \<notin> set (da_erase xs i)"
proof -
  assume "distinct xs" "i < length xs"
  then have "distinct (take i xs @ xs ! i # drop (Suc i) xs)" by (metis id_take_nth_drop)
  then show ?thesis by (simp add: da_erase_def)
qed

lemma map_da_erase: "map f (da_erase xs i) = da_erase (map f xs) i"
  by (simp add: da_erase_def take_map drop_map)

lemma not_live_in_disconnect:
  assumes "distinct (map sc_target (si_callbacks si))"
  shows "\<not> live_in t (disconnect_callback t si)"
proof (cases "signal_get_callback_idx (si_callbacks si) t")
  case None
  then have "t \<notin> sc_target ` set (si_callbacks si)" by (rule idx_None_iff [THEN iffD1])
  then show ?thesis using None by (auto simp: disconnect_callback_def live_in_def)
next
  case (Some i)
  note i = idx_SomeD [OF Some]
  have other: "j = i" if "j < length (si_callbacks si)" "sc_target (si_callbacks si ! j) = t" for j
    using assms that i by (metis distinct_conv_nth length_map nth_map)
  have "t \<notin> sc_target ` set (da_erase (si_callbacks si) i)"
    using not_in_da_erase [OF assms, of i] i by (simp add: map_da_erase flip: set_map)
  moreover have "\<not> (\<exists>cb \<in> set ((si_callbacks si)[i := (si_callbacks si ! i)\<lparr>sc_remove := True\<rparr>]).
      sc_target cb = t \<and> \<not> sc_remove cb)"
  proof (intro notI, elim bexE conjE)
    fix cb assume "cb \<in> set ((si_callbacks si)[i := (si_callbacks si ! i)\<lparr>sc_remove := True\<rparr>])"
      and cb: "sc_target cb = t" "\<not> sc_remove cb"
    then obtain j where j: "j < length (si_callbacks si)"
        "cb = (if j = i then (si_callbacks si ! i)\<lparr>sc_remove := True\<rparr> else si_callbacks si ! j)"
      by (auto simp: in_set_conv_nth nth_list_update split: if_splits)
    have "j = i"
    proof (rule other [OF j(1)])
      show "sc_target (si_callbacks si ! j) = t" using j(2) cb(1) by (cases "j = i") simp_all
    qed
    then show False using j(2) cb(2) by simp
  qed
  ultimately show ?thesis using Some by (auto simp: disconnect_callback_def live_in_def)
qed

lemma live_act: "live (sy_handler (sig_act s a)) n t \<Longrightarrow> live (sy_handler s) n t \<or> a = Connect n t"
proof (cases a)
  case (Emit m)
  have "live (set_signal (\<lambda>si. si\<lparr>si_signalling := True\<rparr>) m (sy_handler s)) n t \<Longrightarrow> live (sy_handler s) n t"
    by (rule live_set_signal) (auto simp: live_in_def)
  then show "live (sy_handler (sig_act s a)) n t \<Longrightarrow> ?thesis" using Emit by (auto split: option.splits)
qed (auto dest: live_connect live_disconnect)

lemma not_live_after_disconnect:
  assumes "sig_inv s"
  shows "\<not> live (signal_handler_disconnect (sy_handler s) n t) n t"
proof (cases "getsignal (sy_handler s) n")
  case (Some si)
  then have "distinct (map sc_target (si_callbacks si))"
    using assms getsignal_name [OF Some] by (simp add: sig_inv_def si_ok_def)
  then show ?thesis
    using Some not_live_in_disconnect by (simp add: live_def signal_handler_disconnect_def getsignal_set)
qed (simp add: live_def signal_handler_disconnect_def getsignal_set)

definition never_connects :: "string \<Rightarrow> target \<Rightarrow> frame list \<Rightarrow> bool" where
  "never_connects n t fs \<longleftrightarrow> (\<forall>as. Do as \<in> set fs \<longrightarrow> Connect n t \<notin> set as)"

lemma step_not_live:
  assumes "sig_step does s = Some s'" "\<not> live (sy_handler s) n t" "\<forall>u. Connect n t \<notin> set (does u)"
    and "never_connects n t (sy_frames s)"
  shows "\<not> live (sy_handler s') n t \<and> never_connects n t (sy_frames s') \<and>
    filter (\<lambda>c. c = (n, t)) (sy_calls s') = filter (\<lambda>c. c = (n, t)) (sy_calls s)"
proof (cases "sy_frames s")
  case (Cons f fs)
  show ?thesis
  proof (cases f)
    case (Do as)
    show ?thesis
    proof (cases as)
      case (Cons a bs)
      define s1 where "s1 = s\<lparr>sy_frames := Do bs # fs\<rparr>"
      have s': "s' = sig_act s1 a" using assms(1) \<open>sy_frames s = f # fs\<close> Do Cons by (simp add: sig_step_def s1_def)
      have "a \<noteq> Connect n t" and no: "never_connects n t (Do bs # fs)"
        using assms(4) \<open>sy_frames s = f # fs\<close> Do Cons by (auto simp: never_connects_def)
      then have "\<not> live (sy_handler s') n t"
        using live_act [of s1 a n t] assms(2) by (auto simp: s' s1_def)
      moreover have "sy_frames s' = Do bs # fs \<or> (\<exists>m. sy_frames s' = Calling m 0 # Do bs # fs)" "sy_calls s' = sy_calls s"
        by (cases a; auto simp: s' s1_def split: option.splits)+
      moreover have "never_connects n t (Calling m 0 # Do bs # fs)" for m
        using no by (simp add: never_connects_def)
      ultimately show ?thesis using no by auto
    qed (use assms Cons Do in \<open>auto simp: sig_step_def never_connects_def\<close>)
  next
    case (Calling m i)
    show ?thesis
    proof (cases "getsignal (sy_handler s) m")
      case None
      then show ?thesis using assms Cons Calling by (auto simp: sig_step_def never_connects_def)
    next
      case (Some si)
      show ?thesis
      proof (cases "i < length (si_callbacks si)")
        case True
        have "(m, sc_target (si_callbacks si ! i)) \<noteq> (n, t) \<or> sc_remove (si_callbacks si ! i)"
          using assms(2) Some True by (auto simp: live_def live_in_def)
        then show ?thesis
          using assms(1,2,4) assms(3) [rule_format, of "sc_target (si_callbacks si ! i)"] Cons Calling Some True
          by (auto simp: sig_step_def never_connects_def Let_def split: if_splits)
      next
        case False
        have "live (set_signal end_signalling m (sy_handler s)) n t \<Longrightarrow> live (sy_handler s) n t"
          by (rule live_set_signal) (auto simp: live_in_def end_signalling_def)
        then show ?thesis using assms Cons Calling Some False by (auto simp: sig_step_def never_connects_def)
      qed
    qed
  qed
qed (use assms in \<open>simp add: sig_step_def\<close>)

lemma reachable_not_live:
  assumes "sig_reachable does s0 s" "\<not> live (sy_handler s0) n t" "\<forall>u. Connect n t \<notin> set (does u)"
    and "never_connects n t (sy_frames s0)"
  shows "\<not> live (sy_handler s) n t \<and> never_connects n t (sy_frames s) \<and>
    filter (\<lambda>c. c = (n, t)) (sy_calls s) = filter (\<lambda>c. c = (n, t)) (sy_calls s0)"
  using assms by (induction rule: sig_reachable.induct) (use step_not_live in metis)+


subsection \<open>What an emission calls\<close>

text \<open>The reference: the callbacks in the order they were connected, except those that a callback called
  before them has disconnected.\<close>

fun disconnects :: "string \<Rightarrow> sig_action list \<Rightarrow> target list" where
  "disconnects n [] = []"
| "disconnects n (Disconnect m t # as) = (if m = n then t # disconnects n as else disconnects n as)"
| "disconnects n (_ # as) = disconnects n as"

fun fire :: "(target \<Rightarrow> sig_action list) \<Rightarrow> string \<Rightarrow> target list \<Rightarrow> target list \<Rightarrow> target list \<times> target list" where
  "fire does n gone [] = ([], gone)"
| "fire does n gone (c # cs) =
     (if c \<in> set gone then fire does n gone cs
      else case fire does n (gone @ disconnects n (does c)) cs of (called, gone') \<Rightarrow> (c # called, gone'))"

fun only_disconnects :: "sig_action list \<Rightarrow> bool" where
  "only_disconnects [] = True"
| "only_disconnects (Disconnect m t # as) = only_disconnects as"
| "only_disconnects (_ # as) = False"

definition marked :: "target list \<Rightarrow> target list \<Rightarrow> signal_callback list" where
  "marked gone cs = map (\<lambda>c. \<lparr>sc_target = c, sc_remove = (c \<in> set gone)\<rparr>) cs"

definition emitting :: "sig_system \<Rightarrow> string \<Rightarrow> target list \<Rightarrow> target list \<Rightarrow> bool" where
  "emitting s n gone cs \<longleftrightarrow>
     getsignal (sy_handler s) n = Some \<lparr>si_name = n, si_callbacks = marked gone cs, si_signalling = True\<rparr>"

text \<open>A signal that is not being emitted, with these callbacks.\<close>

definition idle_signal :: "string \<Rightarrow> target list \<Rightarrow> signal_info" where
  "idle_signal n cs = \<lparr>si_name = n, si_callbacks = map (\<lambda>c. \<lparr>sc_target = c, sc_remove = False\<rparr>) cs, si_signalling = False\<rparr>"

lemma run_step: "sig_step does s = Some s' \<Longrightarrow> sig_run does s = sig_run does s'"
  by (subst sig_run.simps) simp

lemma idx_marked: "t \<notin> set cs \<Longrightarrow> signal_get_callback_idx (marked gone cs) t = None"
  by (simp add: idx_None_iff marked_def image_iff)

lemma disconnect_marked:
  assumes "distinct cs"
  shows "disconnect_callback t \<lparr>si_name = n, si_callbacks = marked gone cs, si_signalling = True\<rparr> =
    \<lparr>si_name = n, si_callbacks = marked (gone @ [t]) cs, si_signalling = True\<rparr>"
proof (cases "t \<in> set cs")
  case True
  then have "t \<in> sc_target ` set (marked gone cs)" by (simp add: marked_def image_iff)
  then obtain i where i: "signal_get_callback_idx (marked gone cs) t = Some i"
    using idx_None_iff [of "marked gone cs" t] by fastforce
  have at: "i < length cs" "cs ! i = t" using idx_SomeD [OF i] by (auto simp: marked_def)
  then have "cs ! j = t \<longleftrightarrow> j = i" if "j < length cs" for j
    using assms that by (metis nth_eq_iff_index_eq)
  then have "(marked gone cs)[i := (marked gone cs ! i)\<lparr>sc_remove := True\<rparr>] = marked (gone @ [t]) cs"
    using at by (intro nth_equalityI) (auto simp: marked_def nth_list_update)
  then show ?thesis using i by (simp add: disconnect_callback_def)
next
  case False
  then have "marked (gone @ [t]) cs = marked gone cs" by (auto simp: marked_def)
  then show ?thesis using idx_marked [OF False, of gone] by (simp add: disconnect_callback_def)
qed

lemma run_actions:
  assumes "emitting s n gone cs" "distinct cs" "only_disconnects as" "sy_frames s = Do as # fs"
  shows "\<exists>s'. sig_run does s = sig_run does s' \<and> emitting s' n (gone @ disconnects n as) cs \<and>
    sy_frames s' = fs \<and> sy_calls s' = sy_calls s"
  using assms
proof (induction as arbitrary: s gone)
  case Nil
  then have "sig_step does s = Some (s\<lparr>sy_frames := fs\<rparr>)" by (simp add: sig_step_def)
  from run_step [OF this] show ?case using Nil by (auto simp: emitting_def)
next
  case (Cons a as)
  from Cons.prems(3) obtain m t where a: "a = Disconnect m t" by (cases a) auto
  let ?s = "s\<lparr>sy_frames := Do as # fs, sy_handler := signal_handler_disconnect (sy_handler s) m t\<rparr>"
  have step: "sig_step does s = Some ?s" using Cons.prems(4) by (simp add: sig_step_def a)
  have "emitting ?s n (if m = n then gone @ [t] else gone) cs"
    using Cons.prems(1) disconnect_marked [OF Cons.prems(2)]
    by (auto simp: emitting_def signal_handler_disconnect_def getsignal_set)
  then obtain s' where "sig_run does ?s = sig_run does s'"
      "emitting s' n ((if m = n then gone @ [t] else gone) @ disconnects n as) cs"
      "sy_frames s' = fs" "sy_calls s' = sy_calls ?s"
    using Cons.IH [of ?s "if m = n then gone @ [t] else gone"] Cons.prems(2,3) by (auto simp: a)
  then show ?case using run_step [OF step] by (auto simp: a)
qed

lemma run_calls:
  assumes "emitting s n gone cs" "distinct cs" "\<forall>t. only_disconnects (does t)"
    and "sy_frames s = [Calling n i]" "i \<le> length cs"
  shows "\<exists>s'. sig_run does s = Some s' \<and> sy_calls s' = sy_calls s @ map (Pair n) (fst (fire does n gone (drop i cs))) \<and>
    getsignal (sy_handler s') n = Some (idle_signal n (filter (\<lambda>c. c \<notin> set (snd (fire does n gone (drop i cs)))) cs))"
  using assms
proof (induction "length cs - i" arbitrary: i s gone)
  case 0
  then have i: "i = length cs" by simp
  let ?s = "s\<lparr>sy_handler := set_signal end_signalling n (sy_handler s), sy_frames := []\<rparr>"
  have "sig_step does s = Some ?s"
    using 0 i by (simp add: sig_step_def emitting_def marked_def)
  moreover have "sig_run does ?s = Some ?s" by (subst sig_run.simps) (simp add: sig_step_def)
  moreover have "filter (\<lambda>cb. \<not> sc_remove cb) (marked gone cs) =
      map (\<lambda>c. \<lparr>sc_target = c, sc_remove = False\<rparr>) (filter (\<lambda>c. c \<notin> set gone) cs)"
    by (simp add: marked_def filter_map comp_def cong: map_cong)
  ultimately show ?case
    using 0(2) i run_step [of does s ?s] by (simp add: emitting_def getsignal_set end_signalling_def idle_signal_def)
next
  case (Suc k)
  then have i: "i < length cs" by simp
  then have d: "drop i cs = cs ! i # drop (Suc i) cs" by (simp add: Cons_nth_drop_Suc)
  show ?case
  proof (cases "cs ! i \<in> set gone")
    case True
    let ?s = "s\<lparr>sy_frames := [Calling n (Suc i)]\<rparr>"
    have "sig_step does s = Some ?s" using Suc.prems i True by (simp add: sig_step_def emitting_def marked_def)
    then show ?thesis
      using Suc.hyps(1) [of "Suc i" ?s gone] Suc.hyps(2) Suc.prems i True run_step [of does s ?s]
      by (simp add: emitting_def d)
  next
    case False
    let ?s = "s\<lparr>sy_calls := sy_calls s @ [(n, cs ! i)], sy_frames := [Do (does (cs ! i)), Calling n (Suc i)]\<rparr>"
    have step: "sig_step does s = Some ?s" using Suc.prems i False by (simp add: sig_step_def emitting_def marked_def)
    obtain s' where s': "sig_run does ?s = sig_run does s'" "emitting s' n (gone @ disconnects n (does (cs ! i))) cs"
        "sy_frames s' = [Calling n (Suc i)]" "sy_calls s' = sy_calls s @ [(n, cs ! i)]"
      using run_actions [of ?s n gone cs "does (cs ! i)" "[Calling n (Suc i)]" does] Suc.prems
      by (auto simp: emitting_def)
    show ?thesis
      using Suc.hyps(1) [OF _ s'(2) Suc.prems(2,3) s'(3)] Suc.hyps(2) i False run_step [OF step] s'(1,4)
      by (simp add: d case_prod_beta)
  qed
qed

subsection \<open>Properties\<close>

text \<open>after any number of steps of any emission, with callbacks that connect, disconnect and emit as they
  like, every signal still lists each callback once; and when the last emission has ended no signal is
  left in the signalling state and no callback is left marked for removal.\<close>

theorem signal_invariant:
  assumes "sig_inv s0" "sig_reachable does s0 s"
  shows "(\<forall>si \<in> set (sy_handler s). distinct (map sc_target (si_callbacks si))) \<and>
    (sy_frames s = [] \<longrightarrow> (\<forall>si \<in> set (sy_handler s). \<not> si_signalling si \<and> (\<forall>cb \<in> set (si_callbacks si). \<not> sc_remove cb)))"
  using reachable_inv [OF assms(2,1)] by (auto simp: sig_inv_def si_ok_def)

text \<open>A signal with three callbacks, and the system that starts to emit it.\<close>

definition plain_callback :: "nat \<Rightarrow> signal_callback" where
  "plain_callback k = \<lparr>sc_target = (k, 0), sc_remove = False\<rparr>"

definition sample_handler :: signal_handler where
  "sample_handler = [\<lparr>si_name = ''s'', si_callbacks = map plain_callback [1, 2, 3], si_signalling = False\<rparr>]"

definition sample_emit :: sig_system where
  "sample_emit = sig_act \<lparr>sy_handler = sample_handler, sy_calls = [], sy_frames = []\<rparr> (Emit ''s'')"

lemma sample_emit_eq: "sample_emit = \<lparr>sy_handler = [\<lparr>si_name = ''s'', si_callbacks = map plain_callback [1, 2, 3], si_signalling = True\<rparr>],
    sy_calls = [], sy_frames = [Calling ''s'' 0]\<rparr>"
  by (simp add: sample_emit_def sample_handler_def getsignal_def)

lemma sample_emit_inv: "sig_inv sample_emit"
  by (simp add: sample_emit_eq sig_inv_def si_ok_def plain_callback_def)

theorem signal_invariant_witness:
  "distinct (map sc_target (si_callbacks (hd (sy_handler sample_emit))))"
  using signal_invariant [OF sample_emit_inv sig_reachable.start] by (simp add: sample_emit_eq)

text \<open>C37: a disconnected callback is not called any more, even when it is disconnected in the middle of an
  emission, at any depth, until it is connected again.\<close>

theorem signal_disconnect_is_final:
  assumes "sig_inv s" "\<forall>u. Connect n t \<notin> set (does u)" "never_connects n t (sy_frames s)"
    and "sig_reachable does (sig_act s (Disconnect n t)) s'"
  shows "filter (\<lambda>c. c = (n, t)) (sy_calls s') = filter (\<lambda>c. c = (n, t)) (sy_calls s)"
  using reachable_not_live [OF assms(4) _ assms(2)] not_live_after_disconnect [OF assms(1), of n t] assms(3)
  by simp

theorem signal_disconnect_is_final_witness:
  "filter (\<lambda>c. c = (''s'', (2, 0))) (sy_calls (sig_act sample_emit (Disconnect ''s'' (2, 0)))) = []"
  using signal_disconnect_is_final [OF sample_emit_inv _ _ sig_reachable.start, where n = "''s''" and t = "(2, 0)" and does = "\<lambda>_. []"]
  by (simp add: never_connects_def sample_emit_eq)

text \<open>as long as callbacks only disconnect, an emission ends, calls the connected callbacks in the order they
  were connected, leaving out those that were disconnected before their turn, and afterwards the
  callbacks that were not disconnected are connected.\<close>

theorem signal_emission:
  assumes "getsignal h n = Some (idle_signal n cs)"
    and "distinct cs" "\<forall>t. only_disconnects (does t)"
  shows "\<exists>h'. signal_handler_signal does h n = Some (h', map (Pair n) (fst (fire does n [] cs))) \<and>
    getsignal h' n = Some (idle_signal n (filter (\<lambda>c. c \<notin> set (snd (fire does n [] cs))) cs))"
proof -
  let ?s = "sig_act \<lparr>sy_handler = h, sy_calls = [], sy_frames = []\<rparr> (Emit n)"
  have "emitting ?s n [] cs" "sy_frames ?s = [Calling n 0]" "sy_calls ?s = []"
    using assms(1) by (simp_all add: emitting_def getsignal_set marked_def idle_signal_def)
  from run_calls [OF this(1) assms(2,3) this(2)] this(3) show ?thesis
    by (auto simp: signal_handler_signal_def)
qed

theorem signal_emission_witness:
  "\<exists>h'. signal_handler_signal (\<lambda>t. if t = (1, 0) then [Disconnect ''s'' (2, 0)] else []) sample_handler ''s'' =
    Some (h', [(''s'', (1, 0)), (''s'', (3, 0))])"
proof -
  have "\<forall>t. only_disconnects (if t = (1, 0) then [Disconnect ''s'' (2, 0)] else [])" by simp
  from signal_emission [of sample_handler "''s''" "[(1, 0), (2, 0), (3, 0)]", OF _ _ this] show ?thesis
    by (auto simp: sample_handler_def getsignal_def plain_callback_def idle_signal_def)
qed

text \<open>two things that reentrancy breaks. A callback that disconnects itself and emits the signal again makes
  the outer emission skip the callback behind it, although that one is connected all the time. And a
  callback that disconnects and reconnects itself while it is called is disconnected afterwards.\<close>

theorem signal_reentrancy:
  "map_option snd (signal_handler_signal (\<lambda>t. if t = (1, 0) then [Disconnect ''s'' (1, 0), Emit ''s''] else []) sample_handler ''s'') =
     Some [(''s'', (1, 0)), (''s'', (2, 0)), (''s'', (3, 0)), (''s'', (3, 0))] \<and>
   map_option fst (signal_handler_signal (\<lambda>t. if t = (1, 0) then [Disconnect ''s'' (1, 0), Connect ''s'' (1, 0)] else []) sample_handler ''s'') =
     Some [\<lparr>si_name = ''s'', si_callbacks = map plain_callback [2, 3], si_signalling = False\<rparr>]"
  by (simp add: signal_handler_signal_def sample_handler_def getsignal_def plain_callback_def sig_run.simps sig_step_def
      signal_handler_disconnect_def disconnect_callback_def signal_handler_connect_def connect_callback_def
      end_signalling_def da_erase_def Let_def)

text \<open>A procedure call reaches the procedure that was added first under the name; one that is added later
  under the same name is never called, and adding leaves all other names as they were.\<close>

theorem proc_first_wins:
  "proc_handler_call (proc_handler_add parse handler decl_string proc) name =
    (case proc_handler_call handler name of
       Some t \<Rightarrow> Some t
     | None \<Rightarrow> if parse decl_string = Some name then Some proc else None)"
  by (induction handler) (auto simp: proc_handler_add_def split: option.split)

end
