(* ===== verification/Dstr.thy ===== *)
theory Dstr
  imports Memory
begin

text \<open>
  Dynamic strings (\<open>libobs/util/dstr.h\<close>, \<open>libobs/util/dstr.c\<close>) down to the byte: the block, the length
  and the capacity. The block is longer than the capacity says after \<open>dstr_ncopy\<close>, which does not set
  it. A C string argument is a byte list without the terminator, or \<open>None\<close> for \<open>NULL\<close>; a pointer
  with a length is the block from the pointer on. Operations give \<open>None\<close> where C accesses memory
  outside a block; a loop that does not end gives \<open>None\<close> as well. The wide character
  variants and \<open>printf\<close> are not modelled. \<open>toupper\<close> is that of the C locale.
\<close>

subsection \<open>Comparing strings\<close>

definition toupper :: "byte \<Rightarrow> byte" where
  "toupper c = (if 97 \<le> c \<and> c \<le> 122 then c - 32 else c)"

text \<open>\<open>char\<close> is signed.\<close>

definition char_cmp :: "byte \<Rightarrow> byte \<Rightarrow> int" where
  "char_cmp ch1 ch2 = (if sint ch1 < sint ch2 then -1 else if sint ch1 > sint ch2 then 1 else 0)"

fun astrcmpi :: "byte list \<Rightarrow> byte list \<Rightarrow> int" where
  "astrcmpi [] [] = 0"
| "astrcmpi [] (d # ds) = char_cmp 0 (toupper d)"
| "astrcmpi (c # cs) [] = char_cmp (toupper c) 0"
| "astrcmpi (c # cs) (d # ds) =
     (if char_cmp (toupper c) (toupper d) \<noteq> 0 then char_cmp (toupper c) (toupper d) else astrcmpi cs ds)"

fun astrcmp_n :: "byte list \<Rightarrow> byte list \<Rightarrow> nat \<Rightarrow> int" where
  "astrcmp_n _ _ 0 = 0"
| "astrcmp_n [] [] (Suc n) = 0"
| "astrcmp_n [] (d # ds) (Suc n) = char_cmp 0 d"
| "astrcmp_n (c # cs) [] (Suc n) = char_cmp c 0"
| "astrcmp_n (c # cs) (d # ds) (Suc n) = (if char_cmp c d \<noteq> 0 then char_cmp c d else astrcmp_n cs ds n)"

fun astrcmpi_n :: "byte list \<Rightarrow> byte list \<Rightarrow> nat \<Rightarrow> int" where
  "astrcmpi_n _ _ 0 = 0"
| "astrcmpi_n [] [] (Suc n) = 0"
| "astrcmpi_n [] (d # ds) (Suc n) = char_cmp 0 (toupper d)"
| "astrcmpi_n (c # cs) [] (Suc n) = char_cmp (toupper c) 0"
| "astrcmpi_n (c # cs) (d # ds) (Suc n) =
     (if char_cmp (toupper c) (toupper d) \<noteq> 0 then char_cmp (toupper c) (toupper d) else astrcmpi_n cs ds n)"

text \<open>The offset of the first match; the loop also tries the terminator.\<close>

fun astrstri :: "byte list \<Rightarrow> byte list \<Rightarrow> nat option" where
  "astrstri str find_str =
     (if astrcmpi_n str find_str (length find_str) = 0 then Some 0
      else case str of [] \<Rightarrow> None | c # cs \<Rightarrow> map_option Suc (astrstri cs find_str))"

text \<open>\<open>strstr\<close> of the C library: the offset of the first occurrence.\<close>

fun strstr :: "byte list \<Rightarrow> byte list \<Rightarrow> nat option" where
  "strstr str find_str =
     (if take (length find_str) str = find_str then Some 0
      else case str of [] \<Rightarrow> None | c # cs \<Rightarrow> map_option Suc (strstr cs find_str))"

declare astrstri.simps [simp del] strstr.simps [simp del]

subsection \<open>Splitting\<close>

text \<open>\<open>cur\<close> is what lies between \<open>cur_str\<close> and the current position. \<open>bstrdup\<close> and \<open>bstrdup_n\<close> copy.\<close>

fun split_loop :: "byte \<Rightarrow> bool \<Rightarrow> byte list \<Rightarrow> byte list \<Rightarrow> byte list list" where
  "split_loop split_ch include_empty cur [] = (if cur \<noteq> [] \<or> include_empty then [cur] else [])"
| "split_loop split_ch include_empty cur (c # cs) =
     (if c = split_ch
      then (if cur \<noteq> [] \<or> include_empty then [cur] else []) @ split_loop split_ch include_empty [] cs
      else split_loop split_ch include_empty (cur @ [c]) cs)"

definition strlist_split :: "byte list option \<Rightarrow> byte \<Rightarrow> bool \<Rightarrow> byte list list" where
  "strlist_split str split_ch include_empty =
     (case str of None \<Rightarrow> [] | Some s \<Rightarrow> split_loop split_ch include_empty [] s)"

subsection \<open>The dynamic string\<close>

record dstr =
  ds_array :: "byte list option"
  ds_len :: nat
  ds_capacity :: nat

definition dstr_init :: dstr where
  "dstr_init = \<lparr>ds_array = None, ds_len = 0, ds_capacity = 0\<rparr>"

definition dstr_free :: "dstr \<Rightarrow> dstr" where
  "dstr_free dst = dstr_init"

text \<open>The block of the string, and a copy into it. A \<open>NULL\<close> block has no bytes to copy to.\<close>

definition ds_poke :: "dstr \<Rightarrow> nat \<Rightarrow> byte list \<Rightarrow> dstr option" where
  "ds_poke dst pos xs = do {
     a \<leftarrow> ds_array dst;
     a \<leftarrow> poke a pos xs;
     Some (dst\<lparr>ds_array := Some a\<rparr>) }"

definition ds_peek :: "dstr \<Rightarrow> nat \<Rightarrow> nat \<Rightarrow> byte list option" where
  "ds_peek dst pos n = do { a \<leftarrow> ds_array dst; peek a pos n }"

definition dstr_ensure_capacity :: "(nat \<Rightarrow> byte) \<Rightarrow> dstr \<Rightarrow> nat \<Rightarrow> dstr" where
  "dstr_ensure_capacity fresh dst new_size =
     (if new_size \<le> ds_capacity dst then dst
      else
        let new_cap = (if ds_capacity dst = 0 then new_size else ds_capacity dst * 2);
            new_cap = (if new_size > new_cap then new_size else new_cap);
            block = (case ds_array dst of None \<Rightarrow> [] | Some a \<Rightarrow> a)
        in dst\<lparr>ds_array := Some (realloc fresh block new_cap), ds_capacity := new_cap\<rparr>)"

definition dstr_init_move_array :: "byte list option \<Rightarrow> dstr" where
  "dstr_init_move_array str =
     (case str of
        None \<Rightarrow> \<lparr>ds_array = None, ds_len = 0, ds_capacity = 1\<rparr>
      | Some s \<Rightarrow> \<lparr>ds_array = Some (s @ [0]), ds_len = length s, ds_capacity = length s + 1\<rparr>)"

definition dstr_is_empty :: "dstr \<Rightarrow> bool" where
  "dstr_is_empty str \<longleftrightarrow>
     (case ds_array str of None \<Rightarrow> True | Some a \<Rightarrow> ds_len str = 0 \<or> a ! 0 = 0)"

definition dstr_copy_dstr :: "(nat \<Rightarrow> byte) \<Rightarrow> dstr \<Rightarrow> dstr \<Rightarrow> dstr option" where
  "dstr_copy_dstr fresh dst src =
     (let dst = (if ds_array dst \<noteq> None then dstr_free dst else dst);
          dst = dstr_ensure_capacity fresh dst (ds_len src + 1)
      in do {
        bs \<leftarrow> ds_peek src 0 (ds_len src + 1);
        dst \<leftarrow> ds_poke dst 0 bs;
        Some (dst\<lparr>ds_len := ds_len src\<rparr>) })"

definition dstr_resize :: "(nat \<Rightarrow> byte) \<Rightarrow> dstr \<Rightarrow> nat \<Rightarrow> dstr option" where
  "dstr_resize fresh dst num =
     (if num = 0 then Some (dstr_free dst)
      else do {
        dst \<leftarrow> ds_poke (dstr_ensure_capacity fresh dst (num + 1)) num [0];
        Some (dst\<lparr>ds_len := num\<rparr>) })"

definition dstr_ncat :: "(nat \<Rightarrow> byte) \<Rightarrow> dstr \<Rightarrow> byte list option \<Rightarrow> nat \<Rightarrow> dstr option" where
  "dstr_ncat fresh dst array len =
     (case array of
        None \<Rightarrow> Some dst
      | Some src \<Rightarrow> do {
          first \<leftarrow> rd src 0;
          if first = 0 \<or> len = 0 then Some dst
          else let new_len = ds_len dst + len
            in do {
              bs \<leftarrow> peek src 0 len;
              dst \<leftarrow> ds_poke (dstr_ensure_capacity fresh dst (new_len + 1)) (ds_len dst) bs;
              dst \<leftarrow> ds_poke dst new_len [0];
              Some (dst\<lparr>ds_len := new_len\<rparr>) } })"

definition dstr_cat :: "(nat \<Rightarrow> byte) \<Rightarrow> dstr \<Rightarrow> byte list option \<Rightarrow> dstr option" where
  "dstr_cat fresh dst array =
     (case array of
        None \<Rightarrow> Some dst
      | Some s \<Rightarrow> if s = [] then Some dst else dstr_ncat fresh dst (Some (s @ [0])) (length s))"

definition dstr_cat_ch :: "(nat \<Rightarrow> byte) \<Rightarrow> dstr \<Rightarrow> byte \<Rightarrow> dstr option" where
  "dstr_cat_ch fresh dst ch =
     (let n = ds_len dst + 1;
          dst = dstr_ensure_capacity fresh (dst\<lparr>ds_len := n\<rparr>) (n + 1)
      in do {
        dst \<leftarrow> ds_poke dst (n - 1) [ch];
        ds_poke dst n [0] })"

definition dstr_copy :: "(nat \<Rightarrow> byte) \<Rightarrow> dstr \<Rightarrow> byte list option \<Rightarrow> dstr option" where
  "dstr_copy fresh dst array =
     (case array of
        None \<Rightarrow> Some (dstr_free dst)
      | Some s \<Rightarrow>
          if s = [] then Some (dstr_free dst)
          else do {
            dst \<leftarrow> ds_poke (dstr_ensure_capacity fresh dst (length s + 1)) 0 (s @ [0]);
            Some (dst\<lparr>ds_len := length s\<rparr>) })"

definition dstr_ncopy :: "dstr \<Rightarrow> byte list option \<Rightarrow> nat \<Rightarrow> dstr option" where
  "dstr_ncopy dst array len =
     (let dst = (if ds_array dst \<noteq> None then dstr_free dst else dst)
      in if len = 0 then Some dst
         else do {
           src \<leftarrow> array;
           bs \<leftarrow> peek src 0 (len + 1);
           bs \<leftarrow> poke bs len [0];
           Some (dst\<lparr>ds_array := Some bs, ds_len := len\<rparr>) })"

definition dstr_ncopy_dstr :: "dstr \<Rightarrow> dstr \<Rightarrow> nat \<Rightarrow> dstr option" where
  "dstr_ncopy_dstr dst str len =
     (let dst = (if ds_array dst \<noteq> None then dstr_free dst else dst)
      in if len = 0 then Some dst
         else let newlen = min len (ds_len str)
           in do {
             bs \<leftarrow> ds_peek str 0 (newlen + 1);
             bs \<leftarrow> poke bs newlen [0];
             Some (dst\<lparr>ds_array := Some bs, ds_len := newlen\<rparr>) })"

definition dstr_cat_dstr :: "(nat \<Rightarrow> byte) \<Rightarrow> dstr \<Rightarrow> dstr \<Rightarrow> dstr option" where
  "dstr_cat_dstr fresh dst str =
     (if ds_len str = 0 then Some dst
      else let new_len = ds_len dst + ds_len str
        in do {
          bs \<leftarrow> ds_peek str 0 (ds_len str + 1);
          dst \<leftarrow> ds_poke (dstr_ensure_capacity fresh dst (new_len + 1)) (ds_len dst) bs;
          Some (dst\<lparr>ds_len := new_len\<rparr>) })"

text \<open>The number of bytes to move is computed from the new length.\<close>

definition open_gap :: "dstr \<Rightarrow> nat \<Rightarrow> nat \<Rightarrow> dstr option" where
  "open_gap dst idx n =
     (if idx \<le> ds_len dst + 1
      then do { bs \<leftarrow> ds_peek dst idx (ds_len dst + 1 - idx); ds_poke dst (idx + n) bs }
      else None)"

definition dstr_insert :: "(nat \<Rightarrow> byte) \<Rightarrow> dstr \<Rightarrow> nat \<Rightarrow> byte list option \<Rightarrow> dstr option" where
  "dstr_insert fresh dst idx array =
     (case array of
        None \<Rightarrow> Some dst
      | Some s \<Rightarrow>
          if s = [] then Some dst
          else if idx = ds_len dst then dstr_cat fresh dst (Some s)
          else let new_len = ds_len dst + length s;
                   dst = (dstr_ensure_capacity fresh dst (new_len + 1))\<lparr>ds_len := new_len\<rparr>
            in do {
              dst \<leftarrow> open_gap dst idx (length s);
              ds_poke dst idx s })"

definition dstr_insert_dstr :: "(nat \<Rightarrow> byte) \<Rightarrow> dstr \<Rightarrow> nat \<Rightarrow> dstr \<Rightarrow> dstr option" where
  "dstr_insert_dstr fresh dst idx str =
     (if ds_len str = 0 then Some dst
      else if idx = ds_len dst then dstr_cat_dstr fresh dst str
      else let new_len = ds_len dst + ds_len str;
               dst = (dstr_ensure_capacity fresh dst (new_len + 1))\<lparr>ds_len := new_len\<rparr>
        in do {
          dst \<leftarrow> open_gap dst idx (ds_len str);
          bs \<leftarrow> ds_peek str 0 (ds_len str);
          ds_poke dst idx bs })"

definition dstr_insert_ch :: "(nat \<Rightarrow> byte) \<Rightarrow> dstr \<Rightarrow> nat \<Rightarrow> byte \<Rightarrow> dstr option" where
  "dstr_insert_ch fresh dst idx ch =
     (if idx = ds_len dst then dstr_cat_ch fresh dst ch
      else let n = ds_len dst + 1;
               dst = dstr_ensure_capacity fresh (dst\<lparr>ds_len := n\<rparr>) (n + 1)
        in do {
          dst \<leftarrow> open_gap dst idx 1;
          ds_poke dst idx [ch] })"

text \<open>A range that reaches past the end of the string gives \<open>None\<close>: there the code's lengths wrap.\<close>

definition dstr_remove :: "dstr \<Rightarrow> nat \<Rightarrow> nat \<Rightarrow> dstr option" where
  "dstr_remove dst idx count =
     (if count = 0 then Some dst
      else if count = ds_len dst then Some (dstr_free dst)
      else let end_pos = idx + count
        in if end_pos > ds_len dst then None
           else do {
             dst \<leftarrow> (if end_pos = ds_len dst then ds_poke dst idx [0]
                     else do { bs \<leftarrow> ds_peek dst end_pos (ds_len dst - end_pos + 1); ds_poke dst idx bs });
             Some (dst\<lparr>ds_len := ds_len dst - count\<rparr>) })"

subsection \<open>Replacing\<close>

text \<open>The three loops of \<open>dstr_replace\<close> walk the block with \<open>strstr\<close>; an empty \<open>find_str\<close> is found over and over.\<close>

definition overwrite_match :: "byte list \<Rightarrow> nat \<Rightarrow> nat \<Rightarrow> byte list \<Rightarrow> byte list option" where
  "overwrite_match a temp find_len replace = do {
     e \<leftarrow> c_string (drop (temp + find_len) a);
     if e \<noteq> [] then do {
       bs \<leftarrow> peek a (temp + find_len) (length e + 1);
       a \<leftarrow> poke a (temp + length replace) bs;
       if replace \<noteq> [] then poke a temp replace else Some a }
     else poke a temp (replace @ [0]) }"

partial_function (option) replace_loop ::
  "byte list \<Rightarrow> byte list \<Rightarrow> byte list \<Rightarrow> nat \<Rightarrow> nat \<Rightarrow> (byte list \<times> nat) option" where
  "replace_loop find_str replace a temp count = do {
     s \<leftarrow> c_string (drop temp a);
     case strstr s find_str of
       None \<Rightarrow> Some (a, count)
     | Some k \<Rightarrow> do {
         a \<leftarrow> overwrite_match a (temp + k) (length find_str) replace;
         replace_loop find_str replace a (temp + k + length replace) (count + 1) } }"

partial_function (option) count_loop :: "byte list \<Rightarrow> byte list \<Rightarrow> nat \<Rightarrow> nat \<Rightarrow> nat option" where
  "count_loop find_str a temp count = do {
     s \<leftarrow> c_string (drop temp a);
     case strstr s find_str of
       None \<Rightarrow> Some count
     | Some k \<Rightarrow> count_loop find_str a (temp + k + length find_str) (count + 1) }"

partial_function (option) same_size_loop :: "byte list \<Rightarrow> byte list \<Rightarrow> byte list \<Rightarrow> nat \<Rightarrow> byte list option" where
  "same_size_loop find_str replace a temp = do {
     s \<leftarrow> c_string (drop temp a);
     case strstr s find_str of
       None \<Rightarrow> Some a
     | Some k \<Rightarrow> do {
         a \<leftarrow> poke a (temp + k) replace;
         same_size_loop find_str replace a (temp + k + length replace) } }"

definition dstr_replace :: "(nat \<Rightarrow> byte) \<Rightarrow> dstr \<Rightarrow> byte list \<Rightarrow> byte list option \<Rightarrow> dstr option" where
  "dstr_replace fresh str find_str rep =
     (if dstr_is_empty str then Some str
      else
        let replace = (case rep of None \<Rightarrow> [] | Some r \<Rightarrow> r)
        in do {
          a \<leftarrow> ds_array str;
          if length replace < length find_str then do {
            (a, count) \<leftarrow> replace_loop find_str replace a 0 0;
            Some (str\<lparr>ds_array := Some a, ds_len := ds_len str - (length find_str - length replace) * count\<rparr>) }
          else if length replace > length find_str then do {
            count \<leftarrow> count_loop find_str a 0 0;
            if count = 0 then Some str
            else
              let n = ds_len str + (length replace - length find_str) * count;
                  str = dstr_ensure_capacity fresh (str\<lparr>ds_len := n\<rparr>) (n + 1)
              in do {
                a \<leftarrow> ds_array str;
                (a, _) \<leftarrow> replace_loop find_str replace a 0 0;
                Some (str\<lparr>ds_array := Some a\<rparr>) } }
          else do {
            a \<leftarrow> same_size_loop find_str replace a 0;
            Some (str\<lparr>ds_array := Some a\<rparr>) } })"

definition dstr_safe_printf :: "(nat \<Rightarrow> byte) \<Rightarrow> dstr \<Rightarrow> byte list option \<Rightarrow> byte list option \<Rightarrow> byte list option \<Rightarrow>
    byte list option \<Rightarrow> byte list option \<Rightarrow> dstr option" where
  "dstr_safe_printf fresh dst format val1 val2 val3 val4 = do {
     dst \<leftarrow> dstr_copy fresh dst format;
     dst \<leftarrow> (if val1 \<noteq> None then dstr_replace fresh dst [36, 49] val1 else Some dst);
     dst \<leftarrow> (if val2 \<noteq> None then dstr_replace fresh dst [36, 50] val2 else Some dst);
     dst \<leftarrow> (if val3 \<noteq> None then dstr_replace fresh dst [36, 51] val3 else Some dst);
     (if val4 \<noteq> None then dstr_replace fresh dst [36, 52] val4 else Some dst) }"

subsection \<open>Stripping and slicing\<close>

definition is_pad :: "byte \<Rightarrow> bool" where
  "is_pad c \<longleftrightarrow> c = 32 \<or> c = 9"

text \<open>The last loop walks down from \<open>str + (len - 1)\<close> and is not stopped by the start of the block.\<close>

fun trim_loop :: "byte list \<Rightarrow> nat \<Rightarrow> byte list option" where
  "trim_loop a temp = do {
     c \<leftarrow> rd a temp;
     if is_pad c then (if temp = 0 then None else trim_loop (a[temp := 0]) (temp - 1)) else Some a }"

declare trim_loop.simps [simp del]

definition strdepad :: "byte list \<Rightarrow> byte list option" where
  "strdepad str = do {
     s \<leftarrow> c_string str;
     if s = [] then Some str
     else
       let temp = length (takeWhile is_pad s); len = length s
       in do {
         str \<leftarrow> (if temp \<noteq> 0 then do { bs \<leftarrow> peek str temp (len + 1); poke str 0 bs } else Some str);
         trim_loop str (len - 1) } }"

definition dstr_depad :: "dstr \<Rightarrow> dstr option" where
  "dstr_depad str =
     (case ds_array str of
        None \<Rightarrow> Some str
      | Some a \<Rightarrow> do {
          a \<leftarrow> strdepad a;
          s \<leftarrow> c_string a;
          if s \<noteq> [] then Some (str\<lparr>ds_array := Some a, ds_len := length s\<rparr>) else Some (dstr_free str) })"

text \<open>\<open>dstr_left\<close> may be called with the same string twice; then nothing is copied (\<open>None\<close>).\<close>

definition dstr_left :: "(nat \<Rightarrow> byte) \<Rightarrow> dstr \<Rightarrow> dstr option \<Rightarrow> nat \<Rightarrow> dstr option" where
  "dstr_left fresh dst str pos = do {
     dst \<leftarrow> dstr_resize fresh dst pos;
     (case str of
        None \<Rightarrow> Some dst
      | Some str \<Rightarrow> if pos = 0 then Some dst
          else do { bs \<leftarrow> ds_peek str 0 pos; ds_poke dst 0 bs }) }"

definition dstr_mid :: "(nat \<Rightarrow> byte) \<Rightarrow> dstr \<Rightarrow> dstr \<Rightarrow> nat \<Rightarrow> nat \<Rightarrow> dstr option" where
  "dstr_mid fresh dst str start count = do {
     temp \<leftarrow> dstr_copy_dstr fresh dstr_init str;
     dstr_ncopy dst (map_option (drop start) (ds_array temp)) count }"

definition dstr_right :: "(nat \<Rightarrow> byte) \<Rightarrow> dstr \<Rightarrow> dstr \<Rightarrow> nat \<Rightarrow> dstr option" where
  "dstr_right fresh dst str pos = do {
     temp \<leftarrow> dstr_ncopy dstr_init (map_option (drop pos) (ds_array str)) (ds_len str - pos);
     dstr_copy_dstr fresh dst temp }"

definition dstr_end :: "dstr \<Rightarrow> byte option" where
  "dstr_end str =
     (if dstr_is_empty str then Some 0 else do { a \<leftarrow> ds_array str; rd a (ds_len str - 1) })"


subsection \<open>The string a block holds\<close>

definition dstr_holds :: "dstr \<Rightarrow> byte list \<Rightarrow> bool" where
  "dstr_holds d s \<longleftrightarrow> 0 \<notin> set s \<and> ds_len d = length s \<and>
     (case ds_array d of
        None \<Rightarrow> s = [] \<and> ds_capacity d = 0
      | Some a \<Rightarrow> (\<exists>R. a = s @ 0 # R) \<and> ds_capacity d \<le> length a)"

lemma holds_init [simp]: "dstr_holds dstr_init []" "dstr_holds (dstr_free d) []"
  by (simp_all add: dstr_holds_def dstr_init_def dstr_free_def)

lemma dstr_holdsI:
  "ds_array d = Some (s @ 0 # R) \<Longrightarrow> ds_len d = length s \<Longrightarrow> ds_capacity d \<le> length s + 1 + length R \<Longrightarrow>
   0 \<notin> set s \<Longrightarrow> dstr_holds d s"
  by (simp add: dstr_holds_def)

text \<open>After \<open>dstr_ensure_capacity\<close> the text is in place, with room behind it.\<close>

lemma ensure_holds:
  assumes "dstr_holds d s" "length s \<le> n" "0 < n"
  obtains X where "ds_array (dstr_ensure_capacity fresh d n) = Some (s @ X)" "n \<le> length s + length X"
    "ds_capacity (dstr_ensure_capacity fresh d n) \<le> length s + length X"
    "ds_len (dstr_ensure_capacity fresh d n) = length s" "s \<noteq> [] \<Longrightarrow> length s < n \<Longrightarrow> \<exists>Y. X = 0 # Y"
proof (cases "n \<le> ds_capacity d")
  case True
  then obtain R where "ds_array d = Some (s @ 0 # R)" "ds_capacity d \<le> length s + 1 + length R" "ds_len d = length s"
    using assms(1,3) by (auto simp: dstr_holds_def split: option.splits)
  then show ?thesis using that [of "0 # R"] True by (simp add: dstr_ensure_capacity_def)
next
  case False
  define c where "c = (let new_cap = if ds_capacity d = 0 then n else ds_capacity d * 2 in if n > new_cap then n else new_cap)"
  have c: "n \<le> c" by (simp add: c_def Let_def)
  define block where "block = (case ds_array d of None \<Rightarrow> [] | Some a \<Rightarrow> a)"
  have e: "dstr_ensure_capacity fresh d n = d\<lparr>ds_array := Some (realloc fresh block c), ds_capacity := c\<rparr>"
    using False by (simp add: dstr_ensure_capacity_def c_def Let_def block_def)
  obtain R where R: "block = s @ R" "s \<noteq> [] \<longrightarrow> (\<exists>Y. R = 0 # Y)" "ds_len d = length s"
    using assms(1) by (auto simp: dstr_holds_def block_def split: option.splits)
  have r: "realloc fresh block c = s @ (take (c - length s) R @ map fresh [length block ..< c])"
    using assms(2) c by (simp add: realloc_def R(1))
  let ?X = "take (c - length s) R @ map fresh [length block ..< c]"
  have len: "length s + length ?X = c"
    using arg_cong [OF r, of length] by simp
  show ?thesis
  proof (rule that [of ?X])
    show "\<exists>Y. ?X = 0 # Y" if "s \<noteq> []" "length s < n" using that R(2) c by (cases "c - length s") auto
  qed (use e r len c R(3) in auto)
qed

lemma ds_poke_at: "ds_array d = Some (A @ X) \<Longrightarrow> length ys \<le> length X \<Longrightarrow> pos = length A \<Longrightarrow>
    ds_poke d pos ys = Some (d\<lparr>ds_array := Some (A @ ys @ drop (length ys) X)\<rparr>)"
  by (simp add: ds_poke_def poke_at)

lemma peek_prefix: "peek (xs @ ys) 0 (length xs) = Some xs"
  by (simp add: peek_def segment_def)

subsection \<open>Copying and appending\<close>

lemma ncat_holds:
  assumes "dstr_holds d s" "0 \<notin> set t" "t \<noteq> []"
  shows "\<exists>d'. dstr_ncat fresh d (Some (t @ rest)) (length t) = Some d' \<and> dstr_holds d' (s @ t)"
proof -
  have len: "ds_len d = length s" using assms(1) by (simp add: dstr_holds_def)
  obtain X where X: "ds_array (dstr_ensure_capacity fresh d (length s + length t + 1)) = Some (s @ X)"
    "length s + length t + 1 \<le> length s + length X"
    "ds_capacity (dstr_ensure_capacity fresh d (length s + length t + 1)) \<le> length s + length X"
    by (rule ensure_holds [OF assms(1), of "length s + length t + 1" fresh]) auto
  let ?e = "dstr_ensure_capacity fresh d (length s + length t + 1)"
  have p1: "ds_poke ?e (length s) t = Some (?e\<lparr>ds_array := Some (s @ t @ drop (length t) X)\<rparr>)"
    by (rule ds_poke_at [OF X(1)]) (use X(2) in auto)
  obtain y Y where Y: "drop (length t) X = y # Y" using X(2) by (cases "drop (length t) X") auto
  have p2: "ds_poke (?e\<lparr>ds_array := Some (s @ t @ drop (length t) X)\<rparr>) (length s + length t) [0] =
      Some (?e\<lparr>ds_array := Some ((s @ t) @ 0 # Y)\<rparr>)"
    using ds_poke_at [of "?e\<lparr>ds_array := Some (s @ t @ drop (length t) X)\<rparr>" "s @ t" "y # Y" "[0]"] Y by simp
  have "rd (t @ rest) 0 = Some (t ! 0)" "t ! 0 \<noteq> 0"
    using assms(2,3) by (auto simp: rd_def nth_append) (metis length_greater_0_conv nth_mem)
  then have "dstr_ncat fresh d (Some (t @ rest)) (length t) =
      Some (?e\<lparr>ds_array := Some ((s @ t) @ 0 # Y), ds_len := length s + length t\<rparr>)"
    using p1 p2 assms(3) by (simp add: dstr_ncat_def peek_prefix len Let_def)
  moreover have "length X = length t + 1 + length Y" using arg_cong [OF Y, of length] X(2) by simp
  then have "dstr_holds (?e\<lparr>ds_array := Some ((s @ t) @ 0 # Y), ds_len := length s + length t\<rparr>) (s @ t)"
    using assms X(3) by (intro dstr_holdsI [where R = Y]) (auto simp: dstr_holds_def)
  ultimately show ?thesis by blast
qed

lemma cat_holds:
  assumes "dstr_holds d s" "0 \<notin> set t"
  shows "\<exists>d'. dstr_cat fresh d (Some t) = Some d' \<and> dstr_holds d' (s @ t)"
  using ncat_holds [OF assms, of fresh "[0]"] assms by (auto simp: dstr_cat_def)

lemma copy_holds:
  assumes "dstr_holds d s" "0 \<notin> set t"
  shows "\<exists>d'. dstr_copy fresh d (Some t) = Some d' \<and> dstr_holds d' t"
proof (cases "t = []")
  case False
  let ?e = "dstr_ensure_capacity fresh d (length t + 1)"
  have "\<exists>a. ds_array ?e = Some a \<and> length t + 1 \<le> length a \<and> ds_capacity ?e \<le> length a"
    using assms(1) by (auto simp: dstr_ensure_capacity_def dstr_holds_def Let_def split: option.splits)
  then obtain a where a: "ds_array ?e = Some ([] @ a)" "length t + 1 \<le> length a" "ds_capacity ?e \<le> length a" by auto
  have "ds_poke ?e 0 (t @ [0]) = Some (?e\<lparr>ds_array := Some (t @ 0 # drop (length t + 1) a)\<rparr>)"
    using ds_poke_at [OF a(1), of "t @ [0]" 0] a(2) by simp
  moreover have "dstr_holds (?e\<lparr>ds_array := Some (t @ 0 # drop (length t + 1) a), ds_len := length t\<rparr>) t"
    using a assms(2) by (intro dstr_holdsI [where R = "drop (length t + 1) a"]) auto
  ultimately show ?thesis using False by (simp add: dstr_copy_def)
qed (simp add: dstr_copy_def)

lemma cat_ch_holds:
  assumes "dstr_holds d s" "ch \<noteq> 0"
  shows "\<exists>d'. dstr_cat_ch fresh d ch = Some d' \<and> dstr_holds d' (s @ [ch])"
proof -
  have len: "ds_len d = length s" using assms(1) by (simp add: dstr_holds_def)
  define e where "e = dstr_ensure_capacity fresh (d\<lparr>ds_len := length s + 1\<rparr>) (length s + 1 + 1)"
  have e': "e = (dstr_ensure_capacity fresh d (length s + 1 + 1))\<lparr>ds_len := length s + 1\<rparr>"
    by (auto simp: e_def dstr_ensure_capacity_def Let_def)
  obtain X where X: "ds_array e = Some (s @ X)" "length s + 2 \<le> length s + length X" "ds_capacity e \<le> length s + length X"
    using ensure_holds [OF assms(1), of "length s + 1 + 1" fresh] unfolding e' by auto
  then obtain x y Y where Y: "X = x # y # Y" by (cases X; cases "tl X") auto
  have p1: "ds_poke e (length s) [ch] = Some (e\<lparr>ds_array := Some (s @ ch # y # Y)\<rparr>)"
    using ds_poke_at [OF X(1), of "[ch]"] by (simp add: Y)
  have p2: "ds_poke (e\<lparr>ds_array := Some (s @ ch # y # Y)\<rparr>) (length s + 1) [0] = Some (e\<lparr>ds_array := Some ((s @ [ch]) @ 0 # Y)\<rparr>)"
    using ds_poke_at [of "e\<lparr>ds_array := Some (s @ ch # y # Y)\<rparr>" "s @ [ch]" "y # Y" "[0]"] by simp
  have "dstr_cat_ch fresh d ch = Some (e\<lparr>ds_array := Some ((s @ [ch]) @ 0 # Y)\<rparr>)"
    unfolding dstr_cat_ch_def Let_def len e_def [symmetric] using p1 p2 by simp
  moreover have "dstr_holds (e\<lparr>ds_array := Some ((s @ [ch]) @ 0 # Y)\<rparr>) (s @ [ch])"
    using assms X(3) by (intro dstr_holdsI [where R = Y]) (auto simp: dstr_holds_def Y e')
  ultimately show ?thesis by blast
qed


subsection \<open>Searching and replacing\<close>

lemma strstr_Some:
  "strstr s f = Some k \<Longrightarrow> k + length f \<le> length s \<and> take (length f) (drop k s) = f"
proof (induction s f arbitrary: k rule: strstr.induct)
  case (1 s f)
  show ?case
  proof (cases "take (length f) s = f")
    case True
    then have "length f \<le> length s" by (metis length_take min.cobounded1 min.absorb_iff2 nat_le_linear take_all_iff)
    then show ?thesis using 1(2) True by (subst (asm) strstr.simps) auto
  next
    case False
    then show ?thesis using 1 by (subst (asm) (2) strstr.simps) (auto split: list.splits)
  qed
qed

lemma strstr_less:
  assumes "strstr s f = Some k" "f \<noteq> []"
  shows "length s - (k + length f) < length s"
proof -
  have "0 < length f" "k + length f \<le> length s" using assms strstr_Some by auto
  then show ?thesis by linarith
qed

text \<open>The reference: every occurrence replaced, from left to right, not looking into what was put in.\<close>

function replace_all :: "byte list \<Rightarrow> byte list \<Rightarrow> byte list \<Rightarrow> byte list" where
  "replace_all f r s =
     (if f = [] then s
      else case strstr s f of None \<Rightarrow> s | Some k \<Rightarrow> take k s @ r @ replace_all f r (drop (k + length f) s))"
  by pat_completeness auto
termination
  by (relation "measure (\<lambda>(f, r, s). length s)") (auto intro: strstr_less)

function occurrences :: "byte list \<Rightarrow> byte list \<Rightarrow> nat" where
  "occurrences f s =
     (if f = [] then 0
      else case strstr s f of None \<Rightarrow> 0 | Some k \<Rightarrow> Suc (occurrences f (drop (k + length f) s)))"
  by pat_completeness auto
termination
  by (relation "measure (\<lambda>(f, s). length s)") (auto intro: strstr_less)

declare replace_all.simps [simp del] occurrences.simps [simp del]

lemma length_replace_all:
  "int (length (replace_all f r s)) = int (length s) + (int (length r) - int (length f)) * int (occurrences f s)"
proof (induction f r s rule: replace_all.induct)
  case (1 f r s)
  show ?case
  proof (cases "f = [] \<or> strstr s f = None")
    case True
    then show ?thesis by (subst replace_all.simps, subst occurrences.simps) auto
  next
    case False
    then obtain k where k: "f \<noteq> []" "strstr s f = Some k" by auto
    then show ?thesis
      using 1 [OF k] strstr_Some [OF k(2)]
      by (subst replace_all.simps, subst occurrences.simps) (simp add: algebra_simps)
  qed
qed

lemma zero_not_in_parts: "0 \<notin> set s \<Longrightarrow> 0 \<notin> set (take k s) \<and> 0 \<notin> set (drop k s)"
  by (meson in_set_dropD in_set_takeD)

lemma set_replace_all: "0 \<notin> set s \<Longrightarrow> 0 \<notin> set r \<Longrightarrow> 0 \<notin> set (replace_all f r s)"
proof (induction f r s rule: replace_all.induct)
  case (1 f r s)
  show ?case
    by (subst replace_all.simps) (use 1 zero_not_in_parts [OF 1(2)] in \<open>auto split: option.split\<close>)
qed

text \<open>One replacement inside the block: \<open>b\<close> before the match, \<open>e\<close> behind it.\<close>

lemma overwrite_match_block:
  assumes "0 \<notin> set e" "length r \<le> length f + length Y" "length b = temp"
  shows "\<exists>Y'. overwrite_match (b @ f @ e @ 0 # Y) temp (length f) r = Some (b @ r @ e @ 0 # Y') \<and>
    length Y' + length r = length Y + length f"
proof -
  let ?a = "b @ f @ e @ 0 # Y"
  have d: "drop (temp + length f) ?a = e @ 0 # Y" using assms(3) by simp
  show ?thesis
  proof (cases "e = []")
    case True
    let ?Y = "drop (length r + 1) (f @ 0 # Y)"
    have "poke (b @ (f @ 0 # Y)) temp (r @ [0]) = Some (b @ (r @ [0]) @ drop (length (r @ [0])) (f @ 0 # Y))"
      by (rule poke_at') (use assms in auto)
    then have "poke (b @ f @ 0 # Y) temp (r @ [0]) = Some (b @ r @ 0 # ?Y)" by simp
    then show ?thesis using True d assms(2) by (intro exI [of _ ?Y]) (simp add: overwrite_match_def)
  next
    case False
    let ?M = "e @ [0]"
    have pk: "peek ?a (temp + length f) (length e + 1) = Some ?M"
      using assms(3) by (simp add: peek_def segment_def)
    define Z where "Z = take (length r) (f @ ?M @ Y)"
    define W where "W = drop (length r) (f @ ?M @ Y)"
    have lZ: "length Z = length r" using assms(2) by (simp add: Z_def)
    have ZW: "f @ ?M @ Y = Z @ W" by (simp only: Z_def W_def append_take_drop_id)
    have lW: "length W = length f + length ?M + length Y - length r" by (simp add: W_def)
    have "?a = b @ (f @ ?M @ Y)" by simp
    also have "\<dots> = b @ (Z @ W)" by (rule arg_cong [OF ZW])
    finally have split: "?a = (b @ Z) @ W" by simp
    have p1: "poke ?a (temp + length r) ?M = Some ((b @ Z) @ ?M @ drop (length ?M) W)"
      unfolding split by (rule poke_at') (use assms lZ lW in auto)
    have p2: "poke (b @ (Z @ ?M @ drop (length ?M) W)) temp r = Some (b @ r @ drop (length r) (Z @ ?M @ drop (length ?M) W))"
      by (rule poke_at') (use assms lZ in auto)
    let ?Y = "drop (length ?M) W"
    have "overwrite_match ?a temp (length f) r = Some (b @ r @ e @ 0 # ?Y)"
    proof (cases "r = []")
      case True
      then show ?thesis using False d pk p1 lZ assms(1) by (simp add: overwrite_match_def)
    next
      case False
      then show ?thesis using \<open>e \<noteq> []\<close> d pk p1 p2 lZ assms(1) by (simp add: overwrite_match_def)
    qed
    moreover have "length ?Y + length r = length Y + length f" using assms(2) lW by auto
    ultimately show ?thesis by blast
  qed
qed

lemma c_string_at: "0 \<notin> set s \<Longrightarrow> length p = temp \<Longrightarrow> c_string (drop temp (p @ s @ 0 # Y)) = Some s"
  by simp

lemma match_parts:
  assumes "strstr s f = Some k"
  shows "s = take k s @ f @ drop (k + length f) s"
  using strstr_Some [OF assms] by (metis add.commute append_take_drop_id drop_drop)

lemma replace_loop_block:
  assumes "0 \<notin> set s" "f \<noteq> []" "length p = temp"
    and "length f < length r \<Longrightarrow> (length r - length f) * occurrences f s \<le> length Y"
  shows "\<exists>Y'. replace_loop f r (p @ s @ 0 # Y) temp count =
      Some (p @ replace_all f r s @ 0 # Y', count + occurrences f s) \<and>
    length Y' + length (replace_all f r s) = length Y + length s"
  using assms
proof (induction "length s" arbitrary: s p temp Y count rule: less_induct)
  case less
  show ?case
  proof (cases "strstr s f")
    case None
    have "replace_all f r s = s" "occurrences f s = 0"
      using None by (subst replace_all.simps occurrences.simps, simp)+
    moreover have "replace_loop f r (p @ s @ 0 # Y) temp count = Some (p @ s @ 0 # Y, count)"
      using c_string_at [OF less.prems(1,3)] None by (subst replace_loop.simps) simp
    ultimately show ?thesis by auto
  next
    case (Some k)
    let ?e = "drop (k + length f) s"
    note k = strstr_Some [OF Some]
    have e: "replace_all f r s = take k s @ r @ replace_all f r ?e" "occurrences f s = Suc (occurrences f ?e)"
      using Some less.prems(2) by (subst replace_all.simps occurrences.simps, simp)+
    have z: "0 \<notin> set ?e" "length ?e < length s"
      using zero_not_in_parts [OF less.prems(1)] strstr_less [OF Some less.prems(2)] by auto
    have room: "length r \<le> length f + length Y"
      using less.prems(4) by (cases "length f < length r") (auto simp: e(2))
    have block: "p @ s @ 0 # Y = (p @ take k s) @ f @ ?e @ 0 # Y"
      by (subst match_parts [OF Some]) simp
    obtain Y1 where Y1: "overwrite_match (p @ s @ 0 # Y) (temp + k) (length f) r = Some ((p @ take k s) @ r @ ?e @ 0 # Y1)"
      "length Y1 + length r = length Y + length f"
      using overwrite_match_block [OF z(1) room, of "p @ take k s" "temp + k"] less.prems(3) k unfolding block by auto
    have "\<exists>Y'. replace_loop f r ((p @ take k s @ r) @ ?e @ 0 # Y1) (temp + k + length r) (count + 1) =
        Some ((p @ take k s @ r) @ replace_all f r ?e @ 0 # Y', count + 1 + occurrences f ?e) \<and>
        length Y' + length (replace_all f r ?e) = length Y1 + length ?e"
    proof (rule less.hyps [OF z(2) z(1) less.prems(2)])
      show "length (p @ take k s @ r) = temp + k + length r" using less.prems(3) k by simp
      assume "length f < length r"
      then show "(length r - length f) * occurrences f ?e \<le> length Y1"
        using less.prems(4) Y1(2) by (simp add: e(2))
    qed
    then obtain Y' where Y': "replace_loop f r ((p @ take k s @ r) @ ?e @ 0 # Y1) (temp + k + length r) (count + 1) =
        Some ((p @ take k s @ r) @ replace_all f r ?e @ 0 # Y', count + 1 + occurrences f ?e)"
        "length Y' + length (replace_all f r ?e) = length Y1 + length ?e" by blast
    have "replace_loop f r (p @ s @ 0 # Y) temp count =
        replace_loop f r ((p @ take k s @ r) @ ?e @ 0 # Y1) (temp + k + length r) (count + 1)"
      using c_string_at [OF less.prems(1,3)] Some Y1(1) by (subst replace_loop.simps) simp
    then have "replace_loop f r (p @ s @ 0 # Y) temp count = Some (p @ replace_all f r s @ 0 # Y', count + occurrences f s)"
      using Y'(1) by (simp add: e)
    moreover have "length ?e + (k + length f) = length s" "length (take k s) = k" using k by simp_all
    then have "length Y' + length (replace_all f r s) = length Y + length s"
      using Y'(2) Y1(2) unfolding e(1) length_append by linarith
    ultimately show ?thesis by blast
  qed
qed

lemma count_loop_block:
  assumes "0 \<notin> set s" "f \<noteq> []" "length p = temp"
  shows "count_loop f (p @ s @ 0 # Y) temp count = Some (count + occurrences f s)"
  using assms
proof (induction "length s" arbitrary: s p temp count rule: less_induct)
  case less
  show ?case
  proof (cases "strstr s f")
    case None
    then show ?thesis
      using c_string_at [OF less.prems(1,3), of Y]
      by (subst count_loop.simps, subst occurrences.simps) simp
  next
    case (Some k)
    let ?e = "drop (k + length f) s"
    note k = strstr_Some [OF Some]
    have z: "0 \<notin> set ?e" "length ?e < length s"
      using zero_not_in_parts [OF less.prems(1)] strstr_less [OF Some less.prems(2)] by auto
    have block: "p @ s @ 0 # Y = (p @ take k s @ f) @ ?e @ 0 # Y"
      by (subst match_parts [OF Some]) simp
    have "count_loop f ((p @ take k s @ f) @ ?e @ 0 # Y) (temp + k + length f) (count + 1) =
        Some (count + 1 + occurrences f ?e)"
      by (rule less.hyps [OF z(2) z(1) less.prems(2)]) (use less.prems(3) k in simp)
    then have "count_loop f (p @ s @ 0 # Y) (temp + k + length f) (count + 1) = Some (count + 1 + occurrences f ?e)"
      by (simp only: block)
    then show ?thesis
      using c_string_at [OF less.prems(1,3), of Y] Some less.prems(2)
      by (subst count_loop.simps, subst occurrences.simps) simp
  qed
qed

lemma same_size_loop_block:
  assumes "0 \<notin> set s" "f \<noteq> []" "length p = temp" "length r = length f"
  shows "same_size_loop f r (p @ s @ 0 # Y) temp = Some (p @ replace_all f r s @ 0 # Y)"
  using assms
proof (induction "length s" arbitrary: s p temp rule: less_induct)
  case less
  show ?case
  proof (cases "strstr s f")
    case None
    then show ?thesis
      using c_string_at [OF less.prems(1,3), of Y]
      by (subst same_size_loop.simps, subst replace_all.simps) simp
  next
    case (Some k)
    let ?e = "drop (k + length f) s"
    note k = strstr_Some [OF Some]
    have z: "0 \<notin> set ?e" "length ?e < length s"
      using zero_not_in_parts [OF less.prems(1)] strstr_less [OF Some less.prems(2)] by auto
    have block: "p @ s @ 0 # Y = (p @ take k s) @ f @ ?e @ 0 # Y"
      by (subst match_parts [OF Some]) simp
    have "poke ((p @ take k s) @ (f @ ?e @ 0 # Y)) (temp + k) r =
        Some ((p @ take k s) @ r @ drop (length r) (f @ ?e @ 0 # Y))"
      by (rule poke_at') (use less.prems k in auto)
    then have poke: "poke (p @ s @ 0 # Y) (temp + k) r = Some ((p @ take k s @ r) @ ?e @ 0 # Y)"
      unfolding block using less.prems(4) by simp
    have "same_size_loop f r ((p @ take k s @ r) @ ?e @ 0 # Y) (temp + k + length r) =
        Some ((p @ take k s @ r) @ replace_all f r ?e @ 0 # Y)"
      by (rule less.hyps [OF z(2) z(1) less.prems(2)]) (use less.prems(3,4) k in simp_all)
    then show ?thesis
      using c_string_at [OF less.prems(1,3), of Y] Some less.prems(2) poke
      by (subst same_size_loop.simps, subst replace_all.simps) simp
  qed
qed


lemma not_empty_holds: "dstr_holds d s \<Longrightarrow> dstr_is_empty d \<longleftrightarrow> s = []"
  by (cases s) (auto simp: dstr_holds_def dstr_is_empty_def split: option.splits)

lemma replace_all_empty [simp]: "replace_all f r [] = []"
  by (subst replace_all.simps, subst strstr.simps) auto

lemma length_replace_shrink:
  assumes "length r < length f"
  shows "length (replace_all f r s) + (length f - length r) * occurrences f s = length s"
proof -
  have e: "int (length f - length r) = int (length f) - int (length r)" using assms by simp
  have "int (length (replace_all f r s) + (length f - length r) * occurrences f s) = int (length s)"
    unfolding of_nat_add of_nat_mult length_replace_all e by (simp add: algebra_simps)
  then show ?thesis by (simp only: of_nat_eq_iff)
qed

lemma length_replace_grow:
  assumes "length f \<le> length r"
  shows "length (replace_all f r s) = length s + (length r - length f) * occurrences f s"
proof -
  have "int (length r - length f) = int (length r) - int (length f)" using assms by simp
  then have "int (length (replace_all f r s)) = int (length s + (length r - length f) * occurrences f s)"
    unfolding of_nat_add of_nat_mult length_replace_all by (simp only:)
  then show ?thesis by (simp only: of_nat_eq_iff)
qed

lemma replace_holds:
  assumes h: "dstr_holds d s" and f: "f \<noteq> []" and r: "0 \<notin> set r"
  shows "\<exists>d'. dstr_replace fresh d f (Some r) = Some d' \<and> dstr_holds d' (replace_all f r s)"
proof (cases "s = []")
  case True
  then show ?thesis using h not_empty_holds [OF h] by (simp add: dstr_replace_def)
next
  case False
  obtain Y where a: "ds_array d = Some (s @ 0 # Y)" and cap: "ds_capacity d \<le> length s + 1 + length Y"
    and len: "ds_len d = length s" and z: "0 \<notin> set s"
    using h False by (auto simp: dstr_holds_def split: option.splits)
  note z' = set_replace_all [OF z r, of f]
  have nonempty: "\<not> dstr_is_empty d" using not_empty_holds [OF h] False by simp
  consider "length r < length f" | "length f < length r" | "length r = length f" by linarith
  then show ?thesis
  proof cases
    case 1
    obtain Y' where Y': "replace_loop f r (s @ 0 # Y) 0 0 = Some (replace_all f r s @ 0 # Y', occurrences f s)"
      "length Y' + length (replace_all f r s) = length Y + length s"
      using replace_loop_block [OF z f, of "[]" 0 r Y 0] 1 by auto
    have n: "ds_len d - (length f - length r) * occurrences f s = length (replace_all f r s)"
      using len length_replace_shrink [OF 1, of s] by linarith
    show ?thesis
      using 1 nonempty a Y' cap z' by (auto simp: dstr_replace_def n intro!: dstr_holdsI)
  next
    case 2
    show ?thesis
    proof (cases "occurrences f s = 0")
      case True
      have "count_loop f (s @ 0 # Y) 0 0 = Some 0" using count_loop_block [OF z f, of "[]" 0 Y 0] True by simp
      moreover have "strstr s f = None" using True f by (subst (asm) occurrences.simps) (auto split: option.splits)
      then have "replace_all f r s = s" by (subst replace_all.simps) simp
      ultimately show ?thesis using 2 nonempty a h by (simp add: dstr_replace_def)
    next
      case some: False
      define n where "n = length s + (length r - length f) * occurrences f s"
      have n: "length (replace_all f r s) = n"
        using length_replace_grow [of f r s] 2 by (simp add: n_def)
      have count: "count_loop f (s @ 0 # Y) 0 0 = Some (occurrences f s)"
        using count_loop_block [OF z f, of "[]" 0 Y 0] by simp
      define e where "e = dstr_ensure_capacity fresh (d\<lparr>ds_len := n\<rparr>) (n + 1)"
      have e': "e = (dstr_ensure_capacity fresh d (n + 1))\<lparr>ds_len := n\<rparr>"
        by (auto simp: e_def dstr_ensure_capacity_def Let_def)
      obtain X where X: "ds_array e = Some (s @ X)" "n + 1 \<le> length s + length X" "ds_capacity e \<le> length s + length X"
          "\<exists>Y. X = 0 # Y"
        by (rule ensure_holds [OF h, of "n + 1" fresh]) (use False in \<open>auto simp: e' n_def\<close>)
      then obtain Z where Z: "X = 0 # Z" by blast
      have "(length r - length f) * occurrences f s \<le> length Z" using X(2) Z by (simp add: n_def)
      then obtain Y' where Y': "replace_loop f r (s @ 0 # Z) 0 0 = Some (replace_all f r s @ 0 # Y', occurrences f s)"
        "length Y' + length (replace_all f r s) = length Z + length s"
        using replace_loop_block [OF z f, of "[]" 0 r Z 0] by auto
      have "dstr_replace fresh d f (Some r) = Some (e\<lparr>ds_array := Some (replace_all f r s @ 0 # Y')\<rparr>)"
        using 2 nonempty a count some X(1) Z Y'(1) e_def
        by (simp add: dstr_replace_def Let_def len n_def)
      moreover have "dstr_holds (e\<lparr>ds_array := Some (replace_all f r s @ 0 # Y')\<rparr>) (replace_all f r s)"
        by (rule dstr_holdsI [where R = Y']) (use Y'(2) X(3) Z n z' in \<open>auto simp: e'\<close>)
      ultimately show ?thesis by blast
    qed
  next
    case 3
    have "same_size_loop f r (s @ 0 # Y) 0 = Some (replace_all f r s @ 0 # Y)"
      using same_size_loop_block [OF z f, of "[]" 0 r Y] 3 by simp
    moreover have "length (replace_all f r s) = length s" using length_replace_grow [of f r s] 3 by simp
    ultimately show ?thesis
      using 3 nonempty a cap len z' by (auto simp: dstr_replace_def intro!: dstr_holdsI)
  qed
qed

text \<open>Replacing a single character replaces every one of them.\<close>

lemma strstr_absent: "c \<notin> set s \<Longrightarrow> strstr s [c] = None"
proof (induction s)
  case Nil
  then show ?case by (subst strstr.simps) simp
next
  case (Cons x s)
  then show ?case by (subst strstr.simps) auto
qed

lemma strstr_present: "c \<notin> set xs \<Longrightarrow> strstr (xs @ c # ys) [c] = Some (length xs)"
proof (induction xs)
  case Nil
  then show ?case by (subst strstr.simps) simp
next
  case (Cons x xs)
  then show ?case by (subst strstr.simps) auto
qed

lemma replace_single: "replace_all [c] r s = concat (map (\<lambda>x. if x = c then r else [x]) s)"
proof (induction "length s" arbitrary: s rule: less_induct)
  case less
  have keep: "concat (map (\<lambda>x. if x = c then r else [x]) xs) = xs" if "c \<notin> set xs" for xs
    using that by (induction xs) auto
  show ?case
  proof (cases "c \<in> set s")
    case True
    then obtain xs ys where s: "s = xs @ c # ys" "c \<notin> set xs" by (meson split_list_first)
    have "replace_all [c] r s = xs @ r @ replace_all [c] r ys"
      by (subst replace_all.simps) (simp add: s(1) strstr_present [OF s(2)])
    then show ?thesis using less [of ys] keep [OF s(2)] by (simp add: s(1))
  next
    case False
    then show ?thesis using keep [OF False] by (subst replace_all.simps) (simp add: strstr_absent)
  qed
qed

subsection \<open>The other operations\<close>

lemma holds_block: "dstr_holds d s \<Longrightarrow> ds_array d = Some a \<Longrightarrow> \<exists>R. a = s @ 0 # R"
  by (simp add: dstr_holds_def)

lemma ds_peek_prefix: "dstr_holds d s \<Longrightarrow> s \<noteq> [] \<Longrightarrow> ds_peek d 0 (length s + 1) = Some (s @ [0])"
  by (auto simp: dstr_holds_def ds_peek_def peek_def segment_def split: option.splits)

lemma cat_dstr_holds:
  assumes "dstr_holds d s" "dstr_holds e t"
  shows "\<exists>d'. dstr_cat_dstr fresh d e = Some d' \<and> dstr_holds d' (s @ t)"
proof (cases "t = []")
  case True
  then show ?thesis using assms by (simp add: dstr_cat_dstr_def dstr_holds_def)
next
  case False
  have len: "ds_len d = length s" "ds_len e = length t" using assms by (simp_all add: dstr_holds_def)
  let ?n = "length s + length t + 1"
  obtain X where X: "ds_array (dstr_ensure_capacity fresh d ?n) = Some (s @ X)" "?n \<le> length s + length X"
    "ds_capacity (dstr_ensure_capacity fresh d ?n) \<le> length s + length X"
    by (rule ensure_holds [OF assms(1), of ?n fresh]) auto
  have p: "ds_poke (dstr_ensure_capacity fresh d ?n) (length s) (t @ [0]) =
      Some ((dstr_ensure_capacity fresh d ?n)\<lparr>ds_array := Some (s @ (t @ [0]) @ drop (length (t @ [0])) X)\<rparr>)"
    by (rule ds_poke_at [OF X(1)]) (use X(2) in auto)
  let ?d = "(dstr_ensure_capacity fresh d ?n)\<lparr>ds_array := Some ((s @ t) @ 0 # drop (length t + 1) X), ds_len := length s + length t\<rparr>"
  have "dstr_cat_dstr fresh d e = Some ?d"
    using p ds_peek_prefix [OF assms(2) False] False by (simp add: dstr_cat_dstr_def Let_def len)
  moreover have "dstr_holds ?d (s @ t)"
    by (rule dstr_holdsI [where R = "drop (length t + 1) X"]) (use assms X(2,3) in \<open>auto simp: dstr_holds_def\<close>)
  ultimately show ?thesis by blast
qed

lemma remove_holds:
  assumes "dstr_holds d s" "idx + n \<le> length s"
  shows "\<exists>d'. dstr_remove d idx n = Some d' \<and> dstr_holds d' (take idx s @ drop (idx + n) s)"
proof -
  have len: "ds_len d = length s" and z: "0 \<notin> set s" using assms(1) by (simp_all add: dstr_holds_def)
  consider "n = 0" | "0 < n" "n = length s" | "0 < n" "n \<noteq> length s" by blast
  then show ?thesis
  proof cases
    case 1
    then show ?thesis using assms(1) by (simp add: dstr_remove_def)
  next
    case 2
    then show ?thesis using assms(2) by (simp add: dstr_remove_def len)
  next
    case 3
    then obtain R where a: "ds_array d = Some (s @ 0 # R)" and cap: "ds_capacity d \<le> length s + 1 + length R"
      using assms by (auto simp: dstr_holds_def split: option.splits)
    let ?M = "drop (idx + n) s @ [0]"
    have split: "s @ 0 # R = take idx s @ (drop idx s @ 0 # R)" by (simp add: append_assoc [symmetric])
    have p: "ds_poke d idx ?M = Some (d\<lparr>ds_array := Some (take idx s @ ?M @ drop (length ?M) (drop idx s @ 0 # R))\<rparr>)"
      by (rule ds_poke_at [OF a [unfolded split]]) (use assms(2) in auto)
    have pk: "ds_peek d (idx + n) (length s - (idx + n) + 1) = Some ?M"
      using assms(2) by (simp add: ds_peek_def a peek_def segment_def)
    let ?R = "drop (length ?M) (drop idx s @ 0 # R)"
    let ?d = "d\<lparr>ds_array := Some ((take idx s @ drop (idx + n) s) @ 0 # ?R), ds_len := length s - n\<rparr>"
    have "dstr_remove d idx n = Some ?d"
    proof (cases "idx + n = length s")
      case True
      then show ?thesis using 3 p len by (simp add: dstr_remove_def Let_def)
    next
      case False
      then show ?thesis using 3 p pk len assms(2) by (simp add: dstr_remove_def Let_def)
    qed
    moreover have "dstr_holds ?d (take idx s @ drop (idx + n) s)"
      by (rule dstr_holdsI [where R = ?R]) (use assms(2) cap zero_not_in_parts [OF z] in auto)
    ultimately show ?thesis by blast
  qed
qed

lemma resize_holds:
  assumes "dstr_holds d s" "n \<le> length s"
  shows "\<exists>d'. dstr_resize fresh d n = Some d' \<and> dstr_holds d' (take n s)"
proof (cases "n = 0")
  case False
  let ?e = "dstr_ensure_capacity fresh d (n + 1)"
  obtain R where a: "ds_array d = Some (s @ 0 # R)" and cap: "ds_capacity d \<le> length s + 1 + length R"
    and z: "0 \<notin> set s"
    using assms False by (auto simp: dstr_holds_def split: option.splits)
  obtain X where X: "ds_array ?e = Some (take n s @ X)" "0 < length X" "ds_capacity ?e \<le> n + length X"
  proof (cases "n + 1 \<le> ds_capacity d")
    case True
    show ?thesis
      by (rule that [of "drop n s @ 0 # R"])
         (use True a cap assms(2) in \<open>auto simp: dstr_ensure_capacity_def append_assoc [symmetric] simp del: append_assoc\<close>)
  next
    case le: False
    define c where "c = (let new_cap = if ds_capacity d = 0 then n + 1 else ds_capacity d * 2 in if n + 1 > new_cap then n + 1 else new_cap)"
    have c: "n + 1 \<le> c" by (simp add: c_def Let_def)
    have e: "?e = d\<lparr>ds_array := Some (realloc fresh (s @ 0 # R) c), ds_capacity := c\<rparr>"
      using le a by (simp add: dstr_ensure_capacity_def c_def Let_def)
    have "take n (realloc fresh (s @ 0 # R) c) = take n s" using c assms(2) by simp
    then have "realloc fresh (s @ 0 # R) c = take n s @ drop n (realloc fresh (s @ 0 # R) c)"
      by (metis append_take_drop_id)
    then have "ds_array ?e = Some (take n s @ drop n (realloc fresh (s @ 0 # R) c))" unfolding e by simp
    moreover have "ds_capacity ?e = c" unfolding e by simp
    ultimately show ?thesis by (intro that [of "drop n (realloc fresh (s @ 0 # R) c)"]) (use c in simp_all)
  qed
  obtain x Y where Y: "X = x # Y" using X(2) by (cases X) auto
  have "ds_poke ?e n [0] = Some (?e\<lparr>ds_array := Some (take n s @ 0 # Y)\<rparr>)"
    using ds_poke_at [OF X(1), of "[0]" n] assms(2) Y by simp
  moreover have "dstr_holds (?e\<lparr>ds_array := Some (take n s @ 0 # Y), ds_len := n\<rparr>) (take n s)"
    by (rule dstr_holdsI [where R = Y]) (use assms(2) X(3) Y zero_not_in_parts [OF z] in auto)
  ultimately show ?thesis using False by (simp add: dstr_resize_def)
qed (simp add: dstr_resize_def)

lemma mid_holds:
  assumes "dstr_holds d s" "dstr_holds e t" "t \<noteq> []" "start + n \<le> length t"
  shows "\<exists>d'. dstr_mid fresh d e start n = Some d' \<and> dstr_holds d' (take n (drop start t))"
proof -
  obtain X where X: "ds_array (dstr_ensure_capacity fresh dstr_init (length t + 1)) = Some ([] @ X)"
      "length t + 1 \<le> length X"
    by (rule ensure_holds [OF holds_init(1), of "length t + 1" fresh]) auto
  have "ds_poke (dstr_ensure_capacity fresh dstr_init (length t + 1)) 0 (t @ [0]) =
      Some ((dstr_ensure_capacity fresh dstr_init (length t + 1))\<lparr>ds_array := Some ([] @ (t @ [0]) @ drop (length (t @ [0])) X)\<rparr>)"
    by (rule ds_poke_at [OF X(1)]) (use X(2) in auto)
  then obtain temp where temp: "dstr_copy_dstr fresh dstr_init e = Some temp"
      "ds_array temp = Some (t @ 0 # drop (length t + 1) X)"
    using ds_peek_prefix [OF assms(2,3)] assms(2)
    by (simp add: dstr_copy_dstr_def dstr_holds_def Let_def dstr_init_def)
  define d0 where "d0 = (if ds_array d \<noteq> None then dstr_free d else d)"
  have d0: "d0 = dstr_init" using assms(1) by (cases d) (auto simp: d0_def dstr_free_def dstr_init_def dstr_holds_def split: option.splits)
  have z: "0 \<notin> set t" using assms(2) by (simp add: dstr_holds_def)
  show ?thesis
  proof (cases "n = 0")
    case True
    then show ?thesis using temp unfolding dstr_mid_def dstr_ncopy_def Let_def d0_def [symmetric] by (simp add: d0)
  next
    case False
    define Z where "Z = drop (length t + 1) X"
    let ?b = "drop start t @ 0 # Z"
    have "n < length ?b" using assms(4) by simp
    then have "take (n + 1) ?b = take n ?b @ [?b ! n]" "n + 1 \<le> length ?b" by (simp_all only: take_Suc_conv_app_nth Suc_eq_plus1 [symmetric])
    moreover have "take n ?b = take n (drop start t)" using assms(4) by simp
    ultimately have "peek ?b 0 (n + 1) = Some (take n (drop start t) @ [?b ! n])"
      by (simp only: peek_def segment_def drop_0 add_0 if_True)
    moreover have "poke (take n (drop start t) @ [?b ! n]) n [0] = Some (take n (drop start t) @ [0])"
      using poke_at' [of "[0]" "[?b ! n]" n "take n (drop start t)"] assms(4) by simp
    moreover have "drop start (t @ 0 # drop (length t + 1) X) = ?b" using assms(4) False by (simp add: Z_def)
    ultimately have "dstr_mid fresh d e start n = Some (d0\<lparr>ds_array := Some (take n (drop start t) @ [0]), ds_len := n\<rparr>)"
      using temp False unfolding dstr_mid_def dstr_ncopy_def Let_def d0_def [symmetric] by simp
    moreover have "dstr_holds (d0\<lparr>ds_array := Some (take n (drop start t) @ [0]), ds_len := n\<rparr>) (take n (drop start t))"
      by (rule dstr_holdsI [where R = "[]"]) (use assms(4) z in \<open>auto simp: d0 dstr_init_def dest: in_set_takeD in_set_dropD\<close>)
    ultimately show ?thesis by blast
  qed
qed


subsection \<open>Comparing without case\<close>

lemma char_cmp_eq: "char_cmp a b = 0 \<longleftrightarrow> a = b"
  by (auto simp: char_cmp_def signed_word_eqI)

lemma toupper_zero [simp]: "toupper c = 0 \<longleftrightarrow> c = 0" "toupper 0 = 0"
proof -
  have "c - 32 \<noteq> 0" if "97 \<le> c" for c :: byte using that by (auto simp: word_le_nat_alt)
  then show "toupper c = 0 \<longleftrightarrow> c = 0" by (auto simp: toupper_def)
qed (simp add: toupper_def)

lemma astrcmpi_eq: "0 \<notin> set s \<Longrightarrow> 0 \<notin> set t \<Longrightarrow> astrcmpi s t = 0 \<longleftrightarrow> map toupper s = map toupper t"
  by (induction s t rule: astrcmpi.induct) (auto simp: char_cmp_eq)

lemma astrcmpi_n_eq: "0 \<notin> set s \<Longrightarrow> 0 \<notin> set t \<Longrightarrow>
    astrcmpi_n s t n = 0 \<longleftrightarrow> map toupper (take n s) = map toupper (take n t)"
  by (induction s t n rule: astrcmpi_n.induct) (auto simp: char_cmp_eq)

lemma astrcmp_n_eq: "0 \<notin> set s \<Longrightarrow> 0 \<notin> set t \<Longrightarrow> astrcmp_n s t n = 0 \<longleftrightarrow> take n s = take n t"
  by (induction s t n rule: astrcmp_n.induct) (auto simp: char_cmp_eq)

text \<open>Case-insensitive equality is an equivalence.\<close>

definition same_name :: "byte list \<Rightarrow> byte list \<Rightarrow> bool" where
  "same_name s t \<longleftrightarrow> map toupper s = map toupper t"

lemma same_name_equiv: "same_name s s" "same_name s t \<Longrightarrow> same_name t s" "same_name s t \<Longrightarrow> same_name t u \<Longrightarrow> same_name s u"
  by (simp_all add: same_name_def)

subsection \<open>Splitting a list\<close>

fun join :: "byte \<Rightarrow> byte list list \<Rightarrow> byte list" where
  "join c [] = []"
| "join c [s] = s"
| "join c (s # t # ss) = s @ c # join c (t # ss)"

lemma split_loop_nonempty: "split_loop c True cur s \<noteq> []"
  by (induction s arbitrary: cur) auto

lemma join_Cons: "ss \<noteq> [] \<Longrightarrow> join c (s # ss) = s @ c # join c ss"
  by (cases ss) auto

lemma join_split: "join c (split_loop c True cur s) = cur @ s"
  by (induction s arbitrary: cur) (auto simp: join_Cons split_loop_nonempty)

lemma split_parts: "c \<notin> set cur \<Longrightarrow> \<forall>t \<in> set (split_loop c include cur s). c \<notin> set t"
proof (induction s arbitrary: cur)
  case (Cons a s)
  show ?case
  proof (cases "a = c")
    case True
    then show ?thesis using Cons.IH [of "[]"] Cons.prems by (simp add: ball_Un)
  next
    case False
    then show ?thesis using Cons.IH [of "cur @ [a]"] Cons.prems by simp
  qed
qed simp

lemma split_filter: "split_loop c False cur s = filter (\<lambda>t. t \<noteq> []) (split_loop c True cur s)"
  by (induction s arbitrary: cur) auto

subsection \<open>Properties\<close>


definition sample_dstr :: dstr where
  "sample_dstr = \<lparr>ds_array = Some [97, 98, 97, 0], ds_len = 3, ds_capacity = 4\<rparr>"

lemma sample_dstr_holds: "dstr_holds sample_dstr [97, 98, 97]"
  by (simp add: sample_dstr_def dstr_holds_def)


text \<open>inserting before the end of a string writes beyond the block whenever the block has to grow to exactly the
  new size: the number of bytes to move is computed from the length after the insertion.\<close>

theorem dstr_insert_overflows:
  assumes "dstr_holds d s" "idx < length s" "t \<noteq> []" "ds_capacity d * 2 \<le> length s + length t + 1"
    and "ds_capacity d < length s + length t + 1"
  shows "dstr_insert fresh d idx (Some t) = None"
proof -
  define n where "n = length s + length t"
  have len: "ds_len d = length s" using assms(1) by (simp add: dstr_holds_def)
  define block where "block = (case ds_array d of None \<Rightarrow> [] | Some a \<Rightarrow> a)"
  have "(if n + 1 > (if ds_capacity d = 0 then n + 1 else ds_capacity d * 2) then n + 1
      else (if ds_capacity d = 0 then n + 1 else ds_capacity d * 2)) = n + 1"
    using assms(4) by (auto simp: n_def)
  then have e: "dstr_ensure_capacity fresh d (n + 1) =
      d\<lparr>ds_array := Some (realloc fresh block (n + 1)), ds_capacity := n + 1\<rparr>"
    using assms(5) unfolding dstr_ensure_capacity_def Let_def block_def n_def by simp
  have "open_gap ((dstr_ensure_capacity fresh d (n + 1))\<lparr>ds_len := n\<rparr>) idx (length t) = None"
    using assms(2,3) unfolding e
    by (auto simp: open_gap_def ds_peek_def peek_def ds_poke_def poke_def segment_def n_def split: Option.bind_splits)
  then show ?thesis
    using assms(2,3) by (simp add: dstr_insert_def Let_def len flip: n_def)
qed

theorem dstr_insert_overflows_witness: "dstr_insert (\<lambda>_. 7) sample_dstr 1 (Some [98, 98, 98, 98]) = None"
  using dstr_insert_overflows [OF sample_dstr_holds, of 1 "[98, 98, 98, 98]" "\<lambda>_. 7"] by (simp add: sample_dstr_def)

text \<open>Stripping reads beyond a block that just fits its text when the text begins with a blank, and in a longer block
  the blanks at the end of such a text stay; the part of a string behind its end dereferences \<open>NULL\<close>.\<close>

theorem dstr_edge_faults:
  "strdepad [32, 97, 0] = None \<and> strdepad [32, 97, 32, 0, 7] = Some [97, 32, 0, 7, 7] \<and>
   dstr_right (\<lambda>_. 7) dstr_init sample_dstr 3 = None"
  by (simp add: strdepad_def is_pad_def peek_def poke_def segment_def blit_def trim_loop.simps rd_def Let_def
      dstr_right_def dstr_ncopy_def dstr_init_def sample_dstr_def dstr_copy_dstr_def ds_peek_def dstr_ensure_capacity_def)

text \<open>\<open>strlist_split\<close> cuts a text at every separator: joining the parts gives the text back, no part holds a separator,
  and without empty parts it gives the same parts but the empty ones.\<close>

theorem strlist_split_parts:
  "join c (strlist_split (Some s) c True) = s \<and>
   list_all (\<lambda>t. c \<notin> set t) (strlist_split (Some s) c True) \<and>
   strlist_split (Some s) c False = filter (\<lambda>t. t \<noteq> []) (strlist_split (Some s) c True)"
  using join_split [of c "[]" s] split_parts [of c "[]" True s] split_filter [of c "[]" s]
  by (simp add: strlist_split_def list_all_iff)

end
