(* ===== verification/Lexer.thy ===== *)
theory Lexer
  imports Dstr
begin

text \<open>
  The base lexer (\<open>libobs/util/lexer.h\<close>, \<open>libobs/util/lexer.c\<close>). A text is a byte list without its
  terminator; a pointer into it is an offset, and reading at the end gives the terminator. A \<open>strref\<close>
  is an offset with a length that is a \<open>size_t\<close>, so that it can wrap.
\<close>

subsection \<open>Characters\<close>

definition is_whitespace :: "byte \<Rightarrow> bool" where
  "is_whitespace ch \<longleftrightarrow> ch = 32 \<or> ch = 13 \<or> ch = 9 \<or> ch = 10"

definition is_newline :: "byte \<Rightarrow> bool" where
  "is_newline ch \<longleftrightarrow> ch = 13 \<or> ch = 10"

definition is_space_or_tab :: "byte \<Rightarrow> bool" where
  "is_space_or_tab ch \<longleftrightarrow> ch = 32 \<or> ch = 9"

definition is_newline_pair :: "byte \<Rightarrow> byte \<Rightarrow> bool" where
  "is_newline_pair ch1 ch2 \<longleftrightarrow> ch1 = 13 \<and> ch2 = 10 \<or> ch1 = 10 \<and> ch2 = 13"

text \<open>The size of the newline a text begins with.\<close>

definition newline_size :: "byte list \<Rightarrow> nat" where
  "newline_size array =
     (if take 2 array = [13, 10] \<or> take 2 array = [10, 13] then 2
      else if take 1 array = [13] \<or> take 1 array = [10] then 1 else 0)"

definition char_at :: "byte list \<Rightarrow> nat \<Rightarrow> byte" where
  "char_at text i = (if i < length text then text ! i else 0)"

subsection \<open>References\<close>

record strref =
  ref_array :: "nat option"
  ref_len :: "64 word"

definition strref_clear :: strref where
  "strref_clear = \<lparr>ref_array = None, ref_len = 0\<rparr>"

definition strref_set :: "nat \<Rightarrow> nat \<Rightarrow> strref" where
  "strref_set array len = \<lparr>ref_array = Some array, ref_len = word_of_nat len\<rparr>"

definition strref_add :: "strref \<Rightarrow> strref \<Rightarrow> strref" where
  "strref_add dst t = (if ref_array dst = None then t else dst\<lparr>ref_len := ref_len dst + ref_len t\<rparr>)"

definition strref_is_empty :: "byte list \<Rightarrow> strref \<Rightarrow> bool" where
  "strref_is_empty text str \<longleftrightarrow>
     (case ref_array str of None \<Rightarrow> True | Some a \<Rightarrow> ref_len str = 0 \<or> char_at text a = 0)"

text \<open>The comparisons take the characters the first argument refers to; \<open>[]\<close> is an empty reference.\<close>

fun cmp_loop :: "(byte \<Rightarrow> byte) \<Rightarrow> byte list \<Rightarrow> byte list \<Rightarrow> int" where
  "cmp_loop f [] [] = 0"
| "cmp_loop f [] (d # ds) = char_cmp 0 (f d)"
| "cmp_loop f (c # cs) [] = char_cmp (f c) 0"
| "cmp_loop f (c # cs) (d # ds) = (if char_cmp (f c) (f d) \<noteq> 0 then char_cmp (f c) (f d) else cmp_loop f cs ds)"

definition strref_cmp :: "byte list \<Rightarrow> byte list \<Rightarrow> int" where
  "strref_cmp str1 str2 = (if str1 = [] then (if str2 = [] then 0 else -1) else cmp_loop id str1 str2)"

definition strref_cmpi :: "byte list \<Rightarrow> byte list \<Rightarrow> int" where
  "strref_cmpi str1 str2 = (if str1 = [] then (if str2 = [] then 0 else -1) else cmp_loop toupper str1 str2)"

definition strref_cmp_strref :: "byte list \<Rightarrow> byte list \<Rightarrow> int" where
  "strref_cmp_strref str1 str2 =
     (if str1 = [] then (if str2 = [] then 0 else -1) else if str2 = [] then -1 else cmp_loop id str1 str2)"

definition strref_cmpi_strref :: "byte list \<Rightarrow> byte list \<Rightarrow> int" where
  "strref_cmpi_strref str1 str2 =
     (if str1 = [] then (if str2 = [] then 0 else -1) else if str2 = [] then -1 else cmp_loop toupper str1 str2)"

subsection \<open>Numbers\<close>

definition is_digit_ch :: "byte \<Rightarrow> bool" where
  "is_digit_ch c \<longleftrightarrow> 48 \<le> c \<and> c \<le> 57"

text \<open>The loops check a character, go on to the next and count \<open>n\<close> down; they stop at the terminator or at zero.\<close>

fun int_loop :: "byte list \<Rightarrow> nat \<Rightarrow> bool" where
  "int_loop [] n = False"
| "int_loop (c # cs) n = (if \<not> is_digit_ch c then False else if cs = [] \<or> n = 1 then True else int_loop cs (n - 1))"

definition skip_sign :: "byte list \<Rightarrow> byte list" where
  "skip_sign str = (case str of [] \<Rightarrow> [] | c # cs \<Rightarrow> if c = 45 \<or> c = 43 then cs else str)"

definition valid_int_str :: "byte list option \<Rightarrow> nat \<Rightarrow> bool" where
  "valid_int_str str n =
     (case str of
        None \<Rightarrow> False
      | Some s \<Rightarrow> if s = [] then False else int_loop (skip_sign s) (if n = 0 then length s else n))"

text \<open>The flags are \<open>found_num\<close>, \<open>found_exp\<close> and \<open>found_dec\<close>.\<close>

fun float_loop :: "byte list \<Rightarrow> nat \<Rightarrow> bool \<Rightarrow> bool \<Rightarrow> bool \<Rightarrow> bool" where
  "float_loop [] n num exp dec = False"
| "float_loop (c # cs) n num exp dec =
     (let step = (if c = 46 then (if dec \<or> exp \<or> \<not> num then None else Some (num, exp, True))
                  else if c = 101 then (if exp \<or> \<not> num then None else Some (False, True, dec))
                  else if c = 45 \<or> c = 43 then (if \<not> exp \<or> \<not> num then None else Some (num, exp, dec))
                  else if \<not> is_digit_ch c then None
                  else Some (True, exp, dec))
      in case step of
           None \<Rightarrow> False
         | Some (num, exp, dec) \<Rightarrow> if cs = [] \<or> n = 1 then num else float_loop cs (n - 1) num exp dec)"

definition valid_float_str :: "byte list option \<Rightarrow> nat \<Rightarrow> bool" where
  "valid_float_str str n =
     (case str of
        None \<Rightarrow> False
      | Some s \<Rightarrow> if s = [] then False
          else float_loop (skip_sign s) (if n = 0 then length s else n) False False False)"

text \<open>\<open>printf\<close> of an unsigned number.\<close>

fun decimal :: "nat \<Rightarrow> byte list" where
  "decimal n = (if n < 10 then [word_of_nat (48 + n)] else decimal (n div 10) @ [word_of_nat (48 + n mod 10)])"

declare decimal.simps [simp del]

subsection \<open>Errors\<close>

definition LEX_ERROR :: int where "LEX_ERROR = 0"
definition LEX_WARNING :: int where "LEX_WARNING = 1"

record error_item =
  ei_error :: "byte list"
  ei_file :: "byte list"
  ei_row :: "32 word"
  ei_column :: "32 word"
  ei_level :: int

definition error_data_add :: "error_item list \<Rightarrow> byte list \<Rightarrow> 32 word \<Rightarrow> 32 word \<Rightarrow> byte list \<Rightarrow> int \<Rightarrow> error_item list" where
  "error_data_add errors file row column msg level =
     errors @ [\<lparr>ei_error = msg, ei_file = file, ei_row = row, ei_column = column, ei_level = level\<rparr>]"

fun error_data_buildstring :: "error_item list \<Rightarrow> byte list" where
  "error_data_buildstring [] = []"
| "error_data_buildstring (item # items) =
     ei_file item @ [32, 40] @ decimal (unat (ei_row item)) @ [44, 32] @ decimal (unat (ei_column item)) @ [41, 58, 32]
     @ ei_error item @ [10] @ error_data_buildstring items"

fun error_data_type_count :: "error_item list \<Rightarrow> int \<Rightarrow> nat" where
  "error_data_type_count [] ty = 0"
| "error_data_type_count (item # items) ty = (if ei_level item = ty then 1 else 0) + error_data_type_count items ty"

fun error_data_has_errors :: "error_item list \<Rightarrow> bool" where
  "error_data_has_errors [] = False"
| "error_data_has_errors (item # items) = (if ei_level item = LEX_ERROR then True else error_data_has_errors items)"

subsection \<open>Tokens\<close>

datatype base_token_type = BASETOKEN_NONE | BASETOKEN_ALPHA | BASETOKEN_DIGIT | BASETOKEN_WHITESPACE | BASETOKEN_OTHER

record base_token =
  bt_text :: strref
  bt_type :: base_token_type

record lexer =
  lx_text :: "byte list option"
  lx_offset :: nat

definition lexer_init :: lexer where
  "lexer_init = \<lparr>lx_text = None, lx_offset = 0\<rparr>"

text \<open>\<open>lexer_start\<close> copies the text, \<open>lexer_start_move\<close> takes it over.\<close>

definition lexer_start :: "byte list option \<Rightarrow> lexer" where
  "lexer_start text = \<lparr>lx_text = text, lx_offset = 0\<rparr>"

definition lexer_reset :: "lexer \<Rightarrow> lexer" where
  "lexer_reset lx = lx\<lparr>lx_offset := 0\<rparr>"

datatype ignore_whitespace = PARSE_WHITESPACE | IGNORE_WHITESPACE

definition get_char_token_type :: "byte \<Rightarrow> base_token_type" where
  "get_char_token_type ch =
     (if is_whitespace ch then BASETOKEN_WHITESPACE
      else if 48 \<le> ch \<and> ch \<le> 57 then BASETOKEN_DIGIT
      else if 97 \<le> ch \<and> ch \<le> 122 \<or> 65 \<le> ch \<and> ch \<le> 90 then BASETOKEN_ALPHA
      else BASETOKEN_OTHER)"

function token_loop :: "byte list \<Rightarrow> bool \<Rightarrow> base_token_type \<Rightarrow> nat option \<Rightarrow> nat \<Rightarrow> base_token_type \<times> nat option \<times> nat" where
  "token_loop text ignore_ws type token_start offset =
     (if offset < length text \<and> text ! offset \<noteq> 0 then
        let ch = text ! offset;
            new_type = get_char_token_type ch
        in if type = BASETOKEN_NONE then
             if new_type = BASETOKEN_WHITESPACE \<and> ignore_ws then token_loop text ignore_ws type token_start (offset + 1)
             else if new_type \<noteq> BASETOKEN_DIGIT \<and> new_type \<noteq> BASETOKEN_ALPHA then
               (new_type, Some offset,
                if is_newline ch \<and> is_newline_pair ch (char_at text (offset + 1)) then offset + 2 else offset + 1)
             else token_loop text ignore_ws new_type (Some offset) (offset + 1)
           else if type \<noteq> new_type then (type, token_start, offset)
           else token_loop text ignore_ws type token_start (offset + 1)
      else (type, token_start, offset))"
  by pat_completeness auto
termination by (relation "measure (\<lambda>(text, _, _, _, offset). length text - offset)") auto

declare token_loop.simps [simp del]

definition lexer_getbasetoken :: "lexer \<Rightarrow> ignore_whitespace \<Rightarrow> base_token option \<times> lexer" where
  "lexer_getbasetoken lx iws =
     (case lx_text lx of
        None \<Rightarrow> (None, lx)
      | Some text \<Rightarrow>
          (case token_loop text (iws = IGNORE_WHITESPACE) BASETOKEN_NONE None (lx_offset lx) of
             (type, token_start, offset) \<Rightarrow>
               (case token_start of
                  Some start \<Rightarrow>
                    if start < offset
                    then (Some \<lparr>bt_text = strref_set start (offset - start), bt_type = type\<rparr>, lx\<lparr>lx_offset := offset\<rparr>)
                    else (None, lx\<lparr>lx_offset := offset\<rparr>)
                | None \<Rightarrow> (None, lx\<lparr>lx_offset := offset\<rparr>))))"

text \<open>The row and column of an offset, counted from the start of the text.\<close>

function stroffset_loop :: "byte list \<Rightarrow> nat \<Rightarrow> nat \<Rightarrow> 32 word \<Rightarrow> 32 word \<Rightarrow> 32 word \<times> 32 word" where
  "stroffset_loop text pos str cur_row cur_col =
     (if pos < str then
        if is_newline (char_at text pos)
        then stroffset_loop text (pos + (newline_size (drop pos text) - 1) + 1) str (cur_row + 1) 1
        else stroffset_loop text (pos + 1) str cur_row (cur_col + 1)
      else (cur_row, cur_col))"
  by pat_completeness auto
termination by (relation "measure (\<lambda>(text, pos, str, _, _). str - pos)") auto

declare stroffset_loop.simps [simp del]

definition lexer_getstroffset :: "lexer \<Rightarrow> nat \<Rightarrow> (32 word \<times> 32 word) option" where
  "lexer_getstroffset lx str = map_option (\<lambda>text. stroffset_loop text 0 str 1 1) (lx_text lx)"


subsection \<open>What a token is\<close>

text \<open>The length of the token a text begins with: a run of letters or of digits, a newline pair, or one character.\<close>

definition run_type :: "base_token_type \<Rightarrow> bool" where
  "run_type ty \<longleftrightarrow> ty = BASETOKEN_DIGIT \<or> ty = BASETOKEN_ALPHA"

fun token_len :: "byte list \<Rightarrow> nat" where
  "token_len [] = 0"
| "token_len (c # cs) =
     (if run_type (get_char_token_type c)
      then Suc (length (takeWhile (\<lambda>x. get_char_token_type x = get_char_token_type c) cs))
      else if is_newline_pair c (case cs of [] \<Rightarrow> 0 | d # ds \<Rightarrow> d) then 2 else 1)"

lemma type_not_none [simp]: "get_char_token_type c \<noteq> BASETOKEN_NONE" "BASETOKEN_NONE \<noteq> get_char_token_type c"
  by (simp_all add: get_char_token_type_def)

lemma type_zero: "get_char_token_type 0 = BASETOKEN_OTHER"
  by (simp add: get_char_token_type_def is_whitespace_def)

lemma newline_pair_newline: "is_newline_pair c d \<Longrightarrow> is_newline c \<and> is_newline d \<and> d \<noteq> 0 \<and> c \<noteq> d"
  by (auto simp: is_newline_pair_def is_newline_def)

lemma newline_whitespace: "is_newline c \<Longrightarrow> is_whitespace c"
  by (auto simp: is_newline_def is_whitespace_def)

lemma whitespace_type: "get_char_token_type c = BASETOKEN_WHITESPACE \<longleftrightarrow> is_whitespace c"
  by (simp add: get_char_token_type_def)

lemma char_at_drop: "char_at text (i + Suc k) = (case drop (Suc (i + k)) text of [] \<Rightarrow> 0 | d # _ \<Rightarrow> d)"
  by (cases "Suc (i + k) < length text") (auto simp: char_at_def Cons_nth_drop_Suc [symmetric])

lemma token_run:
  assumes "run_type ty"
  shows "token_loop text ignore_ws ty st off =
    (ty, st, off + length (takeWhile (\<lambda>x. get_char_token_type x = ty) (drop off text)))"
proof (induction "length text - off" arbitrary: off)
  case 0
  then show ?case by (subst token_loop.simps) simp
next
  case (Suc k)
  then have d: "drop off text = text ! off # drop (Suc off) text" "off < length text" by (auto simp: Cons_nth_drop_Suc)
  have ty: "ty \<noteq> BASETOKEN_NONE" using assms by (auto simp: run_type_def)
  show ?case
  proof (cases "get_char_token_type (text ! off) = ty")
    case True
    then have "text ! off \<noteq> 0" using assms type_zero by (auto simp: run_type_def)
    then have "token_loop text ignore_ws ty st off = token_loop text ignore_ws ty st (Suc off)"
      using d(2) True ty by (subst token_loop.simps) (simp add: Let_def)
    then show ?thesis using Suc.hyps(1) [of "Suc off"] Suc.hyps(2) d True by simp
  next
    case False
    then show ?thesis using d ty by (subst token_loop.simps) (simp add: Let_def)
  qed
qed

lemma getbasetoken_token:
  assumes "drop off text = c # cs" "c \<noteq> 0"
  shows "lexer_getbasetoken \<lparr>lx_text = Some text, lx_offset = off\<rparr> PARSE_WHITESPACE =
    (Some \<lparr>bt_text = strref_set off (token_len (c # cs)), bt_type = get_char_token_type c\<rparr>,
     \<lparr>lx_text = Some text, lx_offset = off + token_len (c # cs)\<rparr>)"
proof -
  have off: "off < length text" using assms(1) by (cases "off < length text") auto
  have at: "text ! off = c" and cs: "drop (Suc off) text = cs"
    using assms(1) Cons_nth_drop_Suc [OF off] by simp_all
  have next_char: "char_at text (off + 1) = (case cs of [] \<Rightarrow> 0 | d # ds \<Rightarrow> d)"
    using char_at_drop [of "text" off 0] cs by simp
  have "token_loop text False BASETOKEN_NONE None off = (get_char_token_type c, Some off, off + token_len (c # cs))"
  proof (cases "run_type (get_char_token_type c)")
    case True
    then have "token_loop text False BASETOKEN_NONE None off = token_loop text False (get_char_token_type c) (Some off) (Suc off)"
      using off at assms(2) by (subst token_loop.simps) (auto simp: Let_def run_type_def)
    then show ?thesis using True by (simp add: token_run cs)
  next
    case False
    then show ?thesis
      using off at assms(2) next_char newline_pair_newline
      by (subst token_loop.simps) (auto simp: Let_def run_type_def)
  qed
  then show ?thesis using at off by (simp add: lexer_getbasetoken_def)
qed

lemma getbasetoken_end:
  "drop off text = [] \<Longrightarrow> lexer_getbasetoken \<lparr>lx_text = Some text, lx_offset = off\<rparr> PARSE_WHITESPACE =
    (None, \<lparr>lx_text = Some text, lx_offset = off\<rparr>)"
  by (simp add: lexer_getbasetoken_def token_loop.simps)

lemma token_len_bounds: "0 < token_len (c # cs)" "token_len (c # cs) \<le> Suc (length cs)"
  by (auto simp: length_takeWhile_le is_newline_pair_def split: list.splits)

text \<open>Every step of the lexer goes on, and stays in the text.\<close>

lemma token_loop_range:
  "token_loop text ig ty st off = (ty', st', off') \<Longrightarrow> off \<le> length text \<Longrightarrow> off \<le> off' \<and> off' \<le> length text"
proof (induction "text" ig ty st off rule: token_loop.induct)
  case (1 "text" ig ty st off)
  show ?case
  proof (cases "off < length text \<and> text ! off \<noteq> 0")
    case False
    then show ?thesis using 1 by (subst (asm) token_loop.simps) auto
  next
    case True
    let ?c = "text ! off"
    have pair: "is_newline_pair ?c (char_at text (off + 1)) \<Longrightarrow> off + 2 \<le> length text"
      by (auto dest!: newline_pair_newline simp: char_at_def split: if_splits)
    show ?thesis
      using 1(4,5) pair 1(1-3) [OF True refl refl] True
      by (subst (asm) token_loop.simps) (auto simp: Let_def split: if_splits)
  qed
qed

lemma getbasetoken_range:
  assumes "lexer_getbasetoken lx iws = (t, lx')" "lx_text lx = Some text" "lx_offset lx \<le> length text"
  shows "lx_text lx' = Some text \<and> lx_offset lx \<le> lx_offset lx' \<and> lx_offset lx' \<le> length text"
proof -
  obtain ty st off where e: "token_loop text (iws = IGNORE_WHITESPACE) BASETOKEN_NONE None (lx_offset lx) = (ty, st, off)"
    by (metis prod_cases3)
  from token_loop_range [OF e assms(3)] show ?thesis
    using assms(1,2) e by (auto simp: lexer_getbasetoken_def split: option.splits if_splits)
qed


subsection \<open>Number strings\<close>

lemma int_loop_all: "length s \<le> n \<Longrightarrow> int_loop s n \<longleftrightarrow> s \<noteq> [] \<and> (\<forall>c \<in> set s. is_digit_ch c)"
proof (induction s arbitrary: n)
  case (Cons c cs)
  show ?case
  proof (cases cs)
    case Nil
    then show ?thesis by simp
  next
    case (Cons d ds)
    then have "length cs \<le> n - 1" "n \<noteq> 1" "cs \<noteq> []" using Cons.prems by auto
    then show ?thesis using Cons.IH [of "n - 1"] by simp
  qed
qed simp

lemma int_loop_stop: "\<forall>d \<in> set ds. is_digit_ch d \<Longrightarrow> \<not> is_digit_ch c \<Longrightarrow> length ds < n \<Longrightarrow> \<not> int_loop (ds @ c # rest) n"
  by (induction ds arbitrary: n) auto

subsection \<open>Properties\<close>

text \<open>C40: the lexer cuts a text into tokens without gaps: at every offset inside the text there is a token that begins
  there, all its characters are of its type, a word or a number is as long as it can be, and
  everything else is one character or one newline pair.\<close>

theorem getbasetoken_partition:
  assumes "0 \<notin> set text" "off < length text"
  shows "\<exists>n. 0 < n \<and> off + n \<le> length text \<and>
    lexer_getbasetoken \<lparr>lx_text = Some text, lx_offset = off\<rparr> PARSE_WHITESPACE =
      (Some \<lparr>bt_text = strref_set off n, bt_type = get_char_token_type (text ! off)\<rparr>,
       \<lparr>lx_text = Some text, lx_offset = off + n\<rparr>) \<and>
    (\<forall>i < n. get_char_token_type (text ! (off + i)) = get_char_token_type (text ! off)) \<and>
    (if run_type (get_char_token_type (text ! off))
     then off + n = length text \<or> get_char_token_type (text ! (off + n)) \<noteq> get_char_token_type (text ! off)
     else n = 1 \<or> n = 2 \<and> is_newline_pair (text ! off) (text ! (off + 1)))"
proof -
  define c where "c = text ! off"
  define cs where "cs = drop (Suc off) text"
  have d: "drop off text = c # cs" using assms(2) by (simp add: c_def cs_def Cons_nth_drop_Suc)
  have "c \<noteq> 0" using assms by (metis c_def nth_mem)
  let ?n = "token_len (c # cs)" let ?ty = "get_char_token_type c"
  have len: "length text = off + Suc (length cs)" using assms(2) by (simp add: cs_def)
  have nth: "text ! (off + i) = (c # cs) ! i" for i using nth_drop [of off "text" i] assms(2) d by simp
  note b = token_len_bounds [of c cs]
  have same: "get_char_token_type ((c # cs) ! i) = ?ty" if "i < ?n" for i
  proof (cases "run_type ?ty")
    case True
    then show ?thesis using that nth_mem [of "i - 1" "takeWhile (\<lambda>x. get_char_token_type x = ?ty) cs"]
      by (cases i) (auto simp: takeWhile_nth dest: set_takeWhileD)
  next
    case False
    have pair_type: "get_char_token_type d = ?ty" if "is_newline_pair c d" for d
      using newline_pair_newline [OF that] newline_whitespace by (simp add: get_char_token_type_def)
    show ?thesis
    proof (cases i)
      case (Suc j)
      with that False obtain d ds where "j = 0" "cs = d # ds" "is_newline_pair c d"
        by (cases cs) (auto simp: is_newline_pair_def split: if_splits)
      then show ?thesis using pair_type Suc by simp
    qed simp
  qed
  have max: "if run_type ?ty then off + ?n = length text \<or> get_char_token_type ((c # cs) ! ?n) \<noteq> ?ty
     else ?n = 1 \<or> ?n = 2 \<and> is_newline_pair c ((c # cs) ! 1)"
  proof (cases "run_type ?ty")
    case True
    let ?k = "length (takeWhile (\<lambda>x. get_char_token_type x = ?ty) cs)"
    have "?k = length cs \<or> get_char_token_type (cs ! ?k) \<noteq> ?ty"
      using nth_length_takeWhile [of "\<lambda>x. get_char_token_type x = ?ty" cs] length_takeWhile_le [of "\<lambda>x. get_char_token_type x = ?ty" cs]
      by linarith
    then show ?thesis using True len by simp
  next
    case False
    then show ?thesis by (cases cs) (simp_all add: is_newline_pair_def)
  qed
  show ?thesis
    using getbasetoken_token [OF d \<open>c \<noteq> 0\<close>] b same max len
    by (intro exI [of _ ?n]) (simp only: nth flip: c_def, simp add: nth [of 1, simplified] del: token_len.simps)
qed

theorem getbasetoken_partition_witness:
  "\<exists>n. 0 < n \<and> fst (lexer_getbasetoken \<lparr>lx_text = Some [97, 98, 61], lx_offset = 0\<rparr> PARSE_WHITESPACE) =
    Some \<lparr>bt_text = strref_set 0 n, bt_type = get_char_token_type 97\<rparr>"
  using getbasetoken_partition [of "[97, 98, 61]" 0] by auto

text \<open>a whole string is taken for an integer exactly when it is an optional sign and at least one digit; but inside a
  longer text a signed integer is refused whenever something else than a digit follows, because the sign is
  not counted; and of the numbers with an exponent \<open>1e-5\<close> is refused and \<open>1e5-\<close> accepted.\<close>

theorem valid_number_strings:
  assumes "ds \<noteq> []" "\<forall>d \<in> set ds. is_digit_ch d" "\<not> is_digit_ch c" "c \<noteq> 0" "sign = 45 \<or> sign = 43"
  shows "(valid_int_str (Some s) 0 \<longleftrightarrow> skip_sign s \<noteq> [] \<and> (\<forall>d \<in> set (skip_sign s). is_digit_ch d)) \<and>
    valid_int_str (Some (sign # ds @ c # rest)) (length (sign # ds)) = False \<and>
    valid_float_str (Some [49, 101, 45, 53]) 0 = False \<and> valid_float_str (Some [49, 101, 53, 45]) 0 = True"
proof -
  have "length (skip_sign s) \<le> length s" by (auto simp: skip_sign_def split: list.splits)
  then have "valid_int_str (Some s) 0 \<longleftrightarrow> skip_sign s \<noteq> [] \<and> (\<forall>d \<in> set (skip_sign s). is_digit_ch d)"
    using int_loop_all [of "skip_sign s" "length s"] by (auto simp: valid_int_str_def skip_sign_def)
  moreover have "\<not> int_loop (ds @ c # rest) (length (sign # ds))"
    by (rule int_loop_stop [OF assms(2,3)]) simp
  then have "valid_int_str (Some (sign # ds @ c # rest)) (length (sign # ds)) = False"
    using assms(5) by (auto simp: valid_int_str_def skip_sign_def)
  moreover have "valid_float_str (Some [49, 101, 45, 53]) 0 = False" "valid_float_str (Some [49, 101, 53, 45]) 0 = True"
    by (simp_all add: valid_float_str_def skip_sign_def is_digit_ch_def)
  ultimately show ?thesis by blast
qed

theorem valid_number_strings_witness: "valid_int_str (Some [45, 49, 59]) (length [45 :: byte, 49]) = False"
proof -
  have "is_digit_ch 49" "\<not> is_digit_ch 59" by (simp_all add: is_digit_ch_def)
  then show ?thesis using valid_number_strings [of "[49]" 59 45 "[]" "[]"] by simp
qed

end
