(* ===== verification/Config_File.thy ===== *)
theory Config_File
  imports Lexer
begin

text \<open>
  Configuration files (\<open>libobs/util/config-file.c\<close>): sections of named values in memory, with a second
  layer of defaults, and the text form they are read from and written to. The parser works on the
  tokens of the base lexer and keeps references into the text; a reference that has run out of the
  text is followed as the code follows it, and \<open>None\<close> is an access outside the text. The file system is a map
  from paths to contents; \<open>fopen\<close> may be refused.
\<close>

record config_item =
  ci_name :: "byte list"
  ci_value :: "byte list"

record config_section =
  cs_name :: "byte list"
  cs_items :: "config_item list"

record config_data =
  cfg_file :: "byte list option"
  cfg_sections :: "config_section list"
  cfg_defaults :: "config_section list"

subsection \<open>Parsing\<close>

text \<open>What is left of the text, the measure of every parsing loop.\<close>

definition remaining :: "lexer \<Rightarrow> nat" where
  "remaining lx = (case lx_text lx of None \<Rightarrow> 0 | Some text \<Rightarrow> length text - lx_offset lx)"

lemma token_progress:
  assumes "lexer_getbasetoken lx PARSE_WHITESPACE = (Some t, lx')"
  shows "remaining lx' < remaining lx" "lx_text lx' = lx_text lx"
proof -
  obtain s where lx: "lx_text lx = Some s" using assms by (auto simp: lexer_getbasetoken_def split: option.splits)
  show "remaining lx' < remaining lx"
  proof (cases "lx_offset lx < length s \<and> s ! lx_offset lx \<noteq> 0")
    case True
    then obtain c cs where d: "drop (lx_offset lx) s = c # cs" "c \<noteq> 0" by (metis Cons_nth_drop_Suc)
    have "lx = \<lparr>lx_text = Some s, lx_offset = lx_offset lx\<rparr>" using lx by simp
    then have "lx' = \<lparr>lx_text = Some s, lx_offset = lx_offset lx + token_len (c # cs)\<rparr>"
      using getbasetoken_token [OF d] assms by (metis prod.inject)
    then show ?thesis
      using True token_len_bounds(1) [of c cs] by (simp add: remaining_def lx del: token_len.simps) linarith
  next
    case False
    then show ?thesis using assms lx by (auto simp: lexer_getbasetoken_def token_loop.simps)
  qed
  show "lx_text lx' = lx_text lx"
    using assms by (auto simp: lexer_getbasetoken_def split: option.splits prod.splits if_splits)
qed

definition token_char :: "lexer \<Rightarrow> base_token \<Rightarrow> byte" where
  "token_char lx t =
     (case (lx_text lx, ref_array (bt_text t)) of (Some text, Some a) \<Rightarrow> char_at text a | _ \<Rightarrow> 0)"

text \<open>The first loop of \<open>remove_ref_whitespace\<close> looks at the text only, not at the length that it counts down.\<close>

function skip_front :: "byte list \<Rightarrow> nat \<Rightarrow> 64 word \<Rightarrow> nat \<times> 64 word" where
  "skip_front text pos len =
     (if pos < length text \<and> is_whitespace (text ! pos) then skip_front text (pos + 1) (len - 1) else (pos, len))"
  by pat_completeness auto
termination by (relation "measure (\<lambda>(text, pos, _). length text - pos)") auto

function trim_back :: "byte list \<Rightarrow> nat \<Rightarrow> 64 word \<Rightarrow> 64 word option" where
  "trim_back text pos len =
     (if len = 0 then Some len
      else let i = unat (word_of_nat pos + len - 1)
        in if i \<le> length text
           then (if is_whitespace (char_at text i) then trim_back text pos (len - 1) else Some len)
           else None)"
  by pat_completeness auto
termination
  by (relation "measure (\<lambda>(_, _, len). unat len)") (auto simp: unat_sub unat_gt_0 word_le_nat_alt Suc_le_eq)

declare skip_front.simps [simp del] trim_back.simps [simp del]

definition remove_ref_whitespace :: "byte list \<Rightarrow> strref \<Rightarrow> strref option" where
  "remove_ref_whitespace text ref =
     (case ref_array ref of
        None \<Rightarrow> Some ref
      | Some a \<Rightarrow>
          (case skip_front text a (ref_len ref) of
             (pos, len) \<Rightarrow> map_option (\<lambda>len. \<lparr>ref_array = Some pos, ref_len = len\<rparr>) (trim_back text pos len)))"

text \<open>\<open>end_ch\<close> is zero for a value, which a newline ends.\<close>

function parse_string_loop :: "byte \<Rightarrow> lexer \<Rightarrow> strref \<Rightarrow> bool \<times> strref \<times> lexer" where
  "parse_string_loop end_ch lx ref =
     (case lexer_getbasetoken lx PARSE_WHITESPACE of
        (None, lx) \<Rightarrow> (end_ch \<noteq> 0, ref, lx)
      | (Some token, lx) \<Rightarrow>
          (let c = token_char lx token
           in if end_ch \<noteq> 0 then
                (if c = end_ch then (True, ref, lx)
                 else if is_newline c then (False, ref, lx)
                 else parse_string_loop end_ch lx (strref_add ref (bt_text token)))
              else
                (if is_newline c then (True, ref, lx)
                 else parse_string_loop end_ch lx (strref_add ref (bt_text token)))))"
  by pat_completeness auto
termination
  by (relation "measure (\<lambda>(_, lx, _). remaining lx)") (auto dest: token_progress(1) [OF sym])

declare parse_string_loop.simps [simp del]

definition config_parse_string :: "lexer \<Rightarrow> strref \<Rightarrow> byte \<Rightarrow> (bool \<times> strref \<times> lexer) option" where
  "config_parse_string lx ref end_ch =
     (case parse_string_loop end_ch lx ref of
        (success, ref, lx) \<Rightarrow> do {
          text \<leftarrow> lx_text lx;
          ref \<leftarrow> remove_ref_whitespace text ref;
          Some (success, ref, lx) })"

text \<open>\<open>unescape\<close> works in place, with a position to read and one to write.\<close>

definition unescape_char :: "byte list \<Rightarrow> nat \<Rightarrow> byte \<Rightarrow> (byte \<times> nat) option" where
  "unescape_char a read cur =
     (if cur = 92 then do {
        next_ch \<leftarrow> rd a (read + 1);
        Some (if next_ch = 92 then (cur, read + 1)
              else if next_ch = 114 then (13, read + 1)
              else if next_ch = 110 then (10, read + 1)
              else (cur, read)) }
      else Some (cur, read))"

function unescape_loop :: "byte list \<Rightarrow> nat \<Rightarrow> nat \<Rightarrow> byte list option" where
  "unescape_loop a read write =
     (case rd a read of
        None \<Rightarrow> None
      | Some cur \<Rightarrow>
          if cur = 0 then (if read \<noteq> write then poke a write [0] else Some a)
          else (case unescape_char a read cur of
                  None \<Rightarrow> None
                | Some (cur, read) \<Rightarrow>
                    (case (if read \<noteq> write then poke a write [cur] else Some a) of
                       None \<Rightarrow> None
                     | Some a \<Rightarrow> unescape_loop a (read + 1) (write + 1))))"
  by pat_completeness auto
termination
  by (relation "measure (\<lambda>(a, read, _). length a - read)")
     (auto simp: rd_def poke_def unescape_char_def length_blit split: if_splits Option.bind_splits)

declare unescape_loop.simps [simp del]

definition unescape :: "dstr \<Rightarrow> byte list option" where
  "unescape str = do { a \<leftarrow> ds_array str; a \<leftarrow> unescape_loop a 0 0; c_string a }"

text \<open>\<open>bstrdup_n\<close> of a reference, as the C string it makes.\<close>

definition dup_ref :: "byte list \<Rightarrow> strref \<Rightarrow> byte list option" where
  "dup_ref text ref = do {
     a \<leftarrow> ref_array ref;
     bs \<leftarrow> peek (drop a (text @ [0])) 0 (unat (ref_len ref) + 1);
     c_string (take (unat (ref_len ref)) bs @ [0]) }"

definition config_add_item :: "byte list \<Rightarrow> config_item list \<Rightarrow> strref \<Rightarrow> strref \<Rightarrow> config_item list option" where
  "config_add_item text items name value = do {
     item_value \<leftarrow> dstr_ncopy dstr_init (map_option (\<lambda>a. drop a (text @ [0])) (ref_array value)) (unat (ref_len value));
     v \<leftarrow> unescape item_value;
     n \<leftarrow> dup_ref text name;
     Some (items @ [\<lparr>ci_name = n, ci_value = v\<rparr>]) }"

text \<open>The loops over whitespace tokens and to the end of a line; \<open>None\<close> is the end of the text.\<close>

function skip_whitespace :: "base_token \<Rightarrow> lexer \<Rightarrow> base_token option \<times> lexer" where
  "skip_whitespace token lx =
     (if bt_type token = BASETOKEN_WHITESPACE then
        (case lexer_getbasetoken lx PARSE_WHITESPACE of
           (None, lx) \<Rightarrow> (None, lx)
         | (Some token, lx) \<Rightarrow> skip_whitespace token lx)
      else (Some token, lx))"
  by pat_completeness auto
termination
  by (relation "measure (\<lambda>(_, lx). remaining lx)") (auto dest: token_progress(1) [OF sym])

function skip_line :: "base_token \<Rightarrow> lexer \<Rightarrow> bool \<times> lexer" where
  "skip_line token lx =
     (if is_newline (token_char lx token) then (True, lx)
      else (case lexer_getbasetoken lx PARSE_WHITESPACE of
              (None, lx) \<Rightarrow> (False, lx)
            | (Some token, lx) \<Rightarrow> skip_line token lx))"
  by pat_completeness auto
termination
  by (relation "measure (\<lambda>(_, lx). remaining lx)") (auto dest: token_progress(1) [OF sym])

declare skip_whitespace.simps [simp del] skip_line.simps [simp del]


text \<open>The lexer never goes back: \<open>lx_le\<close>.\<close>

definition lx_le :: "lexer \<Rightarrow> lexer \<Rightarrow> bool" where
  "lx_le lx lx' \<longleftrightarrow> lx_text lx' = lx_text lx \<and> lx_offset lx \<le> lx_offset lx'"

lemma lx_le_refl [simp]: "lx_le lx lx"
  by (simp add: lx_le_def)

lemma lx_le_trans: "lx_le a b \<Longrightarrow> lx_le b c \<Longrightarrow> lx_le a c"
  by (auto simp: lx_le_def)

lemma lx_le_remaining: "lx_le lx lx' \<Longrightarrow> remaining lx' \<le> remaining lx"
  by (auto simp: lx_le_def remaining_def split: option.split)

lemma token_loop_mono: "off \<le> snd (snd (token_loop text ig ty st off))"
proof (induction "text" ig ty st off rule: token_loop.induct)
  case (1 "text" ig ty st off)
  show ?case
  proof (cases "off < length text \<and> text ! off \<noteq> 0")
    case False
    then show ?thesis by (subst token_loop.simps) auto
  next
    case True
    then show ?thesis using 1 [OF True refl refl] by (subst token_loop.simps) (auto simp: Let_def)
  qed
qed

lemma getbasetoken_le: "lexer_getbasetoken lx iws = (r, lx') \<Longrightarrow> lx_le lx lx'"
  using token_loop_mono [of "lx_offset lx" "the (lx_text lx)" "iws = IGNORE_WHITESPACE" BASETOKEN_NONE None]
  by (auto simp: lexer_getbasetoken_def lx_le_def split: option.splits prod.splits if_splits)

lemma getbasetoken_less:
  assumes "lexer_getbasetoken lx PARSE_WHITESPACE = (Some t, lx')"
  shows "lx_offset lx < lx_offset lx'"
  using token_progress [OF assms] by (auto simp: remaining_def split: option.splits)

lemma skip_whitespace_le: "skip_whitespace token lx = (t, lx') \<Longrightarrow> lx_le lx lx'"
proof (induction token lx arbitrary: t lx' rule: skip_whitespace.induct)
  case (1 token lx)
  obtain r lx1 where g: "lexer_getbasetoken lx PARSE_WHITESPACE = (r, lx1)" by fastforce
  show ?case
    using 1(2) g 1(1) [OF _ g [symmetric]] getbasetoken_le [OF g]
    by (subst (asm) skip_whitespace.simps) (auto intro: lx_le_trans split: if_splits option.splits)
qed

lemma skip_line_le: "skip_line token lx = (t, lx') \<Longrightarrow> lx_le lx lx'"
proof (induction token lx arbitrary: t lx' rule: skip_line.induct)
  case (1 token lx)
  obtain r lx1 where g: "lexer_getbasetoken lx PARSE_WHITESPACE = (r, lx1)" by fastforce
  show ?case
    using 1(2) g 1(1) [OF _ g [symmetric]] getbasetoken_le [OF g]
    by (subst (asm) skip_line.simps) (auto intro: lx_le_trans split: if_splits option.splits)
qed

lemma parse_string_loop_le: "parse_string_loop e lx ref = (ok, ref', lx') \<Longrightarrow> lx_le lx lx'"
proof (induction e lx ref arbitrary: ok ref' lx' rule: parse_string_loop.induct)
  case (1 e lx ref)
  obtain r lx1 where g: "lexer_getbasetoken lx PARSE_WHITESPACE = (r, lx1)" by fastforce
  show ?case
    using 1(3) g 1(1) [OF g [symmetric] _ refl] 1(2) [OF g [symmetric] _ refl] getbasetoken_le [OF g]
    by (subst (asm) parse_string_loop.simps) (auto simp: Let_def intro: lx_le_trans split: if_splits option.splits)
qed

lemma config_parse_string_le: "config_parse_string lx ref e = Some (ok, ref', lx') \<Longrightarrow> lx_le lx lx'"
  using parse_string_loop_le [of e lx ref]
  by (auto simp: config_parse_string_def split: Option.bind_splits prod.splits)

text \<open>One line of a section, from its first token on: the name up to the equals sign, the value up to the newline.
  A line without an equals sign and one without a value are left out.\<close>

definition section_line :: "config_item list \<Rightarrow> base_token \<Rightarrow> lexer \<Rightarrow> (config_item list \<times> lexer) option" where
  "section_line items token lx = do {
     (success, name, lx) \<leftarrow> config_parse_string lx (bt_text token) 61;
     if \<not> success then Some (items, lx)
     else do {
       (_, value, lx) \<leftarrow> config_parse_string lx strref_clear 0;
       text \<leftarrow> lx_text lx;
       if strref_is_empty text value then Some (items, lx)
       else do {
         items \<leftarrow> config_add_item text items name value;
         Some (items, lx) } } }"

lemma section_line_le: "section_line items token lx = Some (items', lx') \<Longrightarrow> lx_le lx lx'"
  by (auto simp: section_line_def split: Option.bind_splits if_splits
      dest!: config_parse_string_le) (blast intro: lx_le_trans)+

text \<open>The lines of a section, up to the bracket of the next one; the code steps back onto it.\<close>

function section_loop :: "config_item list \<Rightarrow> lexer \<Rightarrow> (config_item list \<times> lexer) option" where
  "section_loop items lx =
     (case lexer_getbasetoken lx PARSE_WHITESPACE of
        (None, lx) \<Rightarrow> Some (items, lx)
      | (Some token, lx) \<Rightarrow>
          (case skip_whitespace token lx of
             (None, lx) \<Rightarrow> Some (items, lx)
           | (Some token, lx) \<Rightarrow>
               if bt_type token = BASETOKEN_OTHER \<and> token_char lx token = 35 then
                 (case skip_line token lx of
                    (False, lx) \<Rightarrow> Some (items, lx)
                  | (True, lx) \<Rightarrow> section_loop items lx)
               else if bt_type token = BASETOKEN_OTHER \<and> token_char lx token = 91 then
                 Some (items, lx\<lparr>lx_offset := lx_offset lx - 1\<rparr>)
               else
                 (case section_line items token lx of
                    None \<Rightarrow> None
                  | Some (items, lx) \<Rightarrow> section_loop items lx)))"
  by pat_completeness auto
termination
proof (relation "measure (\<lambda>(_, lx). remaining lx)", goal_cases)
  case 1
  then show ?case by simp
next
  case 2
  then show ?case
    by (auto dest!: token_progress(1) [OF sym] skip_whitespace_le [OF sym] skip_line_le [OF sym] lx_le_remaining)
next
  case 3
  then show ?case
    by (auto dest!: token_progress(1) [OF sym] skip_whitespace_le [OF sym] section_line_le lx_le_remaining)
qed

declare section_loop.simps [simp del]

lemma section_loop_le: "section_loop items lx = Some (items', lx') \<Longrightarrow> lx_le lx lx'"
proof (induction items lx arbitrary: items' lx' rule: section_loop.induct)
  case (1 items lx)
  obtain r lx1 where g: "lexer_getbasetoken lx PARSE_WHITESPACE = (r, lx1)" by fastforce
  show ?case
  proof (cases r)
    case None
    then show ?thesis using 1(3) g getbasetoken_le [OF g] by (subst (asm) section_loop.simps) auto
  next
    case (Some t)
    obtain r2 lx2 where s: "skip_whitespace t lx1 = (r2, lx2)" by fastforce
    have le: "lx_le lx lx2" "lx_offset lx < lx_offset lx2"
      using getbasetoken_le [OF g] skip_whitespace_le [OF s] getbasetoken_less [OF g [unfolded Some]]
      by (auto simp: lx_le_def)
    show ?thesis
    proof (cases r2)
      case None
      then show ?thesis using 1(3) g s \<open>r = Some t\<close> le(1) by (subst (asm) section_loop.simps) auto
    next
      case (Some t2)
      note ih = 1(1,2) [OF g [symmetric] \<open>r = Some t\<close> s [symmetric] Some]
      obtain ok lx3 where l: "skip_line t2 lx2 = (ok, lx3)" by fastforce
      consider (comment) "bt_type t2 = BASETOKEN_OTHER \<and> token_char lx2 t2 = 35"
        | (bracket) "bt_type t2 = BASETOKEN_OTHER \<and> token_char lx2 t2 = 91"
        | (line) "\<not> (bt_type t2 = BASETOKEN_OTHER \<and> (token_char lx2 t2 = 35 \<or> token_char lx2 t2 = 91))" by blast
      then show ?thesis
      proof cases
        case comment
        have "section_loop items lx = (if ok then section_loop items lx3 else Some (items, lx3))"
          using g s \<open>r = Some t\<close> Some comment l by (subst section_loop.simps) simp
        then show ?thesis
          using 1(3) ih(1) [OF comment l [symmetric]] lx_le_trans [OF le(1) skip_line_le [OF l]]
          by (cases ok) (simp_all, metis lx_le_trans)
      next
        case bracket
        then have "section_loop items lx = Some (items, lx2\<lparr>lx_offset := lx_offset lx2 - 1\<rparr>)"
          using g s \<open>r = Some t\<close> Some by (subst section_loop.simps) simp
        then show ?thesis using 1(3) le by (auto simp: lx_le_def)
      next
        case line
        then have "section_loop items lx = (case section_line items t2 lx2 of None \<Rightarrow> None | Some (items, lx) \<Rightarrow> section_loop items lx)"
          using g s \<open>r = Some t\<close> Some by (subst section_loop.simps) auto
        then obtain items1 lx3 where "section_line items t2 lx2 = Some (items1, lx3)" "section_loop items1 lx3 = Some (items', lx')"
          using 1(3) by (auto split: option.splits)
        moreover have "lx_le lx3 lx'"
          using ih(2) [OF _ _ calculation(1) refl calculation(2)] line by blast
        ultimately show ?thesis using le(1) section_line_le lx_le_trans by blast
      qed
    qed
  qed
qed

definition config_parse_section :: "lexer \<Rightarrow> (config_item list \<times> lexer) option" where
  "config_parse_section lx = section_loop [] lx"

function parse_config_data :: "config_section list \<Rightarrow> lexer \<Rightarrow> config_section list option" where
  "parse_config_data sections lx =
     (case lexer_getbasetoken lx PARSE_WHITESPACE of
        (None, lx) \<Rightarrow> Some sections
      | (Some token, lx) \<Rightarrow>
          (case skip_whitespace token lx of
             (None, lx) \<Rightarrow> Some sections
           | (Some token, lx) \<Rightarrow>
               if token_char lx token \<noteq> 91 then
                 (case skip_line token lx of
                    (False, lx) \<Rightarrow> Some sections
                  | (True, lx) \<Rightarrow> parse_config_data sections lx)
               else
                 (case config_parse_string lx strref_clear 93 of
                    None \<Rightarrow> None
                  | Some (_, section_name, lx) \<Rightarrow>
                      if ref_len section_name = 0 then Some sections
                      else
                        (case dup_ref (the (lx_text lx)) section_name of
                           None \<Rightarrow> None
                         | Some name \<Rightarrow>
                             (case config_parse_section lx of
                                None \<Rightarrow> None
                              | Some (items, lx) \<Rightarrow>
                                  parse_config_data (sections @ [\<lparr>cs_name = name, cs_items = items\<rparr>]) lx)))))"
  by pat_completeness auto
termination
proof (relation "measure (\<lambda>(_, lx). remaining lx)", goal_cases)
  case 1
  then show ?case by simp
next
  case 2
  then show ?case
    by (auto dest!: token_progress(1) [OF sym] skip_whitespace_le [OF sym] skip_line_le [OF sym] lx_le_remaining)
next
  case 3
  then show ?case
    by (auto simp: config_parse_section_def dest!: token_progress(1) [OF sym] skip_whitespace_le [OF sym] config_parse_string_le
        section_loop_le lx_le_remaining)
qed

declare parse_config_data.simps [simp del]


subsection \<open>Values in memory\<close>

definition config_num_sections :: "config_data \<Rightarrow> nat" where
  "config_num_sections config = length (cfg_sections config)"

definition config_get_section :: "config_data \<Rightarrow> nat \<Rightarrow> byte list option" where
  "config_get_section config idx =
     (if idx \<ge> length (cfg_sections config) then None else Some (cs_name (cfg_sections config ! idx)))"

fun find_item :: "config_item list \<Rightarrow> byte list \<Rightarrow> config_item option" where
  "find_item [] name = None"
| "find_item (item # items) name = (if astrcmpi (ci_name item) name = 0 then Some item else find_item items name)"

fun config_find_item :: "config_section list \<Rightarrow> byte list \<Rightarrow> byte list \<Rightarrow> config_item option" where
  "config_find_item [] section name = None"
| "config_find_item (sec # sections) section name =
     (if astrcmpi (cs_name sec) section = 0 then
        (case find_item (cs_items sec) name of
           Some item \<Rightarrow> Some item
         | None \<Rightarrow> config_find_item sections section name)
      else config_find_item sections section name)"

text \<open>The first section of the name is the one that is written to, and only that one.\<close>

fun set_item :: "config_item list \<Rightarrow> byte list \<Rightarrow> byte list \<Rightarrow> config_item list" where
  "set_item [] name value = [\<lparr>ci_name = name, ci_value = value\<rparr>]"
| "set_item (item # items) name value =
     (if astrcmpi (ci_name item) name = 0 then item\<lparr>ci_value := value\<rparr> # items else item # set_item items name value)"

fun config_set_item :: "config_section list \<Rightarrow> byte list \<Rightarrow> byte list \<Rightarrow> byte list \<Rightarrow> config_section list" where
  "config_set_item [] section name value =
     [\<lparr>cs_name = section, cs_items = [\<lparr>ci_name = name, ci_value = value\<rparr>]\<rparr>]"
| "config_set_item (sec # sections) section name value =
     (if astrcmpi (cs_name sec) section = 0 then sec\<lparr>cs_items := set_item (cs_items sec) name value\<rparr> # sections
      else sec # config_set_item sections section name value)"

definition printf_int :: "64 word \<Rightarrow> byte list" where
  "printf_int v = (if sint v < 0 then 45 # decimal (nat (- sint v)) else decimal (nat (sint v)))"

definition config_set_string :: "config_data \<Rightarrow> byte list \<Rightarrow> byte list \<Rightarrow> byte list option \<Rightarrow> config_data" where
  "config_set_string config section name value =
     config\<lparr>cfg_sections := config_set_item (cfg_sections config) section name (case value of None \<Rightarrow> [] | Some v \<Rightarrow> v)\<rparr>"

definition config_set_int :: "config_data \<Rightarrow> byte list \<Rightarrow> byte list \<Rightarrow> 64 word \<Rightarrow> config_data" where
  "config_set_int config section name value =
     config\<lparr>cfg_sections := config_set_item (cfg_sections config) section name (printf_int value)\<rparr>"

definition config_set_uint :: "config_data \<Rightarrow> byte list \<Rightarrow> byte list \<Rightarrow> 64 word \<Rightarrow> config_data" where
  "config_set_uint config section name value =
     config\<lparr>cfg_sections := config_set_item (cfg_sections config) section name (decimal (unat value))\<rparr>"

definition true_str :: "byte list" where "true_str = [116, 114, 117, 101]"
definition false_str :: "byte list" where "false_str = [102, 97, 108, 115, 101]"

definition config_set_bool :: "config_data \<Rightarrow> byte list \<Rightarrow> byte list \<Rightarrow> bool \<Rightarrow> config_data" where
  "config_set_bool config section name value =
     config\<lparr>cfg_sections := config_set_item (cfg_sections config) section name (if value then true_str else false_str)\<rparr>"

definition config_set_default_string :: "config_data \<Rightarrow> byte list \<Rightarrow> byte list \<Rightarrow> byte list option \<Rightarrow> config_data" where
  "config_set_default_string config section name value =
     config\<lparr>cfg_defaults := config_set_item (cfg_defaults config) section name (case value of None \<Rightarrow> [] | Some v \<Rightarrow> v)\<rparr>"

definition config_set_default_int :: "config_data \<Rightarrow> byte list \<Rightarrow> byte list \<Rightarrow> 64 word \<Rightarrow> config_data" where
  "config_set_default_int config section name value =
     config\<lparr>cfg_defaults := config_set_item (cfg_defaults config) section name (printf_int value)\<rparr>"

definition config_set_default_uint :: "config_data \<Rightarrow> byte list \<Rightarrow> byte list \<Rightarrow> 64 word \<Rightarrow> config_data" where
  "config_set_default_uint config section name value =
     config\<lparr>cfg_defaults := config_set_item (cfg_defaults config) section name (decimal (unat value))\<rparr>"

definition config_set_default_bool :: "config_data \<Rightarrow> byte list \<Rightarrow> byte list \<Rightarrow> bool \<Rightarrow> config_data" where
  "config_set_default_bool config section name value =
     config\<lparr>cfg_defaults := config_set_item (cfg_defaults config) section name (if value then true_str else false_str)\<rparr>"

definition config_get_string :: "config_data \<Rightarrow> byte list \<Rightarrow> byte list \<Rightarrow> byte list option" where
  "config_get_string config section name =
     (case config_find_item (cfg_sections config) section name of
        Some item \<Rightarrow> Some (ci_value item)
      | None \<Rightarrow> map_option ci_value (config_find_item (cfg_defaults config) section name))"

definition config_get_default_string :: "config_data \<Rightarrow> byte list \<Rightarrow> byte list \<Rightarrow> byte list option" where
  "config_get_default_string config section name =
     map_option ci_value (config_find_item (cfg_defaults config) section name)"

text \<open>\<open>strtoll\<close> and \<open>strtoull\<close> of the C library: blanks, a sign, digits of the base (after an optional \<open>0x\<close> in base 16);
  out of range gives the nearest value, and a minus sign wraps an unsigned number.\<close>

definition is_space_ch :: "byte \<Rightarrow> bool" where
  "is_space_ch c \<longleftrightarrow> c = 32 \<or> 9 \<le> c \<and> c \<le> 13"

definition digit_of :: "nat \<Rightarrow> byte \<Rightarrow> nat option" where
  "digit_of base c =
     (let v = (if 48 \<le> c \<and> c \<le> 57 then unat c - 48
               else if 97 \<le> c \<and> c \<le> 122 then unat c - 87
               else if 65 \<le> c \<and> c \<le> 90 then unat c - 55 else base)
      in if v < base then Some v else None)"

fun digits_value :: "nat \<Rightarrow> nat \<Rightarrow> byte list \<Rightarrow> nat" where
  "digits_value base acc [] = acc"
| "digits_value base acc (c # cs) =
     (case digit_of base c of None \<Rightarrow> acc | Some d \<Rightarrow> digits_value base (acc * base + d) cs)"

definition strip_prefix :: "nat \<Rightarrow> byte list \<Rightarrow> byte list" where
  "strip_prefix base s =
     (case s of
        (c # x # d # cs) \<Rightarrow>
          if base = 16 \<and> c = 48 \<and> (x = 120 \<or> x = 88) \<and> digit_of 16 d \<noteq> None then d # cs else s
      | _ \<Rightarrow> s)"

definition str_number :: "nat \<Rightarrow> byte list \<Rightarrow> bool \<times> nat" where
  "str_number base str =
     (let s = dropWhile is_space_ch str
      in case s of
           [] \<Rightarrow> (False, 0)
         | c # cs \<Rightarrow>
             if c = 45 then (True, digits_value base 0 (strip_prefix base cs))
             else if c = 43 then (False, digits_value base 0 (strip_prefix base cs))
             else (False, digits_value base 0 (strip_prefix base s)))"

definition strtoll :: "byte list \<Rightarrow> nat \<Rightarrow> int" where
  "strtoll str base =
     (case str_number base str of
        (neg, n) \<Rightarrow> if neg then max (- int n) (- (2 ^ 63)) else min (int n) (2 ^ 63 - 1))"

definition strtoull :: "byte list \<Rightarrow> nat \<Rightarrow> 64 word" where
  "strtoull str base =
     (case str_number base str of
        (neg, n) \<Rightarrow> if n \<ge> 2 ^ 64 then - 1 else if neg then - word_of_nat n else word_of_nat n)"

definition str_to_int64 :: "byte list \<Rightarrow> 64 word" where
  "str_to_int64 str =
     (if str = [] then 0
      else if take 2 str = [48, 120] then word_of_int (strtoll (drop 2 str) 16)
      else word_of_int (strtoll str 10))"

definition str_to_uint64 :: "byte list \<Rightarrow> 64 word" where
  "str_to_uint64 str =
     (if str = [] then 0
      else if take 2 str = [48, 120] then strtoull (drop 2 str) 16
      else strtoull str 10)"

definition config_get_int :: "config_data \<Rightarrow> byte list \<Rightarrow> byte list \<Rightarrow> 64 word" where
  "config_get_int config section name =
     (case config_get_string config section name of Some value \<Rightarrow> str_to_int64 value | None \<Rightarrow> 0)"

definition config_get_uint :: "config_data \<Rightarrow> byte list \<Rightarrow> byte list \<Rightarrow> 64 word" where
  "config_get_uint config section name =
     (case config_get_string config section name of Some value \<Rightarrow> str_to_uint64 value | None \<Rightarrow> 0)"

definition config_get_bool :: "config_data \<Rightarrow> byte list \<Rightarrow> byte list \<Rightarrow> bool" where
  "config_get_bool config section name =
     (case config_get_string config section name of
        Some value \<Rightarrow> astrcmpi value true_str = 0 \<or> str_to_uint64 value \<noteq> 0
      | None \<Rightarrow> False)"

definition config_get_default_int :: "config_data \<Rightarrow> byte list \<Rightarrow> byte list \<Rightarrow> 64 word" where
  "config_get_default_int config section name =
     (case config_get_default_string config section name of Some value \<Rightarrow> str_to_int64 value | None \<Rightarrow> 0)"

definition config_get_default_uint :: "config_data \<Rightarrow> byte list \<Rightarrow> byte list \<Rightarrow> 64 word" where
  "config_get_default_uint config section name =
     (case config_get_default_string config section name of Some value \<Rightarrow> str_to_uint64 value | None \<Rightarrow> 0)"

definition config_get_default_bool :: "config_data \<Rightarrow> byte list \<Rightarrow> byte list \<Rightarrow> bool" where
  "config_get_default_bool config section name =
     (case config_get_default_string config section name of
        Some value \<Rightarrow> astrcmpi value true_str = 0 \<or> str_to_uint64 value \<noteq> 0
      | None \<Rightarrow> False)"

fun remove_item :: "config_item list \<Rightarrow> byte list \<Rightarrow> config_item list option" where
  "remove_item [] name = None"
| "remove_item (item # items) name =
     (if astrcmpi (ci_name item) name = 0 then Some items else map_option ((#) item) (remove_item items name))"

fun remove_value :: "config_section list \<Rightarrow> byte list \<Rightarrow> byte list \<Rightarrow> config_section list option" where
  "remove_value [] section name = None"
| "remove_value (sec # sections) section name =
     (if astrcmpi (cs_name sec) section = 0 then
        (case remove_item (cs_items sec) name of
           Some items \<Rightarrow> Some (sec\<lparr>cs_items := items\<rparr> # sections)
         | None \<Rightarrow> map_option ((#) sec) (remove_value sections section name))
      else map_option ((#) sec) (remove_value sections section name))"

definition config_remove_value :: "config_data \<Rightarrow> byte list \<Rightarrow> byte list \<Rightarrow> bool \<times> config_data" where
  "config_remove_value config section name =
     (case remove_value (cfg_sections config) section name of
        None \<Rightarrow> (False, config)
      | Some sections \<Rightarrow> (True, config\<lparr>cfg_sections := sections\<rparr>))"

definition config_has_user_value :: "config_data \<Rightarrow> byte list \<Rightarrow> byte list \<Rightarrow> bool" where
  "config_has_user_value config section name \<longleftrightarrow> config_find_item (cfg_sections config) section name \<noteq> None"

definition config_has_default_value :: "config_data \<Rightarrow> byte list \<Rightarrow> byte list \<Rightarrow> bool" where
  "config_has_default_value config section name \<longleftrightarrow> config_find_item (cfg_defaults config) section name \<noteq> None"

subsection \<open>Files\<close>

type_synonym files = "byte list \<Rightarrow> byte list option"

definition CONFIG_SUCCESS :: int where "CONFIG_SUCCESS = 0"
definition CONFIG_FILENOTFOUND :: int where "CONFIG_FILENOTFOUND = -1"
definition CONFIG_ERROR :: int where "CONFIG_ERROR = -2"

definition utf8_bom :: "byte list" where
  "utf8_bom = [0xEF, 0xBB, 0xBF]"

definition os_fread_utf8 :: "byte list \<Rightarrow> byte list option" where
  "os_fread_utf8 content =
     (if length content < 3 then None
      else let rest = (if take 3 content = utf8_bom then drop 3 content else content)
        in if rest = [] then None else Some rest)"

definition config_create :: "(byte list \<Rightarrow> bool) \<Rightarrow> files \<Rightarrow> byte list \<Rightarrow> config_data option \<times> files" where
  "config_create may_write fs file =
     (if may_write file
      then (Some \<lparr>cfg_file = Some file, cfg_sections = [], cfg_defaults = []\<rparr>, fs(file \<mapsto> []))
      else (None, fs))"

text \<open>The code, the sections that were read and the files; the text ends at the first zero byte.\<close>

definition config_parse_file ::
  "(byte list \<Rightarrow> bool) \<Rightarrow> files \<Rightarrow> config_section list \<Rightarrow> byte list \<Rightarrow> bool \<Rightarrow> (int \<times> config_section list \<times> files) option" where
  "config_parse_file may_write fs sections file always_open =
     (let fs = (if fs file = None \<and> always_open \<and> may_write file then fs(file \<mapsto> []) else fs)
      in case fs file of
           None \<Rightarrow> Some (CONFIG_FILENOTFOUND, sections, fs)
         | Some content \<Rightarrow>
             (case os_fread_utf8 content of
                None \<Rightarrow> Some (CONFIG_SUCCESS, sections, fs)
              | Some data \<Rightarrow> do {
                  sections \<leftarrow> parse_config_data sections (lexer_start (Some (takeWhile (\<lambda>c. c \<noteq> 0) data)));
                  Some (CONFIG_SUCCESS, sections, fs) }))"

definition config_open ::
  "(byte list \<Rightarrow> bool) \<Rightarrow> files \<Rightarrow> byte list \<Rightarrow> bool \<Rightarrow> (int \<times> config_data option \<times> files) option" where
  "config_open may_write fs file always_open = do {
     (errorcode, sections, fs) \<leftarrow> config_parse_file may_write fs [] file always_open;
     Some (errorcode,
       if errorcode \<noteq> CONFIG_SUCCESS then None
       else Some \<lparr>cfg_file = Some file, cfg_sections = sections, cfg_defaults = []\<rparr>, fs) }"

definition config_open_string :: "byte list \<Rightarrow> config_data option" where
  "config_open_string str = do {
     sections \<leftarrow> parse_config_data [] (lexer_start (Some str));
     Some \<lparr>cfg_file = None, cfg_sections = sections, cfg_defaults = []\<rparr> }"

definition config_open_defaults ::
  "(byte list \<Rightarrow> bool) \<Rightarrow> files \<Rightarrow> config_data \<Rightarrow> byte list \<Rightarrow> (int \<times> config_data) option" where
  "config_open_defaults may_write fs config file = do {
     (errorcode, defaults, _) \<leftarrow> config_parse_file may_write fs (cfg_defaults config) file False;
     Some (errorcode, config\<lparr>cfg_defaults := defaults\<rparr>) }"

text \<open>A string passed on as a C string.\<close>

definition ds_text :: "dstr \<Rightarrow> byte list option option" where
  "ds_text d = (case ds_array d of None \<Rightarrow> Some None | Some a \<Rightarrow> map_option Some (c_string a))"

fun save_items :: "(nat \<Rightarrow> byte) \<Rightarrow> dstr \<Rightarrow> dstr \<Rightarrow> config_item list \<Rightarrow> (dstr \<times> dstr) option" where
  "save_items fresh str tmp [] = Some (str, tmp)"
| "save_items fresh str tmp (item # items) = do {
     tmp \<leftarrow> dstr_copy fresh tmp (Some (ci_value item));
     tmp \<leftarrow> dstr_replace fresh tmp [92] (Some [92, 92]);
     tmp \<leftarrow> dstr_replace fresh tmp [13] (Some [92, 114]);
     tmp \<leftarrow> dstr_replace fresh tmp [10] (Some [92, 110]);
     str \<leftarrow> dstr_cat fresh str (Some (ci_name item));
     str \<leftarrow> dstr_cat fresh str (Some [61]);
     t \<leftarrow> ds_text tmp;
     str \<leftarrow> dstr_cat fresh str t;
     str \<leftarrow> dstr_cat fresh str (Some [10]);
     save_items fresh str tmp items }"

fun save_sections :: "(nat \<Rightarrow> byte) \<Rightarrow> bool \<Rightarrow> dstr \<Rightarrow> dstr \<Rightarrow> config_section list \<Rightarrow> dstr option" where
  "save_sections fresh first str tmp [] = Some str"
| "save_sections fresh first str tmp (section # sections) = do {
     str \<leftarrow> (if first then Some str else dstr_cat fresh str (Some [10]));
     str \<leftarrow> dstr_cat fresh str (Some [91]);
     str \<leftarrow> dstr_cat fresh str (Some (cs_name section));
     str \<leftarrow> dstr_cat fresh str (Some [93, 10]);
     (str, tmp) \<leftarrow> save_items fresh str tmp (cs_items section);
     save_sections fresh False str tmp sections }"

definition config_save ::
  "(nat \<Rightarrow> byte) \<Rightarrow> bool \<Rightarrow> (byte list \<Rightarrow> bool) \<Rightarrow> files \<Rightarrow> config_data \<Rightarrow> (int \<times> files) option" where
  "config_save fresh win32 may_write fs config =
     (case cfg_file config of
        None \<Rightarrow> Some (CONFIG_ERROR, fs)
      | Some file \<Rightarrow>
          if \<not> may_write file then Some (CONFIG_FILENOTFOUND, fs)
          else do {
            str \<leftarrow> save_sections fresh True dstr_init dstr_init (cfg_sections config);
            bytes \<leftarrow> (if ds_len str = 0 then Some [] else ds_peek str 0 (ds_len str));
            Some (CONFIG_SUCCESS, fs(file \<mapsto> (if win32 then utf8_bom else []) @ bytes)) })"

definition os_unlink :: "files \<Rightarrow> byte list \<Rightarrow> files" where
  "os_unlink fs path = fs(path := None)"

definition os_rename :: "files \<Rightarrow> byte list \<Rightarrow> byte list \<Rightarrow> files" where
  "os_rename fs old_path new_path =
     (if fs old_path = None \<or> old_path = new_path then fs else fs(new_path := fs old_path, old_path := None))"

text \<open>\<open>dstr_copy\<close>, a dot when there is none, and \<open>dstr_cat\<close>.\<close>

definition with_ext :: "byte list \<Rightarrow> byte list \<Rightarrow> byte list" where
  "with_ext file ext = file @ (if hd ext \<noteq> 46 then [46] else []) @ ext"

definition config_save_safe ::
  "(nat \<Rightarrow> byte) \<Rightarrow> bool \<Rightarrow> (byte list \<Rightarrow> bool) \<Rightarrow> files \<Rightarrow> config_data \<Rightarrow> byte list \<Rightarrow> byte list \<Rightarrow> (int \<times> files) option" where
  "config_save_safe fresh win32 may_write fs config temp_ext backup_ext =
     (if temp_ext = [] then Some (CONFIG_ERROR, fs)
      else do {
        file \<leftarrow> cfg_file config;
        let temp_file = with_ext file temp_ext;
        (ret, fs) \<leftarrow> config_save fresh win32 may_write fs (config\<lparr>cfg_file := Some temp_file\<rparr>);
        if ret \<noteq> CONFIG_SUCCESS then Some (ret, fs)
        else
          let fs = (if backup_ext \<noteq> []
                    then (let backup_file = with_ext file backup_ext
                          in os_rename (os_unlink fs backup_file) file backup_file)
                    else os_unlink fs file)
          in Some (ret, os_rename fs temp_file file) })"


subsection \<open>Numbers and their text\<close>

lemma digit_unat: "d < 10 \<Longrightarrow> unat (word_of_nat (48 + d) :: byte) = 48 + d"
  by (simp add: unat_of_nat del: of_nat_add)

lemma digit_word: "d < 10 \<Longrightarrow> digit_of 10 (word_of_nat (48 + d)) = Some d"
proof -
  assume d: "d < 10"
  then show ?thesis using digit_unat [OF d] by (simp add: digit_of_def word_le_nat_alt del: of_nat_add)
qed

lemma digits_decimal: "digits_value 10 acc (decimal n @ rest) = digits_value 10 (acc * 10 ^ length (decimal n) + n) rest"
proof (induction n arbitrary: acc rest rule: decimal.induct)
  case (1 n)
  show ?case
  proof (cases "n < 10")
    case True
    then show ?thesis using digit_word [OF True] by (subst (1 2) decimal.simps) simp
  next
    case False
    have d: "decimal n = decimal (n div 10) @ [word_of_nat (48 + n mod 10)]" using False by (subst decimal.simps) simp
    have "digits_value 10 acc (decimal n @ rest) =
        digits_value 10 (acc * 10 ^ length (decimal (n div 10)) + n div 10) (word_of_nat (48 + n mod 10) # rest)"
      using 1 [OF False, of acc "word_of_nat (48 + n mod 10) # rest"] by (simp add: d)
    also have "\<dots> = digits_value 10 ((acc * 10 ^ length (decimal (n div 10)) + n div 10) * 10 + n mod 10) rest"
      using digit_word [of "n mod 10"] by simp
    also have "(acc * 10 ^ length (decimal (n div 10)) + n div 10) * 10 + n mod 10 = acc * 10 ^ length (decimal n) + n"
      by (simp add: d algebra_simps)
    finally show ?thesis .
  qed
qed

lemma decimal_chars: "c \<in> set (decimal n) \<Longrightarrow> 48 \<le> c \<and> c \<le> 57"
proof (induction n rule: decimal.induct)
  case (1 n)
  have "48 \<le> (word_of_nat (48 + d) :: byte) \<and> (word_of_nat (48 + d) :: byte) \<le> 57" if "d < 10" for d
    using that digit_unat [OF that] by (simp add: word_le_nat_alt del: of_nat_add)
  then show ?case using 1 by (subst (asm) (2) decimal.simps) (auto split: if_splits)
qed

lemma decimal_not_Nil [simp]: "decimal n \<noteq> []"
  by (subst decimal.simps) simp

lemma digit_char: "48 \<le> (c :: byte) \<Longrightarrow> c \<le> 57 \<Longrightarrow> c \<noteq> 45 \<and> c \<noteq> 43 \<and> c \<noteq> 120 \<and> c \<noteq> 88 \<and> \<not> is_space_ch c \<and> c \<noteq> 0"
  by (auto simp: is_space_ch_def word_le_nat_alt)

lemma decimal_head: "\<exists>c cs. decimal n = c # cs \<and> 48 \<le> c \<and> c \<le> 57"
  using decimal_chars [of "hd (decimal n)" n] by (cases "decimal n") auto

lemma strip_decimal: "strip_prefix 10 s = s"
  by (auto simp: strip_prefix_def split: list.split)

lemma str_number_decimal: "str_number 10 (decimal n) = (False, n)" "str_number 10 (45 # decimal n) = (True, n)"
proof -
  obtain c cs where c: "decimal n = c # cs" "48 \<le> c" "c \<le> 57" using decimal_head by blast
  note d = digit_char [OF c(2,3)]
  show "str_number 10 (decimal n) = (False, n)"
    using digits_decimal [of 0 n "[]"] d by (simp add: str_number_def c(1) strip_decimal)
  show "str_number 10 (45 # decimal n) = (True, n)"
    using digits_decimal [of 0 n "[]"] by (simp add: str_number_def strip_decimal is_space_ch_def)
qed

lemma not_hex: "take 2 (decimal n) \<noteq> [48, 120]" "take 2 (45 # decimal n) \<noteq> [48, 120]"
  using decimal_chars [of 120 n] digit_char [of 120] by (auto dest!: arg_cong [of _ _ set] in_set_takeD simp: set_eq_iff)
    (metis in_set_takeD list.set_intros(1,2))

lemma uint64_roundtrip: "str_to_uint64 (decimal (unat v)) = v"
proof -
  have "unat v < 2 ^ 64" using unsigned_less [of v] by simp
  then show ?thesis using not_hex(1) [of "unat v"] by (simp add: str_to_uint64_def strtoull_def str_number_decimal)
qed

lemma int64_roundtrip: "str_to_int64 (printf_int v) = v"
proof -
  have r: "- (2 ^ 63) \<le> sint v" "sint v < 2 ^ 63" using sint_range_size [of v] by (auto simp: word_size)
  show ?thesis
  proof (cases "sint v < 0")
    case True
    then have "strtoll (45 # decimal (nat (- sint v))) 10 = sint v" using r by (simp add: strtoll_def str_number_decimal)
    then show ?thesis using True not_hex(2) by (simp add: str_to_int64_def printf_int_def)
  next
    case False
    then have "strtoll (decimal (nat (sint v))) 10 = sint v" using r by (simp add: strtoll_def str_number_decimal)
    then show ?thesis using False not_hex(1) by (simp add: str_to_int64_def printf_int_def)
  qed
qed

subsection \<open>Setting and getting\<close>

definition zero_free :: "byte list \<Rightarrow> bool" where
  "zero_free s \<longleftrightarrow> 0 \<notin> set s"

definition names_ok :: "config_section list \<Rightarrow> bool" where
  "names_ok sections \<longleftrightarrow>
     (\<forall>sec \<in> set sections. zero_free (cs_name sec) \<and> (\<forall>item \<in> set (cs_items sec). zero_free (ci_name item)))"

lemma astrcmpi_same: "zero_free s \<Longrightarrow> zero_free t \<Longrightarrow> astrcmpi s t = 0 \<longleftrightarrow> same_name s t"
  by (simp add: zero_free_def same_name_def astrcmpi_eq)

lemma same_name_cong: "same_name a b \<Longrightarrow> same_name a c \<longleftrightarrow> same_name b c"
  by (auto simp: same_name_def)

lemma find_set_item:
  assumes "\<forall>item \<in> set items. zero_free (ci_name item)" "zero_free n" "zero_free n'"
  shows "map_option ci_value (find_item (set_item items n v) n') =
    (if same_name n n' then Some v else map_option ci_value (find_item items n'))"
  using assms
proof (induction items)
  case (Cons item items)
  then show ?case by (auto simp: astrcmpi_same same_name_def)
qed (simp add: astrcmpi_same)

lemma find_config_set:
  assumes "names_ok sections" "zero_free s" "zero_free n" "zero_free s'" "zero_free n'"
  shows "map_option ci_value (config_find_item (config_set_item sections s n v) s' n') =
    (if same_name s s' \<and> same_name n n' then Some v else map_option ci_value (config_find_item sections s' n'))"
  using assms(1)
proof (induction sections)
  case Nil
  then show ?case using assms(2-5) by (simp add: astrcmpi_same)
next
  case (Cons sec sections)
  then have ok: "zero_free (cs_name sec)" "\<forall>item \<in> set (cs_items sec). zero_free (ci_name item)" "names_ok sections"
    by (simp_all add: names_ok_def)
  note f = find_set_item [OF ok(2) assms(3,5), of v]
  show ?case
  proof (cases "same_name (cs_name sec) s")
    case True
    then show ?thesis using f ok(1) assms(2,4)
      by (auto simp: astrcmpi_same same_name_def split: option.splits if_splits)
  next
    case False
    then show ?thesis using Cons.IH [OF ok(3)] ok(1) assms(2,4)
      by (auto simp: astrcmpi_same same_name_def split: option.splits if_splits)
  qed
qed

lemma names_ok_Cons [simp]: "names_ok (sec # sections) \<longleftrightarrow>
    zero_free (cs_name sec) \<and> (\<forall>item \<in> set (cs_items sec). zero_free (ci_name item)) \<and> names_ok sections"
  by (auto simp: names_ok_def)

lemma set_item_ok: "\<forall>item \<in> set items. zero_free (ci_name item) \<Longrightarrow> zero_free n \<Longrightarrow>
    \<forall>item \<in> set (set_item items n v). zero_free (ci_name item)"
  by (induction items) auto

lemma names_ok_set: "names_ok sections \<Longrightarrow> zero_free s \<Longrightarrow> zero_free n \<Longrightarrow> names_ok (config_set_item sections s n v)"
proof (induction sections)
  case (Cons sec sections)
  then show ?case using set_item_ok [of "cs_items sec" n v] by auto
qed (simp add: names_ok_def)


subsection \<open>The text that is saved\<close>

definition escape_char :: "byte \<Rightarrow> byte list" where
  "escape_char c = (if c = 92 then [92, 92] else if c = 13 then [92, 114] else if c = 10 then [92, 110] else [c])"

definition escape :: "byte list \<Rightarrow> byte list" where
  "escape s = concat (map escape_char s)"

definition line_text :: "config_item \<Rightarrow> byte list" where
  "line_text item = ci_name item @ [61] @ escape (ci_value item) @ [10]"

definition section_text :: "config_section \<Rightarrow> byte list" where
  "section_text sec = [91] @ cs_name sec @ [93, 10] @ concat (map line_text (cs_items sec))"

fun config_text :: "config_section list \<Rightarrow> byte list" where
  "config_text [] = []"
| "config_text [sec] = section_text sec"
| "config_text (sec # sec' # sections) = section_text sec @ [10] @ config_text (sec' # sections)"

lemma escape_simps [simp]: "escape [] = []" "escape (c # s) = escape_char c @ escape s"
  by (simp_all add: escape_def)

lemma escape_replace:
  "replace_all [10] [92, 110] (replace_all [13] [92, 114] (replace_all [92] [92, 92] s)) = escape s"
  by (induction s) (auto simp: replace_single escape_char_def)

lemma zero_free_escape [simp]: "0 \<notin> set (escape s) \<longleftrightarrow> 0 \<notin> set s"
  by (induction s) (auto simp: escape_char_def)

lemma escape_no_newline: "c \<in> set (escape s) \<Longrightarrow> \<not> is_newline c"
  by (induction s) (auto simp: escape_char_def is_newline_def split: if_splits)

lemma escape_ends:
  assumes "s \<noteq> []" "\<not> is_space_or_tab (hd s)" "\<not> is_space_or_tab (last s)"
  shows "escape s \<noteq> []" "\<not> is_whitespace (hd (escape s))" "\<not> is_whitespace (last (escape s))"
proof -
  show ne: "escape s \<noteq> []" using assms(1) by (cases s) (auto simp: escape_char_def)
  show "\<not> is_whitespace (hd (escape s))"
    using assms(1,2) by (cases s) (auto simp: escape_char_def is_whitespace_def is_space_or_tab_def)
  have "escape (xs @ [x]) = escape xs @ escape_char x" for xs x by (simp add: escape_def)
  then show "\<not> is_whitespace (last (escape s))"
    using assms(1,3) by (cases s rule: rev_cases) (auto simp: escape_char_def is_whitespace_def is_space_or_tab_def)
qed

text \<open>\<open>unescape\<close> undoes it: \<open>W\<close> is what is written, \<open>G\<close> the gap between the two positions.\<close>

lemma poke_one: "poke (W @ (G @ c # X)) (length W) [d] = Some ((W @ [d]) @ drop 1 (G @ [c]) @ X)"
  using poke_at [of "[d]" "G @ c # X" W] by (cases G) simp_all

lemma rd_at: "rd (xs @ y # ys) (length xs) = Some y"
  by (simp add: rd_def)

lemma unescape_loop_escape:
  assumes "0 \<notin> set s"
  shows "\<exists>R'. unescape_loop (W @ G @ escape s @ 0 # R) (length W + length G) (length W) = Some (W @ s @ 0 # R')"
  using assms
proof (induction s arbitrary: W G)
  case Nil
  have r: "rd (W @ G @ 0 # R) (length W + length G) = Some 0" using rd_at [of "W @ G" 0 R] by simp
  show ?case
  proof (cases "G = []")
    case True
    then show ?thesis using r by (subst unescape_loop.simps) simp
  next
    case False
    then show ?thesis using r poke_one [of W G 0 R 0] by (subst unescape_loop.simps) simp
  qed
next
  case (Cons c s)
  let ?a = "W @ G @ escape (c # s) @ 0 # R"
  have c: "c \<noteq> 0" using Cons.prems by auto
  show ?case
  proof (cases "c = 92 \<or> c = 13 \<or> c = 10")
    case False
    then have e: "escape_char c = [c]" by (simp add: escape_char_def)
    have r: "rd ?a (length W + length G) = Some c" using rd_at [of "W @ G" c "escape s @ 0 # R"] e by simp
    have u: "unescape_char ?a (length W + length G) c = Some (c, length W + length G)"
      using False by (simp add: unescape_char_def)
    have p: "(if length W + length G \<noteq> length W then poke ?a (length W) [c] else Some ?a) =
        Some ((W @ [c]) @ drop 1 (G @ [c]) @ escape s @ 0 # R)"
      using poke_one [of W G c "escape s @ 0 # R" c] e by (cases "G = []") simp_all
    define G' where "G' = drop 1 (G @ [c])"
    have G': "length G' = length G" by (simp add: G'_def)
    have "unescape_loop ?a (length W + length G) (length W) =
        unescape_loop ((W @ [c]) @ G' @ escape s @ 0 # R) (length W + length G + 1) (length W + 1)"
      using r u p [folded G'_def] c by (subst unescape_loop.simps) simp
    then show ?thesis using Cons.IH [of "W @ [c]" G'] Cons.prems G' by simp
  next
    case True
    then obtain x where e: "escape_char c = [92, x]" and x: "x = (if c = 92 then 92 else if c = 13 then 114 else 110)"
      by (auto simp: escape_char_def)
    have r: "rd ?a (length W + length G) = Some 92" using rd_at [of "W @ G" 92 "x # escape s @ 0 # R"] e by simp
    have "rd ?a (length W + length G + 1) = Some x"
      using rd_at [of "W @ G @ [92]" x "escape s @ 0 # R"] e by simp
    then have u: "unescape_char ?a (length W + length G) 92 = Some (c, length W + length G + 1)"
      using True x by (auto simp: unescape_char_def)
    have p: "poke ?a (length W) [c] = Some ((W @ [c]) @ drop 1 (G @ [92, x]) @ escape s @ 0 # R)"
      using poke_one [of W G 92 "x # escape s @ 0 # R" c] e by (cases G) simp_all
    define G' where "G' = drop 1 (G @ [92, x])"
    have G': "length G' = length G + 1" by (simp add: G'_def)
    have "unescape_loop ?a (length W + length G) (length W) =
        unescape_loop ((W @ [c]) @ G' @ escape s @ 0 # R) (length W + length G + 1 + 1) (length W + 1)"
      using r u p [folded G'_def] by (subst unescape_loop.simps) simp
    then show ?thesis using Cons.IH [of "W @ [c]" G'] Cons.prems G' by simp
  qed
qed

lemma unescape_escape: "0 \<notin> set s \<Longrightarrow> ds_array d = Some (escape s @ [0]) \<Longrightarrow> unescape d = Some s"
  using unescape_loop_escape [of s "[]" "[]" "[]"] by (auto simp: unescape_def)

text \<open>What \<open>config_save\<close> writes.\<close>

lemma ds_text_cat:
  assumes "dstr_holds d s" "dstr_holds e t"
  shows "\<exists>u d'. ds_text e = Some u \<and> dstr_cat fresh d u = Some d' \<and> dstr_holds d' (s @ t)"
proof (cases "ds_array e")
  case None
  then have "t = []" using assms(2) by (simp add: dstr_holds_def)
  then show ?thesis using None assms(1) by (simp add: ds_text_def dstr_cat_def)
next
  case (Some a)
  then have "c_string a = Some t" "0 \<notin> set t" using assms(2) by (auto simp: dstr_holds_def)
  then show ?thesis using cat_holds [OF assms(1), of t fresh] Some by (simp add: ds_text_def)
qed

lemma save_items_text:
  assumes "dstr_holds str s" "dstr_holds tmp t"
    and "\<forall>item \<in> set items. 0 \<notin> set (ci_name item) \<and> 0 \<notin> set (ci_value item)"
  shows "\<exists>str' tmp' t'. save_items fresh str tmp items = Some (str', tmp') \<and>
    dstr_holds str' (s @ concat (map line_text items)) \<and> dstr_holds tmp' t'"
  using assms
proof (induction items arbitrary: str s tmp t)
  case (Cons item items)
  let ?v = "ci_value item"
  have z: "0 \<notin> set (ci_name item)" "0 \<notin> set ?v" using Cons.prems(3) by auto
  obtain t1 where t1: "dstr_copy fresh tmp (Some ?v) = Some t1" "dstr_holds t1 ?v"
    using copy_holds [OF Cons.prems(2) z(2), of fresh] by blast
  obtain t2 where t2: "dstr_replace fresh t1 [92] (Some [92, 92]) = Some t2" "dstr_holds t2 (replace_all [92] [92, 92] ?v)"
    using replace_holds [OF t1(2), of "[92]" "[92, 92]" fresh] by auto
  obtain t3 where t3: "dstr_replace fresh t2 [13] (Some [92, 114]) = Some t3"
      "dstr_holds t3 (replace_all [13] [92, 114] (replace_all [92] [92, 92] ?v))"
    using replace_holds [OF t2(2), of "[13]" "[92, 114]" fresh] by auto
  obtain t4 where t4: "dstr_replace fresh t3 [10] (Some [92, 110]) = Some t4" "dstr_holds t4 (escape ?v)"
    using replace_holds [OF t3(2), of "[10]" "[92, 110]" fresh] by (auto simp: escape_replace)
  obtain s1 where s1: "dstr_cat fresh str (Some (ci_name item)) = Some s1" "dstr_holds s1 (s @ ci_name item)"
    using cat_holds [OF Cons.prems(1) z(1), of fresh] by blast
  obtain s2 where s2: "dstr_cat fresh s1 (Some [61]) = Some s2" "dstr_holds s2 ((s @ ci_name item) @ [61])"
    using cat_holds [OF s1(2), of "[61]" fresh] by auto
  obtain u s3 where s3: "ds_text t4 = Some u" "dstr_cat fresh s2 u = Some s3"
      "dstr_holds s3 (((s @ ci_name item) @ [61]) @ escape ?v)"
    using ds_text_cat [OF s2(2) t4(2), of fresh] by blast
  obtain s4 where s4: "dstr_cat fresh s3 (Some [10]) = Some s4"
      "dstr_holds s4 ((((s @ ci_name item) @ [61]) @ escape ?v) @ [10])"
    using cat_holds [OF s3(3), of "[10]" fresh] by auto
  have "\<exists>str' tmp' t'. save_items fresh s4 t4 items = Some (str', tmp') \<and>
      dstr_holds str' ((((((s @ ci_name item) @ [61]) @ escape ?v) @ [10])) @ concat (map line_text items)) \<and> dstr_holds tmp' t'"
    by (rule Cons.IH [OF s4(2) t4(2)]) (use Cons.prems(3) in auto)
  then show ?case using t1(1) t2(1) t3(1) t4(1) s1(1) s2(1) s3(1,2) s4(1) by (simp add: line_text_def [of item])
qed auto

lemma save_sections_text:
  assumes "dstr_holds str s" "dstr_holds tmp t"
    and "\<forall>sec \<in> set sections. 0 \<notin> set (cs_name sec) \<and>
      (\<forall>item \<in> set (cs_items sec). 0 \<notin> set (ci_name item) \<and> 0 \<notin> set (ci_value item))"
  shows "\<exists>str'. save_sections fresh first str tmp sections = Some str' \<and>
    dstr_holds str' (s @ (if first \<or> sections = [] then [] else [10]) @ config_text sections)"
  using assms
proof (induction sections arbitrary: first str s tmp t)
  case (Cons sec sections)
  define p where "p = (if first then [] else [10 :: byte])"
  obtain s0 where s0: "(if first then Some str else dstr_cat fresh str (Some [10])) = Some s0" "dstr_holds s0 (s @ p)"
    using cat_holds [OF Cons.prems(1), of "[10]" fresh] Cons.prems(1) by (cases first) (auto simp: p_def)
  obtain s1 where s1: "dstr_cat fresh s0 (Some [91]) = Some s1" "dstr_holds s1 ((s @ p) @ [91])"
    using cat_holds [OF s0(2), of "[91]" fresh] by auto
  obtain s2 where s2: "dstr_cat fresh s1 (Some (cs_name sec)) = Some s2" "dstr_holds s2 (((s @ p) @ [91]) @ cs_name sec)"
    using cat_holds [OF s1(2), of "cs_name sec" fresh] Cons.prems(3) by auto
  obtain s3 where s3: "dstr_cat fresh s2 (Some [93, 10]) = Some s3" "dstr_holds s3 ((((s @ p) @ [91]) @ cs_name sec) @ [93, 10])"
    using cat_holds [OF s2(2), of "[93, 10]" fresh] by auto
  obtain s4 t4 u where s4: "save_items fresh s3 tmp (cs_items sec) = Some (s4, t4)" "dstr_holds t4 u"
      "dstr_holds s4 (((((s @ p) @ [91]) @ cs_name sec) @ [93, 10]) @ concat (map line_text (cs_items sec)))"
    using save_items_text [OF s3(2) Cons.prems(2), of "cs_items sec" fresh] Cons.prems(3) by auto
  let ?s = "((((s @ p) @ [91]) @ cs_name sec) @ [93, 10]) @ concat (map line_text (cs_items sec))"
  have "\<exists>str'. save_sections fresh False s4 t4 sections = Some str' \<and>
      dstr_holds str' (?s @ (if False \<or> sections = [] then [] else [10]) @ config_text sections)"
    by (rule Cons.IH [OF s4(3,2)]) (use Cons.prems(3) in auto)
  then obtain str' where str': "save_sections fresh False s4 t4 sections = Some str'"
      "dstr_holds str' (?s @ (if sections = [] then [] else [10]) @ config_text sections)" by auto
  have "?s @ (if sections = [] then [] else [10]) @ config_text sections = s @ p @ config_text (sec # sections)"
    by (cases sections) (simp_all add: section_text_def)
  then show ?case using s0(1) s1(1) s2(1) s3(1) s4(1) str' by (simp add: p_def)
qed auto


subsection \<open>Parsing the saved text\<close>

abbreviation at_pos :: "byte list \<Rightarrow> nat \<Rightarrow> lexer" where
  "at_pos T off \<equiv> \<lparr>lx_text = Some T, lx_offset = off\<rparr>"

text \<open>Tokens that end before the character \<open>x\<close>, which is neither letter nor digit.\<close>

lemma token_inside:
  assumes "\<not> run_type (get_char_token_type x)" "\<not> is_newline c"
  shows "token_len (c # cs @ x # rest) \<le> Suc (length cs)"
proof (cases "run_type (get_char_token_type c)")
  case True
  then have "takeWhile (\<lambda>y. get_char_token_type y = get_char_token_type c) (cs @ x # rest) =
      takeWhile (\<lambda>y. get_char_token_type y = get_char_token_type c) cs"
    using True assms(1) by (intro takeWhile_tail) metis
  then show ?thesis using True by (simp add: length_takeWhile_le)
next
  case False
  then show ?thesis using assms(2) newline_pair_newline [of c] by auto
qed

text \<open>The reference after \<open>n\<close> more characters.\<close>

definition extend_ref :: "strref \<Rightarrow> nat \<Rightarrow> nat \<Rightarrow> strref" where
  "extend_ref ref off n = (if n = 0 then ref else strref_add ref (strref_set off n))"

lemma extend_ref_0 [simp]: "extend_ref ref off 0 = ref"
  by (simp add: extend_ref_def)

lemma extend_extend:
  "0 < n \<Longrightarrow> extend_ref (strref_add ref (strref_set off n)) (off + n) m = extend_ref ref off (n + m)"
  by (simp add: extend_ref_def strref_add_def strref_set_def)

lemma extend_set: "extend_ref (strref_set off n) (off + n) m = strref_set off (n + m)"
  by (simp add: extend_ref_def strref_add_def strref_set_def)

lemma extend_clear: "0 < n \<Longrightarrow> extend_ref strref_clear off n = strref_set off n"
  by (simp add: extend_ref_def strref_add_def strref_clear_def)

lemma token_char_at: "drop off T = c # cs \<Longrightarrow> token_char (at_pos T off') \<lparr>bt_text = strref_set off n, bt_type = ty\<rparr> = c"
  by (cases "off < length T") (auto simp: token_char_def strref_set_def char_at_def Cons_nth_drop_Suc [symmetric])

lemma parse_inside:
  assumes "drop off T = s @ x # rest" "\<not> run_type (get_char_token_type x)"
    and "\<forall>c \<in> set s. \<not> is_newline c \<and> c \<noteq> 0 \<and> (e \<noteq> 0 \<longrightarrow> c \<noteq> e)"
  shows "parse_string_loop e (at_pos T off) ref =
    parse_string_loop e (at_pos T (off + length s)) (extend_ref ref off (length s))"
  using assms(1,3)
proof (induction "length s" arbitrary: s off ref rule: less_induct)
  case less
  show ?case
  proof (cases s)
    case (Cons c cs)
    let ?n = "token_len (c # cs @ x # rest)"
    have d: "drop off T = c # cs @ x # rest" "c \<noteq> 0" using less.prems Cons by auto
    have nl: "\<not> is_newline c" "e \<noteq> 0 \<longrightarrow> c \<noteq> e" using less.prems Cons by auto
    have n: "0 < ?n" "?n \<le> length s"
      using token_len_bounds(1) token_inside [OF assms(2) nl(1), of cs rest] Cons by (auto simp del: token_len.simps)
    have "parse_string_loop e (at_pos T off) ref =
        parse_string_loop e (at_pos T (off + ?n)) (strref_add ref (strref_set off ?n))"
      using getbasetoken_token [OF d] token_char_at [OF d(1)] nl by (subst parse_string_loop.simps) (simp add: Let_def del: token_len.simps)
    also have "\<dots> = parse_string_loop e (at_pos T (off + ?n + length (drop ?n s)))
        (extend_ref (strref_add ref (strref_set off ?n)) (off + ?n) (length (drop ?n s)))"
    proof (rule less.hyps)
      show "length (drop ?n s) < length s" using n by (simp del: token_len.simps)
      have "drop (off + ?n) T = drop ?n (drop off T)" by (simp add: add.commute del: token_len.simps)
      also have "\<dots> = drop ?n s @ x # rest" using n(2) less.prems(1) by (simp del: token_len.simps)
      finally show "drop (off + ?n) T = drop ?n s @ x # rest" .
      show "\<forall>c \<in> set (drop ?n s). \<not> is_newline c \<and> c \<noteq> 0 \<and> (e \<noteq> 0 \<longrightarrow> c \<noteq> e)"
        using less.prems(2) by (meson in_set_dropD)
    qed
    also have "off + ?n + length (drop ?n s) = off + length s" using n(2) by (simp del: token_len.simps)
    also have "extend_ref (strref_add ref (strref_set off ?n)) (off + ?n) (length (drop ?n s)) = extend_ref ref off (length s)"
      using extend_extend [OF n(1), of ref off "length (drop ?n s)"] n(2) by (simp del: token_len.simps)
    finally show ?thesis .
  qed simp
qed

text \<open>A reference that begins and ends with something else than a blank is left alone.\<close>

lemma keep_ref:
  assumes "drop off T = s @ rest" "s \<noteq> []" "\<not> is_whitespace (hd s)" "\<not> is_whitespace (last s)" "length T < 2 ^ 64"
  shows "remove_ref_whitespace T (strref_set off (length s)) = Some (strref_set off (length s))"
proof -
  have len: "off + length s \<le> length T" using drop_le [OF assms(1,2)] .
  have pos: "0 < length s" using assms(2) by simp
  have nth: "T ! (off + i) = s ! i" if "i < length s" for i
    using that len assms(1) nth_drop [of off T i] by (simp add: nth_append)
  have front: "skip_front T off l = (off, l)" for l
    using nth [of 0] pos assms(2,3) by (subst skip_front.simps) (simp add: hd_conv_nth)
  let ?i = "unat (word_of_nat off + word_of_nat (length s) - 1 :: 64 word)"
  have w: "(word_of_nat off + word_of_nat (length s) - 1 :: 64 word) = word_of_nat (off + (length s - 1))"
    using pos by (cases "length s") simp_all
  have i: "?i = off + (length s - 1)" unfolding w using len assms(5) pos by (simp add: unat_of_nat del: of_nat_add)
  have "off + (length s - 1) < length T" using len pos by linarith
  moreover have "T ! (off + (length s - 1)) = s ! (length s - 1)" using pos by (intro nth) simp
  ultimately have "char_at T ?i = last s"
    unfolding i char_at_def last_conv_nth [OF assms(2)] by (simp only: if_True)
  moreover have "(word_of_nat (length s) :: 64 word) \<noteq> 0"
    using len assms(5) pos unat_of_nat [where 'a = 64, of "length s"] by (auto simp del: unat_of_nat)
  ultimately have "trim_back T off (word_of_nat (length s)) = Some (word_of_nat (length s))"
    using i len assms(4) by (subst trim_back.simps) (simp add: Let_def)
  then show ?thesis using front by (simp add: remove_ref_whitespace_def strref_set_def)
qed

lemma dup_ref_text:
  assumes "drop off T = s @ rest" "s \<noteq> []" "0 \<notin> set s" "length T < 2 ^ 64"
  shows "dup_ref T (strref_set off (length s)) = Some s"
proof -
  have len: "off + length s \<le> length T" using drop_le [OF assms(1,2)] .
  have u: "unat (word_of_nat (length s) :: 64 word) = length s" using len assms(4) by (simp add: unat_of_nat)
  have d: "drop off (T @ [0]) = s @ rest @ [0]" using len assms(1) by simp
  have "peek (s @ rest @ [0]) 0 (length s + 1) = Some (take (length s + 1) (s @ rest @ [0]))"
    by (simp add: peek_def segment_def)
  moreover have "take (length s) (take (length s + 1) (s @ rest @ [0])) @ [0] = s @ 0 # []" by simp
  ultimately show ?thesis using assms(3) by (simp add: dup_ref_def strref_set_def u d del: take_append drop_append)
qed

subsection \<open>Lines\<close>

definition item_ok :: "config_item \<Rightarrow> bool" where
  "item_ok item \<longleftrightarrow>
     ci_name item \<noteq> [] \<and> (\<forall>c \<in> set (ci_name item). \<not> is_newline c \<and> c \<noteq> 0 \<and> c \<noteq> 61) \<and>
     \<not> is_space_or_tab (hd (ci_name item)) \<and> \<not> is_space_or_tab (last (ci_name item)) \<and>
     hd (ci_name item) \<noteq> 35 \<and> hd (ci_name item) \<noteq> 91 \<and>
     ci_value item \<noteq> [] \<and> 0 \<notin> set (ci_value item) \<and>
     \<not> is_space_or_tab (hd (ci_value item)) \<and> \<not> is_space_or_tab (last (ci_value item))"

lemma not_blank: "\<not> is_newline c \<Longrightarrow> \<not> is_space_or_tab c \<Longrightarrow> \<not> is_whitespace c"
  by (auto simp: is_newline_def is_space_or_tab_def is_whitespace_def)

lemma sep_type [simp]: "\<not> run_type (get_char_token_type 61)" "\<not> run_type (get_char_token_type 93)"
    "\<not> run_type (get_char_token_type 10)" "\<not> run_type (get_char_token_type 91)"
  by (simp_all add: get_char_token_type_def is_whitespace_def run_type_def)

lemma sep_newline [simp]: "is_newline 10" "\<not> is_newline 61" "\<not> is_newline 93" "\<not> is_newline 91"
    "\<not> is_newline_pair 61 d" "\<not> is_newline_pair 93 d" "\<not> is_newline_pair 91 d"
  by (auto simp: is_newline_def is_newline_pair_def)

lemma parse_to_char:
  assumes "drop off T = s @ e # rest" "e = 61 \<or> e = 93" "\<forall>c \<in> set s. \<not> is_newline c \<and> c \<noteq> 0 \<and> c \<noteq> e"
  shows "parse_string_loop e (at_pos T off) ref = (True, extend_ref ref off (length s), at_pos T (off + length s + 1))"
proof -
  have d: "drop (off + length s) T = e # rest" using drop_next [OF assms(1)] .
  have e: "e \<noteq> 0" "\<not> run_type (get_char_token_type e)" using assms(2) by auto
  have "token_len (e # rest) = 1" using assms(2) by auto
  then have "parse_string_loop e (at_pos T (off + length s)) r = (True, r, at_pos T (off + length s + 1))" for r
    using getbasetoken_token [OF d e(1)] token_char_at [OF d] e by (subst parse_string_loop.simps) (simp add: Let_def)
  then show ?thesis using parse_inside [OF assms(1) e(2), of e] assms(3) by simp
qed

lemma parse_to_newline:
  assumes "drop off T = s @ 10 # rest" "\<forall>c \<in> set s. \<not> is_newline c \<and> c \<noteq> 0" "rest = [] \<or> hd rest \<noteq> 13"
  shows "parse_string_loop 0 (at_pos T off) ref = (True, extend_ref ref off (length s), at_pos T (off + length s + 1))"
proof -
  have d: "drop (off + length s) T = 10 # rest" using drop_next [OF assms(1)] .
  have "token_len (10 # rest) = 1" using assms(3) by (cases rest) (auto simp: is_newline_pair_def)
  then have "parse_string_loop 0 (at_pos T (off + length s)) r = (True, r, at_pos T (off + length s + 1))" for r
    using getbasetoken_token [OF d] token_char_at [OF d] by (subst parse_string_loop.simps) (simp add: Let_def)
  then show ?thesis using parse_inside [OF assms(1), of 0] assms(2) by simp
qed

lemma section_line_text:
  assumes "drop off T = line_text item @ rest" "item_ok item" "rest = [] \<or> hd rest \<noteq> 13" "length T < 2 ^ 64"
    and "n = token_len (ci_name item @ 61 # escape (ci_value item) @ 10 # rest)"
  shows "section_line items \<lparr>bt_text = strref_set off n, bt_type = ty\<rparr> (at_pos T (off + n)) =
    Some (items @ [item], at_pos T (off + length (line_text item)))"
proof -
  let ?s = "ci_name item" let ?v = "escape (ci_value item)"
  have d: "drop off T = ?s @ 61 # ?v @ 10 # rest" using assms(1) by (simp add: line_text_def)
  have ok: "?s \<noteq> []" "\<forall>c \<in> set ?s. \<not> is_newline c \<and> c \<noteq> 0 \<and> c \<noteq> 61" "\<not> is_whitespace (hd ?s)" "\<not> is_whitespace (last ?s)"
    "0 \<notin> set (ci_value item)" "?v \<noteq> []" "\<not> is_whitespace (hd ?v)" "\<not> is_whitespace (last ?v)"
    using assms(2) escape_ends [of "ci_value item"] not_blank [OF _, of "hd ?s"] not_blank [OF _, of "last ?s"]
      hd_in_set [of ?s] last_in_set [of ?s] by (simp_all add: item_ok_def)
  obtain c cs where s: "?s = c # cs" using ok(1) by (cases ?s) auto
  have n: "n \<le> length ?s" using token_inside [of 61 c cs] ok(2) s unfolding assms(5) by (auto simp del: token_len.simps)
  have dn: "drop (off + n) T = drop n ?s @ 61 # ?v @ 10 # rest"
  proof -
    have "drop (off + n) T = drop n (drop off T)" by (simp add: add.commute)
    then show ?thesis using n d by simp
  qed
  have "parse_string_loop 61 (at_pos T (off + n)) (strref_set off n) =
      (True, strref_set off (length ?s), at_pos T (off + length ?s + 1))"
    using parse_to_char [OF dn, of "strref_set off n"] ok(2) extend_set [of off n "length ?s - n"] n
    by (auto dest: in_set_dropD)
  then have name: "config_parse_string (at_pos T (off + n)) (strref_set off n) 61 =
      Some (True, strref_set off (length ?s), at_pos T (off + length ?s + 1))"
    using keep_ref [OF d ok(1,3,4) assms(4)] by (simp add: config_parse_string_def)
  have dv: "drop (off + length ?s + 1) T = ?v @ 10 # rest" using drop_next [of off T "?s @ [61]"] d by simp
  have "parse_string_loop 0 (at_pos T (off + length ?s + 1)) strref_clear =
      (True, strref_set (off + length ?s + 1) (length ?v), at_pos T (off + length ?s + 1 + length ?v + 1))"
  proof -
    have "\<forall>c \<in> set ?v. \<not> is_newline c \<and> c \<noteq> 0"
      using escape_no_newline zero_free_escape [of "ci_value item"] ok(5) by metis
    then show ?thesis
      using parse_to_newline [OF dv _ assms(3), of strref_clear] ok(6) extend_clear [of "length ?v" "off + length ?s + 1"] by simp
  qed
  then have val: "config_parse_string (at_pos T (off + length ?s + 1)) strref_clear 0 =
      Some (True, strref_set (off + length ?s + 1) (length ?v), at_pos T (off + length ?s + 1 + length ?v + 1))"
    using keep_ref [OF dv ok(6-8) assms(4)] by (simp add: config_parse_string_def)
  have vlen: "off + length ?s + 1 + length ?v \<le> length T" using drop_le [OF dv ok(6)] .
  have u: "unat (word_of_nat (length ?v) :: 64 word) = length ?v" using vlen assms(4) by (simp add: unat_of_nat)
  have ne: "\<not> strref_is_empty T (strref_set (off + length ?s + 1) (length ?v))"
  proof -
    have "(word_of_nat (length ?v) :: 64 word) \<noteq> 0" using u ok(6) by (metis length_0_conv unat_0)
    moreover obtain x xs where x: "?v = x # xs" using ok(6) by (cases ?v) auto
    then have "char_at T (off + length ?s + 1) = x"
      using dv vlen by (metis append_Cons char_at_def drop_eq_Nil list.distinct(1) not_le hd_drop_conv_nth list.sel(1))
    moreover have "x \<noteq> 0" using ok(5) x zero_free_escape [of "ci_value item"] by auto
    ultimately show ?thesis by (simp add: strref_is_empty_def strref_set_def)
  qed
  have dT: "drop (off + length ?s + 1) (T @ [0]) = ?v @ 10 # rest @ [0]" using dv vlen by simp
  have pk: "peek (?v @ 10 # rest @ [0]) 0 (length ?v + 1) = Some (?v @ [10])"
    by (simp add: peek_def segment_def)
  have "poke (?v @ [10]) (length ?v) [0] = Some (?v @ [0])" using poke_at [of "[0]" "[10]" ?v] by simp
  then have nc: "dstr_ncopy dstr_init (Some (?v @ 10 # rest @ [0])) (length ?v) = Some (dstr_init\<lparr>ds_array := Some (?v @ [0]), ds_len := length ?v\<rparr>)"
    using pk ok(6) by (simp add: dstr_ncopy_def dstr_init_def)
  have un: "unescape (dstr_init\<lparr>ds_array := Some (?v @ [0]), ds_len := length ?v\<rparr>) = Some (ci_value item)"
    by (rule unescape_escape [OF ok(5)]) simp
  have "0 \<notin> set ?s" using ok(2) by auto
  then have dn: "dup_ref T (strref_set off (length ?s)) = Some ?s" using dup_ref_text [OF d ok(1) _ assms(4)] by blast
  have "config_add_item T items (strref_set off (length ?s)) (strref_set (off + length ?s + 1) (length ?v)) = Some (items @ [item])"
    using nc un dn dT u by (simp add: config_add_item_def strref_set_def del: drop_append)
  then show ?thesis using name val ne by (simp add: section_line_def line_text_def)
qed


subsection \<open>Sections\<close>

text \<open>The next token that is not a blank, after \<open>k\<close> newlines.\<close>

lemma newline_token: "drop off T = 10 # cs \<Longrightarrow> cs = [] \<or> hd cs \<noteq> 13 \<Longrightarrow>
    lexer_getbasetoken (at_pos T off) PARSE_WHITESPACE =
      (Some \<lparr>bt_text = strref_set off 1, bt_type = BASETOKEN_WHITESPACE\<rparr>, at_pos T (off + 1))"
  using getbasetoken_token [of off T 10 cs]
  by (cases cs) (auto simp: get_char_token_type_def is_whitespace_def run_type_def is_newline_pair_def)

lemma skip_blank: "bt_type t = BASETOKEN_WHITESPACE \<Longrightarrow> skip_whitespace t lx =
    (case lexer_getbasetoken lx PARSE_WHITESPACE of (None, lx) \<Rightarrow> (None, lx) | (Some token, lx) \<Rightarrow> skip_whitespace token lx)"
  by (subst skip_whitespace.simps) simp

lemma skip_other: "bt_type t \<noteq> BASETOKEN_WHITESPACE \<Longrightarrow> skip_whitespace t lx = (Some t, lx)"
  by (subst skip_whitespace.simps) simp

lemma next_token:
  assumes "drop off T = replicate k 10 @ c # cs" "c \<noteq> 0" "\<not> is_whitespace c"
  shows "\<exists>t lx. lexer_getbasetoken (at_pos T off) PARSE_WHITESPACE = (Some t, lx) \<and>
    skip_whitespace t lx = (Some \<lparr>bt_text = strref_set (off + k) (token_len (c # cs)), bt_type = get_char_token_type c\<rparr>,
      at_pos T (off + k + token_len (c # cs)))"
  using assms(1)
proof (induction k arbitrary: off)
  case 0
  then show ?case
    using getbasetoken_token [of off T c cs] assms(2,3) whitespace_type [of c] by (simp add: skip_other del: token_len.simps)
next
  case (Suc k)
  have d: "drop off T = 10 # replicate k 10 @ c # cs" using Suc.prems by simp
  have "drop (off + 1) T = replicate k 10 @ c # cs" using drop_next [of off T "[10]"] d by simp
  from Suc.IH [OF this] obtain t lx where t: "lexer_getbasetoken (at_pos T (off + 1)) PARSE_WHITESPACE = (Some t, lx)"
    "skip_whitespace t lx = (Some \<lparr>bt_text = strref_set (off + 1 + k) (token_len (c # cs)), bt_type = get_char_token_type c\<rparr>,
      at_pos T (off + 1 + k + token_len (c # cs)))" by blast
  have "c \<noteq> 13" using assms(3) by (auto simp: is_whitespace_def)
  then have "replicate k 10 @ c # cs = [] \<or> hd (replicate k 10 @ c # cs) \<noteq> 13" by (cases k) auto
  from newline_token [OF d this] show ?case
    using t by (simp add: skip_blank del: token_len.simps)
qed

lemma no_more_tokens:
  assumes "drop off T = replicate k 10"
  shows "lexer_getbasetoken (at_pos T off) PARSE_WHITESPACE = (None, at_pos T (off + k)) \<or>
    (\<exists>t lx. lexer_getbasetoken (at_pos T off) PARSE_WHITESPACE = (Some t, lx) \<and> skip_whitespace t lx = (None, at_pos T (off + k)))"
  using assms
proof (induction k arbitrary: off)
  case 0
  then show ?case using getbasetoken_end [of off T] by simp
next
  case (Suc k)
  have d: "drop off T = 10 # replicate k 10" using Suc.prems by simp
  have "drop (off + 1) T = replicate k 10" using drop_next [of off T "[10]"] d by simp
  from Suc.IH [OF this] newline_token [OF d] show ?case
    by (cases k) (auto simp: skip_blank)
qed

lemma item_head: "item_ok item \<Longrightarrow> \<exists>c cs. ci_name item = c # cs \<and> c \<noteq> 0 \<and> \<not> is_whitespace c \<and> c \<noteq> 35 \<and> c \<noteq> 91"
  using not_blank [of "hd (ci_name item)"] by (cases "ci_name item") (auto simp: item_ok_def)

lemma lines_head:
  assumes "\<forall>item \<in> set items. item_ok item" "tail = [] \<or> hd tail = 91"
  shows "concat (map line_text items) @ replicate j 10 @ tail = [] \<or> hd (concat (map line_text items) @ replicate j 10 @ tail) \<noteq> 13"
proof (cases items)
  case Nil
  then show ?thesis using assms(2) by (cases j) auto
next
  case (Cons item items')
  then obtain c cs where "ci_name item = c # cs" "\<not> is_whitespace c" using item_head assms(1) by fastforce
  then show ?thesis using Cons by (auto simp: line_text_def is_whitespace_def)
qed

lemma section_loop_text:
  assumes "drop off T = replicate k 10 @ concat (map line_text items) @ replicate j 10 @ tail"
    and "\<forall>item \<in> set items. item_ok item" "tail = [] \<or> hd tail = 91" "length T < 2 ^ 64"
  shows "section_loop acc (at_pos T off) =
    Some (acc @ items, at_pos T (off + k + length (concat (map line_text items)) + j))"
  using assms(1,2)
proof (induction items arbitrary: off k acc)
  case Nil
  have d: "drop off T = replicate (k + j) 10 @ tail" using Nil.prems(1) by (simp add: replicate_add)
  show ?case
  proof (cases tail)
    case Nil
    then show ?thesis
      using no_more_tokens [of off T "k + j"] d by (subst section_loop.simps) (auto simp: add.assoc)
  next
    case (Cons c cs)
    then have c: "c = 91" using assms(3) by simp
    obtain t lx where t: "lexer_getbasetoken (at_pos T off) PARSE_WHITESPACE = (Some t, lx)"
      "skip_whitespace t lx = (Some \<lparr>bt_text = strref_set (off + (k + j)) 1, bt_type = BASETOKEN_OTHER\<rparr>, at_pos T (off + (k + j) + 1))"
      using next_token [of off T "k + j" 91 cs] d Cons c
      by (auto simp: get_char_token_type_def is_whitespace_def run_type_def is_newline_pair_def)
    have "drop (off + (k + j)) T = 91 # cs" using drop_next [of off T "replicate (k + j) 10"] d Cons c by simp
    then show ?thesis using t token_char_at [of "off + (k + j)" T 91 cs] by (subst section_loop.simps) (simp add: add.assoc)
  qed
next
  case (Cons item items)
  let ?rest = "concat (map line_text items) @ replicate j 10 @ tail"
  have ok: "item_ok item" "\<forall>item \<in> set items. item_ok item" using Cons.prems(2) by auto
  obtain c cs where s: "ci_name item = c # cs" and c: "c \<noteq> 0" "\<not> is_whitespace c" "c \<noteq> 35" "c \<noteq> 91"
    using item_head [OF ok(1)] by blast
  have d: "drop off T = replicate k 10 @ line_text item @ ?rest" using Cons.prems(1) by simp
  have dk: "drop (off + k) T = line_text item @ ?rest" using drop_next [of off T "replicate k 10"] d by simp
  define n where "n = token_len (ci_name item @ 61 # escape (ci_value item) @ 10 # ?rest)"
  have "drop off T = replicate k 10 @ c # cs @ 61 # escape (ci_value item) @ 10 # ?rest"
    using d s by (simp add: line_text_def)
  from next_token [OF this c(1,2)] obtain t lx where t: "lexer_getbasetoken (at_pos T off) PARSE_WHITESPACE = (Some t, lx)"
    "skip_whitespace t lx = (Some \<lparr>bt_text = strref_set (off + k) n, bt_type = get_char_token_type c\<rparr>, at_pos T (off + k + n))"
    unfolding n_def s by (auto simp del: token_len.simps)
  have tc: "token_char (at_pos T (off + k + n)) \<lparr>bt_text = strref_set (off + k) n, bt_type = get_char_token_type c\<rparr> = c"
    using dk s by (intro token_char_at) (simp add: line_text_def)
  have line: "section_line acc \<lparr>bt_text = strref_set (off + k) n, bt_type = get_char_token_type c\<rparr> (at_pos T (off + k + n)) =
      Some (acc @ [item], at_pos T (off + k + length (line_text item)))"
    by (rule section_line_text [OF dk ok(1) lines_head [OF ok(2) assms(3)] assms(4)]) (simp only: n_def)
  have "section_loop acc (at_pos T off) = section_loop (acc @ [item]) (at_pos T (off + k + length (line_text item)))"
    using t tc line c by (subst section_loop.simps) simp
  also have "drop (off + k + length (line_text item)) T = replicate 0 10 @ ?rest" using drop_next [OF dk] by simp
  from Cons.IH [OF this ok(2)]
  have "section_loop (acc @ [item]) (at_pos T (off + k + length (line_text item))) =
      Some ((acc @ [item]) @ items, at_pos T (off + k + length (line_text item) + 0 + length (concat (map line_text items)) + j))" .
  finally show ?case by (simp add: add.assoc)
qed

definition section_ok :: "config_section \<Rightarrow> bool" where
  "section_ok sec \<longleftrightarrow>
     cs_name sec \<noteq> [] \<and> (\<forall>c \<in> set (cs_name sec). \<not> is_newline c \<and> c \<noteq> 0 \<and> c \<noteq> 93) \<and>
     \<not> is_space_or_tab (hd (cs_name sec)) \<and> \<not> is_space_or_tab (last (cs_name sec)) \<and>
     (\<forall>item \<in> set (cs_items sec). item_ok item)"

lemma config_text_head: "hd (config_text (sec # sections)) = 91"
  by (cases sections) (simp_all add: section_text_def)

lemma parse_config_text:
  assumes "drop off T = config_text sections" "\<forall>sec \<in> set sections. section_ok sec" "length T < 2 ^ 64"
  shows "parse_config_data acc (at_pos T off) = Some (acc @ sections)"
  using assms(1,2)
proof (induction sections arbitrary: off acc)
  case Nil
  then show ?case using getbasetoken_end [of off T] by (subst parse_config_data.simps) simp
next
  case (Cons sec sections)
  let ?s = "cs_name sec"
  define j where "j = (if sections = [] then 0 else 1 :: nat)"
  define tail where "tail = config_text sections"
  have tail: "tail = [] \<or> hd tail = 91"
    unfolding tail_def by (cases sections) (auto simp: config_text_head)
  have ok: "?s \<noteq> []" "\<forall>c \<in> set ?s. \<not> is_newline c \<and> c \<noteq> 0 \<and> c \<noteq> 93" "\<not> is_whitespace (hd ?s)" "\<not> is_whitespace (last ?s)"
      "\<forall>item \<in> set (cs_items sec). item_ok item"
    using Cons.prems(2) not_blank [OF _, of "hd ?s"] not_blank [OF _, of "last ?s"] hd_in_set [of ?s] last_in_set [of ?s]
    by (simp_all add: section_ok_def)
  let ?body = "replicate 1 10 @ concat (map line_text (cs_items sec)) @ replicate j 10 @ tail"
  have d: "drop off T = 91 # ?s @ 93 # ?body"
    using Cons.prems(1) by (cases sections) (simp_all add: section_text_def tail_def j_def)
  have t: "lexer_getbasetoken (at_pos T off) PARSE_WHITESPACE =
      (Some \<lparr>bt_text = strref_set off 1, bt_type = BASETOKEN_OTHER\<rparr>, at_pos T (off + 1))"
    using getbasetoken_token [OF d] by (auto simp: get_char_token_type_def is_whitespace_def run_type_def is_newline_pair_def)
  have tc: "token_char (at_pos T (off + 1)) \<lparr>bt_text = strref_set off 1, bt_type = BASETOKEN_OTHER\<rparr> = 91"
    by (rule token_char_at [OF d])
  have d1: "drop (off + 1) T = ?s @ 93 # ?body" using drop_next [of off T "[91]"] d by simp
  have d2: "drop (off + 1 + length ?s + 1) T = ?body" using drop_next [of "off + 1" T "?s @ [93]"] d1 by simp
  have "parse_string_loop 93 (at_pos T (off + 1)) strref_clear =
      (True, strref_set (off + 1) (length ?s), at_pos T (off + 1 + length ?s + 1))"
    using parse_to_char [OF d1, of strref_clear] ok(1,2) extend_clear [of "length ?s" "off + 1"] by simp
  then have name: "config_parse_string (at_pos T (off + 1)) strref_clear 93 =
      Some (True, strref_set (off + 1) (length ?s), at_pos T (off + 1 + length ?s + 1))"
    using keep_ref [OF d1 ok(1,3,4) assms(3)] by (simp add: config_parse_string_def)
  have len: "off + 1 + length ?s \<le> length T" using drop_le [OF d1 ok(1)] .
  then have nz: "ref_len (strref_set (off + 1) (length ?s)) \<noteq> 0"
    using assms(3) ok(1) unat_of_nat [where 'a = 64, of "length ?s"] by (auto simp: strref_set_def simp del: unat_of_nat)
  have "0 \<notin> set ?s" using ok(2) by auto
  then have dup: "dup_ref T (strref_set (off + 1) (length ?s)) = Some ?s" using dup_ref_text [OF d1 ok(1) _ assms(3)] by blast
  let ?stop = "off + 1 + length ?s + 1 + 1 + length (concat (map line_text (cs_items sec))) + j"
  have sec: "config_parse_section (at_pos T (off + 1 + length ?s + 1)) = Some (cs_items sec, at_pos T ?stop)"
    using section_loop_text [OF d2 ok(5) tail assms(3), of "[]"] by (simp add: config_parse_section_def)
  have eta: "\<lparr>cs_name = ?s, cs_items = cs_items sec\<rparr> = sec" by simp
  have "parse_config_data acc (at_pos T off) = parse_config_data (acc @ [\<lparr>cs_name = ?s, cs_items = cs_items sec\<rparr>]) (at_pos T ?stop)"
    using t tc name nz dup sec by (subst parse_config_data.simps) (simp add: skip_other)
  then have "parse_config_data acc (at_pos T off) = parse_config_data (acc @ [sec]) (at_pos T ?stop)"
    unfolding eta .
  also have "drop ?stop T = tail"
    using drop_next [of "off + 1 + length ?s + 1" T "replicate 1 10 @ concat (map line_text (cs_items sec)) @ replicate j 10" tail] d2
    by (simp add: add.assoc)
  then have "parse_config_data (acc @ [sec]) (at_pos T ?stop) = Some ((acc @ [sec]) @ sections)"
    using Cons.IH [of ?stop "acc @ [sec]"] Cons.prems(2) by (simp add: tail_def)
  finally show ?case by simp
qed


lemma section_ok_zero_free: "section_ok sec \<Longrightarrow> 0 \<notin> set (cs_name sec) \<and>
    (\<forall>item \<in> set (cs_items sec). 0 \<notin> set (ci_name item) \<and> 0 \<notin> set (ci_value item))"
  by (auto simp: section_ok_def item_ok_def)

lemma config_text_zero_free: "\<forall>sec \<in> set sections. section_ok sec \<Longrightarrow> 0 \<notin> set (config_text sections)"
proof (induction sections rule: config_text.induct)
  have sec_text: "0 \<notin> set (section_text sec)" if "section_ok sec" for sec
    using section_ok_zero_free [OF that] by (auto simp: section_text_def line_text_def)
  case (2 sec)
  then show ?case using sec_text by simp
next
  have sec_text: "0 \<notin> set (section_text sec)" if "section_ok sec" for sec
    using section_ok_zero_free [OF that] by (auto simp: section_text_def line_text_def)
  case (3 sec sec' sections)
  then show ?case using sec_text by simp
qed simp

lemma config_text_length: "sections \<noteq> [] \<Longrightarrow> 3 \<le> length (config_text sections)"
  by (induction sections rule: config_text.induct) (auto simp: section_text_def)

subsection \<open>Properties\<close>

text \<open>C36: a configuration that is saved and opened again has the same sections with the same items and values in the
  same order, also when values hold backslashes and newlines. Sections and names must be free of the
  delimiters, and neither they nor the values may be empty or begin or end with a blank.\<close>

theorem config_save_open:
  assumes "\<forall>sec \<in> set (cfg_sections config). section_ok sec" "length (config_text (cfg_sections config)) < 2 ^ 64"
    and "cfg_file config = Some file" "may_write file"
  shows "\<exists>fs'. config_save fresh win32 may_write fs config = Some (CONFIG_SUCCESS, fs') \<and>
    config_open may_write fs' file always_open =
      Some (CONFIG_SUCCESS, Some \<lparr>cfg_file = Some file, cfg_sections = cfg_sections config, cfg_defaults = []\<rparr>, fs')"
proof -
  let ?secs = "cfg_sections config" let ?T = "config_text (cfg_sections config)"
  have "\<forall>sec \<in> set ?secs. 0 \<notin> set (cs_name sec) \<and>
      (\<forall>item \<in> set (cs_items sec). 0 \<notin> set (ci_name item) \<and> 0 \<notin> set (ci_value item))"
    using assms(1) section_ok_zero_free by blast
  then obtain str where str: "save_sections fresh True dstr_init dstr_init ?secs = Some str" "dstr_holds str ?T"
    using save_sections_text [OF holds_init(1) holds_init(1), of ?secs fresh True] by auto
  then have bytes: "(if ds_len str = 0 then Some [] else ds_peek str 0 (ds_len str)) = Some ?T"
    by (auto simp: dstr_holds_def ds_peek_def peek_def segment_def split: option.splits)
  let ?fs = "fs(file \<mapsto> (if win32 then utf8_bom else []) @ ?T)"
  have save: "config_save fresh win32 may_write fs config = Some (CONFIG_SUCCESS, ?fs)"
    using assms(3,4) str(1) bytes by (simp add: config_save_def)
  have open_text: "config_parse_file may_write ?fs [] file always_open = Some (CONFIG_SUCCESS, ?secs, ?fs)"
  proof (cases "?secs = []")
    case True
    then show ?thesis by (simp add: config_parse_file_def os_fread_utf8_def utf8_bom_def)
  next
    case False
    have "take 3 ?T \<noteq> utf8_bom" using False by (cases ?secs) (auto simp: utf8_bom_def config_text_head take_Cons' dest!: arg_cong [of _ _ hd])
    then have "os_fread_utf8 ((if win32 then utf8_bom else []) @ ?T) = Some ?T"
      using config_text_length [OF False] by (auto simp: os_fread_utf8_def utf8_bom_def)
    moreover have "takeWhile (\<lambda>c. c \<noteq> 0) ?T = ?T"
      using config_text_zero_free [OF assms(1)] by (auto simp: takeWhile_eq_all_conv)
    moreover have "parse_config_data [] (lexer_start (Some ?T)) = Some ?secs"
      using parse_config_text [of 0 ?T ?secs "[]"] assms(1,2) by (simp add: lexer_start_def)
    ultimately have "\<And>rest. os_fread_utf8 ((if win32 then utf8_bom else []) @ ?T) = Some ?T \<and> takeWhile (\<lambda>c. c \<noteq> 0) ?T = ?T \<and>
        parse_config_data [] (lexer_start (Some ?T)) = Some ?secs" by blast
    then show ?thesis by (simp add: config_parse_file_def del: takeWhile_eq_all_conv)
  qed
  then show ?thesis using save by (simp add: config_open_def)
qed

definition sample_config :: config_data where
  "sample_config = \<lparr>cfg_file = Some [102], cfg_sections = [\<lparr>cs_name = [97], cs_items = [\<lparr>ci_name = [98], ci_value = [99, 10, 92]\<rparr>]\<rparr>],
     cfg_defaults = []\<rparr>"

theorem config_save_open_witness:
  "\<exists>fs'. config_save (\<lambda>_. 7) True (\<lambda>_. True) (\<lambda>_. None) sample_config = Some (CONFIG_SUCCESS, fs') \<and>
    map_option (\<lambda>(code, c, _). c) (config_open (\<lambda>_. True) fs' [102] False) = Some (Some sample_config)"
proof -
  have "\<forall>sec \<in> set (cfg_sections sample_config). section_ok sec" "length (config_text (cfg_sections sample_config)) < 2 ^ 64"
    by (auto simp: sample_config_def section_ok_def item_ok_def is_newline_def is_space_or_tab_def section_text_def line_text_def escape_char_def)
  from config_save_open [OF this, of "[102]" "\<lambda>_. True" "\<lambda>_. 7" True "\<lambda>_. None" False] show ?thesis
    by (auto simp: sample_config_def)
qed

text \<open>a value that is set is the value that is read, whatever the case of the names; it hides a default, other
  values keep theirs, and integers and booleans come back as they were set.\<close>

theorem config_set_get:
  assumes "names_ok (cfg_sections config)" "names_ok (cfg_defaults config)" "zero_free s" "zero_free n" "zero_free s'" "zero_free n'"
  shows "config_get_string (config_set_string config s n (Some v)) s' n' =
      (if same_name s s' \<and> same_name n n' then Some v else config_get_string config s' n') \<and>
    config_get_string (config_set_default_string config s n (Some v)) s' n' =
      (if same_name s s' \<and> same_name n n' \<and> \<not> config_has_user_value config s' n' then Some v else config_get_string config s' n') \<and>
    config_get_int (config_set_int config s n i) s n = i \<and> config_get_uint (config_set_uint config s n i) s n = i \<and>
    config_get_bool (config_set_bool config s n b) s n = b"
proof -
  have get: "config_get_string (config\<lparr>cfg_sections := config_set_item (cfg_sections config) s n u\<rparr>) s2 n2 =
      (if same_name s s2 \<and> same_name n n2 then Some u else config_get_string config s2 n2)"
    if "zero_free s2" "zero_free n2" for s2 n2 u
    using find_config_set [OF assms(1,3,4) that, of u]
    by (cases "config_find_item (config_set_item (cfg_sections config) s n u) s2 n2")
       (auto simp: config_get_string_def split: option.splits if_splits)
  have def: "config_get_string (config_set_default_string config s n (Some v)) s' n' =
      (if same_name s s' \<and> same_name n n' \<and> \<not> config_has_user_value config s' n' then Some v else config_get_string config s' n')"
    using find_config_set [OF assms(2-6), of v]
    by (auto simp: config_get_string_def config_set_default_string_def config_has_user_value_def split: option.splits if_splits)
  have "same_name s s" "same_name n n" by (simp_all add: same_name_def)
  then have own: "config_get_string (config\<lparr>cfg_sections := config_set_item (cfg_sections config) s n u\<rparr>) s n = Some u" for u
    using get [OF assms(3,4)] by simp
  have b: "astrcmpi (if b then true_str else false_str) true_str = 0 \<or> str_to_uint64 (if b then true_str else false_str) \<noteq> 0 \<longleftrightarrow> b"
    by (cases b) (simp_all add: true_str_def false_str_def toupper_def char_cmp_def str_to_uint64_def strtoull_def
        str_number_def is_space_ch_def strip_prefix_def digit_of_def)
  show ?thesis
    using get [OF assms(5,6), of v] def own int64_roundtrip [of i] uint64_roundtrip [of i] b
    by (simp add: config_set_string_def config_set_int_def config_get_int_def config_set_uint_def config_get_uint_def
        config_set_bool_def config_get_bool_def)
qed

theorem config_set_get_witness:
  "config_get_string (config_set_string sample_config [97] [66] (Some [120])) [65] [98] = Some [120]"
  using config_set_get [of sample_config "[97]" "[66]" "[65]" "[98]" "[120]"]
  by (simp add: sample_config_def names_ok_def zero_free_def same_name_def toupper_def)

text \<open>a line whose value is only a blank makes the parser run out of the text when a line follows: the blanks are stripped
  beyond the end of the value, its length wraps below zero, and as many bytes are copied.\<close>

theorem config_blank_value_faults:
  "config_open_string [91, 97, 93, 10, 98, 61, 32, 10, 99, 61, 100, 10] = None \<and>
   config_open_string [91, 97, 93, 10, 98, 61, 10, 99, 61, 100, 10] =
     Some \<lparr>cfg_file = None, cfg_sections = [\<lparr>cs_name = [97], cs_items = [\<lparr>ci_name = [99], ci_value = [100]\<rparr>]\<rparr>], cfg_defaults = []\<rparr>"
  by (simp add: config_open_string_def lexer_start_def parse_config_data.simps lexer_getbasetoken_def token_loop.simps Let_def
    get_char_token_type_def is_whitespace_def is_newline_def is_space_or_tab_def is_newline_pair_def char_at_def is_digit_ch_def
    skip_whitespace.simps token_char_def strref_set_def skip_line.simps config_parse_string_def parse_string_loop.simps strref_clear_def
    strref_add_def remove_ref_whitespace_def skip_front.simps trim_back.simps dup_ref_def peek_def segment_def config_parse_section_def
    section_loop.simps section_line_def strref_is_empty_def config_add_item_def dstr_ncopy_def dstr_init_def poke_def blit_def unescape_def unescape_loop.simps
    unescape_char_def rd_def)

end
