(* ===== verification/Encoder.thy ===== *)
theory Encoder
  imports Packet Circlebuf
begin

text \<open>
  Encoders (\<open>libobs/obs-encoder.c\<close>): the life cycle from initialisation to destruction, the cutting of
  the raw audio into frames of the size the codec wants, the pairing that makes the audio begin
  where the video begins, and the delivery of packets to the callbacks. The codec (\<open>info\<close>) is a
  parameter; \<open>'d\<close> is its object behind \<open>context.data\<close>. A callback is its function and its parameter, two
  numbers; it is called at most once per packet and its own effects are not modelled. A callback's
  mutex is held while it is used, so operations are atomic steps.

  What an encoder does to the outside is kept in the state: \<open>en_encoded\<close> the frames given to the codec,
  \<open>en_sent\<close> the calls of callbacks, \<open>en_connections\<close> the connections to the raw output, \<open>en_destroyed\<close>. \<open>None\<close>
  is a memory error or a failed assertion: reading beyond a buffer or calling a codec without its object.
\<close>

subsection \<open>Audio formats\<close>

datatype audio_format = AUDIO_FORMAT_UNKNOWN
  | AUDIO_FORMAT_U8BIT | AUDIO_FORMAT_16BIT | AUDIO_FORMAT_32BIT | AUDIO_FORMAT_FLOAT
  | AUDIO_FORMAT_U8BIT_PLANAR | AUDIO_FORMAT_16BIT_PLANAR | AUDIO_FORMAT_32BIT_PLANAR | AUDIO_FORMAT_FLOAT_PLANAR

datatype speaker_layout = SPEAKERS_UNKNOWN | SPEAKERS_MONO | SPEAKERS_STEREO | SPEAKERS_2POINT1 | SPEAKERS_QUAD
  | SPEAKERS_4POINT1 | SPEAKERS_5POINT1 | SPEAKERS_5POINT1_SURROUND | SPEAKERS_7POINT1 | SPEAKERS_7POINT1_SURROUND
  | SPEAKERS_SURROUND

record audio_convert_info =
  ac_samples_per_sec :: "32 word"
  ac_format :: audio_format
  ac_speakers :: speaker_layout

fun get_audio_channels :: "speaker_layout \<Rightarrow> nat" where
  "get_audio_channels SPEAKERS_MONO = 1"
| "get_audio_channels SPEAKERS_STEREO = 2"
| "get_audio_channels SPEAKERS_2POINT1 = 3"
| "get_audio_channels SPEAKERS_SURROUND = 4"
| "get_audio_channels SPEAKERS_QUAD = 4"
| "get_audio_channels SPEAKERS_4POINT1 = 5"
| "get_audio_channels SPEAKERS_5POINT1 = 6"
| "get_audio_channels SPEAKERS_5POINT1_SURROUND = 6"
| "get_audio_channels SPEAKERS_7POINT1 = 8"
| "get_audio_channels SPEAKERS_7POINT1_SURROUND = 8"
| "get_audio_channels SPEAKERS_UNKNOWN = 0"

fun get_audio_bytes_per_channel :: "audio_format \<Rightarrow> nat" where
  "get_audio_bytes_per_channel AUDIO_FORMAT_U8BIT = 1"
| "get_audio_bytes_per_channel AUDIO_FORMAT_U8BIT_PLANAR = 1"
| "get_audio_bytes_per_channel AUDIO_FORMAT_16BIT = 2"
| "get_audio_bytes_per_channel AUDIO_FORMAT_16BIT_PLANAR = 2"
| "get_audio_bytes_per_channel AUDIO_FORMAT_FLOAT = 4"
| "get_audio_bytes_per_channel AUDIO_FORMAT_FLOAT_PLANAR = 4"
| "get_audio_bytes_per_channel AUDIO_FORMAT_32BIT = 4"
| "get_audio_bytes_per_channel AUDIO_FORMAT_32BIT_PLANAR = 4"
| "get_audio_bytes_per_channel AUDIO_FORMAT_UNKNOWN = 0"

definition is_audio_planar :: "audio_format \<Rightarrow> bool" where
  "is_audio_planar format \<longleftrightarrow>
     format \<in> {AUDIO_FORMAT_U8BIT_PLANAR, AUDIO_FORMAT_FLOAT_PLANAR, AUDIO_FORMAT_16BIT_PLANAR, AUDIO_FORMAT_32BIT_PLANAR}"

definition get_audio_planes :: "audio_format \<Rightarrow> speaker_layout \<Rightarrow> nat" where
  "get_audio_planes format speakers = (if is_audio_planar format then get_audio_channels speakers else 1)"

definition get_audio_size :: "audio_format \<Rightarrow> speaker_layout \<Rightarrow> nat \<Rightarrow> nat" where
  "get_audio_size format speakers frames =
     (if is_audio_planar format then 1 else get_audio_channels speakers) * get_audio_bytes_per_channel format * frames"

subsection \<open>The encoder\<close>

abbreviation "MAX_AV_PLANES \<equiv> (8 :: nat)"

text \<open>Raw frames. The planes of \<open>audio_data\<close> hold \<open>frames\<close> blocks each.\<close>

record audio_data =
  ad_data :: "byte list list"
  ad_frames :: nat
  ad_timestamp :: "64 word"

record video_data =
  vd_data :: "byte list list"
  vd_linesize :: "nat list"
  vd_timestamp :: "64 word"

record encoder_frame =
  ef_data :: "byte option list list"
  ef_linesize :: "nat list"
  ef_frames :: nat
  ef_pts :: int

text \<open>The codec. \<open>ei_encode\<close> fills a packet that comes with its time base and encoder and returns whether it
  succeeded, whether there is a packet, the packet and the object afterwards.\<close>

record 'd encoder_info =
  ei_type :: obs_encoder_type
  ei_create :: "'d option"
  ei_get_frame_size :: "'d \<Rightarrow> nat"
  ei_get_audio_info :: "'d \<Rightarrow> audio_convert_info \<Rightarrow> audio_convert_info"
  ei_get_sei_data :: "'d \<Rightarrow> byte list option"
  ei_encode :: "'d \<Rightarrow> encoder_frame \<Rightarrow> encoder_packet \<Rightarrow> bool \<times> bool \<times> encoder_packet \<times> 'd"

record encoder_callback =
  ec_sent_first_packet :: bool
  ec_target :: "nat \<times> nat"

record 'd encoder =
  en_id :: nat
  en_context_data :: "'d option"
  en_samplerate :: "32 word"
  en_planes :: nat
  en_blocksize :: nat
  en_framesize :: nat
  en_framesize_bytes :: nat
  en_active :: bool
  en_initialized :: bool
  en_timebase_num :: int
  en_timebase_den :: int
  en_cur_pts :: int
  en_audio_input_buffer :: "byte circlebuf list"
  en_first_received :: bool
  en_paired :: bool
  en_offset_usec :: int
  en_first_raw_ts :: "64 word"
  en_start_ts :: "64 word"
  en_destroy_on_stop :: bool
  en_callbacks :: "encoder_callback list"
  en_encoded :: "encoder_frame list"
  en_sent :: "((nat \<times> nat) \<times> encoder_packet) list"
  en_connections :: nat
  en_destroyed :: bool

definition create_encoder :: "nat \<Rightarrow> int \<Rightarrow> int \<Rightarrow> 'd encoder" where
  "create_encoder ident tb_num tb_den =
     \<lparr>en_id = ident, en_context_data = None, en_samplerate = 0, en_planes = 0, en_blocksize = 0, en_framesize = 0,
      en_framesize_bytes = 0, en_active = False, en_initialized = False, en_timebase_num = tb_num, en_timebase_den = tb_den,
      en_cur_pts = 0, en_audio_input_buffer = replicate MAX_AV_PLANES circlebuf_init, en_first_received = False,
      en_paired = False, en_offset_usec = 0, en_first_raw_ts = 0, en_start_ts = 0, en_destroy_on_stop = False,
      en_callbacks = [], en_encoded = [], en_sent = [], en_connections = 0, en_destroyed = False\<rparr>"

subsection \<open>Life cycle\<close>

definition get_audio_info :: "'d encoder_info \<Rightarrow> audio_convert_info \<Rightarrow> 'd \<Rightarrow> audio_convert_info \<Rightarrow> audio_convert_info" where
  "get_audio_info ei aoi d info =
     ei_get_audio_info ei d
       \<lparr>ac_samples_per_sec = (if ac_samples_per_sec info = 0 then ac_samples_per_sec aoi else ac_samples_per_sec info),
        ac_format = (if ac_format info = AUDIO_FORMAT_UNKNOWN then ac_format aoi else ac_format info),
        ac_speakers = (if ac_speakers info = SPEAKERS_UNKNOWN then ac_speakers aoi else ac_speakers info)\<rparr>"

definition add_connection :: "'d encoder \<Rightarrow> 'd encoder" where
  "add_connection e = e\<lparr>en_connections := en_connections e + 1, en_active := True\<rparr>"

definition obs_encoder_shutdown :: "'d encoder \<Rightarrow> 'd encoder" where
  "obs_encoder_shutdown e =
     (if en_context_data e = None then e
      else e\<lparr>en_context_data := None, en_first_received := False, en_paired := False, en_offset_usec := 0, en_start_ts := 0\<rparr>)"

definition remove_connection :: "'d encoder \<Rightarrow> 'd encoder" where
  "remove_connection e = (obs_encoder_shutdown (e\<lparr>en_connections := en_connections e - 1\<rparr>))\<lparr>en_active := False\<rparr>"

definition free_audio_buffers :: "'d encoder \<Rightarrow> 'd encoder" where
  "free_audio_buffers e = e\<lparr>en_audio_input_buffer := map circlebuf_free (en_audio_input_buffer e)\<rparr>"

definition obs_encoder_actually_destroy :: "'d encoder \<Rightarrow> 'd encoder" where
  "obs_encoder_actually_destroy e =
     (free_audio_buffers e)\<lparr>en_context_data := None, en_callbacks := [], en_destroyed := True\<rparr>"

definition obs_encoder_destroy :: "'d encoder \<Rightarrow> 'd encoder" where
  "obs_encoder_destroy e =
     (if en_callbacks e = [] then obs_encoder_actually_destroy e else e\<lparr>en_destroy_on_stop := True\<rparr>)"

text \<open>The function of this name in the code has a spelling mistake.\<close>

definition intitialize_audio_encoder :: "'d encoder_info \<Rightarrow> audio_convert_info \<Rightarrow> 'd \<Rightarrow> 'd encoder \<Rightarrow> 'd encoder" where
  "intitialize_audio_encoder ei aoi d e =
     (let info = get_audio_info ei aoi d \<lparr>ac_samples_per_sec = 0, ac_format = AUDIO_FORMAT_UNKNOWN, ac_speakers = SPEAKERS_UNKNOWN\<rparr>;
          blocksize = get_audio_size (ac_format info) (ac_speakers info) 1;
          framesize = ei_get_frame_size ei d
      in free_audio_buffers (e\<lparr>en_samplerate := ac_samples_per_sec info,
           en_planes := get_audio_planes (ac_format info) (ac_speakers info),
           en_blocksize := blocksize, en_framesize := framesize, en_framesize_bytes := blocksize * framesize\<rparr>))"

definition obs_encoder_initialize :: "'d encoder_info \<Rightarrow> audio_convert_info \<Rightarrow> 'd encoder \<Rightarrow> bool \<times> 'd encoder" where
  "obs_encoder_initialize ei aoi e =
     (if en_active e then (True, e)
      else if en_initialized e then (True, e)
      else
        let e = obs_encoder_shutdown e
        in case ei_create ei of
             None \<Rightarrow> (False, e)
           | Some d \<Rightarrow>
               let e = e\<lparr>en_context_data := Some d\<rparr>;
                   e = (if ei_type ei = OBS_ENCODER_AUDIO then intitialize_audio_encoder ei aoi d e else e)
               in (True, e\<lparr>en_initialized := True\<rparr>))"

fun encoder_callback_idx :: "encoder_callback list \<Rightarrow> nat \<times> nat \<Rightarrow> nat option" where
  "encoder_callback_idx [] t = None"
| "encoder_callback_idx (cb # cbs) t =
     (if ec_target cb = t then Some 0 else map_option Suc (encoder_callback_idx cbs t))"

definition obs_encoder_start :: "'d encoder \<Rightarrow> nat \<times> nat \<Rightarrow> 'd encoder" where
  "obs_encoder_start e t =
     (if en_context_data e = None then e
      else
        let first = en_callbacks e = [];
            e = (case encoder_callback_idx (en_callbacks e) t of
                   None \<Rightarrow> e\<lparr>en_callbacks := en_callbacks e @ [\<lparr>ec_sent_first_packet = False, ec_target = t\<rparr>]\<rparr>
                 | Some _ \<Rightarrow> e)
        in if first then add_connection (e\<lparr>en_cur_pts := 0\<rparr>) else e)"

definition obs_encoder_stop :: "'d encoder \<Rightarrow> nat \<times> nat \<Rightarrow> 'd encoder" where
  "obs_encoder_stop e t =
     (case encoder_callback_idx (en_callbacks e) t of
        None \<Rightarrow> e
      | Some idx \<Rightarrow>
          let e = e\<lparr>en_callbacks := take idx (en_callbacks e) @ drop (Suc idx) (en_callbacks e)\<rparr>
          in if en_callbacks e = [] then
               let e = (remove_connection e)\<lparr>en_initialized := False\<rparr>
               in if en_destroy_on_stop e then obs_encoder_actually_destroy e else e
             else e)"

definition full_stop :: "'d encoder \<Rightarrow> 'd encoder" where
  "full_stop e = remove_connection (e\<lparr>en_callbacks := []\<rparr>)"

subsection \<open>Packets\<close>

definition new_packet :: "'d encoder \<Rightarrow> nat \<times> nat \<Rightarrow> encoder_packet \<Rightarrow> 'd encoder" where
  "new_packet e t packet = e\<lparr>en_sent := en_sent e @ [(t, packet)]\<rparr>"

definition get_sei :: "'d encoder_info \<Rightarrow> 'd encoder \<Rightarrow> byte list option" where
  "get_sei ei e = en_context_data e \<bind> ei_get_sei_data ei"

definition send_first_video_packet :: "'d encoder_info \<Rightarrow> 'd encoder \<Rightarrow> nat \<Rightarrow> encoder_packet \<Rightarrow> 'd encoder" where
  "send_first_video_packet ei e i packet =
     (let cb = en_callbacks e ! i;
          sent = e\<lparr>en_callbacks := (en_callbacks e)[i := cb\<lparr>ec_sent_first_packet := True\<rparr>]\<rparr>
      in if \<not> pkt_keyframe packet then e
         else case get_sei ei e of
                None \<Rightarrow> new_packet sent (ec_target cb) packet
              | Some sei \<Rightarrow> new_packet sent (ec_target cb) (packet\<lparr>pkt_data := sei @ pkt_data packet\<rparr>))"

definition encoder_send_packet :: "'d encoder_info \<Rightarrow> 'd encoder \<Rightarrow> nat \<Rightarrow> encoder_packet \<Rightarrow> 'd encoder" where
  "encoder_send_packet ei e i packet =
     (if ei_type ei = OBS_ENCODER_VIDEO \<and> \<not> ec_sent_first_packet (en_callbacks e ! i)
      then send_first_video_packet ei e i packet
      else new_packet e (ec_target (en_callbacks e ! i)) packet)"

text \<open>The callbacks are served from the last to the first.\<close>

fun send_to_callbacks :: "'d encoder_info \<Rightarrow> encoder_packet \<Rightarrow> 'd encoder \<Rightarrow> nat \<Rightarrow> 'd encoder" where
  "send_to_callbacks ei packet e 0 = e"
| "send_to_callbacks ei packet e (Suc i) = send_to_callbacks ei packet (encoder_send_packet ei e i packet) i"

definition do_encode :: "'d encoder_info \<Rightarrow> 'd encoder \<Rightarrow> encoder_frame \<Rightarrow> 'd encoder option" where
  "do_encode ei e frame =
     (case en_context_data e of
        None \<Rightarrow> None
      | Some d \<Rightarrow>
          (case ei_encode ei d frame (zero_packet\<lparr>pkt_timebase_num := en_timebase_num e,
                 pkt_timebase_den := en_timebase_den e, pkt_encoder := en_id e\<rparr>) of
             (success, received, pkt, d) \<Rightarrow>
               let e = e\<lparr>en_context_data := Some d, en_encoded := en_encoded e @ [frame]\<rparr>
               in if \<not> success then Some (full_stop e)
                  else if \<not> received then Some e
                  else
                    let e = (if \<not> en_first_received e
                             then e\<lparr>en_offset_usec := packet_dts_usec pkt, en_first_received := True\<rparr> else e);
                        pkt = pkt\<lparr>pkt_dts_usec := sint (en_start_ts e div 1000 + word_of_int (packet_dts_usec pkt)
                                - word_of_int (en_offset_usec e))\<rparr>
                    in Some (send_to_callbacks ei pkt e (length (en_callbacks e)))))"

subsection \<open>Raw video\<close>

text \<open>\<open>pair\<close> is the state of the paired encoder; it is only looked at when the encoder is paired.\<close>

definition receive_video :: "'d encoder_info \<Rightarrow> 'p encoder \<Rightarrow> 'd encoder \<Rightarrow> video_data \<Rightarrow> 'd encoder option" where
  "receive_video ei pair e frame =
     (if \<not> en_first_received e \<and> en_paired e \<and>
         (\<not> en_first_received pair \<or> en_first_raw_ts pair > vd_timestamp frame) then Some e
      else
        let e = (if en_start_ts e = 0 then e\<lparr>en_start_ts := vd_timestamp frame\<rparr> else e)
        in do {
          e \<leftarrow> do_encode ei e \<lparr>ef_data = map (map Some) (vd_data frame), ef_linesize = vd_linesize frame, ef_frames = 1,
                 ef_pts = en_cur_pts e\<rparr>;
          Some (e\<lparr>en_cur_pts := en_cur_pts e + en_timebase_num e\<rparr>) })"

subsection \<open>Raw audio\<close>

text \<open>An operation on the first \<open>planes\<close> input buffers.\<close>

definition clear_audio :: "'d encoder \<Rightarrow> 'd encoder" where
  "clear_audio e = e\<lparr>en_audio_input_buffer :=
     map circlebuf_free (take (en_planes e) (en_audio_input_buffer e)) @ drop (en_planes e) (en_audio_input_buffer e)\<rparr>"

text \<open>The bytes that are pushed: \<open>size\<close> has wrapped below zero when the offset is larger, and then the read leaves the block.\<close>

definition audio_bytes :: "byte option list \<Rightarrow> nat \<Rightarrow> nat \<Rightarrow> byte list option" where
  "audio_bytes block nbytes offset_size =
     (if offset_size \<le> nbytes \<and> nbytes \<le> length block
      then those (segment block offset_size (nbytes - offset_size)) else None)"

fun push_planes :: "byte circlebuf list \<Rightarrow> byte option list list \<Rightarrow> nat \<Rightarrow> nat \<Rightarrow> byte circlebuf list option" where
  "push_planes (buf # bufs) (block # blocks) nbytes offset_size = do {
     xs \<leftarrow> audio_bytes block nbytes offset_size;
     bufs \<leftarrow> push_planes bufs blocks nbytes offset_size;
     Some (circlebuf_push_back buf xs # bufs) }"
| "push_planes [] _ nbytes offset_size = Some []"
| "push_planes (buf # bufs) [] nbytes offset_size = None"

definition push_back_audio :: "'d encoder \<Rightarrow> byte option list list \<Rightarrow> nat \<Rightarrow> nat \<Rightarrow> 'd encoder option" where
  "push_back_audio e blocks nbytes offset_size =
     (if nbytes = offset_size then Some e
      else do {
        bufs \<leftarrow> push_planes (take (en_planes e) (en_audio_input_buffer e)) blocks nbytes offset_size;
        Some (e\<lparr>en_audio_input_buffer := bufs @ drop (en_planes e) (en_audio_input_buffer e)\<rparr>) })"

definition calc_offset_size :: "'d encoder \<Rightarrow> 64 word \<Rightarrow> 64 word \<Rightarrow> nat" where
  "calc_offset_size e v_start_ts a_start_ts =
     unat ((v_start_ts - a_start_ts) * ucast (en_samplerate e) div 1000000000 * word_of_nat (en_blocksize e))"

definition start_from_buffer :: "'d encoder \<Rightarrow> 64 word \<Rightarrow> 'd encoder option" where
  "start_from_buffer e v_start_ts =
     (let nbytes = cb_size (hd (en_audio_input_buffer e));
          blocks = map cb_data (en_audio_input_buffer e);
          e = e\<lparr>en_audio_input_buffer := map (\<lambda>_. circlebuf_init) (en_audio_input_buffer e)\<rparr>;
          offset_size = (if en_first_raw_ts e < v_start_ts then calc_offset_size e v_start_ts (en_first_raw_ts e) else 0)
      in push_back_audio e blocks nbytes offset_size)"

definition buffer_audio :: "'p encoder \<Rightarrow> 'd encoder \<Rightarrow> audio_data \<Rightarrow> (bool \<times> 'd encoder) option" where
  "buffer_audio pair e data =
     (let nbytes = ad_frames data * en_blocksize e;
          blocks = map (map Some) (ad_data data);
          push = (\<lambda>success e offset_size. map_option (Pair success) (push_back_audio e blocks nbytes offset_size))
      in if en_start_ts e = 0 \<and> en_paired e then
           let v_start_ts = en_start_ts pair
           in if v_start_ts = 0 then push False e 0
              else if en_samplerate e = 0 then None
              else
                let end_ts = ad_timestamp data + word_of_nat (ad_frames data) * 1000000000 div ucast (en_samplerate e)
                in if end_ts \<le> v_start_ts then push False e 0
                   else
                     let offset_size = (if ad_timestamp data < v_start_ts
                                        then calc_offset_size e v_start_ts (ad_timestamp data) else 0);
                         e = (if ad_timestamp data \<le> v_start_ts then clear_audio e else e);
                         e = e\<lparr>en_start_ts := v_start_ts\<rparr>
                     in if v_start_ts < ad_timestamp data
                        then map_option (Pair True) (start_from_buffer e v_start_ts)
                        else push True e offset_size
         else if en_start_ts e = 0 \<and> \<not> en_paired e then push True (e\<lparr>en_start_ts := ad_timestamp data\<rparr>) 0
         else push True e 0)"

fun pop_planes :: "byte circlebuf list \<Rightarrow> nat \<Rightarrow> (byte option list list \<times> byte circlebuf list) option" where
  "pop_planes [] n = Some ([], [])"
| "pop_planes (buf # bufs) n = do {
     (cells, buf) \<leftarrow> circlebuf_pop_front buf n;
     (blocks, bufs) \<leftarrow> pop_planes bufs n;
     Some (cells # blocks, buf # bufs) }"

definition send_audio_data :: "'d encoder_info \<Rightarrow> 'd encoder \<Rightarrow> 'd encoder option" where
  "send_audio_data ei e = do {
     (blocks, bufs) \<leftarrow> pop_planes (take (en_planes e) (en_audio_input_buffer e)) (en_framesize_bytes e);
     e \<leftarrow> do_encode ei (e\<lparr>en_audio_input_buffer := bufs @ drop (en_planes e) (en_audio_input_buffer e)\<rparr>)
       \<lparr>ef_data = blocks, ef_linesize = replicate (en_planes e) (en_framesize_bytes e), ef_frames = en_framesize e,
        ef_pts = en_cur_pts e\<rparr>;
     Some (e\<lparr>en_cur_pts := en_cur_pts e + int (en_framesize e)\<rparr>) }"

text \<open>Does not end when a frame has no bytes.\<close>

partial_function (option) send_audio_loop :: "'d encoder_info \<Rightarrow> 'd encoder \<Rightarrow> 'd encoder option" where
  "send_audio_loop ei e =
     (if en_framesize_bytes e \<le> cb_size (hd (en_audio_input_buffer e))
      then send_audio_data ei e \<bind> send_audio_loop ei
      else Some e)"

declare send_audio_loop.simps [code]

definition receive_audio :: "'d encoder_info \<Rightarrow> 'p encoder \<Rightarrow> 'd encoder \<Rightarrow> audio_data \<Rightarrow> 'd encoder option" where
  "receive_audio ei pair e data =
     (let e = (if en_first_received e then e
               else clear_audio (e\<lparr>en_first_raw_ts := ad_timestamp data, en_first_received := True\<rparr>))
      in do {
        (success, e) \<leftarrow> buffer_audio pair e data;
        if success then send_audio_loop ei e else Some e })"


subsection \<open>The life cycle\<close>

text \<open>What may happen to an encoder: the calls of the outputs while it exists, raw frames while it is connected, and
  an output pairing it with another encoder.\<close>

inductive enc_step :: "'d encoder_info \<Rightarrow> audio_convert_info \<Rightarrow> 'd encoder \<Rightarrow> 'd encoder \<Rightarrow> bool"
  for ei :: "'d encoder_info" and aoi :: audio_convert_info where
  initialize: "\<not> en_destroyed e \<Longrightarrow> enc_step ei aoi e (snd (obs_encoder_initialize ei aoi e))"
| start: "\<not> en_destroyed e \<Longrightarrow> enc_step ei aoi e (obs_encoder_start e t)"
| stop: "\<not> en_destroyed e \<Longrightarrow> enc_step ei aoi e (obs_encoder_stop e t)"
| destroy: "\<not> en_destroyed e \<Longrightarrow> enc_step ei aoi e (obs_encoder_destroy e)"
| pair: "enc_step ei aoi e (e\<lparr>en_paired := True\<rparr>)"
| video: "en_connections e > 0 \<Longrightarrow> receive_video ei (p :: 'd encoder) e frame = Some e' \<Longrightarrow> enc_step ei aoi e e'"
| audio: "en_connections e > 0 \<Longrightarrow> receive_audio ei (p :: 'd encoder) e data = Some e' \<Longrightarrow> enc_step ei aoi e e'"

inductive enc_reachable :: "'d encoder_info \<Rightarrow> audio_convert_info \<Rightarrow> 'd encoder \<Rightarrow> 'd encoder \<Rightarrow> bool"
  for ei :: "'d encoder_info" and aoi :: audio_convert_info and e0 :: "'d encoder" where
  initial: "enc_reachable ei aoi e0 e0"
| step: "enc_reachable ei aoi e0 e \<Longrightarrow> enc_step ei aoi e e' \<Longrightarrow> enc_reachable ei aoi e0 e'"

definition enc_inv :: "'d encoder \<Rightarrow> bool" where
  "enc_inv e \<longleftrightarrow> (en_active e \<longleftrightarrow> en_callbacks e \<noteq> []) \<and>
     en_connections e = (if en_callbacks e = [] then 0 else 1) \<and>
     (en_callbacks e \<noteq> [] \<longrightarrow> en_context_data e \<noteq> None) \<and> (en_context_data e \<noteq> None \<longrightarrow> en_initialized e) \<and>
     distinct (map ec_target (en_callbacks e)) \<and> (en_destroyed e \<longrightarrow> en_callbacks e = [] \<and> en_context_data e = None)"

text \<open>An operation that touches none of the fields of the invariant but the marks of the callbacks.\<close>

definition same_life :: "'d encoder \<Rightarrow> 'd encoder \<Rightarrow> bool" where
  "same_life e e' \<longleftrightarrow> en_active e' = en_active e \<and> map ec_target (en_callbacks e') = map ec_target (en_callbacks e) \<and>
     en_connections e' = en_connections e \<and> (en_context_data e' = None \<longleftrightarrow> en_context_data e = None) \<and>
     en_initialized e' = en_initialized e \<and> en_destroyed e' = en_destroyed e"

lemma same_life_refl [simp]: "same_life e e"
  by (simp add: same_life_def)

lemma same_life_trans: "same_life a b \<Longrightarrow> same_life b c \<Longrightarrow> same_life a c"
  by (auto simp: same_life_def)

lemma same_life_inv: "same_life e e' \<Longrightarrow> enc_inv e \<Longrightarrow> enc_inv e'"
  using arg_cong [of _ _ "\<lambda>xs. xs = []"] by (fastforce simp: same_life_def enc_inv_def)

lemma targets_marked: "map ec_target (cbs[i := (cbs ! i)\<lparr>ec_sent_first_packet := b\<rparr>]) = map ec_target cbs"
  by (cases "i < length cbs") (simp_all add: map_update list_update_same_conv list_update_beyond)

lemma encoder_send_life: "same_life e (encoder_send_packet ei e i packet)"
  by (auto simp: encoder_send_packet_def send_first_video_packet_def new_packet_def same_life_def targets_marked Let_def split: option.split)

lemma send_to_callbacks_life: "same_life e (send_to_callbacks ei packet e n)"
  by (induction n arbitrary: e) (auto intro: same_life_trans encoder_send_life)

lemma shutdown_life:
  "en_active (obs_encoder_shutdown e) = en_active e" "en_callbacks (obs_encoder_shutdown e) = en_callbacks e"
  "en_connections (obs_encoder_shutdown e) = en_connections e" "en_context_data (obs_encoder_shutdown e) = None"
  "en_initialized (obs_encoder_shutdown e) = en_initialized e" "en_destroyed (obs_encoder_shutdown e) = en_destroyed e"
  by (simp_all add: obs_encoder_shutdown_def)

lemma full_stop_inv: "enc_inv e \<Longrightarrow> enc_inv (full_stop e)"
  by (auto simp: enc_inv_def full_stop_def remove_connection_def shutdown_life)

lemma do_encode_inv: "do_encode ei e frame = Some e' \<Longrightarrow> enc_inv e \<Longrightarrow> enc_inv e'"
proof -
  assume r: "do_encode ei e frame = Some e'" and inv: "enc_inv e"
  obtain d where d: "en_context_data e = Some d" using r by (auto simp: do_encode_def split: option.splits)
  obtain success received pkt d' where enc: "ei_encode ei d frame (zero_packet\<lparr>pkt_timebase_num := en_timebase_num e,
      pkt_timebase_den := en_timebase_den e, pkt_encoder := en_id e\<rparr>) = (success, received, pkt, d')" by (metis prod_cases4)
  let ?e = "e\<lparr>en_context_data := Some d', en_encoded := en_encoded e @ [frame]\<rparr>"
  have inv1: "enc_inv ?e" using inv d by (auto simp: enc_inv_def)
  have inv2: "enc_inv (?e\<lparr>en_offset_usec := u, en_first_received := True\<rparr>)" for u
    using inv1 by (simp add: enc_inv_def)
  show ?thesis
    using r d enc full_stop_inv [OF inv1] same_life_inv [OF send_to_callbacks_life inv1] same_life_inv [OF send_to_callbacks_life inv2] inv1
    by (auto simp: do_encode_def Let_def split: if_splits)
qed

lemma receive_video_inv:
  assumes "receive_video ei p e frame = Some e'" "enc_inv e"
  shows "enc_inv e'"
proof -
  have "enc_inv (e\<lparr>en_start_ts := t\<rparr>)" "\<And>e. enc_inv e \<Longrightarrow> enc_inv (e\<lparr>en_cur_pts := c\<rparr>)" for t c
    using assms(2) by (auto simp: enc_inv_def)
  then show ?thesis
    using assms by (auto simp: receive_video_def Let_def split: if_splits Option.bind_splits dest!: do_encode_inv)
qed

lemma push_back_audio_life: "push_back_audio e blocks n off = Some e' \<Longrightarrow> same_life e e'"
  by (auto simp: push_back_audio_def same_life_def split: if_splits Option.bind_splits)

lemma buffer_audio_life: "buffer_audio p e data = Some (success, e') \<Longrightarrow> same_life e e'"
  by (auto simp: buffer_audio_def start_from_buffer_def Let_def clear_audio_def same_life_def
      split: if_splits dest!: push_back_audio_life)

lemma send_audio_data_inv: "send_audio_data ei e = Some e' \<Longrightarrow> enc_inv e \<Longrightarrow> enc_inv e'"
proof -
  assume r: "send_audio_data ei e = Some e'" and inv: "enc_inv e"
  obtain bufs f e1 where e1: "do_encode ei (e\<lparr>en_audio_input_buffer := bufs\<rparr>) f = Some e1"
    and e': "e' = e1\<lparr>en_cur_pts := en_cur_pts e1 + int (en_framesize e1)\<rparr>"
    using r by (auto simp: send_audio_data_def split: Option.bind_splits)
  have "enc_inv (e\<lparr>en_audio_input_buffer := bufs\<rparr>)" using inv by (auto simp: enc_inv_def)
  from do_encode_inv [OF e1 this] show "enc_inv e'" by (auto simp: e' enc_inv_def)
qed

lemma send_audio_loop_inv: "send_audio_loop ei e = Some e' \<Longrightarrow> enc_inv e \<Longrightarrow> enc_inv e'"
proof -
  assume r: "send_audio_loop ei e = Some e'" and inv: "enc_inv e"
  have "enc_inv e \<longrightarrow> enc_inv e'"
    by (rule send_audio_loop.raw_induct [where P = "\<lambda>ei e e'. enc_inv e \<longrightarrow> enc_inv e'", OF _ r])
       (auto split: if_splits Option.bind_splits dest: send_audio_data_inv)
  then show ?thesis using inv by simp
qed

lemma receive_audio_inv:
  assumes "receive_audio ei p e data = Some e'" "enc_inv e"
  shows "enc_inv e'"
proof -
  let ?e = "if en_first_received e then e else clear_audio (e\<lparr>en_first_raw_ts := ad_timestamp data, en_first_received := True\<rparr>)"
  have inv: "enc_inv ?e" using assms(2) by (auto simp: enc_inv_def clear_audio_def)
  obtain success e1 where b: "buffer_audio p ?e data = Some (success, e1)"
    and e': "(if success then send_audio_loop ei e1 else Some e1) = Some e'"
    using assms(1) by (auto simp: receive_audio_def Let_def split: Option.bind_splits)
  have "enc_inv e1" using same_life_inv [OF buffer_audio_life [OF b] inv] .
  then show ?thesis using e' send_audio_loop_inv by (auto split: if_splits)
qed

lemma callback_idx_None: "encoder_callback_idx cbs t = None \<longleftrightarrow> t \<notin> ec_target ` set cbs"
  by (induction cbs) auto

lemma callback_idx_Some: "encoder_callback_idx cbs t = Some i \<Longrightarrow> i < length cbs"
  by (induction cbs arbitrary: i) (auto split: if_splits)

lemma enc_step_inv: "enc_step ei aoi e e' \<Longrightarrow> enc_inv e \<Longrightarrow> enc_inv e'"
proof (induction rule: enc_step.induct)
  case (initialize e)
  then show ?case
    by (auto simp: obs_encoder_initialize_def enc_inv_def shutdown_life intitialize_audio_encoder_def free_audio_buffers_def Let_def
        split: option.split)
next
  case (start e t)
  then show ?case
    by (auto simp: obs_encoder_start_def enc_inv_def add_connection_def callback_idx_None Let_def split: option.split)
next
  case (stop e t)
  show ?case
  proof (cases "encoder_callback_idx (en_callbacks e) t")
    case None
    then show ?thesis using stop by (simp add: obs_encoder_stop_def)
  next
    case (Some i)
    have "distinct (map ec_target (take i (en_callbacks e) @ drop (Suc i) (en_callbacks e)))"
      using stop(2) distinct_append [of "map ec_target (take i (en_callbacks e))"] 
      by (auto simp: enc_inv_def take_map [symmetric] drop_map [symmetric] set_take_disj_set_drop_if_distinct)
    moreover have "en_callbacks e \<noteq> []" using callback_idx_Some [OF Some] by auto
    ultimately show ?thesis
      using stop Some
      by (auto simp: obs_encoder_stop_def enc_inv_def remove_connection_def shutdown_life obs_encoder_actually_destroy_def
          free_audio_buffers_def Let_def)
  qed
next
  case (destroy e)
  then show ?case
    by (auto simp: obs_encoder_destroy_def enc_inv_def obs_encoder_actually_destroy_def free_audio_buffers_def)
next
  case (pair e)
  then show ?case by (auto simp: enc_inv_def)
next
  case (video e p frame e')
  then show ?case using receive_video_inv by blast
next
  case (audio e p data e')
  then show ?case using receive_audio_inv by blast
qed

lemma enc_reachable_inv: "enc_reachable ei aoi e0 e \<Longrightarrow> enc_inv e0 \<Longrightarrow> enc_inv e"
  by (induction rule: enc_reachable.induct) (auto intro: enc_step_inv)


subsection \<open>Delivery of packets\<close>

definition sent_to :: "nat \<times> nat \<Rightarrow> 'd encoder \<Rightarrow> encoder_packet list" where
  "sent_to t e = map snd (filter (\<lambda>(u, _). u = t) (en_sent e))"

definition send_all :: "'d encoder_info \<Rightarrow> 'd encoder \<Rightarrow> encoder_packet \<Rightarrow> 'd encoder" where
  "send_all ei e packet = send_to_callbacks ei packet e (length (en_callbacks e))"

text \<open>What a callback gets of a packet: whether it has had its first packet decides.\<close>

definition with_sei :: "byte list option \<Rightarrow> encoder_packet \<Rightarrow> encoder_packet" where
  "with_sei sei packet = (case sei of None \<Rightarrow> packet | Some bytes \<Rightarrow> packet\<lparr>pkt_data := bytes @ pkt_data packet\<rparr>)"

definition waits :: "'d encoder_info \<Rightarrow> encoder_callback \<Rightarrow> encoder_packet \<Rightarrow> bool" where
  "waits ei cb packet \<longleftrightarrow> ei_type ei = OBS_ENCODER_VIDEO \<and> \<not> ec_sent_first_packet cb \<and> \<not> pkt_keyframe packet"

definition shown :: "'d encoder_info \<Rightarrow> byte list option \<Rightarrow> encoder_callback \<Rightarrow> encoder_packet \<Rightarrow> encoder_packet list" where
  "shown ei sei cb packet =
     (if waits ei cb packet then []
      else if ei_type ei = OBS_ENCODER_VIDEO \<and> \<not> ec_sent_first_packet cb then [with_sei sei packet] else [packet])"

definition served :: "'d encoder_info \<Rightarrow> encoder_packet \<Rightarrow> encoder_callback \<Rightarrow> encoder_callback" where
  "served ei packet cb =
     (if ei_type ei = OBS_ENCODER_VIDEO \<and> pkt_keyframe packet then cb\<lparr>ec_sent_first_packet := True\<rparr> else cb)"

lemma encoder_send_eq:
  assumes "i < length (en_callbacks e)"
  shows "encoder_send_packet ei e i packet = e\<lparr>en_callbacks := (en_callbacks e)[i := served ei packet (en_callbacks e ! i)],
    en_sent := en_sent e @ map (Pair (ec_target (en_callbacks e ! i))) (shown ei (get_sei ei e) (en_callbacks e ! i) packet)\<rparr>"
proof (cases "ei_type ei = OBS_ENCODER_VIDEO \<and> \<not> ec_sent_first_packet (en_callbacks e ! i)")
  case True
  show ?thesis
  proof (cases "pkt_keyframe packet")
    case True
    with \<open>ei_type ei = OBS_ENCODER_VIDEO \<and> _\<close> show ?thesis
      by (cases "get_sei ei e") (simp_all add: encoder_send_packet_def send_first_video_packet_def new_packet_def shown_def waits_def
          with_sei_def served_def Let_def)
  next
    case False
    with \<open>ei_type ei = OBS_ENCODER_VIDEO \<and> _\<close> show ?thesis
      by (simp add: encoder_send_packet_def send_first_video_packet_def shown_def waits_def served_def Let_def)
  qed
next
  case False
  let ?cb = "en_callbacks e ! i"
  have "served ei packet ?cb = ?cb" using False by (cases ?cb) (auto simp: served_def)
  moreover have "shown ei sei ?cb packet = [packet]" for sei using False by (auto simp: shown_def waits_def)
  moreover have "encoder_send_packet ei e i packet = new_packet e (ec_target ?cb) packet"
    using False by (simp only: encoder_send_packet_def if_False)
  moreover have "e = e\<lparr>en_callbacks := en_callbacks e\<rparr>" by simp
  ultimately show ?thesis by (simp add: new_packet_def)
qed

lemma send_to_callbacks_eq:
  "n \<le> length (en_callbacks e) \<Longrightarrow>
   send_to_callbacks ei packet e n = e\<lparr>en_callbacks := map (served ei packet) (take n (en_callbacks e)) @ drop n (en_callbacks e),
     en_sent := en_sent e @ concat (map (\<lambda>cb. map (Pair (ec_target cb)) (shown ei (get_sei ei e) cb packet)) (rev (take n (en_callbacks e))))\<rparr>"
proof (induction n arbitrary: e)
  case (Suc n)
  let ?cb = "en_callbacks e ! n"
  have n: "n < length (en_callbacks e)" using Suc.prems by simp
  have sei: "get_sei ei (e\<lparr>en_callbacks := c, en_sent := s\<rparr>) = get_sei ei e" for c s by (simp add: get_sei_def)
  have t: "take (Suc n) (en_callbacks e) = take n (en_callbacks e) @ [?cb]" using n by (simp add: take_Suc_conv_app_nth)
  have d: "drop n ((en_callbacks e)[n := x]) = x # drop (Suc n) (en_callbacks e)" for x
    using n by (simp add: drop_update_swap Cons_nth_drop_Suc [symmetric])
  show ?case
    using Suc.IH [of "encoder_send_packet ei e n packet"] n
    by (simp add: encoder_send_eq [OF n] sei t d)
qed simp

lemma send_all_eq:
  "send_all ei e packet = e\<lparr>en_callbacks := map (served ei packet) (en_callbacks e),
     en_sent := en_sent e @ concat (map (\<lambda>cb. map (Pair (ec_target cb)) (shown ei (get_sei ei e) cb packet)) (rev (en_callbacks e)))\<rparr>"
  using send_to_callbacks_eq [of "length (en_callbacks e)" e ei packet] by (simp add: send_all_def)

lemma sent_to_others:
  "t \<notin> ec_target ` set cbs \<Longrightarrow> filter (\<lambda>(u, _). u = t) (concat (map (\<lambda>cb. map (Pair (ec_target cb)) (f cb)) cbs)) = []"
  by (auto simp: filter_empty_conv)

lemma filter_own: "filter (\<lambda>(u, _). u = t) (map (Pair t) ps) = map (Pair t) ps"
  by (auto intro!: filter_True)

lemma sent_to_own:
  assumes "distinct (map ec_target cbs)" "cb \<in> set cbs"
  shows "map snd (filter (\<lambda>(u, _). u = ec_target cb) (concat (map (\<lambda>cb. map (Pair (ec_target cb)) (f cb)) cbs))) = f cb"
  using assms
proof (induction cbs)
  case (Cons c cbs)
  show ?case
  proof (cases "cb = c")
    case True
    then have "ec_target cb \<notin> ec_target ` set cbs" using Cons.prems(1) by simp
    from sent_to_others [OF this, of f] show ?thesis using True by (simp add: filter_own comp_def)
  next
    case False
    then have "cb \<in> set cbs" "ec_target c \<noteq> ec_target cb" using Cons.prems by auto
    moreover have "filter (\<lambda>(u, _). u = ec_target cb) (map (Pair (ec_target c)) (f c)) = []"
      using calculation(2) by (auto simp: filter_empty_conv)
    ultimately show ?thesis using Cons by simp
  qed
qed simp

text \<open>The packets that a callback gets of a stream.\<close>

fun delivered :: "'d encoder_info \<Rightarrow> byte list option \<Rightarrow> encoder_callback \<Rightarrow> encoder_packet list \<Rightarrow> encoder_packet list" where
  "delivered ei sei cb [] = []"
| "delivered ei sei cb (p # ps) = shown ei sei cb p @ delivered ei sei (served ei p cb) ps"

lemma send_all_step:
  assumes "distinct (map ec_target (en_callbacks e))" "cb \<in> set (en_callbacks e)"
  shows "sent_to (ec_target cb) (send_all ei e p) = sent_to (ec_target cb) e @ shown ei (get_sei ei e) cb p"
    and "distinct (map ec_target (en_callbacks (send_all ei e p)))" "served ei p cb \<in> set (en_callbacks (send_all ei e p))"
    and "get_sei ei (send_all ei e p) = get_sei ei e" "ec_target (served ei p cb) = ec_target cb"
proof -
  have "distinct (map ec_target (rev (en_callbacks e)))" using assms(1) by (simp add: rev_map [symmetric])
  from sent_to_own [OF this, of cb "\<lambda>cb. shown ei (get_sei ei e) cb p"] assms(2)
  show "sent_to (ec_target cb) (send_all ei e p) = sent_to (ec_target cb) e @ shown ei (get_sei ei e) cb p"
    by (simp add: send_all_eq sent_to_def)
  have "ec_target \<circ> served ei p = ec_target" by (rule ext) (simp add: served_def)
  then show "distinct (map ec_target (en_callbacks (send_all ei e p)))" using assms(1) by (simp add: send_all_eq)
  show "served ei p cb \<in> set (en_callbacks (send_all ei e p))" using assms(2) by (simp add: send_all_eq)
  show "get_sei ei (send_all ei e p) = get_sei ei e" by (simp add: send_all_eq get_sei_def)
  show "ec_target (served ei p cb) = ec_target cb" by (simp add: served_def)
qed

lemma send_all_delivered:
  assumes "distinct (map ec_target (en_callbacks e))" "cb \<in> set (en_callbacks e)"
  shows "sent_to (ec_target cb) (foldl (send_all ei) e ps) = sent_to (ec_target cb) e @ delivered ei (get_sei ei e) cb ps"
  using assms
proof (induction ps arbitrary: e cb)
  case (Cons p ps)
  note s = send_all_step [OF Cons.prems, of ei p]
  show ?case using Cons.IH [OF s(2,3)] s by simp
qed simp

lemma delivered_after_first: "ec_sent_first_packet cb \<or> ei_type ei = OBS_ENCODER_AUDIO \<Longrightarrow> delivered ei sei cb ps = ps"
  by (induction ps arbitrary: cb) (auto simp: shown_def waits_def served_def)

lemma delivered_from_keyframe:
  "ei_type ei = OBS_ENCODER_VIDEO \<Longrightarrow> \<not> ec_sent_first_packet cb \<Longrightarrow>
   delivered ei sei cb ps = (case dropWhile (\<lambda>p. \<not> pkt_keyframe p) ps of [] \<Rightarrow> [] | p # qs \<Rightarrow> with_sei sei p # qs)"
  by (induction ps) (auto simp: shown_def waits_def served_def delivered_after_first)

subsection \<open>Properties of the life cycle and of the delivery\<close>

text \<open>C17: whatever the outputs and the raw media do, an encoder is connected to the raw output, once, exactly while it has
  callbacks, it then has its codec, every callback is listed once, and a destroyed encoder has none.\<close>

theorem encoder_lifecycle:
  assumes "enc_reachable ei aoi (create_encoder ident num den) e"
  shows "(en_active e \<longleftrightarrow> en_callbacks e \<noteq> []) \<and> en_connections e = (if en_callbacks e = [] then 0 else 1) \<and>
    (en_callbacks e \<noteq> [] \<longrightarrow> en_context_data e \<noteq> None) \<and> distinct (map ec_target (en_callbacks e)) \<and>
    (en_destroyed e \<longrightarrow> en_callbacks e = [] \<and> en_context_data e = None)"
proof -
  have "enc_inv (create_encoder ident num den)" by (simp add: enc_inv_def create_encoder_def)
  from enc_reachable_inv [OF assms this] show ?thesis by (simp add: enc_inv_def)
qed

text \<open>A codec whose object counts the frames and that makes a key frame of every second one.\<close>

definition sample_codec :: "obs_encoder_type \<Rightarrow> nat encoder_info" where
  "sample_codec ty = \<lparr>ei_type = ty, ei_create = Some 0, ei_get_frame_size = (\<lambda>_. 2),
     ei_get_audio_info = (\<lambda>_ info. info), ei_get_sei_data = (\<lambda>_. Some [6]),
     ei_encode = (\<lambda>n frame pkt. (True, True, pkt\<lparr>pkt_type := ty, pkt_pts := ef_pts frame, pkt_dts := ef_pts frame,
        pkt_keyframe := odd n, pkt_data := [word_of_nat n]\<rparr>, n + 1))\<rparr>"

definition stereo_planar :: audio_convert_info where
  "stereo_planar = \<lparr>ac_samples_per_sec = 1000, ac_format = AUDIO_FORMAT_U8BIT_PLANAR, ac_speakers = SPEAKERS_STEREO\<rparr>"

definition started_encoder :: "obs_encoder_type \<Rightarrow> nat encoder" where
  "started_encoder ty = obs_encoder_start (snd (obs_encoder_initialize (sample_codec ty) stereo_planar (create_encoder 1 1 30))) (1, 2)"

theorem encoder_lifecycle_witness: "en_active (started_encoder OBS_ENCODER_VIDEO) \<and> en_connections (started_encoder OBS_ENCODER_VIDEO) = 1"
proof -
  let ?ei = "sample_codec OBS_ENCODER_VIDEO" let ?e0 = "create_encoder 1 1 30 :: nat encoder"
  let ?e1 = "snd (obs_encoder_initialize ?ei stereo_planar ?e0)"
  have "enc_reachable ?ei stereo_planar ?e0 ?e1"
    by (rule enc_reachable.step [OF enc_reachable.initial enc_step.initialize]) (simp add: create_encoder_def)
  then have "enc_reachable ?ei stereo_planar ?e0 (started_encoder OBS_ENCODER_VIDEO)"
    unfolding started_encoder_def
    by (rule enc_reachable.step [OF _ enc_step.start]) (simp add: create_encoder_def obs_encoder_initialize_def sample_codec_def obs_encoder_shutdown_def)
  from encoder_lifecycle [OF this] show ?thesis
    by (simp add: started_encoder_def obs_encoder_start_def create_encoder_def obs_encoder_initialize_def sample_codec_def obs_encoder_shutdown_def
        add_connection_def)
qed

text \<open>C18: of the packets of a video encoder a callback gets all from the first key frame on that comes after it was added, in
  order, the first with the SEI data of the codec in front; a callback that has had a packet, and every
  callback of an audio encoder, gets all.\<close>

theorem encoder_delivery:
  assumes "distinct (map ec_target (en_callbacks e))" "cb \<in> set (en_callbacks e)"
  shows "sent_to (ec_target cb) (foldl (send_all ei) e ps) = sent_to (ec_target cb) e @
    (if ei_type ei = OBS_ENCODER_VIDEO \<and> \<not> ec_sent_first_packet cb
     then (case dropWhile (\<lambda>p. \<not> pkt_keyframe p) ps of [] \<Rightarrow> [] | p # qs \<Rightarrow> with_sei (get_sei ei e) p # qs)
     else ps)"
proof (cases "ei_type ei = OBS_ENCODER_VIDEO \<and> \<not> ec_sent_first_packet cb")
  case True
  then show ?thesis using send_all_delivered [OF assms, of ei ps] delivered_from_keyframe [of ei cb "get_sei ei e" ps] by simp
next
  case False
  then have "ec_sent_first_packet cb \<or> ei_type ei = OBS_ENCODER_AUDIO" by (cases "ei_type ei") auto
  then show ?thesis using send_all_delivered [OF assms, of ei ps] delivered_after_first [of cb ei "get_sei ei e" ps]
    by (subst if_not_P [OF False]) simp
qed

theorem encoder_delivery_witness:
  "sent_to (1, 2) (foldl (send_all (sample_codec OBS_ENCODER_VIDEO)) (started_encoder OBS_ENCODER_VIDEO)
     [zero_packet, zero_packet\<lparr>pkt_keyframe := True, pkt_data := [1]\<rparr>, zero_packet]) =
   [zero_packet\<lparr>pkt_keyframe := True, pkt_data := [6, 1]\<rparr>, zero_packet]"
proof -
  have cbs: "en_callbacks (started_encoder OBS_ENCODER_VIDEO) = [\<lparr>ec_sent_first_packet = False, ec_target = (1, 2)\<rparr>]"
    and "en_sent (started_encoder OBS_ENCODER_VIDEO) = []" "get_sei (sample_codec OBS_ENCODER_VIDEO) (started_encoder OBS_ENCODER_VIDEO) = Some [6]"
    by (simp_all add: started_encoder_def obs_encoder_start_def create_encoder_def obs_encoder_initialize_def sample_codec_def obs_encoder_shutdown_def
        add_connection_def get_sei_def)
  then show ?thesis
    using encoder_delivery [of "started_encoder OBS_ENCODER_VIDEO" "\<lparr>ec_sent_first_packet = False, ec_target = (1, 2)\<rparr>"
        "sample_codec OBS_ENCODER_VIDEO" "[zero_packet, zero_packet\<lparr>pkt_keyframe := True, pkt_data := [1]\<rparr>, zero_packet]"]
    by (simp add: sent_to_def sample_codec_def with_sei_def zero_packet_def)
qed

text \<open>when the codec fails, the encoder stops for good: initialising it says that it succeeded but does nothing, and
  starting does nothing, so that no callback is ever registered again.\<close>

theorem encode_failure_is_final:
  assumes "enc_inv e" "en_callbacks e \<noteq> []" "en_context_data e = Some d"
    and "\<not> fst (ei_encode ei d frame (zero_packet\<lparr>pkt_timebase_num := en_timebase_num e,
           pkt_timebase_den := en_timebase_den e, pkt_encoder := en_id e\<rparr>))"
  shows "\<exists>e'. do_encode ei e frame = Some e' \<and> \<not> en_active e' \<and> en_callbacks e' = [] \<and>
    obs_encoder_initialize ei aoi e' = (True, e') \<and> obs_encoder_start e' t = e' \<and> obs_encoder_stop e' t = e' \<and>
    do_encode ei e' frame' = None"
proof -
  obtain received pkt d' where enc: "ei_encode ei d frame (zero_packet\<lparr>pkt_timebase_num := en_timebase_num e,
      pkt_timebase_den := en_timebase_den e, pkt_encoder := en_id e\<rparr>) = (False, received, pkt, d')"
    using assms(4) by (metis (full_types) fst_conv prod_cases4)
  define e' where "e' = full_stop (e\<lparr>en_context_data := Some d', en_encoded := en_encoded e @ [frame]\<rparr>)"
  have "do_encode ei e frame = Some e'" using assms(3) enc by (simp add: do_encode_def e'_def)
  moreover have "en_initialized e" using assms(1,3) by (simp add: enc_inv_def)
  then have "\<not> en_active e'" "en_callbacks e' = []" "en_initialized e'" "en_context_data e' = None"
    by (simp_all add: e'_def full_stop_def remove_connection_def shutdown_life)
  moreover have "do_encode ei e' frame' = None" using calculation by (simp add: do_encode_def)
  ultimately show ?thesis
    by (intro exI [of _ e']) (simp add: obs_encoder_initialize_def obs_encoder_start_def obs_encoder_stop_def)
qed

theorem encode_failure_is_final_witness:
  "\<exists>e'. do_encode (sample_codec OBS_ENCODER_VIDEO\<lparr>ei_encode := \<lambda>n _ pkt. (False, False, pkt, n)\<rparr>) (started_encoder OBS_ENCODER_VIDEO)
      \<lparr>ef_data = [], ef_linesize = [], ef_frames = 1, ef_pts = 0\<rparr> = Some e' \<and>
    obs_encoder_start e' (3, 4) = e'"
proof -
  have "enc_inv (started_encoder OBS_ENCODER_VIDEO)" "en_callbacks (started_encoder OBS_ENCODER_VIDEO) \<noteq> []"
    "en_context_data (started_encoder OBS_ENCODER_VIDEO) = Some 0"
    by (simp_all add: enc_inv_def started_encoder_def obs_encoder_start_def create_encoder_def obs_encoder_initialize_def sample_codec_def obs_encoder_shutdown_def
        add_connection_def)
  from encode_failure_is_final [OF this, where ei = "sample_codec OBS_ENCODER_VIDEO\<lparr>ei_encode := \<lambda>n _ pkt. (False, False, pkt, n)\<rparr>"]
  show ?thesis by simp blast
qed


subsection \<open>Cutting audio into frames\<close>

text \<open>A ring that holds given bytes, and that takes \<open>n\<close> more even when it has run empty away from the origin.\<close>

definition buf_holds :: "byte circlebuf \<Rightarrow> byte list \<Rightarrow> bool" where
  "buf_holds buf xs \<longleftrightarrow> cb_ok buf \<and> cb_cells buf = map Some xs"

definition takes :: "nat \<Rightarrow> byte circlebuf \<Rightarrow> bool" where
  "takes n buf \<longleftrightarrow> n \<le> cb_capacity buf \<or> can_grow buf"

lemma buf_holds_init: "buf_holds circlebuf_init []" "takes n circlebuf_init" "circlebuf_free buf = circlebuf_init"
  by (simp_all add: buf_holds_def takes_def circlebuf_free_def)

lemma holds_size: "buf_holds buf xs \<Longrightarrow> cb_size buf = length xs"
  by (metis buf_holds_def length_cb_cells length_map)

lemma push_holds:
  assumes "buf_holds buf xs" "takes (length ys) buf"
  shows "buf_holds (circlebuf_push_back buf ys) (xs @ ys)" "length ys \<le> cb_capacity (circlebuf_push_back buf ys)"
proof -
  have "cb_size buf + length ys \<le> cb_capacity buf \<or> can_grow buf"
    using assms(2) by (auto simp: takes_def can_grow_def)
  note p = push_back [OF _ this]
  show "buf_holds (circlebuf_push_back buf ys) (xs @ ys)" using assms(1) p by (simp add: buf_holds_def)
  have "cb_ok (circlebuf_push_back buf ys)" using assms(1) p by (simp add: buf_holds_def)
  then show "length ys \<le> cb_capacity (circlebuf_push_back buf ys)"
    using p(3) assms(1) by (simp add: cb_ok_def ring_ok_def buf_holds_def)
qed

lemma pop_holds:
  assumes "buf_holds buf xs" "n \<le> length xs"
  shows "\<exists>buf'. circlebuf_pop_front buf n = Some (map Some (take n xs), buf') \<and> buf_holds buf' (drop n xs) \<and>
    cb_capacity buf' = cb_capacity buf"
proof -
  have "cb_ok buf" "n \<le> cb_size buf" using assms holds_size [OF assms(1)] by (simp_all add: buf_holds_def)
  then show ?thesis
  proof (rule pop_front)
    fix buf'
    assume "circlebuf_pop_front buf n = Some (take n (cb_cells buf), buf')" "cb_ok buf'"
      "cb_cells buf' = drop n (cb_cells buf)" "cb_capacity buf' = cb_capacity buf"
    then show ?thesis using assms(1) by (auto simp: buf_holds_def take_map drop_map)
  qed
qed

text \<open>The same for the buffers of all planes.\<close>

definition bufs_hold :: "byte circlebuf list \<Rightarrow> byte list list \<Rightarrow> bool" where
  "bufs_hold bufs xss \<longleftrightarrow> list_all2 buf_holds bufs xss"

lemma those_Some [simp]: "those (map Some xs) = Some xs"
  by (induction xs) auto

lemma audio_bytes_Some: "length xs = n \<Longrightarrow> off \<le> n \<Longrightarrow> audio_bytes (map Some xs) n off = Some (drop off xs)"
  by (simp add: audio_bytes_def segment_def drop_map take_map)

lemma push_planes_hold:
  assumes "bufs_hold bufs xss" "length yss = length bufs" "\<forall>ys \<in> set yss. length ys = n" "off \<le> n"
    and "\<forall>buf \<in> set bufs. takes (n - off) buf"
  shows "\<exists>bufs'. push_planes bufs (map (map Some) yss) n off = Some bufs' \<and>
    bufs_hold bufs' (map2 (@) xss (map (drop off) yss)) \<and> (\<forall>buf \<in> set bufs'. n - off \<le> cb_capacity buf)"
  using assms
proof (induction bufs arbitrary: xss yss)
  case (Cons buf bufs)
  obtain xs xss' where x: "xss = xs # xss'" "buf_holds buf xs" "bufs_hold bufs xss'"
    using Cons.prems(1) by (auto simp: bufs_hold_def list_all2_Cons1)
  obtain ys yss' where y: "yss = ys # yss'" using Cons.prems(2) by (cases yss) auto
  have len: "length (drop off ys) = n - off" using Cons.prems(3) y by simp
  have "takes (length (drop off ys)) buf" using Cons.prems(5) len by simp
  note p = push_holds [OF x(2) this]
  obtain bufs' where "push_planes bufs (map (map Some) yss') n off = Some bufs'"
    "bufs_hold bufs' (map2 (@) xss' (map (drop off) yss'))" "\<forall>buf \<in> set bufs'. n - off \<le> cb_capacity buf"
    using Cons.IH [OF x(3), of yss'] Cons.prems y by auto
  then show ?case
    using p len Cons.prems(3,4) audio_bytes_Some [of ys n off] by (auto simp: x(1) y bufs_hold_def)
qed (auto simp: bufs_hold_def)

lemma pop_planes_hold:
  assumes "bufs_hold bufs xss" "\<forall>xs \<in> set xss. n \<le> length xs"
  shows "\<exists>bufs'. pop_planes bufs n = Some (map (\<lambda>xs. map Some (take n xs)) xss, bufs') \<and>
    bufs_hold bufs' (map (drop n) xss) \<and> map cb_capacity bufs' = map cb_capacity bufs"
  using assms
proof (induction bufs arbitrary: xss)
  case (Cons buf bufs)
  obtain xs xss' where x: "xss = xs # xss'" "buf_holds buf xs" "bufs_hold bufs xss'"
    using Cons.prems(1) by (auto simp: bufs_hold_def list_all2_Cons1)
  obtain buf' where b: "circlebuf_pop_front buf n = Some (map Some (take n xs), buf')" "buf_holds buf' (drop n xs)"
    "cb_capacity buf' = cb_capacity buf"
    using pop_holds [OF x(2), of n] Cons.prems(2) x(1) by auto
  obtain bufs' where "pop_planes bufs n = Some (map (\<lambda>xs. map Some (take n xs)) xss', bufs')"
    "bufs_hold bufs' (map (drop n) xss')" "map cb_capacity bufs' = map cb_capacity bufs"
    using Cons.IH [OF x(3)] Cons.prems(2) x(1) by auto
  then show ?case using b by (simp add: x(1) bufs_hold_def)
qed (auto simp: bufs_hold_def)

text \<open>What encoding leaves as it is, as long as the codec does not fail.\<close>

definition codec_ok :: "'d encoder_info \<Rightarrow> bool" where
  "codec_ok ei \<longleftrightarrow> (\<forall>d frame pkt. fst (ei_encode ei d frame pkt))"

definition same_audio :: "'d encoder \<Rightarrow> 'd encoder \<Rightarrow> bool" where
  "same_audio e e' \<longleftrightarrow> en_samplerate e' = en_samplerate e \<and> en_planes e' = en_planes e \<and> en_blocksize e' = en_blocksize e \<and>
     en_framesize e' = en_framesize e \<and> en_framesize_bytes e' = en_framesize_bytes e \<and> en_cur_pts e' = en_cur_pts e \<and>
     en_audio_input_buffer e' = en_audio_input_buffer e \<and> en_paired e' = en_paired e \<and>
     en_first_raw_ts e' = en_first_raw_ts e \<and> en_start_ts e' = en_start_ts e"

lemma send_same_audio: "same_audio e (send_to_callbacks ei packet e n) \<and>
    en_encoded (send_to_callbacks ei packet e n) = en_encoded e \<and> en_first_received (send_to_callbacks ei packet e n) = en_first_received e"
proof (induction n arbitrary: e)
  case (Suc n)
  have "same_audio e (encoder_send_packet ei e n packet) \<and> en_encoded (encoder_send_packet ei e n packet) = en_encoded e \<and>
      en_first_received (encoder_send_packet ei e n packet) = en_first_received e"
    by (auto simp: encoder_send_packet_def send_first_video_packet_def new_packet_def same_audio_def Let_def split: option.split)
  then show ?case using Suc [of "encoder_send_packet ei e n packet"] by (auto simp: same_audio_def)
qed (simp add: same_audio_def)

lemma do_encode_frame:
  assumes "codec_ok ei" "en_context_data e \<noteq> None" "en_first_received e"
  shows "\<exists>e'. do_encode ei e frame = Some e' \<and> en_context_data e' \<noteq> None \<and> en_first_received e' \<and> same_audio e e' \<and>
    en_encoded e' = en_encoded e @ [frame]"
proof -
  obtain d where d: "en_context_data e = Some d" using assms(2) by auto
  obtain received pkt d' where enc: "ei_encode ei d frame (zero_packet\<lparr>pkt_timebase_num := en_timebase_num e,
      pkt_timebase_den := en_timebase_den e, pkt_encoder := en_id e\<rparr>) = (True, received, pkt, d')"
    using assms(1) by (metis (full_types) codec_ok_def fst_conv prod_cases4)
  let ?e = "e\<lparr>en_context_data := Some d', en_encoded := en_encoded e @ [frame]\<rparr>"
  have same: "same_audio e ?e" by (simp add: same_audio_def)
  show ?thesis
  proof (cases received)
    case True
    have "do_encode ei e frame = Some (send_to_callbacks ei (pkt\<lparr>pkt_dts_usec :=
        sint (en_start_ts e div 1000 + word_of_int (packet_dts_usec pkt) - word_of_int (en_offset_usec e))\<rparr>) ?e (length (en_callbacks e)))"
      using d enc True assms(3) by (simp add: do_encode_def Let_def)
    moreover note send_same_audio [of ?e ei _ "length (en_callbacks e)"]
    moreover have "en_context_data (send_to_callbacks ei p ?e n) \<noteq> None" for p n
      using send_to_callbacks_life [of ?e ei p n] by (simp add: same_life_def)
    ultimately show ?thesis using same assms(3) by (auto simp: same_audio_def)
  next
    case False
    then show ?thesis using d enc same assms(3) by (simp add: do_encode_def)
  qed
qed


text \<open>Frame \<open>k\<close> of audio that begins at the presentation time \<open>base\<close>.\<close>

definition audio_frame :: "nat \<Rightarrow> nat \<Rightarrow> int \<Rightarrow> byte list list \<Rightarrow> nat \<Rightarrow> encoder_frame" where
  "audio_frame F fs base xss k =
     \<lparr>ef_data = map (\<lambda>xs. map Some (take F (drop (k * F) xs))) xss, ef_linesize = replicate (length xss) F,
      ef_frames = fs, ef_pts = base + int (k * fs)\<rparr>"

definition audio_bufs :: "'d encoder \<Rightarrow> byte circlebuf list" where
  "audio_bufs e = take (en_planes e) (en_audio_input_buffer e)"

definition audio_ready :: "'d encoder \<Rightarrow> bool" where
  "audio_ready e \<longleftrightarrow> en_context_data e \<noteq> None \<and> en_first_received e \<and> 0 < en_planes e \<and>
     en_planes e \<le> length (en_audio_input_buffer e) \<and> 0 < en_framesize_bytes e"

definition same_format :: "'d encoder \<Rightarrow> 'd encoder \<Rightarrow> bool" where
  "same_format e e' \<longleftrightarrow> en_planes e' = en_planes e \<and> en_blocksize e' = en_blocksize e \<and>
     en_framesize e' = en_framesize e \<and> en_framesize_bytes e' = en_framesize_bytes e \<and> en_paired e' = en_paired e"

lemma hd_audio_bufs: "audio_ready e \<Longrightarrow> bufs_hold (audio_bufs e) xss \<Longrightarrow> cb_size (hd (en_audio_input_buffer e)) = length (hd xss) \<and> xss \<noteq> []"
  by (cases "en_audio_input_buffer e"; cases "en_planes e")
     (auto simp: audio_ready_def audio_bufs_def bufs_hold_def list_all2_Cons1 holds_size)

lemma length_audio_bufs: "audio_ready e \<Longrightarrow> bufs_hold (audio_bufs e) xss \<Longrightarrow> length xss = en_planes e"
  by (auto simp: audio_ready_def audio_bufs_def bufs_hold_def dest!: list_all2_lengthD)

lemma send_audio_data_frame:
  assumes "codec_ok ei" "audio_ready e" "bufs_hold (audio_bufs e) xss" "\<forall>xs \<in> set xss. en_framesize_bytes e \<le> length xs"
  shows "\<exists>e'. send_audio_data ei e = Some e' \<and> audio_ready e' \<and> same_format e e' \<and>
    bufs_hold (audio_bufs e') (map (drop (en_framesize_bytes e)) xss) \<and>
    map cb_capacity (audio_bufs e') = map cb_capacity (audio_bufs e) \<and>
    en_encoded e' = en_encoded e @ [audio_frame (en_framesize_bytes e) (en_framesize e) (en_cur_pts e) xss 0] \<and>
    en_cur_pts e' = en_cur_pts e + int (en_framesize e)"
proof -
  let ?F = "en_framesize_bytes e"
  obtain bufs where pop: "pop_planes (audio_bufs e) ?F = Some (map (\<lambda>xs. map Some (take ?F xs)) xss, bufs)"
    "bufs_hold bufs (map (drop ?F) xss)" "map cb_capacity bufs = map cb_capacity (audio_bufs e)"
    using pop_planes_hold [OF assms(3,4)] by blast
  let ?e = "e\<lparr>en_audio_input_buffer := bufs @ drop (en_planes e) (en_audio_input_buffer e)\<rparr>"
  let ?f = "\<lparr>ef_data = map (\<lambda>xs. map Some (take ?F xs)) xss, ef_linesize = replicate (en_planes e) ?F, ef_frames = en_framesize e,
      ef_pts = en_cur_pts e\<rparr>"
  have "en_context_data ?e \<noteq> None" "en_first_received ?e" using assms(2) by (simp_all add: audio_ready_def)
  from do_encode_frame [OF assms(1) this, of ?f] obtain e1 where e1: "do_encode ei ?e ?f = Some e1" "en_context_data e1 \<noteq> None"
    "en_first_received e1" "same_audio ?e e1" "en_encoded e1 = en_encoded ?e @ [?f]" by blast
  have len: "length bufs = en_planes e" "length xss = en_planes e"
    using pop(2) length_audio_bufs [OF assms(2,3)] by (auto simp: bufs_hold_def dest: list_all2_lengthD)
  have "send_audio_data ei e = Some (e1\<lparr>en_cur_pts := en_cur_pts e1 + int (en_framesize e1)\<rparr>)"
    using pop(1) e1(1) by (simp add: send_audio_data_def audio_bufs_def)
  then show ?thesis
    using e1(2-5) pop(2,3) assms(2) len
    by (auto simp: audio_ready_def audio_bufs_def same_format_def same_audio_def audio_frame_def)
qed

lemma audio_frame_drop:
  "audio_frame F fs (base + int fs) (map (drop F) xss) k = audio_frame F fs base xss (Suc k)"
  by (simp add: audio_frame_def comp_def add.commute algebra_simps)

lemma send_audio_loop_frames:
  assumes "codec_ok ei" "audio_ready e" "bufs_hold (audio_bufs e) xss" "\<forall>xs \<in> set xss. length xs = m"
  shows "\<exists>e'. send_audio_loop ei e = Some e' \<and> audio_ready e' \<and> same_format e e' \<and>
    bufs_hold (audio_bufs e') (map (drop (m div en_framesize_bytes e * en_framesize_bytes e)) xss) \<and>
    map cb_capacity (audio_bufs e') = map cb_capacity (audio_bufs e) \<and>
    en_encoded e' = en_encoded e @ map (audio_frame (en_framesize_bytes e) (en_framesize e) (en_cur_pts e) xss) [0 ..< m div en_framesize_bytes e] \<and>
    en_cur_pts e' = en_cur_pts e + int (m div en_framesize_bytes e * en_framesize e)"
  using assms(2-4)
proof (induction m arbitrary: e xss rule: less_induct)
  case (less m)
  let ?F = "en_framesize_bytes e"
  have F: "0 < ?F" using less.prems(1) by (simp add: audio_ready_def)
  have size: "cb_size (hd (en_audio_input_buffer e)) = m"
    using hd_audio_bufs [OF less.prems(1,2)] less.prems(3) by (cases xss) auto
  show ?case
  proof (cases "?F \<le> m")
    case False
    then have "send_audio_loop ei e = Some e" using size by (subst send_audio_loop.simps) simp
    then show ?thesis using less.prems False by (simp add: same_format_def)
  next
    case True
    then have "\<forall>xs \<in> set xss. ?F \<le> length xs" using less.prems(3) by simp
    from send_audio_data_frame [OF assms(1) less.prems(1,2) this] obtain e1 where
      e1: "send_audio_data ei e = Some e1" "audio_ready e1" "same_format e e1" "bufs_hold (audio_bufs e1) (map (drop ?F) xss)"
        "map cb_capacity (audio_bufs e1) = map cb_capacity (audio_bufs e)"
        "en_encoded e1 = en_encoded e @ [audio_frame ?F (en_framesize e) (en_cur_pts e) xss 0]"
        "en_cur_pts e1 = en_cur_pts e + int (en_framesize e)" by blast
    have fmt: "en_framesize_bytes e1 = ?F" "en_framesize e1 = en_framesize e" using e1(3) by (simp_all add: same_format_def)
    have "m - ?F < m" "\<forall>xs \<in> set (map (drop ?F) xss). length xs = m - ?F" using F True less.prems(3) by auto
    from less.IH [OF this(1) e1(2,4) this(2)] obtain e' where
      e': "send_audio_loop ei e1 = Some e'" "audio_ready e'" "same_format e1 e'"
        "bufs_hold (audio_bufs e') (map (drop ((m - ?F) div ?F * ?F)) (map (drop ?F) xss))"
        "map cb_capacity (audio_bufs e') = map cb_capacity (audio_bufs e1)"
        "en_encoded e' = en_encoded e1 @ map (audio_frame ?F (en_framesize e) (en_cur_pts e + int (en_framesize e)) (map (drop ?F) xss)) [0 ..< (m - ?F) div ?F]"
        "en_cur_pts e' = en_cur_pts e1 + int ((m - ?F) div ?F * en_framesize e)"
      unfolding fmt e1(7) by blast
    have d: "m div ?F = Suc ((m - ?F) div ?F)" using True F by (simp add: le_div_geq)
    have "send_audio_loop ei e = Some e'" using e1(1) e'(1) size True by (subst send_audio_loop.simps) simp
    moreover have "bufs_hold (audio_bufs e') (map (drop (m div ?F * ?F)) xss)"
      using e'(4) by (simp add: d comp_def add.commute)
    moreover have "en_encoded e' = en_encoded e @ map (audio_frame ?F (en_framesize e) (en_cur_pts e) xss) [0 ..< m div ?F]"
    proof -
      have "map (audio_frame ?F (en_framesize e) (en_cur_pts e) xss) [0 ..< m div ?F] =
          audio_frame ?F (en_framesize e) (en_cur_pts e) xss 0 #
          map (\<lambda>k. audio_frame ?F (en_framesize e) (en_cur_pts e) xss (Suc k)) [0 ..< (m - ?F) div ?F]"
        unfolding d upt_conv_Cons [OF zero_less_Suc] by (simp only: list.map map_Suc_upt [symmetric] map_map comp_def)
      then show ?thesis using e'(6) e1(6) by (simp add: audio_frame_drop)
    qed
    moreover have "en_cur_pts e' = en_cur_pts e + int (m div ?F * en_framesize e)"
      using e'(7) e1(7) by (simp add: d algebra_simps)
    moreover have "same_format e e'" using e'(3) e1(3) by (simp add: same_format_def)
    moreover have "map cb_capacity (audio_bufs e') = map cb_capacity (audio_bufs e)" using e'(5) e1(5) by simp
    ultimately show ?thesis using e'(2) by blast
  qed
qed

text \<open>An unpaired encoder that has encoded all full frames of the audio \<open>xss\<close> and holds the rest; every chunk has \<open>S\<close>
  bytes per plane.\<close>

definition framed :: "nat \<Rightarrow> byte list list \<Rightarrow> nat \<Rightarrow> 'd encoder \<Rightarrow> bool" where
  "framed S xss m e \<longleftrightarrow> audio_ready e \<and> \<not> en_paired e \<and> length xss = en_planes e \<and> (\<forall>xs \<in> set xss. length xs = m) \<and>
     bufs_hold (audio_bufs e) (map (drop (m div en_framesize_bytes e * en_framesize_bytes e)) xss) \<and>
     (\<forall>buf \<in> set (audio_bufs e). takes S buf) \<and>
     en_encoded e = map (audio_frame (en_framesize_bytes e) (en_framesize e) 0 xss) [0 ..< m div en_framesize_bytes e] \<and>
     en_cur_pts e = int (m div en_framesize_bytes e * en_framesize e)"

definition chunk_ok :: "'d encoder \<Rightarrow> nat \<Rightarrow> audio_data \<Rightarrow> bool" where
  "chunk_ok e S data \<longleftrightarrow> ad_frames data * en_blocksize e = S \<and> length (ad_data data) = en_planes e \<and>
     (\<forall>xs \<in> set (ad_data data). length xs = S)"

lemma audio_frame_append:
  assumes "\<forall>xs \<in> set xss. length xs = m" "length yss = length xss" "k < m div F"
  shows "audio_frame F fs base (map2 (@) xss yss) k = audio_frame F fs base xss k"
proof -
  have "Suc k * F \<le> m" using assms(3) by (metis Suc_leI div_times_less_eq_dividend mult_le_mono1 order_trans)
  then have "take F (drop (k * F) (xs @ ys)) = take F (drop (k * F) xs)" if "length xs = m" for xs ys :: "byte list"
    using that by simp
  then have "map (\<lambda>xs. map Some (take F (drop (k * F) xs))) (map2 (@) xss yss) = map (\<lambda>xs. map Some (take F (drop (k * F) xs))) xss"
    using assms(1,2) by (intro nth_equalityI) (simp_all del: take_append drop_append)
  then show ?thesis using assms(2) by (simp add: audio_frame_def)
qed

lemma audio_frame_rest:
  assumes "\<forall>xs \<in> set xss. length xs = m" "length yss = length xss"
  shows "audio_frame F fs (int (m div F * fs)) (map2 (@) (map (drop (m div F * F)) xss) yss) k =
    audio_frame F fs 0 (map2 (@) xss yss) (m div F + k)"
proof -
  have "drop (k * F) (drop (m div F * F) xs @ ys) = drop ((m div F + k) * F) (xs @ ys)" if "length xs = m" for xs ys :: "byte list"
    using that by (simp add: algebra_simps)
  then have "map (\<lambda>xs. map Some (take F (drop (k * F) xs))) (map2 (@) (map (drop (m div F * F)) xss) yss) =
      map (\<lambda>xs. map Some (take F (drop ((m div F + k) * F) xs))) (map2 (@) xss yss)"
    using assms by (intro nth_equalityI) (simp_all del: take_append drop_append)
  then show ?thesis using assms(2) by (simp add: audio_frame_def algebra_simps)
qed

lemma bufs_append:
  assumes "bufs_hold bufs (map2 (@) (map (drop n) xss) (map (drop 0) yss))" "length yss = length xss" "\<forall>xs \<in> set xss. n \<le> length xs"
  shows "bufs_hold bufs (map (drop n) (map2 (@) xss yss))"
proof -
  have "map2 (@) (map (drop n) xss) (map (drop 0) yss) = map (drop n) (map2 (@) xss yss)"
    using assms(2,3) by (intro nth_equalityI) simp_all
  then show ?thesis using assms(1) by simp
qed

lemma receive_framed:
  assumes ok: "codec_ok ei" and fr: "framed S xss m e" and chunk: "chunk_ok e S data" and S: "0 < S"
  shows "\<exists>e'. receive_audio ei pair e data = Some e' \<and> framed S (map2 (@) xss (ad_data data)) (m + S) e' \<and> same_format e e'"
proof -
  let ?F = "en_framesize_bytes e" let ?fs = "en_framesize e" let ?K = "m div ?F" let ?all = "map2 (@) xss (ad_data data)"
  have ready: "audio_ready e" "\<not> en_paired e" "length xss = en_planes e" "\<forall>xs \<in> set xss. length xs = m"
    "bufs_hold (audio_bufs e) (map (drop (?K * ?F)) xss)" "\<forall>buf \<in> set (audio_bufs e). takes S buf"
    using fr by (simp_all add: framed_def)
  have c: "ad_frames data * en_blocksize e = S" "length (ad_data data) = en_planes e" "\<forall>xs \<in> set (ad_data data). length xs = S"
    using chunk by (simp_all add: chunk_ok_def)
  have len: "length (audio_bufs e) = en_planes e" using ready(1) by (simp add: audio_ready_def audio_bufs_def)
  obtain bufs where push: "push_planes (audio_bufs e) (map (map Some) (ad_data data)) S 0 = Some bufs"
    "bufs_hold bufs (map2 (@) (map (drop (?K * ?F)) xss) (map (drop 0) (ad_data data)))" "\<forall>buf \<in> set bufs. S \<le> cb_capacity buf"
    using push_planes_hold [OF ready(5), of "ad_data data" S 0] c(2,3) len ready(6) by auto
  define e1 where "e1 = (if en_start_ts e = 0 then e\<lparr>en_start_ts := ad_timestamp data\<rparr> else e)
      \<lparr>en_audio_input_buffer := bufs @ drop (en_planes e) (en_audio_input_buffer e)\<rparr>"
  have "receive_audio ei pair e data = send_audio_loop ei e1"
    using ready(1,2) push(1) S c(1)
    by (simp add: receive_audio_def buffer_audio_def push_back_audio_def audio_ready_def audio_bufs_def Let_def e1_def)
  moreover have bl: "length bufs = en_planes e" using push(2) c(2) ready(3) by (auto simp: bufs_hold_def dest: list_all2_lengthD)
  then have e1: "audio_ready e1" "audio_bufs e1 = bufs" "same_format e e1" "en_encoded e1 = en_encoded e" "en_cur_pts e1 = en_cur_pts e"
    using ready(1) by (simp_all add: audio_ready_def audio_bufs_def same_format_def e1_def)
  have le: "?K * ?F \<le> m" by (simp add: div_times_less_eq_dividend)
  have lens: "\<forall>xs \<in> set (map2 (@) (map (drop (?K * ?F)) xss) (map (drop 0) (ad_data data))). length xs = m - ?K * ?F + S"
    using ready(4) c(3) unfolding all_set_conv_all_nth by simp
  obtain e' where e': "send_audio_loop ei e1 = Some e'" "audio_ready e'" "same_format e1 e'"
    "bufs_hold (audio_bufs e') (map (drop ((m - ?K * ?F + S) div ?F * ?F)) (map2 (@) (map (drop (?K * ?F)) xss) (map (drop 0) (ad_data data))))"
    "map cb_capacity (audio_bufs e') = map cb_capacity bufs"
    "en_encoded e' = en_encoded e @ map (audio_frame ?F ?fs (en_cur_pts e)
       (map2 (@) (map (drop (?K * ?F)) xss) (map (drop 0) (ad_data data)))) [0 ..< (m - ?K * ?F + S) div ?F]"
    "en_cur_pts e' = en_cur_pts e + int ((m - ?K * ?F + S) div ?F * ?fs)"
    using send_audio_loop_frames [OF ok e1(1) push(2) [folded e1(2)] lens] e1 by (auto simp: same_format_def)
  have F: "0 < ?F" using ready(1) by (simp add: audio_ready_def)
  have sum: "(m + S) div ?F = ?K + (m - ?K * ?F + S) div ?F"
  proof -
    have split: "m + S = (m - ?K * ?F + S) + ?K * ?F" using le by (metis add.assoc add.commute le_add_diff_inverse2)
    have nz: "?F \<noteq> 0" using F by simp
    show ?thesis by (rule trans [OF arg_cong [OF split, of "\<lambda>x. x div ?F"] div_mult_self1 [OF nz]])
  qed
  have "same_format e e'" using e'(3) e1(3) by (simp add: same_format_def)
  moreover have "framed S ?all (m + S) e'"
  proof -
    have alll: "\<forall>xs \<in> set ?all. length xs = m + S" using ready(4) c(3) unfolding all_set_conv_all_nth by simp
    have "\<forall>buf \<in> set (audio_bufs e'). S \<le> cb_capacity buf"
      using push(3) e'(5) by (metis (no_types, opaque_lifting) image_iff list.set_map)
    then have t: "\<forall>buf \<in> set (audio_bufs e'). takes S buf" by (simp add: takes_def)
    have "map (drop ((m - ?K * ?F + S) div ?F * ?F)) (map2 (@) (map (drop (?K * ?F)) xss) (map (drop 0) (ad_data data))) =
        map (drop ((m + S) div ?F * ?F)) ?all"
      using ready(4) c(2) ready(3) le unfolding sum
      by (intro nth_equalityI) (simp_all add: algebra_simps)
    then have b: "bufs_hold (audio_bufs e') (map (drop ((m + S) div ?F * ?F)) ?all)" using e'(4) by simp
    have old: "map (audio_frame ?F ?fs 0 ?all) [0 ..< ?K] = map (audio_frame ?F ?fs 0 xss) [0 ..< ?K]"
      using audio_frame_append [OF ready(4), of "ad_data data"] c(2) ready(3) by simp
    have new: "audio_frame ?F ?fs (int (?K * ?fs)) (map2 (@) (map (drop (?K * ?F)) xss) (map (drop 0) (ad_data data))) k =
        audio_frame ?F ?fs 0 ?all (?K + k)" for k
      using audio_frame_rest [OF ready(4), of "ad_data data"] c(2) ready(3) by simp
    have cur: "en_cur_pts e = int (?K * ?fs)" and enc: "en_encoded e = map (audio_frame ?F ?fs 0 xss) [0 ..< ?K]"
      using fr by (simp_all add: framed_def)
    have tail: "map (audio_frame ?F ?fs (en_cur_pts e) (map2 (@) (map (drop (?K * ?F)) xss) (map (drop 0) (ad_data data)))) [0 ..< n] =
        map (\<lambda>k. audio_frame ?F ?fs 0 ?all (?K + k)) [0 ..< n]" for n
      by (rule map_cong [OF refl]) (simp only: cur new)
    have "en_encoded e' = map (audio_frame ?F ?fs 0 ?all) [0 ..< (m + S) div ?F]"
      unfolding sum upt_add_eq_append [OF le0] map_append old map_upt_shift
      using e'(6) unfolding tail enc .
    moreover have "en_cur_pts e' = int ((m + S) div ?F * ?fs)"
      using fr e'(7) unfolding sum by (simp add: framed_def algebra_simps)
    moreover have "length ?all = en_planes e" using c(2) ready(3) by simp
    ultimately show ?thesis
      using e'(2) b t alll ready(2) \<open>same_format e e'\<close> by (simp add: framed_def same_format_def)
  qed
  ultimately show ?thesis using e'(1) by auto
qed


definition receive_all :: "'d encoder_info \<Rightarrow> 'p encoder \<Rightarrow> 'd encoder \<Rightarrow> audio_data list \<Rightarrow> 'd encoder option" where
  "receive_all ei pair e datas = foldl (\<lambda>r data. r \<bind> (\<lambda>e. receive_audio ei pair e data)) (Some e) datas"

lemma receive_all_snoc: "receive_all ei pair e (datas @ [data]) = receive_all ei pair e datas \<bind> (\<lambda>e. receive_audio ei pair e data)"
  by (simp add: receive_all_def)

text \<open>The audio of all chunks, plane by plane.\<close>

definition planes_of :: "nat \<Rightarrow> audio_data list \<Rightarrow> byte list list" where
  "planes_of n datas = map (\<lambda>i. concat (map (\<lambda>data. ad_data data ! i) datas)) [0 ..< n]"

lemma planes_of_snoc: "length (ad_data data) = n \<Longrightarrow> planes_of n (datas @ [data]) = map2 (@) (planes_of n datas) (ad_data data)"
  by (rule nth_equalityI) (simp_all add: planes_of_def)

lemma chunk_ok_same: "same_format e e' \<Longrightarrow> chunk_ok e S data \<Longrightarrow> chunk_ok e' S data"
  by (simp add: chunk_ok_def same_format_def)

lemma free_holds: "n \<le> length bufs \<Longrightarrow> bufs_hold (take n (map circlebuf_free bufs)) (replicate n [])"
  by (auto simp: bufs_hold_def list_all2_conv_all_nth buf_holds_init)

lemma clear_audio_bufs:
  assumes "en_planes e \<le> length (en_audio_input_buffer e)"
  shows "bufs_hold (audio_bufs (clear_audio e)) (replicate (en_planes e) [])"
    and "\<forall>buf \<in> set (audio_bufs (clear_audio e)). buf = circlebuf_init"
  using assms by (auto simp: audio_bufs_def clear_audio_def bufs_hold_def list_all2_conv_all_nth buf_holds_init)

text \<open>The state in which the first audio of an unpaired encoder arrives.\<close>

definition audio_start :: "'d encoder \<Rightarrow> bool" where
  "audio_start e \<longleftrightarrow> en_context_data e \<noteq> None \<and> \<not> en_first_received e \<and> \<not> en_paired e \<and> en_encoded e = [] \<and> en_cur_pts e = 0 \<and>
     0 < en_planes e \<and> en_planes e \<le> length (en_audio_input_buffer e) \<and> 0 < en_framesize_bytes e"

lemma receive_first:
  assumes "audio_start e"
  shows "\<exists>e1. framed S (replicate (en_planes e) []) 0 e1 \<and> same_format e e1 \<and>
    receive_audio ei pair e data = receive_audio ei pair e1 data"
proof -
  let ?e = "clear_audio (e\<lparr>en_first_raw_ts := ad_timestamp data, en_first_received := True\<rparr>)"
  have "framed S (replicate (en_planes e) []) 0 ?e"
    using assms clear_audio_bufs [of "e\<lparr>en_first_raw_ts := ad_timestamp data, en_first_received := True\<rparr>"]
    by (auto simp: framed_def audio_start_def audio_ready_def buf_holds_init) (simp_all add: clear_audio_def)
  moreover have "same_format e ?e" by (simp add: same_format_def clear_audio_def)
  moreover have "receive_audio ei pair e data = receive_audio ei pair ?e data"
    using assms by (simp add: receive_audio_def audio_start_def clear_audio_def Let_def)
  ultimately show ?thesis by blast
qed

lemma receive_all_framed:
  assumes "codec_ok ei" "audio_start e" "0 < S" "list_all (chunk_ok e S) datas" "datas \<noteq> []"
  shows "\<exists>e'. receive_all ei pair e datas = Some e' \<and> framed S (planes_of (en_planes e) datas) (length datas * S) e' \<and> same_format e e'"
  using assms(4,5)
proof (induction datas rule: rev_induct)
  case (snoc data datas)
  have c: "chunk_ok e S data" "length (ad_data data) = en_planes e" using snoc.prems by (simp_all add: chunk_ok_def)
  show ?case
  proof (cases "datas = []")
    case True
    obtain e1 where e1: "framed S (replicate (en_planes e) []) 0 e1" "same_format e e1"
      "receive_audio ei pair e data = receive_audio ei pair e1 data" using receive_first [OF assms(2), of S] by blast
    have "planes_of (en_planes e) [] = replicate (en_planes e) []" by (simp add: planes_of_def map_replicate_const)
    then have "planes_of (en_planes e) [data] = map2 (@) (replicate (en_planes e) []) (ad_data data)"
      using planes_of_snoc [OF c(2), of "[]"] by simp
    then show ?thesis
      using receive_framed [OF assms(1) e1(1) chunk_ok_same [OF e1(2) c(1)] assms(3), of pair] e1(2,3) True
      by (auto simp: receive_all_def same_format_def)
  next
    case False
    then obtain e1 where e1: "receive_all ei pair e datas = Some e1"
      "framed S (planes_of (en_planes e) datas) (length datas * S) e1" "same_format e e1" using snoc by auto
    obtain e' where "receive_audio ei pair e1 data = Some e'" "framed S (map2 (@) (planes_of (en_planes e) datas) (ad_data data)) (length datas * S + S) e'"
      "same_format e1 e'" using receive_framed [OF assms(1) e1(2) chunk_ok_same [OF e1(3) c(1)] assms(3), of pair] by blast
    then show ?thesis
      using e1(1,3) by (auto simp: receive_all_snoc planes_of_snoc [OF c(2)] same_format_def add.commute)
  qed
qed simp

subsection \<open>Beginning together with the video\<close>

text \<open>The number of samples between two times.\<close>

definition samples_between :: "64 word \<Rightarrow> 64 word \<Rightarrow> 32 word \<Rightarrow> nat" where
  "samples_between start stop rate = (unat stop - unat start) * unat rate div 1000000000"

lemma unat_rate: "unat (ucast rate :: 64 word) = unat rate" for rate :: "32 word"
proof -
  have "unat rate < 2 ^ 64" using unsigned_less [of rate] by (rule less_trans) simp
  then show ?thesis by (simp add: unsigned_ucast_eq take_bit_nat_eq_self)
qed

lemma calc_offset_samples:
  assumes "a \<le> v" "(unat v - unat a) * unat (en_samplerate e) < 2 ^ 64"
    and "samples_between a v (en_samplerate e) * en_blocksize e < 2 ^ 64"
  shows "calc_offset_size e v a = samples_between a v (en_samplerate e) * en_blocksize e"
proof -
  have sub: "unat (v - a) = unat v - unat a" using assms(1) by (simp add: unat_sub)
  have "unat ((v - a) * ucast (en_samplerate e)) = (unat v - unat a) * unat (en_samplerate e)"
    using assms(2) by (simp add: unat_word_ariths sub unat_rate)
  then have d: "unat ((v - a) * ucast (en_samplerate e) div 1000000000) = samples_between a v (en_samplerate e)"
    by (simp add: unat_div samples_between_def)
  have m: "unat (x * y) = unat x * unat y mod 2 ^ 64" for x y :: "64 word" by (simp add: unat_word_ariths)
  have "unat (((v - a) * ucast (en_samplerate e) div 1000000000) * word_of_nat (en_blocksize e)) =
      samples_between a v (en_samplerate e) * (en_blocksize e mod 2 ^ 64) mod 2 ^ 64"
    unfolding m d by (simp add: unat_of_nat)
  also have "\<dots> = samples_between a v (en_samplerate e) * en_blocksize e" using assms(3) by (simp add: mod_mult_right_eq)
  finally show ?thesis by (simp add: calc_offset_size_def)
qed

lemma samples_inside:
  assumes "unat a \<le> unat v" "unat v - unat a < n * 1000000000 div unat rate" "0 < unat rate"
  shows "samples_between a v rate < n" "(unat v - unat a) * unat rate < n * 1000000000"
proof -
  have "Suc (unat v - unat a) * unat rate \<le> n * 1000000000"
    using assms(2) by (metis Suc_leI div_times_less_eq_dividend mult_le_mono1 order_trans)
  then show "(unat v - unat a) * unat rate < n * 1000000000" using assms(3) by simp
  then show "samples_between a v rate < n" by (simp add: samples_between_def less_mult_imp_div_less)
qed

text \<open>The time at which a chunk of audio ends, as long as it does not wrap.\<close>

lemma end_of_chunk:
  assumes "n < 2 ^ 32" "unat ts + n * 1000000000 div unat rate < 2 ^ 64"
  shows "unat ((ts :: 64 word) + word_of_nat n * 1000000000 div ucast rate) = unat ts + n * 1000000000 div unat (rate :: 32 word)"
proof -
  have "unat (word_of_nat n * 1000000000 :: 64 word) = n * 1000000000"
    using assms(1) by (simp add: unat_word_ariths unat_of_nat)
  then have "unat (word_of_nat n * 1000000000 div ucast rate :: 64 word) = n * 1000000000 div unat rate"
    by (simp add: unat_div unat_rate)
  then show ?thesis using assms(2) by (simp add: unat_word_ariths)
qed

text \<open>Pushing at most \<open>n\<close> bytes into buffers that are at their origin.\<close>

lemma push_cleared:
  assumes "bufs_hold (audio_bufs e) (replicate (en_planes e) [])" "\<forall>buf \<in> set (audio_bufs e). buf = circlebuf_init"
    and "length yss = en_planes e" "\<forall>ys \<in> set yss. length ys = n" "off \<le> n" "en_planes e \<le> length (en_audio_input_buffer e)"
  shows "\<exists>e'. push_back_audio e (map (map Some) yss) n off = Some e' \<and> bufs_hold (audio_bufs e') (map (drop off) yss) \<and>
    en_start_ts e' = en_start_ts e \<and> same_format e e'"
proof (cases "n = off")
  case True
  have "map (drop off) yss = replicate (en_planes e) []" using assms(3,4) True by (intro nth_equalityI) auto
  then show ?thesis using assms(1) True by (simp add: push_back_audio_def same_format_def)
next
  case False
  have "\<forall>buf \<in> set (audio_bufs e). takes (n - off) buf" using assms(2) by (auto simp: buf_holds_init)
  moreover have "length yss = length (audio_bufs e)" using assms(3,6) by (simp add: audio_bufs_def)
  ultimately obtain bufs where bufs: "push_planes (audio_bufs e) (map (map Some) yss) n off = Some bufs"
    "bufs_hold bufs (map2 (@) (replicate (en_planes e) []) (map (drop off) yss))"
    using push_planes_hold [OF assms(1), of yss n off] assms(4,5) by blast
  have "map2 (@) (replicate (en_planes e) []) (map (drop off) yss) = map (drop off) yss"
    using assms(3) by (intro nth_equalityI) simp_all
  then have h: "bufs_hold bufs (map (drop off) yss)" using bufs(2) by simp
  then have "length bufs = en_planes e" using assms(3) by (auto simp: bufs_hold_def dest: list_all2_lengthD)
  then show ?thesis
    using bufs(1) h False by (simp add: push_back_audio_def audio_bufs_def same_format_def)
qed

text \<open>What a buffer that was never popped holds at the start of its block.\<close>

lemma block_start:
  assumes "buf_holds buf xs" "cb_start_pos buf = 0" "off \<le> length xs"
  shows "audio_bytes (cb_data buf) (length xs) off = Some (drop off xs)"
proof -
  have size: "cb_size buf = length xs" using holds_size [OF assms(1)] .
  have ok: "length (cb_data buf) = cb_capacity buf" "cb_size buf \<le> cb_capacity buf"
    using assms(1) by (auto simp: buf_holds_def cb_ok_def ring_ok_def)
  have "take (length xs) (cb_data buf) = cb_cells buf"
    using assms(2) ok size by (intro nth_equalityI) (auto simp: cb_cells_def ring_cells_def ring_index_def)
  then have "take (length xs) (cb_data buf) = map Some xs" using assms(1) by (simp add: buf_holds_def)
  moreover have "segment (cb_data buf) off (length xs - off) = drop off (take (length xs) (cb_data buf))"
    using assms(3) by (simp add: segment_def take_drop)
  ultimately show ?thesis using ok size assms(3) by (simp add: audio_bytes_def drop_map)
qed

lemma push_blocks:
  assumes "bufs_hold bufs xss" "\<forall>buf \<in> set bufs. cb_start_pos buf = 0" "\<forall>xs \<in> set xss. length xs = n" "off \<le> n"
  shows "\<exists>bufs'. push_planes (map (\<lambda>_. circlebuf_init) bufs) (map cb_data bufs @ others) n off = Some bufs' \<and>
    bufs_hold bufs' (map (drop off) xss)"
  using assms
proof (induction bufs arbitrary: xss)
  case (Cons buf bufs)
  obtain xs xss' where x: "xss = xs # xss'" "buf_holds buf xs" "bufs_hold bufs xss'"
    using Cons.prems(1) by (auto simp: bufs_hold_def list_all2_Cons1)
  have "takes (length (drop off xs)) circlebuf_init" by (simp add: buf_holds_init)
  from push_holds(1) [OF buf_holds_init(1) this] have p: "buf_holds (circlebuf_push_back circlebuf_init (drop off xs)) (drop off xs)" by simp
  obtain bufs' where "push_planes (map (\<lambda>_. circlebuf_init) bufs) (map cb_data bufs @ others) n off = Some bufs'"
    "bufs_hold bufs' (map (drop off) xss')" using Cons.IH [OF x(3)] Cons.prems x(1) by auto
  then show ?case
    using p block_start [OF x(2), of off] Cons.prems(2-4) x(1) by (simp add: bufs_hold_def)
qed (simp add: bufs_hold_def)


subsection \<open>Properties of the audio\<close>


definition sample_chunks :: "audio_data list" where
  "sample_chunks = [\<lparr>ad_data = [[1, 2, 3], [4, 5, 6]], ad_frames = 3, ad_timestamp = 100\<rparr>,
     \<lparr>ad_data = [[7, 8, 9], [10, 11, 12]], ad_frames = 3, ad_timestamp = 103\<rparr>]"

lemma sample_audio_start: "audio_start (started_encoder OBS_ENCODER_AUDIO)" "codec_ok (sample_codec ty)"
  "en_planes (started_encoder OBS_ENCODER_AUDIO) = 2" "en_blocksize (started_encoder OBS_ENCODER_AUDIO) = 1"
  "en_framesize (started_encoder OBS_ENCODER_AUDIO) = 2" "en_framesize_bytes (started_encoder OBS_ENCODER_AUDIO) = 2"
  by (simp_all add: audio_start_def codec_ok_def started_encoder_def obs_encoder_start_def create_encoder_def obs_encoder_initialize_def
      sample_codec_def obs_encoder_shutdown_def add_connection_def intitialize_audio_encoder_def free_audio_buffers_def get_audio_info_def
      stereo_planar_def get_audio_size_def get_audio_planes_def is_audio_planar_def Let_def)




text \<open>when the audio was received and buffered before the video began and the next chunk comes after that, the encoder
  starts from the buffered audio, but the chunk that has just arrived is lost; and when the buffered
  audio does not reach up to the start of the video, the code reads far beyond it.\<close>

theorem audio_from_buffer_loses_chunk:
  assumes "en_paired e" "en_start_ts e = 0" "en_start_ts pair \<noteq> 0" "en_samplerate e \<noteq> 0" "en_start_ts pair < ad_timestamp data"
    and "ad_frames data < 2 ^ 32" "unat (ad_timestamp data) + ad_frames data * 1000000000 div unat (en_samplerate e) < 2 ^ 64"
    and "0 < en_planes e" "en_planes e \<le> length (en_audio_input_buffer e)"
    and "bufs_hold (audio_bufs e) xss" "\<forall>xs \<in> set xss. length xs = m" "\<forall>buf \<in> set (audio_bufs e). cb_start_pos buf = 0"
    and "en_first_raw_ts e \<le> en_start_ts pair" "(unat (en_start_ts pair) - unat (en_first_raw_ts e)) * unat (en_samplerate e) < 2 ^ 64"
    and "samples_between (en_first_raw_ts e) (en_start_ts pair) (en_samplerate e) * en_blocksize e < 2 ^ 64"
  shows "if samples_between (en_first_raw_ts e) (en_start_ts pair) (en_samplerate e) * en_blocksize e \<le> m
    then \<exists>e'. buffer_audio pair e data = Some (True, e') \<and>
      bufs_hold (audio_bufs e') (map (drop (samples_between (en_first_raw_ts e) (en_start_ts pair) (en_samplerate e) * en_blocksize e)) xss)
    else buffer_audio pair e data = None"
proof -
  let ?v = "en_start_ts pair" let ?off = "samples_between (en_first_raw_ts e) ?v (en_samplerate e) * en_blocksize e"
  let ?bufs = "audio_bufs e"
  define e1 where "e1 = e\<lparr>en_start_ts := ?v, en_audio_input_buffer := map (\<lambda>_. circlebuf_init) (en_audio_input_buffer e)\<rparr>"
  have late: "unat (ad_timestamp data + word_of_nat (ad_frames data) * 1000000000 div ucast (en_samplerate e)) \<ge> unat (ad_timestamp data)"
    using end_of_chunk [OF assms(6,7)] by simp
  then have not_yet: "\<not> ad_timestamp data + word_of_nat (ad_frames data) * 1000000000 div ucast (en_samplerate e) \<le> ?v"
    using assms(5) by (simp add: word_le_nat_alt word_less_nat_alt)
  have calc: "calc_offset_size e ?v (en_first_raw_ts e) = ?off" using calc_offset_samples assms(13-15) by blast
  have off_eq: "(if en_first_raw_ts e < ?v then calc_offset_size e ?v (en_first_raw_ts e) else 0) = ?off"
  proof (cases "en_first_raw_ts e < ?v")
    case False
    then have "en_first_raw_ts e = ?v" using assms(13) by simp
    then show ?thesis using False by (simp add: samples_between_def)
  qed (simp add: calc)
  have bufs: "en_audio_input_buffer e = ?bufs @ drop (en_planes e) (en_audio_input_buffer e)" by (simp add: audio_bufs_def)
  have len: "length ?bufs = en_planes e" "length xss = en_planes e"
    using assms(9,10) by (auto simp: audio_bufs_def bufs_hold_def dest: list_all2_lengthD)
  obtain buf bs where b: "?bufs = buf # bs" using len assms(8) by (cases ?bufs) auto
  obtain xs xss' where x: "xss = xs # xss'" "buf_holds buf xs" using assms(10) b by (auto simp: bufs_hold_def list_all2_Cons1)
  have hd: "cb_size (hd (en_audio_input_buffer e)) = m"
    using bufs b x assms(11) holds_size [OF x(2)] by (metis append_Cons list.sel(1) list.set_intros(1))
  have calc1: "calc_offset_size (e\<lparr>en_start_ts := t, en_audio_input_buffer := u\<rparr>) = calc_offset_size e" for t u
    by (intro ext) (simp add: calc_offset_size_def)
  have "start_from_buffer (e\<lparr>en_start_ts := ?v\<rparr>) ?v = push_back_audio e1 (map cb_data (en_audio_input_buffer e)) m ?off"
    using off_eq hd
    by (simp add: start_from_buffer_def Let_def e1_def calc1 split del: if_split cong: if_cong)
  moreover have "\<not> ad_timestamp data \<le> ?v" "\<not> ad_timestamp data < ?v" using assms(5) by simp_all
  ultimately have step: "buffer_audio pair e data = map_option (Pair True) (push_back_audio e1 (map cb_data (en_audio_input_buffer e)) m ?off)"
    using assms(1-5) not_yet by (simp only: buffer_audio_def Let_def if_True if_False simp_thms)
  have take_init: "take (en_planes e1) (en_audio_input_buffer e1) = map (\<lambda>_. circlebuf_init) ?bufs"
    by (simp add: e1_def audio_bufs_def take_map)
  have blocks: "map cb_data (en_audio_input_buffer e) = map cb_data ?bufs @ map cb_data (drop (en_planes e) (en_audio_input_buffer e))"
    by (subst bufs) simp
  show ?thesis
  proof (cases "?off \<le> m")
    case False
    have "push_planes (map (\<lambda>_. circlebuf_init) ?bufs) (map cb_data ?bufs @ others) m ?off = None" for others
      using False by (simp add: b audio_bytes_def)
    then show ?thesis using False step blocks take_init by (simp add: push_back_audio_def)
  next
    case True
    obtain bufs' where p: "push_planes (map (\<lambda>_. circlebuf_init) ?bufs) (map cb_data (en_audio_input_buffer e)) m ?off = Some bufs'"
      "bufs_hold bufs' (map (drop ?off) xss)" using push_blocks [OF assms(10,12,11) True] unfolding blocks by blast
    show ?thesis
    proof (cases "m = ?off")
      case True
      have "map (drop ?off) xss = replicate (en_planes e) []" using assms(11) len True by (intro nth_equalityI) auto
      moreover have "bufs_hold (map (\<lambda>_. circlebuf_init) ?bufs) (replicate (en_planes e) [])"
        using len by (simp add: bufs_hold_def list_all2_conv_all_nth buf_holds_init)
      moreover have "audio_bufs e1 = map (\<lambda>_. circlebuf_init) ?bufs" using take_init by (simp add: audio_bufs_def)
      ultimately show ?thesis using True step by (simp add: push_back_audio_def)
    next
      case False
      have "length bufs' = en_planes e1" using p(2) len by (auto simp: bufs_hold_def e1_def dest: list_all2_lengthD)
      then show ?thesis using False True p step take_init by (simp add: push_back_audio_def audio_bufs_def)
    qed
  qed
qed

definition buffered_encoder :: "nat encoder" where
  "buffered_encoder = started_encoder OBS_ENCODER_AUDIO\<lparr>en_paired := True, en_first_raw_ts := 100,
     en_audio_input_buffer := map (circlebuf_push_back circlebuf_init) [[1, 2, 3], [4, 5, 6]] @ replicate 6 circlebuf_init\<rparr>"

theorem audio_from_buffer_loses_chunk_witness:
  "\<exists>e'. buffer_audio (create_encoder 2 1 30 \<lparr>en_start_ts := 1000100\<rparr> :: nat encoder) buffered_encoder
     \<lparr>ad_data = [[7, 8, 9], [10, 11, 12]], ad_frames = 3, ad_timestamp = 3000100\<rparr> = Some (True, e') \<and>
    bufs_hold (audio_bufs e') [[2, 3], [5, 6]]"
proof -
  let ?e = buffered_encoder
  have e: "en_paired ?e" "en_start_ts ?e = 0" "en_samplerate ?e = 1000" "en_planes ?e = 2" "en_blocksize ?e = 1" "en_first_raw_ts ?e = 100"
    by (simp_all add: buffered_encoder_def sample_audio_start)
       (simp_all add: started_encoder_def obs_encoder_start_def create_encoder_def obs_encoder_initialize_def sample_codec_def obs_encoder_shutdown_def
        add_connection_def intitialize_audio_encoder_def free_audio_buffers_def get_audio_info_def stereo_planar_def get_audio_planes_def
        is_audio_planar_def Let_def)
  have b: "audio_bufs ?e = map (circlebuf_push_back circlebuf_init) [[1, 2, 3], [4, 5, 6]]" "en_planes ?e \<le> length (en_audio_input_buffer ?e)"
    by (simp_all add: audio_bufs_def e(4)) (simp_all add: buffered_encoder_def)
  have "takes n circlebuf_init" for n by (simp add: buf_holds_init)
  then have "buf_holds (circlebuf_push_back circlebuf_init xs) xs" for xs using push_holds(1) [OF buf_holds_init(1)] by simp
  then have h: "bufs_hold (audio_bufs ?e) [[1, 2, 3], [4, 5, 6]]" by (simp add: b(1) bufs_hold_def)
  have z: "\<forall>buf \<in> set (audio_bufs ?e). cb_start_pos buf = 0"
    by (simp add: b(1) circlebuf_push_back_def circlebuf_ensure_capacity_def circlebuf_reorder_data_def circlebuf_init_def Let_def)
  from audio_from_buffer_loses_chunk [OF e(1,2) _ _ _ _ _ _ b(2) h _ z, of "create_encoder 2 1 30 \<lparr>en_start_ts := 1000100\<rparr> :: nat encoder"
      "\<lparr>ad_data = [[7, 8, 9], [10, 11, 12]], ad_frames = 3, ad_timestamp = 3000100\<rparr>" 3]
  show ?thesis by (simp add: e samples_between_def)
qed

end
