(* ===== verification/Video_Io.thy ===== *)
theory Video_Io
  imports Prelude
begin

text \<open>
  Raw video output (\<open>libobs/media-io/video-io.c\<close>): a ring of cached frames between the graphics thread, which
  locks a slot, fills it and unlocks it, and the video thread, which shows the oldest frame as often as
  its count says. The sections under a mutex are atomic steps; between them the other thread, and
  callers that connect, disconnect or stop, may step. An image is a number; \<open>format\<close> and size describe a
  conversion. The scaler is a library: \<open>new_scaler\<close> tells whether it can be made, \<open>scale\<close> what it makes of an image.
\<close>

abbreviation "MAX_CONVERT_BUFFERS \<equiv> (3 :: nat)"
abbreviation "MAX_CACHE_SIZE \<equiv> (16 :: nat)"

record video_scale_info =
  vs_format :: nat
  vs_width :: "32 word"
  vs_height :: "32 word"

record video_frame_data =
  vf_image :: nat
  vf_timestamp :: "64 word"

record cached_frame_info =
  cf_frame :: video_frame_data
  cf_count :: int

record video_input =
  vi_conversion :: video_scale_info
  vi_scaler :: bool
  vi_cur_frame :: nat
  vi_target :: "nat \<times> nat"

record video_output_info =
  vo_format :: nat
  vo_fps_num :: "32 word"
  vo_fps_den :: "32 word"
  vo_width :: "32 word"
  vo_height :: "32 word"
  vo_cache_size :: nat

record video_output =
  vo_info :: video_output_info
  vo_stop :: bool
  vo_update_semaphore :: nat
  vo_frame_time :: "64 word"
  vo_skipped_frames :: "32 word"
  vo_total_frames :: "32 word"
  vo_initialized :: bool
  vo_inputs :: "video_input list"
  vo_available_frames :: nat
  vo_first_added :: nat
  vo_last_added :: nat
  vo_cache :: "cached_frame_info list"

subsection \<open>Opening, connecting and disconnecting\<close>

definition valid_video_params :: "video_output_info \<Rightarrow> bool" where
  "valid_video_params info \<longleftrightarrow> vo_height info \<noteq> 0 \<and> vo_width info \<noteq> 0 \<and> vo_fps_den info \<noteq> 0 \<and> vo_fps_num info \<noteq> 0"

definition init_cache :: "video_output \<Rightarrow> video_output" where
  "init_cache video =
     (let info = (if vo_cache_size (vo_info video) > MAX_CACHE_SIZE
                  then (vo_info video)\<lparr>vo_cache_size := MAX_CACHE_SIZE\<rparr> else vo_info video)
      in video\<lparr>vo_info := info, vo_available_frames := vo_cache_size info\<rparr>)"

text \<open>The frame time is computed in floating point, rounded towards zero: it is a parameter.\<close>

definition video_output_open :: "(32 word \<Rightarrow> 32 word \<Rightarrow> 64 word) \<Rightarrow> video_output_info \<Rightarrow> video_output option" where
  "video_output_open frame_time info =
     (if \<not> valid_video_params info then None
      else Some ((init_cache
        \<lparr>vo_info = info, vo_stop = False, vo_update_semaphore = 0, vo_frame_time = frame_time (vo_fps_den info) (vo_fps_num info),
         vo_skipped_frames = 0, vo_total_frames = 0, vo_initialized = False, vo_inputs = [], vo_available_frames = 0,
         vo_first_added = 0, vo_last_added = 0,
         vo_cache = replicate MAX_CACHE_SIZE \<lparr>cf_frame = \<lparr>vf_image = 0, vf_timestamp = 0\<rparr>, cf_count = 0\<rparr>\<rparr>)\<lparr>vo_initialized := True\<rparr>))"

fun video_get_input_idx :: "video_input list \<Rightarrow> nat \<times> nat \<Rightarrow> nat option" where
  "video_get_input_idx [] t = None"
| "video_get_input_idx (input # inputs) t =
     (if vi_target input = t then Some 0 else map_option Suc (video_get_input_idx inputs t))"

definition video_input_init :: "(video_scale_info \<Rightarrow> video_scale_info \<Rightarrow> bool) \<Rightarrow> video_input \<Rightarrow> video_output \<Rightarrow> bool \<times> video_input" where
  "video_input_init new_scaler input video =
     (let from_info = \<lparr>vs_format = vo_format (vo_info video), vs_width = vo_width (vo_info video), vs_height = vo_height (vo_info video)\<rparr>
      in if vi_conversion input \<noteq> from_info then
           if new_scaler (vi_conversion input) from_info then (True, input\<lparr>vi_scaler := True\<rparr>) else (False, input)
         else (True, input))"

definition video_output_connect ::
  "(video_scale_info \<Rightarrow> video_scale_info \<Rightarrow> bool) \<Rightarrow> video_output \<Rightarrow> video_scale_info option \<Rightarrow> nat \<times> nat \<Rightarrow> bool \<times> video_output" where
  "video_output_connect new_scaler video conversion t =
     (case video_get_input_idx (vo_inputs video) t of
        Some _ \<Rightarrow> (False, video)
      | None \<Rightarrow>
          let info = vo_info video;
              conv = (case conversion of
                        Some c \<Rightarrow> c
                      | None \<Rightarrow> \<lparr>vs_format = vo_format info, vs_width = vo_width info, vs_height = vo_height info\<rparr>);
              conv = (if vs_width conv = 0 then conv\<lparr>vs_width := vo_width info\<rparr> else conv);
              conv = (if vs_height conv = 0 then conv\<lparr>vs_height := vo_height info\<rparr> else conv);
              (success, input) = video_input_init new_scaler
                 \<lparr>vi_conversion = conv, vi_scaler = False, vi_cur_frame = 0, vi_target = t\<rparr> video
          in if success then (True, video\<lparr>vo_inputs := vo_inputs video @ [input]\<rparr>) else (False, video))"

definition video_output_disconnect :: "video_output \<Rightarrow> nat \<times> nat \<Rightarrow> video_output" where
  "video_output_disconnect video t =
     (case video_get_input_idx (vo_inputs video) t of
        None \<Rightarrow> video
      | Some idx \<Rightarrow> video\<lparr>vo_inputs := take idx (vo_inputs video) @ drop (Suc idx) (vo_inputs video)\<rparr>)"

definition video_output_active :: "video_output \<Rightarrow> bool" where
  "video_output_active video \<longleftrightarrow> vo_inputs video \<noteq> []"

subsection \<open>The graphics thread\<close>

text \<open>The slot whose pointers are handed out, when a frame is locked.\<close>

definition video_output_lock_frame :: "video_output \<Rightarrow> int \<Rightarrow> 64 word \<Rightarrow> nat option \<times> video_output" where
  "video_output_lock_frame video count timestamp =
     (if vo_available_frames video = 0 then
        let i = vo_last_added video; cfi = vo_cache video ! i
        in (None, video\<lparr>vo_skipped_frames := vo_skipped_frames video + word_of_int count,
                        vo_cache := (vo_cache video)[i := cfi\<lparr>cf_count := cf_count cfi + count\<rparr>]\<rparr>)
      else
        let last = (if vo_available_frames video \<noteq> vo_cache_size (vo_info video)
                    then (if vo_last_added video + 1 = vo_cache_size (vo_info video) then 0 else vo_last_added video + 1)
                    else vo_last_added video);
            cfi = vo_cache video ! last
        in (Some last, video\<lparr>vo_last_added := last,
              vo_cache := (vo_cache video)[last := \<lparr>cf_frame = (cf_frame cfi)\<lparr>vf_timestamp := timestamp\<rparr>, cf_count = count\<rparr>]\<rparr>))"

text \<open>Copying the image into the slot, as \<open>output_video_data\<close> of \<open>obs-video.c\<close> does.\<close>

definition fill_frame :: "video_output \<Rightarrow> nat \<Rightarrow> nat \<Rightarrow> video_output" where
  "fill_frame video i img =
     video\<lparr>vo_cache := (vo_cache video)[i := (vo_cache video ! i)\<lparr>cf_frame := (cf_frame (vo_cache video ! i))\<lparr>vf_image := img\<rparr>\<rparr>]\<rparr>"

definition video_output_unlock_frame :: "video_output \<Rightarrow> video_output" where
  "video_output_unlock_frame video =
     video\<lparr>vo_available_frames := vo_available_frames video - 1, vo_update_semaphore := vo_update_semaphore video + 1\<rparr>"

definition video_output_stop :: "video_output \<Rightarrow> video_output" where
  "video_output_stop video =
     (if vo_initialized video
      then video\<lparr>vo_initialized := False, vo_stop := True, vo_update_semaphore := vo_update_semaphore video + 1\<rparr>
      else video)"

subsection \<open>The video thread\<close>

definition scale_video_output :: "(video_input \<Rightarrow> nat \<Rightarrow> nat option) \<Rightarrow> video_input \<Rightarrow> video_frame_data \<Rightarrow> video_input \<times> video_frame_data option" where
  "scale_video_output scale input data =
     (if vi_scaler input then
        let input = input\<lparr>vi_cur_frame := (if vi_cur_frame input + 1 = MAX_CONVERT_BUFFERS then 0 else vi_cur_frame input + 1)\<rparr>
        in (input, map_option (\<lambda>image. data\<lparr>vf_image := image\<rparr>) (scale input (vf_image data)))
      else (input, Some data))"

text \<open>The loop over the inputs: the inputs afterwards, and the calls of callbacks.\<close>

fun show_frame :: "(video_input \<Rightarrow> nat \<Rightarrow> nat option) \<Rightarrow> video_frame_data \<Rightarrow> video_input list \<Rightarrow>
    video_input list \<times> ((nat \<times> nat) \<times> video_frame_data) list" where
  "show_frame scale frame [] = ([], [])"
| "show_frame scale frame (input # inputs) =
     (case scale_video_output scale input frame of
        (input, result) \<Rightarrow>
          (case show_frame scale frame inputs of
             (inputs, calls) \<Rightarrow>
               (input # inputs, (case result of None \<Rightarrow> [] | Some data \<Rightarrow> [(vi_target input, data)]) @ calls)))"

definition show_cur_frame :: "(video_input \<Rightarrow> nat \<Rightarrow> nat option) \<Rightarrow> video_output \<Rightarrow> nat \<Rightarrow> video_output \<times> ((nat \<times> nat) \<times> video_frame_data) list" where
  "show_cur_frame scale video i =
     (case show_frame scale (cf_frame (vo_cache video ! i)) (vo_inputs video) of
        (inputs, calls) \<Rightarrow> (video\<lparr>vo_inputs := inputs\<rparr>, calls))"

definition finish_cur_frame :: "video_output \<Rightarrow> nat \<Rightarrow> bool \<times> video_output" where
  "finish_cur_frame video i =
     (let fi = vo_cache video ! i;
          fi = fi\<lparr>cf_frame := (cf_frame fi)\<lparr>vf_timestamp := vf_timestamp (cf_frame fi) + vo_frame_time video\<rparr>,
                 cf_count := cf_count fi - 1\<rparr>;
          video = video\<lparr>vo_cache := (vo_cache video)[i := fi]\<rparr>;
          complete = (cf_count fi = 0)
      in if complete then
           let C = vo_cache_size (vo_info video);
               first = (if vo_first_added video + 1 = C then 0 else vo_first_added video + 1);
               avail = vo_available_frames video + 1
           in (True, video\<lparr>vo_first_added := first, vo_available_frames := avail,
                           vo_last_added := (if avail = C then first else vo_last_added video)\<rparr>)
         else (False, video))"

text \<open>\<open>video_output_cur_frame\<close> without interruption: the two sections one after the other.\<close>

definition video_output_cur_frame :: "(video_input \<Rightarrow> nat \<Rightarrow> nat option) \<Rightarrow> video_output \<Rightarrow> bool \<times> video_output \<times> ((nat \<times> nat) \<times> video_frame_data) list" where
  "video_output_cur_frame scale video =
     (let i = vo_first_added video;
          (video, calls) = show_cur_frame scale video i;
          (complete, video) = finish_cur_frame video i
      in (complete, video, calls))"

text \<open>Where the video thread is: waiting for the semaphore, before the test of the inner loop, with the pointer to the
  current frame, after the callbacks, ended. The graphics thread may hold a locked slot. \<open>vs_shown\<close> are the
  frames shown, \<open>vs_calls\<close> the calls, \<open>vs_requested\<close> the sum of the counts asked for.\<close>

datatype video_pc = Waiting | Testing | Reading nat | Shown nat | Ended

record video_system =
  vs_video :: video_output
  vs_pc :: video_pc
  vs_locked :: "nat option"
  vs_shown :: "video_frame_data list"
  vs_calls :: "((nat \<times> nat) \<times> video_frame_data) list"
  vs_requested :: int

definition add_total :: "video_output \<Rightarrow> video_output" where
  "add_total video = video\<lparr>vo_total_frames := vo_total_frames video + 1\<rparr>"

inductive video_step :: "(video_scale_info \<Rightarrow> video_scale_info \<Rightarrow> bool) \<Rightarrow> (video_input \<Rightarrow> nat \<Rightarrow> nat option) \<Rightarrow> video_system \<Rightarrow> video_system \<Rightarrow> bool"
  for new_scaler :: "video_scale_info \<Rightarrow> video_scale_info \<Rightarrow> bool" and scale :: "video_input \<Rightarrow> nat \<Rightarrow> nat option" where
  lock: "vs_locked s = None \<Longrightarrow> count > 0 \<Longrightarrow> video_output_lock_frame (vs_video s) count timestamp = (slot, video) \<Longrightarrow>
    video_step new_scaler scale s (s\<lparr>vs_video := video, vs_locked := slot, vs_requested := vs_requested s + count\<rparr>)"
| fill: "vs_locked s = Some i \<Longrightarrow> video_step new_scaler scale s (s\<lparr>vs_video := fill_frame (vs_video s) i img\<rparr>)"
| unlock: "vs_locked s = Some i \<Longrightarrow>
    video_step new_scaler scale s (s\<lparr>vs_video := video_output_unlock_frame (vs_video s), vs_locked := None\<rparr>)"
| wake: "vs_pc s = Waiting \<Longrightarrow> vo_update_semaphore (vs_video s) = Suc n \<Longrightarrow>
    video_step new_scaler scale s (s\<lparr>vs_video := (vs_video s)\<lparr>vo_update_semaphore := n\<rparr>,
      vs_pc := (if vo_stop (vs_video s) then Ended else Testing)\<rparr>)"
| test_stop: "vs_pc s = Testing \<Longrightarrow> vo_stop (vs_video s) \<Longrightarrow>
    video_step new_scaler scale s (s\<lparr>vs_video := add_total (vs_video s), vs_pc := Waiting\<rparr>)"
| test_go: "vs_pc s = Testing \<Longrightarrow> \<not> vo_stop (vs_video s) \<Longrightarrow>
    video_step new_scaler scale s (s\<lparr>vs_pc := Reading (vo_first_added (vs_video s))\<rparr>)"
| callbacks: "vs_pc s = Reading i \<Longrightarrow> show_cur_frame scale (vs_video s) i = (video, calls) \<Longrightarrow>
    video_step new_scaler scale s (s\<lparr>vs_video := video, vs_pc := Shown i,
      vs_shown := vs_shown s @ [cf_frame (vo_cache (vs_video s) ! i)], vs_calls := vs_calls s @ calls\<rparr>)"
| finish: "vs_pc s = Shown i \<Longrightarrow> finish_cur_frame (vs_video s) i = (complete, video) \<Longrightarrow>
    video_step new_scaler scale s (s\<lparr>vs_video := add_total video, vs_pc := (if complete then Waiting else Testing)\<rparr>)"
| connect: "video_output_connect new_scaler (vs_video s) conversion t = (r, video) \<Longrightarrow>
    video_step new_scaler scale s (s\<lparr>vs_video := video\<rparr>)"
| disconnect: "video_step new_scaler scale s (s\<lparr>vs_video := video_output_disconnect (vs_video s) t\<rparr>)"
| stop: "video_step new_scaler scale s (s\<lparr>vs_video := video_output_stop (vs_video s)\<rparr>)"

inductive_cases video_stepE: "video_step new_scaler scale s s'"

definition video_start :: "video_output \<Rightarrow> video_system" where
  "video_start video = \<lparr>vs_video = video, vs_pc = Waiting, vs_locked = None, vs_shown = [], vs_calls = [], vs_requested = 0\<rparr>"


subsection \<open>The ring of slots as a queue\<close>

definition slot :: "nat \<Rightarrow> nat \<Rightarrow> nat \<Rightarrow> nat" where
  "slot C first k = (first + k) mod C"

lemma slot_less: "0 < C \<Longrightarrow> slot C first k < C"
  by (simp add: slot_def)

lemma slot_inj: "k < C \<Longrightarrow> l < C \<Longrightarrow> slot C first k = slot C first l \<longleftrightarrow> k = l"
proof -
  assume k: "k < C" and l: "l < C"
  have "k = l" if "(first + k) mod C = (first + l) mod C" "k \<le> l" "l < C" for k l
  proof -
    have "(l - k) mod C = 0" using that(1,2) by (metis add_diff_cancel_left mod_eq_dvd_iff_nat dvd_imp_mod_0 nat_add_left_cancel_le)
    then show ?thesis using that(2,3) by (cases "l - k") auto
  qed
  then show ?thesis using k l unfolding slot_def by (metis nat_le_linear)
qed

lemma slot_step: "first < C \<Longrightarrow> (if first + 1 = C then 0 else first + 1) = slot C first (Suc 0)"
  by (simp add: slot_def)

lemma slot_slot: "slot C (slot C first (Suc 0)) k = slot C first (Suc k)"
  by (simp add: slot_def mod_simps)

lemma slot_next: "0 < n \<Longrightarrow> slot C (slot C first (n - 1)) (Suc 0) = slot C first n"
  by (simp add: slot_def mod_simps)

lemma slot_0: "first < C \<Longrightarrow> slot C first 0 = first"
  by (simp add: slot_def)

definition ring_queue :: "'a list \<Rightarrow> nat \<Rightarrow> nat \<Rightarrow> nat \<Rightarrow> 'a list" where
  "ring_queue cache C first n = map (\<lambda>k. cache ! slot C first k) [0 ..< n]"

lemma length_ring_queue [simp]: "length (ring_queue cache C first n) = n"
  by (simp add: ring_queue_def)

lemma nth_ring_queue: "k < n \<Longrightarrow> ring_queue cache C first n ! k = cache ! slot C first k"
  by (simp add: ring_queue_def)

lemma ring_queue_update:
  assumes "j < C" "n \<le> C" "C \<le> length cache"
  shows "ring_queue (cache[slot C first j := x]) C first n = (ring_queue cache C first n)[j := x]"
proof (rule nth_equalityI)
  fix k assume "k < length (ring_queue (cache[slot C first j := x]) C first n)"
  then have k: "k < n" by simp
  have "slot C first j < length cache" using slot_less [of C first j] assms by simp
  then show "ring_queue (cache[slot C first j := x]) C first n ! k = (ring_queue cache C first n)[j := x] ! k"
    using k assms slot_inj [of k C j first] by (auto simp: nth_ring_queue nth_list_update)
qed simp

lemma ring_queue_snoc: "ring_queue cache C first (Suc n) = ring_queue cache C first n @ [cache ! slot C first n]"
  by (simp add: ring_queue_def)

lemma ring_queue_tl: "first < C \<Longrightarrow> ring_queue cache C (slot C first (Suc 0)) n = tl (ring_queue cache C first (Suc n))"
  by (rule nth_equalityI) (simp_all add: nth_ring_queue nth_tl slot_slot)

lemma ring_queue_hd: "first < C \<Longrightarrow> 0 < n \<Longrightarrow> hd (ring_queue cache C first n) = cache ! first"
  by (simp add: hd_conv_nth nth_ring_queue slot_0 length_greater_0_conv [symmetric] del: length_greater_0_conv)

subsection \<open>What is queued\<close>

abbreviation ring_size :: "video_output \<Rightarrow> nat" where
  "ring_size v \<equiv> vo_cache_size (vo_info v)"

definition queued :: "video_output \<Rightarrow> nat option \<Rightarrow> nat" where
  "queued v locked = ring_size v - vo_available_frames v + (if locked = None then 0 else 1)"

definition queue :: "video_output \<Rightarrow> nat option \<Rightarrow> cached_frame_info list" where
  "queue v locked = ring_queue (vo_cache v) (ring_size v) (vo_first_added v) (queued v locked)"

abbreviation vs_queue :: "video_system \<Rightarrow> cached_frame_info list" where
  "vs_queue s \<equiv> queue (vs_video s) (vs_locked s)"

definition busy :: "video_pc \<Rightarrow> nat" where
  "busy pc = (case pc of Waiting \<Rightarrow> 0 | Ended \<Rightarrow> 0 | _ \<Rightarrow> 1)"

definition pc_slot :: "video_pc \<Rightarrow> nat option" where
  "pc_slot pc = (case pc of Reading i \<Rightarrow> Some i | Shown i \<Rightarrow> Some i | _ \<Rightarrow> None)"

definition ring_ok :: "video_output \<Rightarrow> nat option \<Rightarrow> bool" where
  "ring_ok v locked \<longleftrightarrow>
     0 < ring_size v \<and> ring_size v \<le> length (vo_cache v) \<and> vo_available_frames v \<le> ring_size v \<and>
     vo_first_added v < ring_size v \<and> vo_last_added v = slot (ring_size v) (vo_first_added v) (queued v locked - 1) \<and>
     (\<forall>i. locked = Some i \<longrightarrow> i = vo_last_added v \<and> 0 < vo_available_frames v) \<and>
     (\<forall>cfi \<in> set (queue v locked). 0 < cf_count cfi)"

definition thread_ok :: "video_output \<Rightarrow> video_pc \<Rightarrow> bool" where
  "thread_ok v pc \<longleftrightarrow>
     (\<forall>i. pc_slot pc = Some i \<longrightarrow> i = vo_first_added v \<and> vo_available_frames v < ring_size v) \<and>
     (pc = Ended \<longrightarrow> vo_stop v) \<and>
     (\<not> vo_stop v \<longrightarrow> vo_update_semaphore v + busy pc = ring_size v - vo_available_frames v)"

definition count_ok :: "video_output \<Rightarrow> nat option \<Rightarrow> int \<Rightarrow> bool" where
  "count_ok v locked requested \<longleftrightarrow> (\<not> vo_stop v \<longrightarrow> word_of_int requested = vo_total_frames v + word_of_int (sum_list (map cf_count (queue v locked))))"

definition video_inv :: "nat \<Rightarrow> 64 word \<Rightarrow> video_system \<Rightarrow> bool" where
  "video_inv C ft s \<longleftrightarrow> ring_size (vs_video s) = C \<and> vo_frame_time (vs_video s) = ft \<and>
     ring_ok (vs_video s) (vs_locked s) \<and> thread_ok (vs_video s) (vs_pc s) \<and> count_ok (vs_video s) (vs_locked s) (vs_requested s)"

text \<open>What the queue promises: a new frame goes to its end, a frame that finds it full makes the last one last longer, and the
  first is shown as often as its count says, each time a frame time later.\<close>

record frame_queue =
  fq_items :: "cached_frame_info list"
  fq_locked :: bool
  fq_shown :: "video_frame_data list"
  fq_showing :: bool

inductive frame_step :: "nat \<Rightarrow> 64 word \<Rightarrow> frame_queue \<Rightarrow> frame_queue \<Rightarrow> bool" for C :: nat and ft :: "64 word" where
  put: "\<not> fq_locked q \<Longrightarrow> length (fq_items q) < C \<Longrightarrow> vf_timestamp f = timestamp \<Longrightarrow>
    frame_step C ft q (q\<lparr>fq_items := fq_items q @ [\<lparr>cf_frame = f, cf_count = count\<rparr>], fq_locked := True\<rparr>)"
| extend: "\<not> fq_locked q \<Longrightarrow> length (fq_items q) = C \<Longrightarrow> fq_items q = qs @ [cfi] \<Longrightarrow>
    frame_step C ft q (q\<lparr>fq_items := qs @ [cfi\<lparr>cf_count := cf_count cfi + count\<rparr>]\<rparr>)"
| fill: "fq_locked q \<Longrightarrow> fq_items q = qs @ [cfi] \<Longrightarrow>
    frame_step C ft q (q\<lparr>fq_items := qs @ [cfi\<lparr>cf_frame := (cf_frame cfi)\<lparr>vf_image := img\<rparr>\<rparr>]\<rparr>)"
| unlock: "fq_locked q \<Longrightarrow> frame_step C ft q (q\<lparr>fq_locked := False\<rparr>)"
| show_first: "fq_items q = cfi # qs \<Longrightarrow> fq_locked q \<longrightarrow> qs \<noteq> [] \<Longrightarrow> \<not> fq_showing q \<Longrightarrow>
    frame_step C ft q (q\<lparr>fq_shown := fq_shown q @ [cf_frame cfi], fq_showing := True\<rparr>)"
| show_again: "fq_items q = cfi # qs \<Longrightarrow> fq_showing q \<Longrightarrow> cf_count cfi > 1 \<Longrightarrow>
    frame_step C ft q (q\<lparr>fq_items := cfi\<lparr>cf_frame := (cf_frame cfi)\<lparr>vf_timestamp := vf_timestamp (cf_frame cfi) + ft\<rparr>,
      cf_count := cf_count cfi - 1\<rparr> # qs, fq_showing := False\<rparr>)"
| show_last: "fq_items q = cfi # qs \<Longrightarrow> fq_showing q \<Longrightarrow> cf_count cfi = 1 \<Longrightarrow>
    frame_step C ft q (q\<lparr>fq_items := qs, fq_showing := False\<rparr>)"

definition abs_queue :: "video_system \<Rightarrow> frame_queue" where
  "abs_queue s = \<lparr>fq_items = vs_queue s, fq_locked = (vs_locked s \<noteq> None), fq_shown = vs_shown s,
     fq_showing = (\<exists>i. vs_pc s = Shown i)\<rparr>"

lemma ring_queue_last: "0 < n \<Longrightarrow> last (ring_queue cache C first n) = cache ! slot C first (n - 1)"
  using nth_ring_queue [of "n - 1" n cache C first] by (simp add: last_conv_nth flip: length_greater_0_conv)

lemma update_last: "xs \<noteq> [] \<Longrightarrow> xs[length xs - 1 := x] = butlast xs @ [x]"
  by (induction xs rule: rev_induct) simp_all

lemma ring_queue_end:
  assumes "0 < n" "n \<le> C" "C \<le> length cache"
  shows "ring_queue (cache[slot C first (n - 1) := x]) C first n = butlast (ring_queue cache C first n) @ [x]"
proof -
  have "ring_queue cache C first n \<noteq> []" using assms(1) by (simp flip: length_greater_0_conv)
  then show ?thesis
    using assms ring_queue_update [of "n - 1" C n cache first x] update_last [of "ring_queue cache C first n" x] by simp
qed

lemma sum_butlast_last: "xs \<noteq> [] \<Longrightarrow> sum_list (map f xs) = sum_list (map f (butlast xs)) + f (last xs)"
  for f :: "'a \<Rightarrow> int"
  by (subst (1) append_butlast_last_id [symmetric, of xs]) (simp_all del: append_butlast_last_id)

text \<open>One lemma per operation of the graphics thread and of the video thread.\<close>

lemma ring_okD:
  assumes "ring_ok v locked"
  shows "0 < ring_size v" "ring_size v \<le> length (vo_cache v)" "vo_available_frames v \<le> ring_size v"
    "vo_first_added v < ring_size v" "vo_last_added v = slot (ring_size v) (vo_first_added v) (queued v locked - 1)"
    "locked = Some i \<Longrightarrow> i = vo_last_added v \<and> 0 < vo_available_frames v"
    "cfi \<in> set (queue v locked) \<Longrightarrow> 0 < cf_count cfi"
    "queued v locked \<le> ring_size v"
  using assms by (auto simp: ring_ok_def queued_def)

text \<open>A frame that finds the ring full: the last one is to last longer.\<close>

lemma lock_full:
  assumes "ring_ok v None" "vo_available_frames v = 0"
    and "video_output_lock_frame v count timestamp = (sl, v')"
  shows "sl = None" "queue v None = butlast (queue v None) @ [last (queue v None)]"
    "queue v' None = butlast (queue v None) @ [(last (queue v None))\<lparr>cf_count := cf_count (last (queue v None)) + count\<rparr>]"
    "length (queue v None) = ring_size v"
    "vo_last_added v' = vo_last_added v" "vo_first_added v' = vo_first_added v" "vo_available_frames v' = vo_available_frames v"
    "vo_info v' = vo_info v" "length (vo_cache v') = length (vo_cache v)" "vo_stop v' = vo_stop v"
    "vo_update_semaphore v' = vo_update_semaphore v" "vo_total_frames v' = vo_total_frames v" "vo_frame_time v' = vo_frame_time v"
proof -
  have n: "queued v None = ring_size v" "0 < ring_size v" using assms(2) ring_okD(1) [OF assms(1)] by (simp_all add: queued_def)
  let ?q = "queue v None"
  have last: "last ?q = vo_cache v ! vo_last_added v"
    using ring_queue_last [of "ring_size v" "vo_cache v" "ring_size v" "vo_first_added v"] ring_okD(5) [OF assms(1)] n
    by (simp add: queue_def)
  have v: "sl = None \<and> v' = v\<lparr>vo_skipped_frames := vo_skipped_frames v + word_of_int count,
      vo_cache := (vo_cache v)[vo_last_added v := (last ?q)\<lparr>cf_count := cf_count (last ?q) + count\<rparr>]\<rparr>"
    using assms(2,3) unfolding last by (auto simp: video_output_lock_frame_def Let_def)
  show "queue v' None = butlast ?q @ [(last ?q)\<lparr>cf_count := cf_count (last ?q) + count\<rparr>]"
    using ring_queue_end [of "ring_size v" "ring_size v" "vo_cache v" "vo_first_added v"] ring_okD(2,5) [OF assms(1)] n v assms(2)
    by (simp add: queue_def queued_def)
  show "length ?q = ring_size v" using n by (simp add: queue_def)
  then have "?q \<noteq> []" using n by auto
  then show "?q = butlast ?q @ [last ?q]" by simp
qed (use assms(2,3) in \<open>auto simp: video_output_lock_frame_def Let_def\<close>)

text \<open>A frame that finds room: the slot after the last one.\<close>

lemma lock_room:
  assumes "ring_ok v None" "vo_available_frames v \<noteq> 0"
    and "video_output_lock_frame v count timestamp = (sl, v')"
  shows "sl = Some (slot (ring_size v) (vo_first_added v) (queued v None))"
    and "\<exists>f. vf_timestamp f = timestamp \<and> queue v' sl = queue v None @ [\<lparr>cf_frame = f, cf_count = count\<rparr>]"
    and "length (queue v None) < ring_size v" "vo_last_added v' = slot (ring_size v) (vo_first_added v) (queued v None)"
    "vo_first_added v' = vo_first_added v" "vo_available_frames v' = vo_available_frames v"
    "vo_info v' = vo_info v" "length (vo_cache v') = length (vo_cache v)" "vo_stop v' = vo_stop v"
    "vo_update_semaphore v' = vo_update_semaphore v" "vo_total_frames v' = vo_total_frames v" "vo_frame_time v' = vo_frame_time v"
proof -
  let ?C = "ring_size v" let ?first = "vo_first_added v" let ?n = "queued v None" let ?i = "slot ?C ?first ?n"
  note ok = ring_okD [OF assms(1)]
  have n: "?n = ?C - vo_available_frames v" "?n < ?C" using assms(2) ok(1,3) by (auto simp: queued_def)
  then show "length (queue v None) < ?C" by (simp add: queue_def)
  have last: "(if vo_available_frames v \<noteq> ?C then (if vo_last_added v + 1 = ?C then 0 else vo_last_added v + 1) else vo_last_added v) = ?i"
  proof (cases "vo_available_frames v = ?C")
    case True
    then show ?thesis using ok(5) n by simp
  next
    case False
    then have "0 < ?n" using n ok(3) by simp
    moreover have "slot ?C ?first (?n - 1) < ?C" using slot_less ok(1) by blast
    ultimately show ?thesis
      using False slot_step [of "slot ?C ?first (?n - 1)" ?C] slot_next [of ?n ?C ?first] by (simp only: ok(5) if_True simp_thms)
  qed
  let ?new = "\<lparr>cf_frame = (cf_frame (vo_cache v ! ?i))\<lparr>vf_timestamp := timestamp\<rparr>, cf_count = count\<rparr>"
  have v: "sl = Some ?i \<and> v' = v\<lparr>vo_last_added := ?i, vo_cache := (vo_cache v)[?i := ?new]\<rparr>"
    using assms(2,3) last by (auto simp: video_output_lock_frame_def Let_def)
  then show "sl = Some ?i" "vo_last_added v' = ?i" "vo_first_added v' = ?first" "vo_available_frames v' = vo_available_frames v"
    "vo_info v' = vo_info v" "length (vo_cache v') = length (vo_cache v)" "vo_stop v' = vo_stop v"
    "vo_update_semaphore v' = vo_update_semaphore v" "vo_total_frames v' = vo_total_frames v" "vo_frame_time v' = vo_frame_time v"
    by simp_all
  have "?i < length (vo_cache v)" using slot_less [OF ok(1), of ?first ?n] ok(2) by linarith
  then have "queue v' sl = queue v None @ [?new]"
    using ring_queue_update [of ?n ?C ?n "vo_cache v" ?first ?new] n ok(2) v
    by (simp add: queue_def queued_def ring_queue_snoc list_update_beyond)
  then show "\<exists>f. vf_timestamp f = timestamp \<and> queue v' sl = queue v None @ [\<lparr>cf_frame = f, cf_count = count\<rparr>]"
    by (intro exI [of _ "(cf_frame (vo_cache v ! ?i))\<lparr>vf_timestamp := timestamp\<rparr>"]) simp
qed


lemma queue_frame [simp]:
  "queue (v\<lparr>vo_inputs := inputs\<rparr>) locked = queue v locked"
  "queue (v\<lparr>vo_update_semaphore := n\<rparr>) locked = queue v locked"
  "queue (v\<lparr>vo_total_frames := k\<rparr>) locked = queue v locked"
  "queue (v\<lparr>vo_initialized := b\<rparr>) locked = queue v locked"
  "queue (v\<lparr>vo_stop := b\<rparr>) locked = queue v locked"
  by (simp_all add: queue_def queued_def)

lemma ring_ok_frame [simp]:
  "ring_ok (v\<lparr>vo_inputs := inputs\<rparr>) locked = ring_ok v locked"
  "ring_ok (v\<lparr>vo_update_semaphore := n\<rparr>) locked = ring_ok v locked"
  "ring_ok (v\<lparr>vo_total_frames := k\<rparr>) locked = ring_ok v locked"
  "ring_ok (v\<lparr>vo_initialized := b\<rparr>) locked = ring_ok v locked"
  "ring_ok (v\<lparr>vo_stop := b\<rparr>) locked = ring_ok v locked"
  by (simp_all add: ring_ok_def queued_def)

text \<open>One lemma per step, each with the invariant and the step of the abstract queue.\<close>

lemma unlock_step:
  assumes inv: "video_inv C ft s" and l: "vs_locked s = Some i"
  defines "s' \<equiv> s\<lparr>vs_video := video_output_unlock_frame (vs_video s), vs_locked := None\<rparr>"
  shows "video_inv C ft s' \<and> frame_step C ft (abs_queue s) (abs_queue s')"
proof -
  let ?v = "vs_video s" let ?v' = "video_output_unlock_frame ?v"
  have ok: "ring_ok ?v (Some i)" using inv l by (simp add: video_inv_def)
  have a: "0 < vo_available_frames ?v" "vo_available_frames ?v \<le> ring_size ?v" using ring_okD(3,6) [OF ok] by auto
  then have n: "queued ?v' None = queued ?v (Some i)" by (auto simp: queued_def video_output_unlock_frame_def)
  then have q: "queue ?v' None = queue ?v (Some i)" by (simp add: queue_def video_output_unlock_frame_def)
  have "ring_ok ?v' None"
    using ring_okD(1-4,7) [OF ok] ring_okD(5) [OF ok] unfolding ring_ok_def n q
    by (simp add: video_output_unlock_frame_def less_imp_diff_less le_diff_conv)
  moreover have "thread_ok ?v' (vs_pc s)"
    using inv a by (auto simp: video_inv_def thread_ok_def video_output_unlock_frame_def)
  moreover have "count_ok ?v' None (vs_requested s)"
    using inv l unfolding video_inv_def count_ok_def q by (simp add: video_output_unlock_frame_def)
  ultimately have "video_inv C ft s'"
    using inv by (simp add: video_inv_def s'_def) (simp add: video_output_unlock_frame_def)
  moreover have "frame_step C ft (abs_queue s) (abs_queue s')"
  proof -
    have e: "abs_queue s' = (abs_queue s)\<lparr>fq_locked := False\<rparr>" using l q by (simp add: abs_queue_def s'_def)
    show ?thesis unfolding e by (rule frame_step.unlock) (simp add: abs_queue_def l)
  qed
  ultimately show ?thesis by blast
qed

text \<open>The video thread with the pointer to the current frame: the queue is not empty, and a locked slot is not its first.\<close>

lemma reading_queue:
  assumes inv: "video_inv C ft s" and pc: "pc_slot (vs_pc s) = Some i"
  obtains cfi qs where "vs_queue s = cfi # qs" "cfi = vo_cache (vs_video s) ! i" "vs_locked s \<noteq> None \<Longrightarrow> qs \<noteq> []"
    "i = vo_first_added (vs_video s)" "vo_available_frames (vs_video s) < C"
proof -
  have i: "i = vo_first_added (vs_video s)" "vo_available_frames (vs_video s) < ring_size (vs_video s)"
    using inv pc by (auto simp: video_inv_def thread_ok_def)
  have ok: "ring_ok (vs_video s) (vs_locked s)" using inv by (simp add: video_inv_def)
  have n: "0 < length (vs_queue s)" "vs_locked s \<noteq> None \<Longrightarrow> 1 < length (vs_queue s)"
    using i(2) by (auto simp: queue_def queued_def)
  then obtain cfi qs where q: "vs_queue s = cfi # qs" by (cases "vs_queue s") auto
  moreover have "hd (vs_queue s) = vo_cache (vs_video s) ! i"
    unfolding queue_def i by (rule ring_queue_hd) (use ring_okD(4) [OF ok] n(1) in \<open>simp_all add: queue_def\<close>)
  ultimately show ?thesis using that [of cfi qs] i n(2) inv by (auto simp: video_inv_def)
qed

lemma show_step:
  assumes inv: "video_inv C ft s" and pc: "vs_pc s = Reading i"
    and r: "show_cur_frame scale (vs_video s) i = (video, calls)"
  defines "s' \<equiv> s\<lparr>vs_video := video, vs_pc := Shown i, vs_shown := vs_shown s @ [cf_frame (vo_cache (vs_video s) ! i)],
    vs_calls := vs_calls s @ calls\<rparr>"
  shows "video_inv C ft s' \<and> frame_step C ft (abs_queue s) (abs_queue s')"
proof -
  obtain inputs where v: "video = (vs_video s)\<lparr>vo_inputs := inputs\<rparr>"
    using r by (auto simp: show_cur_frame_def split: prod.splits)
  have "video_inv C ft s'"
    using inv
    by (simp add: video_inv_def s'_def thread_ok_def count_ok_def pc busy_def pc_slot_def v)
  moreover have "frame_step C ft (abs_queue s) (abs_queue s')"
  proof -
    obtain cfi qs where c: "vs_queue s = cfi # qs" "cfi = vo_cache (vs_video s) ! i" "vs_locked s \<noteq> None \<Longrightarrow> qs \<noteq> []"
      using reading_queue [OF inv, of i thesis] pc by (simp add: pc_slot_def)
    have e: "abs_queue s' = (abs_queue s)\<lparr>fq_shown := fq_shown (abs_queue s) @ [cf_frame cfi], fq_showing := True\<rparr>"
      using c(2) v by (simp add: abs_queue_def s'_def)
    show ?thesis unfolding e
      by (rule frame_step.show_first [of _ cfi qs]) (use c pc in \<open>simp_all add: abs_queue_def\<close>)
  qed
  ultimately show ?thesis by blast
qed

lemma lock_step:
  assumes inv: "video_inv C ft s" and l: "vs_locked s = None" and c: "count > 0"
    and r: "video_output_lock_frame (vs_video s) count timestamp = (sl, video)"
  defines "s' \<equiv> s\<lparr>vs_video := video, vs_locked := sl, vs_requested := vs_requested s + count\<rparr>"
  shows "video_inv C ft s' \<and> frame_step C ft (abs_queue s) (abs_queue s')"
proof (cases "vo_available_frames (vs_video s) = 0")
  case True
  have ok: "ring_ok (vs_video s) None" using inv l by (simp add: video_inv_def)
  note f = lock_full [OF ok True r]
  let ?q = "queue (vs_video s) None"
  have C: "C = ring_size (vs_video s)" "0 < C" using inv ring_okD(1) [OF ok] by (auto simp: video_inv_def)
  have ne: "?q \<noteq> []" using f(4) C by auto
  have "0 < cf_count (last ?q)" by (rule ring_okD(7) [OF ok]) (use ne in simp)
  moreover have "0 < cf_count cfi" if "cfi \<in> set (butlast ?q)" for cfi
    by (rule ring_okD(7) [OF ok]) (use that in \<open>rule in_set_butlastD\<close>)
  ultimately have "ring_ok video None"
    using ok c f(3) by (auto simp: ring_ok_def f(5-9) queued_def)
  moreover have "thread_ok video (vs_pc s)" using inv by (auto simp: video_inv_def thread_ok_def f)
  moreover have "count_ok video None (vs_requested s + count)"
    using inv l sum_butlast_last [OF ne, of cf_count] by (simp add: video_inv_def count_ok_def f(3,10,12))
  ultimately have "video_inv C ft s'"
    using inv by (simp add: video_inv_def s'_def f(1,8,13))
  moreover have "frame_step C ft (abs_queue s) (abs_queue s')"
  proof -
    have e: "abs_queue s' = (abs_queue s)\<lparr>fq_items := butlast ?q @ [(last ?q)\<lparr>cf_count := cf_count (last ?q) + count\<rparr>]\<rparr>"
      using l f(1,3) by (simp add: abs_queue_def s'_def)
    show ?thesis unfolding e
      by (rule frame_step.extend) (use l f(2,4) C in \<open>simp_all add: abs_queue_def\<close>)
  qed
  ultimately show ?thesis by blast
next
  case False
  have ok: "ring_ok (vs_video s) None" using inv l by (simp add: video_inv_def)
  note f = lock_room [OF ok False r]
  have C: "C = ring_size (vs_video s)" "0 < C" using inv ring_okD(1) [OF ok] by (auto simp: video_inv_def)
  obtain fr where fr: "vf_timestamp fr = timestamp" "queue video sl = queue (vs_video s) None @ [\<lparr>cf_frame = fr, cf_count = count\<rparr>]"
    using f(2) by blast
  have n: "queued video sl = Suc (queued (vs_video s) None)" using f(1,6,7) by (simp add: queued_def)
  have "ring_ok video sl"
    unfolding ring_ok_def n f(4-8)
    using ring_okD(1-4,7) [OF ok] c False fr(2) f(1) by auto
  moreover have "thread_ok video (vs_pc s)" using inv by (auto simp: video_inv_def thread_ok_def f)
  moreover have "count_ok video sl (vs_requested s + count)"
    using inv l fr(2) by (simp add: video_inv_def count_ok_def f(9,11))
  ultimately have "video_inv C ft s'"
    using inv by (simp add: video_inv_def s'_def f(7,12))
  moreover have "frame_step C ft (abs_queue s) (abs_queue s')"
  proof -
    have e: "abs_queue s' = (abs_queue s)\<lparr>fq_items := fq_items (abs_queue s) @ [\<lparr>cf_frame = fr, cf_count = count\<rparr>], fq_locked := True\<rparr>"
      using l f(1) fr(2) by (simp add: abs_queue_def s'_def)
    show ?thesis unfolding e
      by (rule frame_step.put [OF _ _ fr(1)]) (use l f(3) C in \<open>simp_all add: abs_queue_def\<close>)
  qed
  ultimately show ?thesis by blast
qed

lemma fill_step:
  fixes img :: nat
  assumes inv: "video_inv C ft s" and l: "vs_locked s = Some i"
  defines "s' \<equiv> s\<lparr>vs_video := fill_frame (vs_video s) i img\<rparr>"
  shows "video_inv C ft s' \<and> frame_step C ft (abs_queue s) (abs_queue s')"
proof -
  let ?v = "vs_video s" let ?q = "queue ?v (Some i)"
  have ok: "ring_ok ?v (Some i)" using inv l by (simp add: video_inv_def)
  let ?n = "queued ?v (Some i)"
  have n: "0 < ?n" "?n \<le> ring_size ?v" "i = slot (ring_size ?v) (vo_first_added ?v) (?n - 1)"
    using ring_okD(3,5,6) [OF ok] by (auto simp: queued_def)
  have last: "last ?q = vo_cache ?v ! i" unfolding queue_def using ring_queue_last [OF n(1)] n(3) by metis
  let ?x = "(last ?q)\<lparr>cf_frame := (cf_frame (last ?q))\<lparr>vf_image := img\<rparr>\<rparr>"
  have ne: "?q \<noteq> []" using n(1) by (simp add: queue_def flip: length_greater_0_conv)
  have v: "fill_frame ?v i img = ?v\<lparr>vo_cache := (vo_cache ?v)[i := ?x]\<rparr>" by (simp add: fill_frame_def last)
  have q: "queue (fill_frame ?v i img) (Some i) = butlast ?q @ [?x]"
    using ring_queue_end [OF n(1,2) ring_okD(2) [OF ok], of "vo_first_added ?v" ?x] n(3)
    unfolding v by (simp add: queue_def queued_def)
  have nq: "queued (fill_frame ?v i img) (Some i) = ?n" by (simp add: queued_def fill_frame_def)
  have split: "?q = butlast ?q @ [last ?q]" using ne by simp
  have "0 < cf_count (last ?q)" by (rule ring_okD(7) [OF ok]) (use ne in simp)
  moreover have "0 < cf_count cfi" if "cfi \<in> set (butlast ?q)" for cfi
    by (rule ring_okD(7) [OF ok]) (use that in \<open>rule in_set_butlastD\<close>)
  ultimately have "ring_ok (fill_frame ?v i img) (Some i)"
    using ring_okD(1-6) [OF ok] q nq unfolding ring_ok_def by (auto simp: fill_frame_def)
  moreover have "thread_ok (fill_frame ?v i img) (vs_pc s)" using inv by (auto simp: video_inv_def thread_ok_def fill_frame_def)
  moreover have "sum_list (map cf_count (queue (fill_frame ?v i img) (Some i))) = sum_list (map cf_count ?q)"
    using sum_butlast_last [OF ne, of cf_count] by (simp add: q)
  ultimately have "video_inv C ft s'"
    using inv l by (simp add: video_inv_def s'_def count_ok_def fill_frame_def)
  moreover have "frame_step C ft (abs_queue s) (abs_queue s')"
  proof -
    have e: "abs_queue s' = (abs_queue s)\<lparr>fq_items := butlast ?q @ [?x]\<rparr>"
      using l q by (simp add: abs_queue_def s'_def)
    show ?thesis unfolding e
      by (rule frame_step.fill) (use l split in \<open>simp_all add: abs_queue_def\<close>)
  qed
  ultimately show ?thesis by blast
qed


text \<open>After the callbacks: the first frame is one frame time older, and leaves the queue when its count is used up.\<close>

lemma finish_effect:
  assumes ok: "ring_ok v locked" and i: "i = vo_first_added v" "vo_available_frames v < ring_size v"
    and q: "queue v locked = cfi # qs" and r: "finish_cur_frame v i = (complete, v')"
  defines "cfi' \<equiv> cfi\<lparr>cf_frame := (cf_frame cfi)\<lparr>vf_timestamp := vf_timestamp (cf_frame cfi) + vo_frame_time v\<rparr>, cf_count := cf_count cfi - 1\<rparr>"
  shows "complete \<longleftrightarrow> cf_count cfi = 1" "queue v' locked = (if complete then qs else cfi' # qs)"
    "vo_available_frames v' = (if complete then vo_available_frames v + 1 else vo_available_frames v)"
    "ring_ok v' locked" "vo_info v' = vo_info v" "vo_stop v' = vo_stop v" "vo_update_semaphore v' = vo_update_semaphore v"
    "vo_total_frames v' = vo_total_frames v" "vo_frame_time v' = vo_frame_time v" "\<not> complete \<Longrightarrow> vo_first_added v' = vo_first_added v"
proof -
  note o = ring_okD [OF ok]
  let ?C = "ring_size v" let ?n = "queued v locked" let ?f = "vo_first_added v"
  have n: "0 < ?n" "locked \<noteq> None \<Longrightarrow> 1 < ?n" using i(2) by (auto simp: queued_def)
  have slot0: "slot ?C ?f 0 = ?f" using slot_0 [OF o(4)] .
  have cfi: "cfi = vo_cache v ! i"
    using ring_queue_hd [OF o(4) n(1), of "vo_cache v"] q i(1) by (simp add: queue_def)
  define w where "w = v\<lparr>vo_cache := (vo_cache v)[i := cfi']\<rparr>"
  have wn: "queued w locked = ?n" by (simp add: w_def queued_def)
  have wq: "queue w locked = cfi' # qs"
    using ring_queue_update [OF o(1) o(8) o(2), of ?f cfi'] q slot0 i(1) wn by (simp add: queue_def w_def)
  have c: "complete \<longleftrightarrow> cf_count cfi = 1" and v': "v' = (if complete then
      w\<lparr>vo_first_added := slot ?C ?f 1, vo_available_frames := vo_available_frames v + 1,
        vo_last_added := (if vo_available_frames v + 1 = ?C then slot ?C ?f 1 else vo_last_added v)\<rparr> else w)"
    using r slot_step [OF o(4)] by (auto simp: finish_cur_frame_def Let_def w_def cfi'_def cfi split: if_splits)
  show "complete \<longleftrightarrow> cf_count cfi = 1" by (rule c)
  show "vo_available_frames v' = (if complete then vo_available_frames v + 1 else vo_available_frames v)"
    "vo_info v' = vo_info v" "vo_stop v' = vo_stop v" "vo_update_semaphore v' = vo_update_semaphore v"
    "vo_total_frames v' = vo_total_frames v" "vo_frame_time v' = vo_frame_time v" "\<not> complete \<Longrightarrow> vo_first_added v' = ?f"
    by (simp_all add: v' w_def)
  have pos: "0 < cf_count cfi" "\<forall>x \<in> set qs. 0 < cf_count x" using o(7) q by auto
  have n': "queued v' locked = (if complete then ?n - 1 else ?n)"
    using i(2) o(3) by (auto simp: v' w_def queued_def)
  show q': "queue v' locked = (if complete then qs else cfi' # qs)"
  proof (cases complete)
    case True
    have "ring_queue (vo_cache w) ?C (slot ?C ?f (Suc 0)) (?n - 1) = tl (queue w locked)"
      using ring_queue_tl [OF o(4), of "vo_cache w" "?n - 1"] n(1) wn by (simp add: queue_def w_def)
    then show ?thesis using True n' wq by (simp add: queue_def v' w_def)
  next
    case False
    then show ?thesis using wq by (simp add: v')
  qed
  show "ring_ok v' locked"
  proof (cases complete)
    case True
    have l: "vo_last_added v' = slot ?C (slot ?C ?f 1) (?n - 1 - 1)"
    proof (cases "?n = 1")
      case True
      then have "locked = None" "vo_available_frames v + 1 = ?C" using n(2) i(2) by (auto simp: queued_def split: if_splits)
      then show ?thesis using True \<open>complete\<close> slot_less [OF o(1), of ?f 1] slot_0 by (simp add: v')
    next
      case False
      then have n2: "Suc (?n - 2) = ?n - 1" using n(1) by simp
      have eq: "slot ?C (slot ?C ?f 1) (?n - 1 - 1) = vo_last_added v"
        using slot_slot [of ?C ?f "?n - 2"] o(5) n2 by (simp add: numeral_2_eq_2)
      show ?thesis
      proof (cases "vo_available_frames v + 1 = ?C")
        case True
        then have "?n = 2" using False i(2) by (auto simp: queued_def split: if_splits)
        then show ?thesis using True \<open>complete\<close> slot_less [OF o(1), of ?f 1] slot_0 by (simp add: v')
      qed (use eq \<open>complete\<close> in \<open>simp add: v'\<close>)
    qed
    have "\<forall>j. locked = Some j \<longrightarrow> j = vo_last_added v'"
    proof (cases "vo_available_frames v + 1 = ?C \<and> locked \<noteq> None")
      case True
      then have "?n = 2" using i(2) by (auto simp: queued_def)
      then show ?thesis using True \<open>complete\<close> o(5,6) by (auto simp: v')
    next
      case False
      then show ?thesis using \<open>complete\<close> o(6) by (auto simp: v')
    qed
    then show ?thesis
      unfolding ring_ok_def q' n'
      using True l o(1-4) pos i(2) slot_less [OF o(1), of ?f 1] by (simp add: v' w_def)
  next
    case False
    then have "\<forall>x \<in> set (queue v' locked). 0 < cf_count x" using pos c q' by (auto simp: cfi'_def)
    then show ?thesis
      unfolding ring_ok_def n' using False o(1-6) by (auto simp: v' w_def)
  qed
qed


lemma finish_step:
  assumes inv: "video_inv C ft s" and pc: "vs_pc s = Shown i"
    and r: "finish_cur_frame (vs_video s) i = (complete, video)"
  defines "s' \<equiv> s\<lparr>vs_video := add_total video, vs_pc := (if complete then Waiting else Testing)\<rparr>"
  shows "video_inv C ft s' \<and> frame_step C ft (abs_queue s) (abs_queue s')"
proof -
  obtain cfi qs where c: "vs_queue s = cfi # qs" "i = vo_first_added (vs_video s)" "vo_available_frames (vs_video s) < C"
    using reading_queue [OF inv, of i thesis] pc by (simp add: pc_slot_def)
  have i: "ring_ok (vs_video s) (vs_locked s)" "ring_size (vs_video s) = C" "vo_frame_time (vs_video s) = ft"
    using inv by (auto simp: video_inv_def)
  note f = finish_effect [OF i(1) c(2) c(3) [folded i(2)] c(1) r]
  have "thread_ok (add_total video) (vs_pc s')"
    using inv pc f(3,5-7) by (auto simp: video_inv_def thread_ok_def s'_def add_total_def busy_def pc_slot_def)
  moreover have "count_ok (add_total video) (vs_locked s) (vs_requested s)"
    using inv c(1) f(1,2,6,8) by (simp add: video_inv_def count_ok_def add_total_def)
  ultimately have "video_inv C ft s'"
    using i f(4,5,9) by (simp add: video_inv_def s'_def) (simp add: add_total_def)
  moreover have "frame_step C ft (abs_queue s) (abs_queue s')"
  proof (cases complete)
    case True
    have e: "abs_queue s' = (abs_queue s)\<lparr>fq_items := qs, fq_showing := False\<rparr>"
      using True f(2) by (simp add: abs_queue_def s'_def add_total_def)
    show ?thesis unfolding e
      by (rule frame_step.show_last) (use True f(1) c(1) pc in \<open>simp_all add: abs_queue_def\<close>)
  next
    case False
    have "1 < cf_count cfi" using False f(1) ring_okD(7) [OF i(1), of cfi] c(1) by simp
    moreover have e: "abs_queue s' = (abs_queue s)\<lparr>fq_items := cfi\<lparr>cf_frame := (cf_frame cfi)\<lparr>vf_timestamp :=
        vf_timestamp (cf_frame cfi) + ft\<rparr>, cf_count := cf_count cfi - 1\<rparr> # qs, fq_showing := False\<rparr>"
      using False f(2) i(3) by (simp add: abs_queue_def s'_def add_total_def)
    ultimately show ?thesis unfolding e
      by (intro frame_step.show_again) (use c(1) pc in \<open>simp_all add: abs_queue_def\<close>)
  qed
  ultimately show ?thesis by blast
qed

text \<open>The other steps do not touch the ring.\<close>

lemma inputs_self: "\<exists>inputs. v = v\<lparr>vo_inputs := inputs\<rparr>"
  by (rule exI [of _ "vo_inputs v"]) simp

lemma connect_inputs:
  assumes "video_output_connect new_scaler v conversion t = (r, v')"
  shows "\<exists>inputs. v' = v\<lparr>vo_inputs := inputs\<rparr>"
proof -
  obtain input0 where e: "video_output_connect new_scaler v conversion t =
      (case video_get_input_idx (vo_inputs v) t of
         Some _ \<Rightarrow> (False, v)
       | None \<Rightarrow> (case video_input_init new_scaler input0 v of
           (success, input) \<Rightarrow> if success then (True, v\<lparr>vo_inputs := vo_inputs v @ [input]\<rparr>) else (False, v)))"
    unfolding video_output_connect_def Let_def by blast
  have "v' = v \<or> (\<exists>inputs. v' = v\<lparr>vo_inputs := inputs\<rparr>)"
    using assms unfolding e by (auto split: option.splits prod.splits if_splits)
  then show ?thesis using inputs_self [of v] by blast
qed

lemma disconnect_inputs: "\<exists>inputs. video_output_disconnect v t = v\<lparr>vo_inputs := inputs\<rparr>"
proof (cases "video_get_input_idx (vo_inputs v) t")
  case None
  then show ?thesis by (intro exI [of _ "vo_inputs v"]) (simp add: video_output_disconnect_def)
qed (auto simp: video_output_disconnect_def)

lemma inputs_step:
  "video_inv C ft s \<Longrightarrow> video_inv C ft (s\<lparr>vs_video := (vs_video s)\<lparr>vo_inputs := inputs\<rparr>\<rparr>) \<and>
    abs_queue (s\<lparr>vs_video := (vs_video s)\<lparr>vo_inputs := inputs\<rparr>\<rparr>) = abs_queue s"
  by (auto simp: video_inv_def thread_ok_def count_ok_def abs_queue_def)

lemma video_simulation:
  assumes inv: "video_inv C ft s" and step: "video_step new_scaler scale s s'"
  shows "video_inv C ft s' \<and> (abs_queue s' = abs_queue s \<or> frame_step C ft (abs_queue s) (abs_queue s'))"
  using step
proof (cases rule: video_step.cases)
  case lock
  then show ?thesis using lock_step [OF inv] by blast
next
  case fill
  then show ?thesis using fill_step [OF inv] by blast
next
  case unlock
  then show ?thesis using unlock_step [OF inv] by blast
next
  case wake
  then show ?thesis using inv by (auto simp: video_inv_def thread_ok_def count_ok_def abs_queue_def busy_def pc_slot_def)
next
  case test_stop
  then show ?thesis using inv by (auto simp: video_inv_def thread_ok_def count_ok_def abs_queue_def busy_def pc_slot_def add_total_def)
next
  case test_go
  then show ?thesis using inv by (auto simp: video_inv_def thread_ok_def abs_queue_def busy_def pc_slot_def)
next
  case callbacks
  then show ?thesis using show_step [OF inv] by blast
next
  case finish
  then show ?thesis using finish_step [OF inv] by blast
next
  case connect
  then show ?thesis using inputs_step [OF inv] connect_inputs by blast
next
  case disconnect
  then show ?thesis using inputs_step [OF inv] disconnect_inputs [of "vs_video s"] by metis
next
  case stop
  then show ?thesis using inv
    by (auto simp: video_inv_def thread_ok_def count_ok_def abs_queue_def video_output_stop_def)
qed


interpretation video_sim: simulation "video_inv C ft" "video_step new_scaler scale" "frame_step C ft" abs_queue
  for C ft new_scaler scale
  by unfold_locales (use video_simulation in blast)+

definition empty_queue :: frame_queue where
  "empty_queue = \<lparr>fq_items = [], fq_locked = False, fq_shown = [], fq_showing = False\<rparr>"

lemma video_start_ok:
  assumes "video_output_open frame_time info = Some v" "0 < vo_cache_size info"
  shows "video_inv (min MAX_CACHE_SIZE (vo_cache_size info)) (frame_time (vo_fps_den info) (vo_fps_num info)) (video_start v)"
    "abs_queue (video_start v) = empty_queue"
  using assms
  by (auto simp: video_output_open_def init_cache_def video_inv_def video_start_def ring_ok_def thread_ok_def count_ok_def
      queue_def queued_def ring_queue_def slot_def busy_def pc_slot_def abs_queue_def empty_queue_def split: if_splits)


text \<open>C5: The slot the graphics thread is filling is never the slot whose frame the video thread has a pointer to, and
  both lie in the ring.\<close>

theorem video_slot_exclusive:
  assumes "video_output_open frame_time info = Some v" "0 < vo_cache_size info"
    and "(video_step new_scaler scale)\<^sup>*\<^sup>* (video_start v) s"
    and "vs_locked s = Some i" "vs_pc s = Reading j \<or> vs_pc s = Shown j"
  shows "i \<noteq> j \<and> i < vo_cache_size (vo_info (vs_video s)) \<and> j < vo_cache_size (vo_info (vs_video s))"
proof -
  have inv: "video_inv (min MAX_CACHE_SIZE (vo_cache_size info)) (frame_time (vo_fps_den info) (vo_fps_num info)) s"
    by (rule video_sim.sim_reachable_inv [OF assms(3) video_start_ok(1) [OF assms(1,2)]])
  then have ok: "ring_ok (vs_video s) (Some i)" using assms(4) by (simp add: video_inv_def)
  note o = ring_okD [OF ok]
  have j: "j = vo_first_added (vs_video s)" "vo_available_frames (vs_video s) < ring_size (vs_video s)"
    using inv assms(5) by (auto simp: video_inv_def thread_ok_def pc_slot_def)
  have n: "0 < queued (vs_video s) (Some i) - 1" "queued (vs_video s) (Some i) - 1 < ring_size (vs_video s)"
    using o(6) [of i] j(2) by (auto simp: queued_def)
  have i: "i = slot (ring_size (vs_video s)) j (queued (vs_video s) (Some i) - 1)"
    using conjunct1 [OF o(6) [OF refl]] o(5) j(1) by simp
  have j0: "j = slot (ring_size (vs_video s)) j 0" using slot_0 [OF o(4)] j(1) by simp
  have "i \<noteq> j" using slot_inj [OF n(2) o(1), of j] n(1) i j0 by (metis less_not_refl)
  moreover have "i < ring_size (vs_video s)" using slot_less [OF o(1)] i by metis
  ultimately show ?thesis using o(4) j(1) by simp
qed

text \<open>C6: Until the output is stopped, every frame asked for has been counted as shown or is still to come (up to the wrap-around of the 32-bit counter), and a video
  thread that waits has one count of its semaphore for each frame in the ring: no wake-up is lost.\<close>

theorem video_frame_accounting:
  assumes "video_output_open frame_time info = Some v" "0 < vo_cache_size info"
    and "(video_step new_scaler scale)\<^sup>*\<^sup>* (video_start v) s" "\<not> vo_stop (vs_video s)"
  shows "word_of_int (vs_requested s) = vo_total_frames (vs_video s) + word_of_int (sum_list (map cf_count (vs_queue s))) \<and>
    (vs_pc s = Waiting \<longrightarrow> vo_update_semaphore (vs_video s) + (if vs_locked s = None then 0 else 1) = length (vs_queue s))"
proof -
  have "video_inv (min MAX_CACHE_SIZE (vo_cache_size info)) (frame_time (vo_fps_den info) (vo_fps_num info)) s"
    by (rule video_sim.sim_reachable_inv [OF assms(3) video_start_ok(1) [OF assms(1,2)]])
  then show ?thesis
    using assms(4) by (auto simp: video_inv_def thread_ok_def count_ok_def busy_def queue_def queued_def)
qed


text \<open>A run: a frame is queued, the video thread takes it, and a second frame is locked meanwhile.\<close>

definition example_info :: video_output_info where
  "example_info = \<lparr>vo_format = 1, vo_fps_num = 30, vo_fps_den = 1, vo_width = 1280, vo_height = 720, vo_cache_size = 2\<rparr>"

definition example_video :: video_output where
  "example_video = the (video_output_open (\<lambda>d n. 33333333) example_info)"

definition example_lock :: "video_system \<Rightarrow> video_system" where
  "example_lock s = (case video_output_lock_frame (vs_video s) 1 7 of
     (sl, video) \<Rightarrow> s\<lparr>vs_video := video, vs_locked := sl, vs_requested := vs_requested s + 1\<rparr>)"

definition example_state :: video_system where
  "example_state =
     (let s = example_lock (video_start example_video);
          s = s\<lparr>vs_video := video_output_unlock_frame (vs_video s), vs_locked := None\<rparr>;
          s = s\<lparr>vs_video := (vs_video s)\<lparr>vo_update_semaphore := 0\<rparr>, vs_pc := (if vo_stop (vs_video s) then Ended else Testing)\<rparr>;
          s = s\<lparr>vs_pc := Reading (vo_first_added (vs_video s))\<rparr>
      in example_lock s)"

lemma example_lock_step: "vs_locked s = None \<Longrightarrow> video_step new_scaler scale s (example_lock s)"
  unfolding example_lock_def by (auto split: prod.split intro: video_step.lock)

lemma example_open: "video_output_open (\<lambda>d n. 33333333) example_info = Some example_video"
  by (simp add: example_video_def video_output_open_def valid_video_params_def example_info_def)

lemma example_run: "(video_step (\<lambda>_ _. True) (\<lambda>_ img. Some img))\<^sup>*\<^sup>* (video_start example_video) example_state"
  unfolding example_state_def Let_def
  by (rule rtranclp.rtrancl_into_rtrancl, rule rtranclp.rtrancl_into_rtrancl, rule rtranclp.rtrancl_into_rtrancl,
      rule rtranclp.rtrancl_into_rtrancl, rule rtranclp.rtrancl_into_rtrancl, rule rtranclp.rtrancl_refl,
      rule example_lock_step, simp add: video_start_def, rule video_step.unlock [where i = 0],
      code_simp, rule video_step.wake, code_simp, code_simp, rule video_step.test_go, code_simp, code_simp,
      rule example_lock_step, code_simp)

lemma example_facts:
  "vs_locked example_state = Some 1" "vs_pc example_state = Reading 0" "\<not> vo_stop (vs_video example_state)"
  "0 < vo_cache_size example_info"
  by code_simp+


lemma video_slot_exclusive_witness: "(1 :: nat) \<noteq> 0 \<and> 1 < vo_cache_size (vo_info (vs_video example_state))"
  using video_slot_exclusive [OF example_open example_facts(4) example_run example_facts(1)] example_facts(2) by simp

lemma video_frame_accounting_witness:
  "word_of_int (vs_requested example_state) = vo_total_frames (vs_video example_state) + word_of_int (sum_list (map cf_count (vs_queue example_state)))"
  using video_frame_accounting [OF example_open example_facts(4) example_run example_facts(3)] by blast

end
