(* ===== verification/Obs_Data.thy ===== *)
theory Obs_Data
  imports Memory Serializer
begin

text \<open>
  Settings objects (\<open>libobs/obs-data.c\<close>): named items sorted by name, each with up to three values, the user's, a default and one
  selected automatically. An item is one allocation: its name, and behind it the three values in a row, each
  only as far from the next as alignment asks. The model keeps that block byte by byte; \<open>None\<close> is an access outside of it,
  or through a null pointer.

  Objects and arrays inside a value are pointers, eight bytes in the block; what an operation does to
  their reference counts is the list of calls of \<open>addref\<close> and \<open>release\<close> it makes. A \<open>double\<close> is its bit pattern, and the two
  conversions between \<open>double\<close> and \<open>long long\<close> are parameters. \<open>fresh\<close> gives the bytes the program never wrote. Handles to items (which
  keep an item alive outside its object), iteration, and reading and writing JSON with the vendored parser are not modelled; nor is
  \<open>obs_data_apply\<close>, which copies nested objects.
\<close>

datatype obs_data_type = OBS_DATA_NULL | OBS_DATA_STRING | OBS_DATA_NUMBER | OBS_DATA_BOOLEAN | OBS_DATA_OBJECT | OBS_DATA_ARRAY

abbreviation (input) "OBS_DATA_NUM_INVALID \<equiv> (0 :: nat)"
abbreviation (input) "OBS_DATA_NUM_INT \<equiv> (1 :: nat)"
abbreviation (input) "OBS_DATA_NUM_DOUBLE \<equiv> (2 :: nat)"

text \<open>\<open>sizeof(struct obs_data_item)\<close>, \<open>base_get_alignment()\<close>.\<close>

abbreviation "ITEM_SIZE \<equiv> (88 :: nat)"
abbreviation "ALIGNMENT \<equiv> (32 :: nat)"

record obs_data_item =
  oi_type :: obs_data_type
  oi_name :: "byte list"
  oi_name_len :: nat
  oi_data_len :: nat
  oi_data_size :: nat
  oi_default_len :: nat
  oi_default_size :: nat
  oi_autoselect_size :: nat
  oi_capacity :: nat
  oi_block :: "byte list"

record obs_data =
  od_ref :: int
  od_items :: "obs_data_item list"

datatype ref_call = Addref obs_data_type "64 word" | Release obs_data_type "64 word"

subsection \<open>The layout of an item\<close>

definition get_align_size :: "nat \<Rightarrow> nat" where
  "get_align_size n = (n + ALIGNMENT - 1) div ALIGNMENT * ALIGNMENT"

definition get_name_align_size :: "byte list \<Rightarrow> nat" where
  "get_name_align_size name = (ITEM_SIZE + (length name + 1 + ALIGNMENT - 1)) div ALIGNMENT * ALIGNMENT - ITEM_SIZE"

text \<open>Pointers are offsets from \<open>get_data_ptr\<close>, the end of the name.\<close>

definition get_item_data :: "obs_data_item \<Rightarrow> nat option" where
  "get_item_data item =
     (if oi_data_size item = 0 \<and> oi_default_size item = 0 \<and> oi_autoselect_size item = 0 then None else Some 0)"

definition get_default_data_ptr :: "obs_data_item \<Rightarrow> nat" where
  "get_default_data_ptr item = oi_data_len item"

definition get_item_default_data :: "obs_data_item \<Rightarrow> nat option" where
  "get_item_default_data item = (if oi_default_size item \<noteq> 0 then Some (get_default_data_ptr item) else None)"

definition get_autoselect_data_ptr :: "obs_data_item \<Rightarrow> nat" where
  "get_autoselect_data_ptr item = get_default_data_ptr item + oi_default_len item"

definition get_item_autoselect_data :: "obs_data_item \<Rightarrow> nat option" where
  "get_item_autoselect_data item = (if oi_autoselect_size item \<noteq> 0 then Some (get_autoselect_data_ptr item) else None)"

definition obs_data_item_total_size :: "obs_data_item \<Rightarrow> nat" where
  "obs_data_item_total_size item =
     ITEM_SIZE + oi_name_len item + oi_data_len item + oi_default_len item + oi_autoselect_size item"

subsection \<open>Nested objects\<close>

definition deref :: "obs_data_item \<Rightarrow> nat \<Rightarrow> 64 word option" where
  "deref item off = map_option (\<lambda>bs. word_of_nat (le_val bs)) (peek (oi_block item) off 8)"

definition get_item_obj :: "obs_data_item \<Rightarrow> 64 word option" where
  "get_item_obj item = (case get_item_data item of None \<Rightarrow> Some 0 | Some off \<Rightarrow> deref item off)"

definition get_item_default_obj :: "obs_data_item \<Rightarrow> 64 word option" where
  "get_item_default_obj item = (if oi_default_size item = 0 then Some 0 else deref item (get_default_data_ptr item))"

definition get_item_autoselect_obj :: "obs_data_item \<Rightarrow> 64 word option" where
  "get_item_autoselect_obj item = (if oi_autoselect_size item = 0 then Some 0 else deref item (get_autoselect_data_ptr item))"

definition get_item_array :: "obs_data_item \<Rightarrow> 64 word option" where
  "get_item_array item = do { off \<leftarrow> get_item_data item; deref item off }"

definition get_item_default_array :: "obs_data_item \<Rightarrow> 64 word option" where
  "get_item_default_array item = (if oi_default_size item = 0 then Some 0 else deref item (get_default_data_ptr item))"

definition get_item_autoselect_array :: "obs_data_item \<Rightarrow> 64 word option" where
  "get_item_autoselect_array item = (if oi_autoselect_size item = 0 then Some 0 else deref item (get_autoselect_data_ptr item))"

text \<open>\<open>obs_data_addref\<close> and \<open>obs_data_release\<close>, and those of arrays, do nothing with a null pointer.\<close>

definition addref :: "obs_data_type \<Rightarrow> 64 word \<Rightarrow> ref_call list" where
  "addref ty p = (if p = 0 then [] else [Addref ty p])"

definition release :: "obs_data_type \<Rightarrow> 64 word \<Rightarrow> ref_call list" where
  "release ty p = (if p = 0 then [] else [Release ty p])"

definition obs_data_item_has_user_value :: "obs_data_item option \<Rightarrow> bool" where
  "obs_data_item_has_user_value item = (case item of None \<Rightarrow> False | Some item \<Rightarrow> oi_data_size item \<noteq> 0)"

definition obs_data_item_has_default_value :: "obs_data_item option \<Rightarrow> bool" where
  "obs_data_item_has_default_value item = (case item of None \<Rightarrow> False | Some item \<Rightarrow> oi_default_size item \<noteq> 0)"

definition obs_data_item_has_autoselect_value :: "obs_data_item option \<Rightarrow> bool" where
  "obs_data_item_has_autoselect_value item = (case item of None \<Rightarrow> False | Some item \<Rightarrow> oi_autoselect_size item \<noteq> 0)"

definition item_data_release :: "obs_data_item \<Rightarrow> ref_call list option" where
  "item_data_release item =
     (if \<not> obs_data_item_has_user_value (Some item) then Some []
      else if oi_type item = OBS_DATA_OBJECT then map_option (release OBS_DATA_OBJECT) (get_item_obj item)
      else if oi_type item = OBS_DATA_ARRAY then map_option (release OBS_DATA_ARRAY) (get_item_array item)
      else Some [])"

definition item_default_data_release :: "obs_data_item \<Rightarrow> ref_call list option" where
  "item_default_data_release item =
     (if oi_type item = OBS_DATA_OBJECT then map_option (release OBS_DATA_OBJECT) (get_item_default_obj item)
      else if oi_type item = OBS_DATA_ARRAY then map_option (release OBS_DATA_ARRAY) (get_item_default_array item)
      else Some [])"

definition item_autoselect_data_release :: "obs_data_item \<Rightarrow> ref_call list option" where
  "item_autoselect_data_release item =
     (if oi_type item = OBS_DATA_OBJECT then map_option (release OBS_DATA_OBJECT) (get_item_autoselect_obj item)
      else if oi_type item = OBS_DATA_ARRAY then map_option (release OBS_DATA_ARRAY) (get_item_autoselect_array item)
      else Some [])"

definition item_data_addref :: "obs_data_item \<Rightarrow> ref_call list option" where
  "item_data_addref item =
     (if oi_type item = OBS_DATA_OBJECT then map_option (addref OBS_DATA_OBJECT) (get_item_obj item)
      else if oi_type item = OBS_DATA_ARRAY then map_option (addref OBS_DATA_ARRAY) (get_item_array item)
      else Some [])"

definition item_default_data_addref :: "obs_data_item \<Rightarrow> ref_call list option" where
  "item_default_data_addref item =
     (if oi_data_size item = 0 then Some []
      else if oi_type item = OBS_DATA_OBJECT then map_option (addref OBS_DATA_OBJECT) (get_item_default_obj item)
      else if oi_type item = OBS_DATA_ARRAY then map_option (addref OBS_DATA_ARRAY) (get_item_default_array item)
      else Some [])"

definition item_autoselect_data_addref :: "obs_data_item \<Rightarrow> ref_call list option" where
  "item_autoselect_data_addref item =
     (if oi_type item = OBS_DATA_OBJECT then map_option (addref OBS_DATA_OBJECT) (get_item_autoselect_obj item)
      else if oi_type item = OBS_DATA_ARRAY then map_option (addref OBS_DATA_ARRAY) (get_item_autoselect_array item)
      else Some [])"

subsection \<open>Operations on an item\<close>

definition obs_data_item_create :: "byte list \<Rightarrow> byte list \<Rightarrow> obs_data_type \<Rightarrow> bool \<Rightarrow> bool \<Rightarrow> (obs_data_item \<times> ref_call list) option" where
  "obs_data_item_create name data ty default_data autoselect_data =
     (let name_size = get_name_align_size name;
          total_size = name_size + ITEM_SIZE + length data;
          item = \<lparr>oi_type = ty, oi_name = name, oi_name_len = name_size, oi_data_len = 0, oi_data_size = 0, oi_default_len = 0,
            oi_default_size = 0, oi_autoselect_size = 0, oi_capacity = total_size, oi_block = replicate (length data) 0\<rparr>;
          item = (if default_data then item\<lparr>oi_default_len := length data, oi_default_size := length data\<rparr>
                  else if autoselect_data then item\<lparr>oi_autoselect_size := length data\<rparr>
                  else item\<lparr>oi_data_len := length data, oi_data_size := length data\<rparr>)
      in do {
        off \<leftarrow> get_item_data item;
        block \<leftarrow> poke (oi_block item) off data;
        item \<leftarrow> Some (item\<lparr>oi_block := block\<rparr>);
        calls \<leftarrow> item_data_addref item;
        Some (item, calls) })"

definition obs_data_item_ensure_capacity :: "(nat \<Rightarrow> byte) \<Rightarrow> obs_data_item \<Rightarrow> obs_data_item" where
  "obs_data_item_ensure_capacity fresh item =
     (let new_size = obs_data_item_total_size item
      in if oi_capacity item \<ge> new_size then item
         else item\<lparr>oi_capacity := new_size, oi_block := realloc fresh (oi_block item) (new_size - ITEM_SIZE - oi_name_len item)\<rparr>)"

definition obs_data_item_destroy :: "obs_data_item \<Rightarrow> ref_call list option" where
  "obs_data_item_destroy item = do {
     a \<leftarrow> item_data_release item;
     b \<leftarrow> item_default_data_release item;
     c \<leftarrow> item_autoselect_data_release item;
     Some (a @ b @ c) }"

definition move_data :: "obs_data_item \<Rightarrow> nat \<Rightarrow> nat \<Rightarrow> nat \<Rightarrow> obs_data_item option" where
  "move_data item old_offset new_offset len = do {
     xs \<leftarrow> peek (oi_block item) old_offset len;
     block \<leftarrow> poke (oi_block item) new_offset xs;
     Some (item\<lparr>oi_block := block\<rparr>) }"

text \<open>A \<open>memcpy\<close> of a new value into the block.\<close>

definition put_value :: "obs_data_item \<Rightarrow> nat option \<Rightarrow> byte list \<Rightarrow> obs_data_item option" where
  "put_value item dst data = do {
     off \<leftarrow> dst;
     block \<leftarrow> poke (oi_block item) off data;
     Some (item\<lparr>oi_block := block\<rparr>) }"

definition obs_data_item_setdata :: "(nat \<Rightarrow> byte) \<Rightarrow> obs_data_item \<Rightarrow> byte list \<Rightarrow> obs_data_type \<Rightarrow> (obs_data_item \<times> ref_call list) option" where
  "obs_data_item_setdata fresh item data ty =
     (let old_default_data_pos = get_default_data_ptr item
      in do {
        released \<leftarrow> item_data_release item;
        item \<leftarrow> Some (item\<lparr>oi_data_size := length data, oi_type := ty,
          oi_data_len := (if oi_default_size item \<noteq> 0 \<or> oi_autoselect_size item \<noteq> 0 then get_align_size (length data) else length data)\<rparr>);
        item \<leftarrow> Some (obs_data_item_ensure_capacity fresh item);
        item \<leftarrow> (if oi_default_size item \<noteq> 0 \<or> oi_autoselect_size item \<noteq> 0
                then move_data item old_default_data_pos (get_default_data_ptr item) (oi_default_len item + oi_autoselect_size item)
                else Some item);
        if data \<noteq> [] then do {
          item \<leftarrow> put_value item (get_item_data item) data;
          added \<leftarrow> item_data_addref item;
          Some (item, released @ added) }
        else Some (item, released) })"

definition obs_data_item_set_default_data :: "(nat \<Rightarrow> byte) \<Rightarrow> obs_data_item \<Rightarrow> byte list \<Rightarrow> obs_data_type \<Rightarrow> (obs_data_item \<times> ref_call list) option" where
  "obs_data_item_set_default_data fresh item data ty =
     (let old_autoselect_data = get_autoselect_data_ptr item
      in do {
        released \<leftarrow> item_default_data_release item;
        item \<leftarrow> Some (item\<lparr>oi_type := ty, oi_default_size := length data,
          oi_default_len := (if oi_autoselect_size item \<noteq> 0 then get_align_size (length data) else length data),
          oi_data_len := (if oi_data_size item \<noteq> 0 then get_align_size (oi_data_size item) else 0)\<rparr>);
        item \<leftarrow> Some (obs_data_item_ensure_capacity fresh item);
        item \<leftarrow> (if oi_autoselect_size item \<noteq> 0
                then move_data item old_autoselect_data (get_autoselect_data_ptr item) (oi_autoselect_size item)
                else Some item);
        if data \<noteq> [] then do {
          item \<leftarrow> put_value item (get_item_default_data item) data;
          added \<leftarrow> item_default_data_addref item;
          Some (item, released @ added) }
        else Some (item, released) })"

definition obs_data_item_set_autoselect_data :: "(nat \<Rightarrow> byte) \<Rightarrow> obs_data_item \<Rightarrow> byte list \<Rightarrow> obs_data_type \<Rightarrow> (obs_data_item \<times> ref_call list) option" where
  "obs_data_item_set_autoselect_data fresh item data ty = do {
     released \<leftarrow> item_autoselect_data_release item;
     item \<leftarrow> Some (item\<lparr>oi_autoselect_size := length data, oi_type := ty,
       oi_data_len := (if oi_data_size item \<noteq> 0 then get_align_size (oi_data_size item) else 0),
       oi_default_len := (if oi_default_size item \<noteq> 0 then get_align_size (oi_default_size item) else 0)\<rparr>);
     item \<leftarrow> Some (obs_data_item_ensure_capacity fresh item);
     if data \<noteq> [] then do {
       item \<leftarrow> put_value item (get_item_autoselect_data item) data;
       added \<leftarrow> item_autoselect_data_addref item;
       Some (item, released @ added) }
     else Some (item, released) }"

definition obs_data_item_unset_user_value :: "obs_data_item \<Rightarrow> (obs_data_item \<times> ref_call list) option" where
  "obs_data_item_unset_user_value item =
     (if oi_data_size item = 0 then Some (item, [])
      else let old_non_user_data = get_default_data_ptr item
        in do {
          released \<leftarrow> item_data_release item;
          item \<leftarrow> Some (item\<lparr>oi_data_size := 0, oi_data_len := 0\<rparr>);
          item \<leftarrow> (if oi_default_size item \<noteq> 0 \<or> oi_autoselect_size item \<noteq> 0
                  then move_data item old_non_user_data (get_default_data_ptr item) (oi_default_len item + oi_autoselect_size item)
                  else Some item);
          Some (item, released) })"

definition obs_data_item_unset_default_value :: "obs_data_item \<Rightarrow> (obs_data_item \<times> ref_call list) option" where
  "obs_data_item_unset_default_value item =
     (if oi_default_size item = 0 then Some (item, [])
      else let old_autoselect_data = get_autoselect_data_ptr item
        in do {
          released \<leftarrow> item_default_data_release item;
          item \<leftarrow> Some (item\<lparr>oi_default_size := 0, oi_default_len := 0\<rparr>);
          item \<leftarrow> (if oi_autoselect_size item \<noteq> 0
                  then move_data item old_autoselect_data (get_autoselect_data_ptr item) (oi_autoselect_size item)
                  else Some item);
          Some (item, released) })"

definition obs_data_item_unset_autoselect_value :: "obs_data_item \<Rightarrow> (obs_data_item \<times> ref_call list) option" where
  "obs_data_item_unset_autoselect_value item =
     (if oi_autoselect_size item = 0 then Some (item, [])
      else do {
        released \<leftarrow> item_autoselect_data_release item;
        Some (item\<lparr>oi_autoselect_size := 0\<rparr>, released) })"

definition clear_item :: "obs_data_item \<Rightarrow> (obs_data_item \<times> ref_call list) option" where
  "clear_item item =
     (if oi_data_len item = 0 then Some (item, [])
      else do {
        released \<leftarrow>
          (if oi_type item = OBS_DATA_OBJECT \<and> oi_data_size item \<noteq> 0 then
             do { off \<leftarrow> get_item_data item; p \<leftarrow> deref item off; Some (release OBS_DATA_OBJECT p) }
           else if oi_type item = OBS_DATA_ARRAY \<and> oi_data_size item \<noteq> 0 then
             do { off \<leftarrow> get_item_data item; p \<leftarrow> deref item off; Some (release OBS_DATA_ARRAY p) }
           else Some []);
        item \<leftarrow>
          (if oi_default_len item + oi_autoselect_size item \<noteq> 0 then do {
             ptr \<leftarrow> get_item_data item;
             move_data item (ptr + oi_data_len item) ptr (oi_default_len item + oi_autoselect_size item) }
           else Some item);
        Some (item\<lparr>oi_data_size := 0, oi_data_len := 0\<rparr>, released) })"


subsection \<open>Objects\<close>

definition obs_data_create :: obs_data where
  "obs_data_create = \<lparr>od_ref = 1, od_items = []\<rparr>"

definition obs_data_addref :: "obs_data \<Rightarrow> obs_data" where
  "obs_data_addref data = data\<lparr>od_ref := od_ref data + 1\<rparr>"

fun obs_data_destroy :: "obs_data_item list \<Rightarrow> ref_call list option" where
  "obs_data_destroy [] = Some []"
| "obs_data_destroy (item # items) = do {
     a \<leftarrow> obs_data_item_destroy item;
     b \<leftarrow> obs_data_destroy items;
     Some (a @ b) }"

text \<open>The object afterwards, unless it is destroyed.\<close>

definition obs_data_release :: "obs_data \<Rightarrow> (obs_data option \<times> ref_call list) option" where
  "obs_data_release data =
     (if od_ref data - 1 = 0 then map_option (Pair None) (obs_data_destroy (od_items data))
      else Some (Some (data\<lparr>od_ref := od_ref data - 1\<rparr>), []))"

fun strcmp :: "byte list \<Rightarrow> byte list \<Rightarrow> int" where
  "strcmp [] [] = 0"
| "strcmp [] (d # ds) = - 1"
| "strcmp (c # cs) [] = 1"
| "strcmp (c # cs) (d # ds) = (if c = d then strcmp cs ds else if c < d then - 1 else 1)"

fun find_name :: "obs_data_item list \<Rightarrow> byte list \<Rightarrow> obs_data_item option" where
  "find_name [] name = None"
| "find_name (item # items) name = (if strcmp (oi_name item) name = 0 then Some item else find_name items name)"

definition get_item :: "obs_data option \<Rightarrow> byte list \<Rightarrow> obs_data_item option" where
  "get_item data name = (case data of None \<Rightarrow> None | Some data \<Rightarrow> find_name (od_items data) name)"

text \<open>The position of \<open>next\<close> when the loop ends.\<close>

fun place_loop :: "byte list \<Rightarrow> obs_data_item list \<Rightarrow> nat \<Rightarrow> nat" where
  "place_loop name [] k = k"
| "place_loop name (nxt # items) k = (if strcmp (oi_name nxt) name > 0 then k else place_loop name items (k + 1))"

definition insert_item :: "obs_data_item list \<Rightarrow> obs_data_item \<Rightarrow> obs_data_item list" where
  "insert_item items new_item =
     (case items of
        [] \<Rightarrow> [new_item]
      | first # rest \<Rightarrow>
          let k = place_loop (oi_name new_item) rest 1
          in if strcmp (oi_name (items ! (k - 1))) (oi_name new_item) < 0
             then take k items @ new_item # drop k items
             else new_item # drop (k - 1) items)"

text \<open>The item with a name replaced by what an operation makes of it.\<close>

fun update_item :: "(obs_data_item \<Rightarrow> (obs_data_item \<times> ref_call list) option) \<Rightarrow> obs_data_item list \<Rightarrow> byte list \<Rightarrow>
    (obs_data_item list \<times> ref_call list) option" where
  "update_item f [] name = Some ([], [])"
| "update_item f (item # items) name =
     (if strcmp (oi_name item) name = 0 then do { (item, calls) \<leftarrow> f item; Some (item # items, calls) }
      else do { (items, calls) \<leftarrow> update_item f items name; Some (item # items, calls) })"

definition on_item :: "(obs_data_item \<Rightarrow> (obs_data_item \<times> ref_call list) option) \<Rightarrow> obs_data \<Rightarrow> byte list \<Rightarrow> (obs_data \<times> ref_call list) option" where
  "on_item f data name = do { (items, calls) \<leftarrow> update_item f (od_items data) name; Some (data\<lparr>od_items := items\<rparr>, calls) }"

definition set_item_data :: "(nat \<Rightarrow> byte) \<Rightarrow> obs_data \<Rightarrow> byte list \<Rightarrow> byte list \<Rightarrow> obs_data_type \<Rightarrow> bool \<Rightarrow> bool \<Rightarrow>
    (obs_data \<times> ref_call list) option" where
  "set_item_data fresh data name bytes ty default_data autoselect_data =
     (if get_item (Some data) name = None then do {
        (new_item, calls) \<leftarrow> obs_data_item_create name bytes ty default_data autoselect_data;
        Some (data\<lparr>od_items := insert_item (od_items data) new_item\<rparr>, calls) }
      else if default_data then on_item (\<lambda>item. obs_data_item_set_default_data fresh item bytes ty) data name
      else if autoselect_data then on_item (\<lambda>item. obs_data_item_set_autoselect_data fresh item bytes ty) data name
      else on_item (\<lambda>item. obs_data_item_setdata fresh item bytes ty) data name)"

type_synonym set_item_t = "obs_data \<Rightarrow> byte list \<Rightarrow> byte list \<Rightarrow> obs_data_type \<Rightarrow> (obs_data \<times> ref_call list) option"

definition set_item :: "(nat \<Rightarrow> byte) \<Rightarrow> set_item_t" where
  "set_item fresh data name bytes ty = set_item_data fresh data name bytes ty False False"

definition set_item_def :: "(nat \<Rightarrow> byte) \<Rightarrow> set_item_t" where
  "set_item_def fresh data name bytes ty =
     (if (case get_item (Some data) name of None \<Rightarrow> False | Some item \<Rightarrow> oi_type item = ty) then Some (data, [])
      else set_item_data fresh data name bytes ty True False)"

definition set_item_auto :: "(nat \<Rightarrow> byte) \<Rightarrow> set_item_t" where
  "set_item_auto fresh data name bytes ty = set_item_data fresh data name bytes ty False True"

fun erase_name :: "obs_data_item list \<Rightarrow> byte list \<Rightarrow> (obs_data_item list \<times> ref_call list) option" where
  "erase_name [] name = Some ([], [])"
| "erase_name (item # items) name =
     (if strcmp (oi_name item) name = 0 then map_option (Pair items) (obs_data_item_destroy item)
      else do { (items, calls) \<leftarrow> erase_name items name; Some (item # items, calls) })"

definition obs_data_erase :: "obs_data \<Rightarrow> byte list \<Rightarrow> (obs_data \<times> ref_call list) option" where
  "obs_data_erase data name = do { (items, calls) \<leftarrow> erase_name (od_items data) name; Some (data\<lparr>od_items := items\<rparr>, calls) }"

fun clear_items :: "obs_data_item list \<Rightarrow> (obs_data_item list \<times> ref_call list) option" where
  "clear_items [] = Some ([], [])"
| "clear_items (item # items) = do {
     (item, a) \<leftarrow> clear_item item;
     (items, b) \<leftarrow> clear_items items;
     Some (item # items, a @ b) }"

definition obs_data_clear :: "obs_data \<Rightarrow> (obs_data \<times> ref_call list) option" where
  "obs_data_clear target = do { (items, calls) \<leftarrow> clear_items (od_items target); Some (target\<lparr>od_items := items\<rparr>, calls) }"

subsection \<open>Typed access\<close>

definition obs_set_string :: "obs_data \<Rightarrow> byte list \<Rightarrow> byte list option \<Rightarrow> set_item_t \<Rightarrow> (obs_data \<times> ref_call list) option" where
  "obs_set_string data name val set_item' =
     (let val = (case val of None \<Rightarrow> [] | Some val \<Rightarrow> val) in set_item' data name (val @ [0]) OBS_DATA_STRING)"

text \<open>\<open>struct obs_data_number\<close>: the kind, four bytes of padding that are never set, and the value.\<close>

definition number_bytes :: "(nat \<Rightarrow> byte) \<Rightarrow> nat \<Rightarrow> 64 word \<Rightarrow> byte list" where
  "number_bytes fresh kind val = le_bytes 4 kind @ malloc fresh 4 @ le_bytes 8 (unat val)"

definition obs_set_int :: "(nat \<Rightarrow> byte) \<Rightarrow> obs_data \<Rightarrow> byte list \<Rightarrow> 64 word \<Rightarrow> set_item_t \<Rightarrow> (obs_data \<times> ref_call list) option" where
  "obs_set_int fresh data name val set_item' = set_item' data name (number_bytes fresh OBS_DATA_NUM_INT val) OBS_DATA_NUMBER"

definition obs_set_double :: "(nat \<Rightarrow> byte) \<Rightarrow> obs_data \<Rightarrow> byte list \<Rightarrow> 64 word \<Rightarrow> set_item_t \<Rightarrow> (obs_data \<times> ref_call list) option" where
  "obs_set_double fresh data name bits set_item' = set_item' data name (number_bytes fresh OBS_DATA_NUM_DOUBLE bits) OBS_DATA_NUMBER"

definition obs_set_bool :: "obs_data \<Rightarrow> byte list \<Rightarrow> bool \<Rightarrow> set_item_t \<Rightarrow> (obs_data \<times> ref_call list) option" where
  "obs_set_bool data name val set_item' = set_item' data name [if val then 1 else 0] OBS_DATA_BOOLEAN"

definition obs_set_obj :: "obs_data \<Rightarrow> byte list \<Rightarrow> 64 word \<Rightarrow> set_item_t \<Rightarrow> (obs_data \<times> ref_call list) option" where
  "obs_set_obj data name obj set_item' = set_item' data name (le_bytes 8 (unat obj)) OBS_DATA_OBJECT"

definition obs_set_array :: "obs_data \<Rightarrow> byte list \<Rightarrow> 64 word \<Rightarrow> set_item_t \<Rightarrow> (obs_data \<times> ref_call list) option" where
  "obs_set_array data name arr set_item' = set_item' data name (le_bytes 8 (unat arr)) OBS_DATA_ARRAY"

definition obs_data_set_string where "obs_data_set_string fresh data name val = obs_set_string data name val (set_item fresh)"
definition obs_data_set_int where "obs_data_set_int fresh data name val = obs_set_int fresh data name val (set_item fresh)"
definition obs_data_set_double where "obs_data_set_double fresh data name val = obs_set_double fresh data name val (set_item fresh)"
definition obs_data_set_bool where "obs_data_set_bool fresh data name val = obs_set_bool data name val (set_item fresh)"
definition obs_data_set_obj where "obs_data_set_obj fresh data name obj = obs_set_obj data name obj (set_item fresh)"
definition obs_data_set_array where "obs_data_set_array fresh data name arr = obs_set_array data name arr (set_item fresh)"
definition obs_data_set_default_string where
  "obs_data_set_default_string fresh data name val = obs_set_string data name val (set_item_def fresh)"
definition obs_data_set_default_int where
  "obs_data_set_default_int fresh data name val = obs_set_int fresh data name val (set_item_def fresh)"
definition obs_data_set_default_double where
  "obs_data_set_default_double fresh data name val = obs_set_double fresh data name val (set_item_def fresh)"
definition obs_data_set_default_bool where
  "obs_data_set_default_bool fresh data name val = obs_set_bool data name val (set_item_def fresh)"
definition obs_data_set_default_obj where
  "obs_data_set_default_obj fresh data name obj = obs_set_obj data name obj (set_item_def fresh)"
definition obs_data_set_autoselect_string where
  "obs_data_set_autoselect_string fresh data name val = obs_set_string data name val (set_item_auto fresh)"
definition obs_data_set_autoselect_int where
  "obs_data_set_autoselect_int fresh data name val = obs_set_int fresh data name val (set_item_auto fresh)"
definition obs_data_set_autoselect_double where
  "obs_data_set_autoselect_double fresh data name val = obs_set_double fresh data name val (set_item_auto fresh)"
definition obs_data_set_autoselect_bool where
  "obs_data_set_autoselect_bool fresh data name val = obs_set_bool data name val (set_item_auto fresh)"
definition obs_data_set_autoselect_obj where
  "obs_data_set_autoselect_obj fresh data name obj = obs_set_obj data name obj (set_item_auto fresh)"
definition obs_data_set_autoselect_array where
  "obs_data_set_autoselect_array fresh data name arr = obs_set_array data name arr (set_item_auto fresh)"

definition item_valid :: "obs_data_item option \<Rightarrow> obs_data_type \<Rightarrow> obs_data_item option" where
  "item_valid item ty = (case item of None \<Rightarrow> None | Some item \<Rightarrow> if oi_type item = ty then Some item else None)"

definition data_item_get_string :: "obs_data_item option \<Rightarrow> (obs_data_item \<Rightarrow> nat option) \<Rightarrow> byte list option" where
  "data_item_get_string item get_data =
     (case item_valid item OBS_DATA_STRING of
        None \<Rightarrow> Some []
      | Some item \<Rightarrow> (case get_data item of None \<Rightarrow> Some [] | Some off \<Rightarrow> c_string (drop off (oi_block item))))"

definition item_number :: "obs_data_item \<Rightarrow> nat \<Rightarrow> (nat \<times> 64 word) option" where
  "item_number item off = do {
     kind \<leftarrow> peek (oi_block item) off 4;
     val \<leftarrow> peek (oi_block item) (off + 8) 8;
     Some (le_val kind, word_of_nat (le_val val)) }"

definition item_int :: "(64 word \<Rightarrow> 64 word) \<Rightarrow> obs_data_item option \<Rightarrow> (obs_data_item \<Rightarrow> nat option) \<Rightarrow> 64 word option" where
  "item_int to_ll item get_data =
     (case item of
        None \<Rightarrow> Some 0
      | Some item \<Rightarrow>
         (case get_data item of
            None \<Rightarrow> Some 0
          | Some off \<Rightarrow> map_option (\<lambda>(kind, val). if kind = OBS_DATA_NUM_INT then val else to_ll val) (item_number item off)))"

definition data_item_get_int :: "(64 word \<Rightarrow> 64 word) \<Rightarrow> obs_data_item option \<Rightarrow> (obs_data_item \<Rightarrow> nat option) \<Rightarrow> 64 word option" where
  "data_item_get_int to_ll item get_data = item_int to_ll (item_valid item OBS_DATA_NUMBER) get_data"

definition item_double :: "(64 word \<Rightarrow> 64 word) \<Rightarrow> obs_data_item option \<Rightarrow> (obs_data_item \<Rightarrow> nat option) \<Rightarrow> 64 word option" where
  "item_double to_double item get_data =
     (case item of
        None \<Rightarrow> Some 0
      | Some item \<Rightarrow>
         (case get_data item of
            None \<Rightarrow> Some 0
          | Some off \<Rightarrow> map_option (\<lambda>(kind, val). if kind = OBS_DATA_NUM_INT then to_double val else val) (item_number item off)))"

definition data_item_get_double :: "(64 word \<Rightarrow> 64 word) \<Rightarrow> obs_data_item option \<Rightarrow> (obs_data_item \<Rightarrow> nat option) \<Rightarrow> 64 word option" where
  "data_item_get_double to_double item get_data = item_double to_double (item_valid item OBS_DATA_NUMBER) get_data"

definition data_item_get_bool :: "obs_data_item option \<Rightarrow> (obs_data_item \<Rightarrow> nat option) \<Rightarrow> bool option" where
  "data_item_get_bool item get_data =
     (case item_valid item OBS_DATA_BOOLEAN of
        None \<Rightarrow> Some False
      | Some item \<Rightarrow> (case get_data item of None \<Rightarrow> Some False | Some off \<Rightarrow> map_option (\<lambda>b. b \<noteq> [0]) (peek (oi_block item) off 1)))"

text \<open>A getter of an object counts one more reference to it, unless there is none.\<close>

definition data_item_get_obj :: "obs_data_item option \<Rightarrow> (obs_data_item \<Rightarrow> 64 word option) \<Rightarrow> (64 word \<times> ref_call list) option" where
  "data_item_get_obj item get_obj =
     (case item_valid item OBS_DATA_OBJECT of
        None \<Rightarrow> Some (0, [])
      | Some item \<Rightarrow> map_option (\<lambda>p. (p, addref OBS_DATA_OBJECT p)) (get_obj item))"

definition data_item_get_array :: "obs_data_item option \<Rightarrow> (obs_data_item \<Rightarrow> 64 word option) \<Rightarrow> (64 word \<times> ref_call list) option" where
  "data_item_get_array item get_array =
     (case item_valid item OBS_DATA_ARRAY of
        None \<Rightarrow> Some (0, [])
      | Some item \<Rightarrow> map_option (\<lambda>p. (p, addref OBS_DATA_ARRAY p)) (get_array item))"

definition obs_data_get_string where "obs_data_get_string data name = data_item_get_string (get_item data name) get_item_data"
definition obs_data_get_int where "obs_data_get_int to_ll data name = data_item_get_int to_ll (get_item data name) get_item_data"
definition obs_data_get_double where
  "obs_data_get_double to_double data name = data_item_get_double to_double (get_item data name) get_item_data"
definition obs_data_get_bool where "obs_data_get_bool data name = data_item_get_bool (get_item data name) get_item_data"
definition obs_data_get_obj where "obs_data_get_obj data name = data_item_get_obj (get_item data name) get_item_obj"
definition obs_data_get_array where "obs_data_get_array data name = data_item_get_array (get_item data name) get_item_array"
definition obs_data_get_default_string where
  "obs_data_get_default_string data name = data_item_get_string (get_item data name) get_item_default_data"
definition obs_data_get_default_int where
  "obs_data_get_default_int to_ll data name = data_item_get_int to_ll (get_item data name) get_item_default_data"
definition obs_data_get_default_double where
  "obs_data_get_default_double to_double data name = data_item_get_double to_double (get_item data name) get_item_default_data"
definition obs_data_get_default_bool where
  "obs_data_get_default_bool data name = data_item_get_bool (get_item data name) get_item_default_data"

text \<open>The getters of a default object and a default array read the user's value, as the code does.\<close>

definition obs_data_get_default_obj where "obs_data_get_default_obj data name = data_item_get_obj (get_item data name) get_item_obj"
definition obs_data_get_default_array where
  "obs_data_get_default_array data name = data_item_get_array (get_item data name) get_item_array"
definition obs_data_get_autoselect_string where
  "obs_data_get_autoselect_string data name = data_item_get_string (get_item data name) get_item_autoselect_data"
definition obs_data_get_autoselect_int where
  "obs_data_get_autoselect_int to_ll data name = data_item_get_int to_ll (get_item data name) get_item_autoselect_data"
definition obs_data_get_autoselect_double where
  "obs_data_get_autoselect_double to_double data name = data_item_get_double to_double (get_item data name) get_item_autoselect_data"
definition obs_data_get_autoselect_bool where
  "obs_data_get_autoselect_bool data name = data_item_get_bool (get_item data name) get_item_autoselect_data"
definition obs_data_get_autoselect_obj where
  "obs_data_get_autoselect_obj data name = data_item_get_obj (get_item data name) get_item_autoselect_obj"
definition obs_data_get_autoselect_array where
  "obs_data_get_autoselect_array data name = data_item_get_array (get_item data name) get_item_autoselect_array"

definition obs_data_has_user_value where
  "obs_data_has_user_value data name \<longleftrightarrow> data \<noteq> None \<and> obs_data_item_has_user_value (get_item data name)"
definition obs_data_has_default_value where
  "obs_data_has_default_value data name \<longleftrightarrow> data \<noteq> None \<and> obs_data_item_has_default_value (get_item data name)"
definition obs_data_has_autoselect_value where
  "obs_data_has_autoselect_value data name \<longleftrightarrow> data \<noteq> None \<and> obs_data_item_has_autoselect_value (get_item data name)"

definition obs_data_unset_user_value where "obs_data_unset_user_value data name = on_item obs_data_item_unset_user_value data name"
definition obs_data_unset_default_value where
  "obs_data_unset_default_value data name = on_item obs_data_item_unset_default_value data name"
definition obs_data_unset_autoselect_value where
  "obs_data_unset_autoselect_value data name = on_item obs_data_item_unset_autoselect_value data name"

definition obs_data_item_gettype :: "obs_data_item option \<Rightarrow> obs_data_type" where
  "obs_data_item_gettype item = (case item of None \<Rightarrow> OBS_DATA_NULL | Some item \<Rightarrow> oi_type item)"

definition obs_data_item_numtype :: "obs_data_item option \<Rightarrow> nat option" where
  "obs_data_item_numtype item =
     (case item_valid item OBS_DATA_NUMBER of
        None \<Rightarrow> Some OBS_DATA_NUM_INVALID
      | Some item \<Rightarrow> do { off \<leftarrow> get_item_data item; kind \<leftarrow> peek (oi_block item) off 4; Some (le_val kind) })"

end
