(* ===== verification/Obs_Data_Items.thy ===== *)
theory Obs_Data_Items
  imports Obs_Data
begin

text \<open>
  The items of \<open>Obs_Data\<close>: the invariant of the layout of their block, the values it holds, and what every operation on an item does
  to these values and to the references they hold.
\<close>

subsection \<open>Segments of a block\<close>

lemma segment_blit_disjoint:
  "p + length xs \<le> length b \<Longrightarrow> q + n \<le> p \<or> p + length xs \<le> q \<Longrightarrow> q + n \<le> length b \<Longrightarrow> segment (blit b p xs) q n = segment b q n"
  by (rule nth_equalityI) (auto simp: splice_simps)

lemma segment_blit_inside:
  "p + length xs \<le> length b \<Longrightarrow> p \<le> q \<Longrightarrow> q + n \<le> p + length xs \<Longrightarrow> segment (blit b p xs) q n = segment xs (q - p) n"
  by (rule nth_equalityI) (auto simp: splice_simps)

lemma segment_segment: "q + n \<le> l \<Longrightarrow> p + l \<le> length b \<Longrightarrow> segment (segment b p l) q n = segment b (p + q) n"
  by (rule nth_equalityI) (auto simp: splice_simps add.assoc)

lemma segment_all: "segment xs 0 (length xs) = xs"
  by (simp add: segment_def)

lemma segment_realloc: "q + n \<le> length b \<Longrightarrow> q + n \<le> k \<Longrightarrow> segment (realloc fresh b k) q n = segment b q n"
  by (rule nth_equalityI) (simp_all add: splice_simps, simp add: realloc_def nth_append)

lemma get_align_size_ge: "n \<le> get_align_size n"
  unfolding get_align_size_def by simp

subsection \<open>The values of an item\<close>

record item_values =
  iv_type :: obs_data_type
  iv_user :: "byte list option"
  iv_default :: "byte list option"
  iv_auto :: "byte list option"

definition value_at :: "obs_data_item \<Rightarrow> nat \<Rightarrow> nat \<Rightarrow> byte list option" where
  "value_at item off n = (if n = 0 then None else Some (segment (oi_block item) off n))"

definition item_abs :: "obs_data_item \<Rightarrow> item_values" where
  "item_abs item = \<lparr>iv_type = oi_type item, iv_user = value_at item 0 (oi_data_size item),
     iv_default = value_at item (oi_data_len item) (oi_default_size item),
     iv_auto = value_at item (oi_data_len item + oi_default_len item) (oi_autoselect_size item)\<rparr>"

definition layout_ok :: "obs_data_item \<Rightarrow> bool" where
  "layout_ok item \<longleftrightarrow>
     ITEM_SIZE + oi_name_len item + length (oi_block item) = oi_capacity item \<and>
     oi_data_len item + oi_default_len item + oi_autoselect_size item \<le> length (oi_block item) \<and>
     oi_data_size item \<le> oi_data_len item \<and> oi_default_size item \<le> oi_default_len item \<and>
     (oi_data_size item = 0 \<longrightarrow> oi_data_len item = 0) \<and> (oi_default_size item = 0 \<longrightarrow> oi_default_len item = 0) \<and>
     (oi_default_size item \<noteq> 0 \<longrightarrow> oi_data_len item = get_align_size (oi_data_size item))"

fun value_ok :: "obs_data_type \<Rightarrow> byte list \<Rightarrow> bool" where
  "value_ok OBS_DATA_NULL bs \<longleftrightarrow> False"
| "value_ok OBS_DATA_STRING bs \<longleftrightarrow> c_string bs \<noteq> None"
| "value_ok OBS_DATA_NUMBER bs \<longleftrightarrow> length bs = 16"
| "value_ok OBS_DATA_BOOLEAN bs \<longleftrightarrow> length bs = 1"
| "value_ok OBS_DATA_OBJECT bs \<longleftrightarrow> length bs = 8"
| "value_ok OBS_DATA_ARRAY bs \<longleftrightarrow> length bs = 8"

lemma value_ok_Nil [simp]: "\<not> value_ok ty []"
  by (cases ty) auto

definition values_ok :: "item_values \<Rightarrow> bool" where
  "values_ok iv \<longleftrightarrow> (\<forall>bs \<in> set_option (iv_user iv) \<union> set_option (iv_default iv) \<union> set_option (iv_auto iv). value_ok (iv_type iv) bs)"

definition item_ok :: "obs_data_item \<Rightarrow> bool" where
  "item_ok item \<longleftrightarrow> layout_ok item \<and> values_ok (item_abs item)"

text \<open>The object a value refers to.\<close>

definition owned :: "obs_data_type \<Rightarrow> byte list option \<Rightarrow> 64 word list" where
  "owned ty v = (case v of
     None \<Rightarrow> []
   | Some bs \<Rightarrow> if (ty = OBS_DATA_OBJECT \<or> ty = OBS_DATA_ARRAY) \<and> word_of_nat (le_val bs) \<noteq> (0 :: 64 word)
                then [word_of_nat (le_val bs)] else [])"

lemma value_at_ok:
  "item_ok item \<Longrightarrow> oi_data_size item \<noteq> 0 \<Longrightarrow> value_ok (oi_type item) (segment (oi_block item) 0 (oi_data_size item))"
  "item_ok item \<Longrightarrow> oi_default_size item \<noteq> 0 \<Longrightarrow>
     value_ok (oi_type item) (segment (oi_block item) (oi_data_len item) (oi_default_size item))"
  "item_ok item \<Longrightarrow> oi_autoselect_size item \<noteq> 0 \<Longrightarrow>
     value_ok (oi_type item) (segment (oi_block item) (oi_data_len item + oi_default_len item) (oi_autoselect_size item))"
  by (auto simp: item_ok_def values_ok_def item_abs_def value_at_def)

lemma pointer_size:
  assumes "value_ok ty (segment b off n)" "off + n \<le> length b" "ty = OBS_DATA_OBJECT \<or> ty = OBS_DATA_ARRAY"
  shows "n = 8"
  using assms by (auto simp: splice_simps)

lemma deref_value:
  assumes "value_ok ty (segment (oi_block item) off n)" "off + n \<le> length (oi_block item)" "ty = OBS_DATA_OBJECT \<or> ty = OBS_DATA_ARRAY"
  shows "deref item off = Some (word_of_nat (le_val (segment (oi_block item) off n)))"
  using pointer_size [OF assms] assms(2) by (simp add: deref_def peek_def)

lemma owned_calls:
  "ty = OBS_DATA_OBJECT \<or> ty = OBS_DATA_ARRAY \<Longrightarrow> release ty (word_of_nat (le_val bs)) = map (Release ty) (owned ty (Some bs))"
  "ty = OBS_DATA_OBJECT \<or> ty = OBS_DATA_ARRAY \<Longrightarrow> addref ty (word_of_nat (le_val bs)) = map (Addref ty) (owned ty (Some bs))"
  "\<not> (ty = OBS_DATA_OBJECT \<or> ty = OBS_DATA_ARRAY) \<Longrightarrow> owned ty v = []"
  by (auto simp: release_def addref_def owned_def split: option.splits)

lemma item_data_release_ok:
  assumes "item_ok item"
  shows "item_data_release item = Some (map (Release (oi_type item)) (owned (oi_type item) (iv_user (item_abs item))))"
proof (cases "oi_data_size item = 0")
  case True
  then show ?thesis by (simp add: item_data_release_def obs_data_item_has_user_value_def item_abs_def value_at_def owned_def)
next
  case False
  have b: "0 + oi_data_size item \<le> length (oi_block item)" using assms by (simp add: item_ok_def layout_ok_def)
  note v = value_at_ok(1) [OF assms False]
  show ?thesis
    using False deref_value [OF v b] owned_calls
    by (auto simp: item_data_release_def obs_data_item_has_user_value_def item_abs_def value_at_def get_item_obj_def get_item_array_def get_item_data_def)
qed

lemma item_default_data_release_ok:
  assumes "item_ok item"
  shows "item_default_data_release item = Some (map (Release (oi_type item)) (owned (oi_type item) (iv_default (item_abs item))))"
proof (cases "oi_default_size item = 0")
  case True
  then show ?thesis
    by (auto simp: item_default_data_release_def item_abs_def value_at_def owned_def get_item_default_obj_def get_item_default_array_def release_def)
next
  case False
  have b: "oi_data_len item + oi_default_size item \<le> length (oi_block item)" using assms by (simp add: item_ok_def layout_ok_def)
  note v = value_at_ok(2) [OF assms False]
  show ?thesis
    using False deref_value [OF v b] owned_calls
    by (auto simp: item_default_data_release_def item_abs_def value_at_def get_item_default_obj_def get_item_default_array_def get_default_data_ptr_def)
qed

lemma item_autoselect_data_release_ok:
  assumes "item_ok item"
  shows "item_autoselect_data_release item = Some (map (Release (oi_type item)) (owned (oi_type item) (iv_auto (item_abs item))))"
proof (cases "oi_autoselect_size item = 0")
  case True
  then show ?thesis
    by (auto simp: item_autoselect_data_release_def item_abs_def value_at_def owned_def get_item_autoselect_obj_def get_item_autoselect_array_def release_def)
next
  case False
  have b: "oi_data_len item + oi_default_len item + oi_autoselect_size item \<le> length (oi_block item)"
    using assms by (simp add: item_ok_def layout_ok_def)
  note v = value_at_ok(3) [OF assms False]
  show ?thesis
    using False deref_value [OF v b] owned_calls
    by (auto simp: item_autoselect_data_release_def item_abs_def value_at_def get_item_autoselect_obj_def get_item_autoselect_array_def
        get_autoselect_data_ptr_def get_default_data_ptr_def)
qed


subsection \<open>The operations on an item keep the other values\<close>

lemma ensure_capacity_ok:
  assumes "ITEM_SIZE + oi_name_len item + length (oi_block item) = oi_capacity item"
  obtains b c where "obs_data_item_ensure_capacity fresh item = item\<lparr>oi_capacity := c, oi_block := b\<rparr>"
    "ITEM_SIZE + oi_name_len item + length b = c" "oi_data_len item + oi_default_len item + oi_autoselect_size item \<le> length b"
    "\<And>q n. q + n \<le> length (oi_block item) \<Longrightarrow> q + n \<le> length b \<and> segment b q n = segment (oi_block item) q n"
proof (cases "oi_capacity item \<ge> obs_data_item_total_size item")
  case True
  show ?thesis
    by (rule that [of "oi_block item" "oi_capacity item"])
      (use True assms in \<open>auto simp: obs_data_item_ensure_capacity_def obs_data_item_total_size_def\<close>)
next
  case False
  let ?n = "oi_data_len item + oi_default_len item + oi_autoselect_size item"
  have n: "obs_data_item_total_size item - ITEM_SIZE - oi_name_len item = ?n" "length (oi_block item) \<le> ?n"
    using False assms by (auto simp: obs_data_item_total_size_def)
  show ?thesis
    by (rule that [of "realloc fresh (oi_block item) ?n" "obs_data_item_total_size item"])
      (use False n in \<open>auto simp: obs_data_item_ensure_capacity_def obs_data_item_total_size_def segment_realloc add.assoc\<close>)
qed

lemma move_data_ok:
  assumes "old + len \<le> length (oi_block item)" "new + len \<le> length (oi_block item)"
  shows "move_data item old new len = Some (item\<lparr>oi_block := blit (oi_block item) new (segment (oi_block item) old len)\<rparr>)"
  using assms by (simp add: move_data_def peek_def poke_def splice_simps)

lemma put_value_ok:
  assumes "off + length bs \<le> length (oi_block item)"
  shows "put_value item (Some off) bs = Some (item\<lparr>oi_block := blit (oi_block item) off bs\<rparr>)"
  using assms by (simp add: put_value_def poke_def)

lemma segment_move:
  assumes "old + len \<le> length b" "new + len \<le> length b" "k + n \<le> len"
  shows "segment (blit b new (segment b old len)) (new + k) n = segment b (old + k) n"
  using assms segment_blit_inside [of new "segment b old len" b "new + k" n] segment_segment [of k n len old b]
  by (simp add: splice_simps)

lemma deref_pointer:
  "segment (oi_block item) off (length bs) = bs \<Longrightarrow> off + length bs \<le> length (oi_block item) \<Longrightarrow> length bs = 8 \<Longrightarrow>
    deref item off = Some (word_of_nat (le_val bs))"
  by (simp add: deref_def peek_def)

lemmas item_abs_simps = item_abs_def value_at_def
lemmas get_ptr_defs = get_item_data_def get_item_default_data_def get_item_autoselect_data_def get_default_data_ptr_def get_autoselect_data_ptr_def

lemma item_data_addref_ok:
  assumes "oi_data_size item \<noteq> 0 \<or> oi_default_size item \<noteq> 0 \<or> oi_autoselect_size item \<noteq> 0"
    "segment (oi_block item) 0 (length bs) = bs" "length bs \<le> length (oi_block item)" "value_ok (oi_type item) bs"
  shows "item_data_addref item = Some (map (Addref (oi_type item)) (owned (oi_type item) (Some bs)))"
  using assms deref_pointer [of item 0 bs] owned_calls
  by (auto simp: item_data_addref_def get_item_obj_def get_item_array_def get_ptr_defs)

lemma item_default_data_addref_ok:
  assumes "oi_default_size item \<noteq> 0"
    "segment (oi_block item) (oi_data_len item) (length bs) = bs" "oi_data_len item + length bs \<le> length (oi_block item)" "value_ok (oi_type item) bs"
  shows "item_default_data_addref item =
    Some (if oi_data_size item = 0 then [] else map (Addref (oi_type item)) (owned (oi_type item) (Some bs)))"
  using assms deref_pointer [of item "oi_data_len item" bs] owned_calls
  by (auto simp: item_default_data_addref_def get_item_default_obj_def get_item_default_array_def get_ptr_defs)

lemma item_autoselect_data_addref_ok:
  assumes "oi_autoselect_size item \<noteq> 0"
    "segment (oi_block item) (oi_data_len item + oi_default_len item) (length bs) = bs"
    "oi_data_len item + oi_default_len item + length bs \<le> length (oi_block item)" "value_ok (oi_type item) bs"
  shows "item_autoselect_data_addref item = Some (map (Addref (oi_type item)) (owned (oi_type item) (Some bs)))"
  using assms deref_pointer [of item "oi_data_len item + oi_default_len item" bs] owned_calls
  by (auto simp: item_autoselect_data_addref_def get_item_autoselect_obj_def get_item_autoselect_array_def get_ptr_defs)

lemma segment_blit_same: "p + length xs \<le> length b \<Longrightarrow> segment (blit b p xs) p (length xs) = xs"
  using segment_blit_inside [of p xs b p "length xs"] segment_all [of xs] by simp

text \<open>Setting a value: the references released and taken, and the values afterwards.\<close>

lemma setdata_ok:
  assumes ok: "item_ok item" and v: "value_ok ty bs"
  obtains item' where "obs_data_item_setdata fresh item bs ty = Some (item',
      map (Release (oi_type item)) (owned (oi_type item) (iv_user (item_abs item))) @ map (Addref ty) (owned ty (Some bs)))"
    "layout_ok item'" "item_abs item' = (item_abs item)\<lparr>iv_type := ty, iv_user := Some bs\<rparr>" "oi_name item' = oi_name item"
proof -
  let ?D = "oi_data_len item" let ?n = "oi_default_len item + oi_autoselect_size item"
  have lay: "layout_ok item" using ok by (simp add: item_ok_def)
  have ne: "bs \<noteq> []" using v by auto
  let ?more = "oi_default_size item \<noteq> 0 \<or> oi_autoselect_size item \<noteq> 0"
  let ?len = "if ?more then get_align_size (length bs) else length bs"
  let ?i1 = "item\<lparr>oi_data_size := length bs, oi_type := ty, oi_data_len := ?len\<rparr>"
  have len: "length bs \<le> ?len" using get_align_size_ge by simp
  obtain b c where e: "obs_data_item_ensure_capacity fresh ?i1 = ?i1\<lparr>oi_capacity := c, oi_block := b\<rparr>"
    "ITEM_SIZE + oi_name_len item + length b = c" "?len + oi_default_len item + oi_autoselect_size item \<le> length b"
    "\<And>q n. q + n \<le> length (oi_block item) \<Longrightarrow> q + n \<le> length b \<and> segment b q n = segment (oi_block item) q n"
    using ensure_capacity_ok [of ?i1 fresh] lay by (auto simp: layout_ok_def)
  let ?i2 = "?i1\<lparr>oi_capacity := c, oi_block := b\<rparr>"
  have old: "?D + ?n \<le> length b" "segment b ?D ?n = segment (oi_block item) ?D ?n"
    using e(4) [of ?D ?n] lay by (auto simp: layout_ok_def)
  let ?b3 = "if ?more then blit b ?len (segment b ?D ?n) else b"
  have m: "(if oi_default_size ?i2 \<noteq> 0 \<or> oi_autoselect_size ?i2 \<noteq> 0
      then move_data ?i2 (get_default_data_ptr item) (get_default_data_ptr ?i2) (oi_default_len ?i2 + oi_autoselect_size ?i2) else Some ?i2)
    = Some (?i2\<lparr>oi_block := ?b3\<rparr>)"
    using move_data_ok [of ?D ?n ?i2 ?len] old(1) e(3) by (auto simp: get_default_data_ptr_def)
  have l3: "length ?b3 = length b" using old(1) e(3) by (auto simp: splice_simps)
  let ?b4 = "blit ?b3 0 bs" let ?i4 = "?i2\<lparr>oi_block := ?b4\<rparr>"
  have p: "put_value (?i2\<lparr>oi_block := ?b3\<rparr>) (get_item_data (?i2\<lparr>oi_block := ?b3\<rparr>)) bs = Some ?i4"
    using put_value_ok [of 0 bs "?i2\<lparr>oi_block := ?b3\<rparr>"] len e(3) l3 ne by (simp add: get_item_data_def)
  have l4: "length ?b4 = length b" using l3 len e(3) by (auto simp: splice_simps)
  have user: "segment ?b4 0 (length bs) = bs" using segment_blit_same [of 0 bs ?b3] l3 len e(3) by simp
  have a: "item_data_addref ?i4 = Some (map (Addref ty) (owned ty (Some bs)))"
    using item_data_addref_ok [of ?i4 bs] user ne v l4 len e(3) by simp
  have rest: "segment ?b4 (?len + k) n = segment (oi_block item) (?D + k) n" if "k + n \<le> ?n" "?more" for k n
  proof -
    have "segment ?b4 (?len + k) n = segment ?b3 (?len + k) n"
      by (rule segment_blit_disjoint) (use that len e(3) l3 in auto)
    also have "\<dots> = segment b (?D + k) n" using segment_move [of ?D ?n b ?len k n] that old(1) e(3) by simp
    also have "\<dots> = segment (oi_block item) (?D + k) n" using e(4) [of "?D + k" n] that lay by (auto simp: layout_ok_def)
    finally show ?thesis .
  qed
  have "obs_data_item_setdata fresh item bs ty = Some (?i4,
      map (Release (oi_type item)) (owned (oi_type item) (iv_user (item_abs item))) @ map (Addref ty) (owned ty (Some bs)))"
    by (simp only: obs_data_item_setdata_def Let_def item_data_release_ok [OF ok] Option.bind.simps e(1) m p a ne not_False_eq_True if_True)
  moreover have "layout_ok ?i4" using lay e(2,3) l4 len ne by (auto simp: layout_ok_def)
  moreover have "item_abs ?i4 = (item_abs item)\<lparr>iv_type := ty, iv_user := Some bs\<rparr>"
    using user ne rest [of 0 "oi_default_size item"] rest [of "oi_default_len item" "oi_autoselect_size item"] lay
    by (auto simp: item_abs_simps layout_ok_def add.assoc)
  ultimately show ?thesis by (rule that) simp
qed


lemma set_default_ok:
  assumes ok: "item_ok item" and v: "value_ok ty bs"
  obtains item' where "obs_data_item_set_default_data fresh item bs ty = Some (item',
      map (Release (oi_type item)) (owned (oi_type item) (iv_default (item_abs item))) @
      (if oi_data_size item = 0 then [] else map (Addref ty) (owned ty (Some bs))))"
    "layout_ok item'" "item_abs item' = (item_abs item)\<lparr>iv_type := ty, iv_default := Some bs\<rparr>" "oi_name item' = oi_name item"
proof -
  let ?A = "oi_data_len item + oi_default_len item" let ?n = "oi_autoselect_size item"
  have lay: "layout_ok item" using ok by (simp add: item_ok_def)
  have ne: "bs \<noteq> []" using v by auto
  let ?len = "if oi_autoselect_size item \<noteq> 0 then get_align_size (length bs) else length bs"
  let ?dl = "if oi_data_size item \<noteq> 0 then get_align_size (oi_data_size item) else 0"
  let ?i1 = "item\<lparr>oi_type := ty, oi_default_size := length bs, oi_default_len := ?len, oi_data_len := ?dl\<rparr>"
  have len: "length bs \<le> ?len" "oi_data_size item \<le> ?dl" using get_align_size_ge by simp_all
  obtain b c where e: "obs_data_item_ensure_capacity fresh ?i1 = ?i1\<lparr>oi_capacity := c, oi_block := b\<rparr>"
    "ITEM_SIZE + oi_name_len item + length b = c" "?dl + ?len + ?n \<le> length b"
    "\<And>q n. q + n \<le> length (oi_block item) \<Longrightarrow> q + n \<le> length b \<and> segment b q n = segment (oi_block item) q n"
    using ensure_capacity_ok [of ?i1 fresh] lay by (auto simp: layout_ok_def)
  let ?i2 = "?i1\<lparr>oi_capacity := c, oi_block := b\<rparr>"
  have old: "?A + ?n \<le> length b" "segment b ?A ?n = segment (oi_block item) ?A ?n"
    using e(4) [of ?A ?n] lay by (auto simp: layout_ok_def)
  let ?b3 = "if ?n \<noteq> 0 then blit b (?dl + ?len) (segment b ?A ?n) else b"
  have m: "(if oi_autoselect_size ?i2 \<noteq> 0
      then move_data ?i2 (get_autoselect_data_ptr item) (get_autoselect_data_ptr ?i2) (oi_autoselect_size ?i2) else Some ?i2)
    = Some (?i2\<lparr>oi_block := ?b3\<rparr>)"
    using move_data_ok [of ?A ?n ?i2 "?dl + ?len"] old(1) e(3) by (auto simp: get_ptr_defs)
  have l3: "length ?b3 = length b" using old(1) e(3) by (auto simp: splice_simps)
  let ?b4 = "blit ?b3 ?dl bs" let ?i4 = "?i2\<lparr>oi_block := ?b4\<rparr>"
  have p: "put_value (?i2\<lparr>oi_block := ?b3\<rparr>) (get_item_default_data (?i2\<lparr>oi_block := ?b3\<rparr>)) bs = Some ?i4"
    using put_value_ok [of ?dl bs "?i2\<lparr>oi_block := ?b3\<rparr>"] len e(3) l3 ne by (simp add: get_ptr_defs)
  have l4: "length ?b4 = length b" using l3 len e(3) by (auto simp: splice_simps)
  have dflt: "segment ?b4 ?dl (length bs) = bs" using segment_blit_same [of ?dl bs ?b3] l3 len e(3) by simp
  have a: "item_default_data_addref ?i4 = Some (if oi_data_size item = 0 then [] else map (Addref ty) (owned ty (Some bs)))"
    using item_default_data_addref_ok [of ?i4 bs] dflt ne v l4 len e(3) by simp
  have user: "segment ?b4 0 (oi_data_size item) = segment (oi_block item) 0 (oi_data_size item)"
  proof -
    have "segment ?b4 0 (oi_data_size item) = segment ?b3 0 (oi_data_size item)"
      by (rule segment_blit_disjoint) (use len e(3) l3 in auto)
    also have "\<dots> = segment b 0 (oi_data_size item)"
      using segment_blit_disjoint [of "?dl + ?len" "segment b ?A ?n" b 0 "oi_data_size item"] old(1) len e(3)
      by (auto simp: splice_simps split: if_splits)
    also have "\<dots> = segment (oi_block item) 0 (oi_data_size item)" using e(4) [of 0 "oi_data_size item"] lay by (auto simp: layout_ok_def)
    finally show ?thesis .
  qed
  have auto: "segment ?b4 (?dl + ?len) ?n = segment (oi_block item) ?A ?n" if "?n \<noteq> 0"
  proof -
    have "segment ?b4 (?dl + ?len) ?n = segment ?b3 (?dl + ?len) ?n"
      by (rule segment_blit_disjoint) (use that len e(3) l3 in auto)
    then show ?thesis using segment_move [of ?A ?n b "?dl + ?len" 0 ?n] that old e(3) by simp
  qed
  have "obs_data_item_set_default_data fresh item bs ty = Some (?i4,
      map (Release (oi_type item)) (owned (oi_type item) (iv_default (item_abs item))) @
      (if oi_data_size item = 0 then [] else map (Addref ty) (owned ty (Some bs))))"
    by (simp only: obs_data_item_set_default_data_def Let_def item_default_data_release_ok [OF ok] Option.bind.simps e(1) m p a ne not_False_eq_True if_True)
  moreover have "layout_ok ?i4" using lay e(2,3) l4 len ne by (auto simp: layout_ok_def get_align_size_def)
  moreover have "item_abs ?i4 = (item_abs item)\<lparr>iv_type := ty, iv_default := Some bs\<rparr>"
    using user ne dflt auto lay by (auto simp: item_abs_simps layout_ok_def)
  ultimately show ?thesis by (rule that) simp
qed

lemma set_autoselect_ok:
  assumes ok: "item_ok item" and v: "value_ok ty bs"
  obtains item' where "obs_data_item_set_autoselect_data fresh item bs ty = Some (item',
      map (Release (oi_type item)) (owned (oi_type item) (iv_auto (item_abs item))) @ map (Addref ty) (owned ty (Some bs)))"
    "layout_ok item'" "item_abs item' = (item_abs item)\<lparr>iv_type := ty, iv_auto := Some bs\<rparr>" "oi_name item' = oi_name item"
proof -
  have lay: "layout_ok item" using ok by (simp add: item_ok_def)
  have ne: "bs \<noteq> []" using v by auto
  let ?dl = "if oi_data_size item \<noteq> 0 then get_align_size (oi_data_size item) else 0"
  let ?el = "if oi_default_size item \<noteq> 0 then get_align_size (oi_default_size item) else 0"
  let ?i1 = "item\<lparr>oi_autoselect_size := length bs, oi_type := ty, oi_data_len := ?dl, oi_default_len := ?el\<rparr>"
  have len: "oi_data_size item \<le> ?dl" "oi_default_size item \<le> ?el" using get_align_size_ge by simp_all
  obtain b c where e: "obs_data_item_ensure_capacity fresh ?i1 = ?i1\<lparr>oi_capacity := c, oi_block := b\<rparr>"
    "ITEM_SIZE + oi_name_len item + length b = c" "?dl + ?el + length bs \<le> length b"
    "\<And>q n. q + n \<le> length (oi_block item) \<Longrightarrow> q + n \<le> length b \<and> segment b q n = segment (oi_block item) q n"
    using ensure_capacity_ok [of ?i1 fresh] lay by (auto simp: layout_ok_def)
  let ?i2 = "?i1\<lparr>oi_capacity := c, oi_block := b\<rparr>"
  let ?b4 = "blit b (?dl + ?el) bs" let ?i4 = "?i2\<lparr>oi_block := ?b4\<rparr>"
  have p: "put_value ?i2 (get_item_autoselect_data ?i2) bs = Some ?i4"
    using put_value_ok [of "?dl + ?el" bs ?i2] e(3) ne by (simp add: get_ptr_defs)
  have l4: "length ?b4 = length b" using e(3) by (auto simp: splice_simps)
  have auto: "segment ?b4 (?dl + ?el) (length bs) = bs" using segment_blit_same [of "?dl + ?el" bs b] e(3) by simp
  have a: "item_autoselect_data_addref ?i4 = Some (map (Addref ty) (owned ty (Some bs)))"
    using item_autoselect_data_addref_ok [of ?i4 bs] auto ne v l4 e(3) by simp
  have keep: "segment ?b4 q n = segment (oi_block item) q n" if "q + n \<le> ?dl + ?el" "q + n \<le> length (oi_block item)" for q n
    using segment_blit_disjoint [of "?dl + ?el" bs b q n] e(3) e(4) [of q n] that by simp
  have "obs_data_item_set_autoselect_data fresh item bs ty = Some (?i4,
      map (Release (oi_type item)) (owned (oi_type item) (iv_auto (item_abs item))) @ map (Addref ty) (owned ty (Some bs)))"
    by (simp only: obs_data_item_set_autoselect_data_def Let_def item_autoselect_data_release_ok [OF ok] Option.bind.simps e(1) p a ne not_False_eq_True if_True)
  moreover have "layout_ok ?i4" using lay e(2,3) l4 len ne by (auto simp: layout_ok_def)
  moreover have "item_abs ?i4 = (item_abs item)\<lparr>iv_type := ty, iv_auto := Some bs\<rparr>"
    using auto ne keep [of 0 "oi_data_size item"] keep [of ?dl "oi_default_size item"] lay len
    by (auto simp: item_abs_simps layout_ok_def get_align_size_def)
  ultimately show ?thesis by (rule that) simp
qed


lemma drop_user_ok:
  assumes ok: "item_ok item"
    and b: "b = (if oi_default_len item + oi_autoselect_size item \<noteq> 0
      then blit (oi_block item) 0 (segment (oi_block item) (oi_data_len item) (oi_default_len item + oi_autoselect_size item)) else oi_block item)"
  shows "layout_ok (item\<lparr>oi_data_size := 0, oi_data_len := 0, oi_block := b\<rparr>)"
    "item_abs (item\<lparr>oi_data_size := 0, oi_data_len := 0, oi_block := b\<rparr>) = (item_abs item)\<lparr>iv_user := None\<rparr>"
proof -
  let ?D = "oi_data_len item" let ?n = "oi_default_len item + oi_autoselect_size item"
  have lay: "layout_ok item" using ok by (simp add: item_ok_def)
  have n: "?D + ?n \<le> length (oi_block item)" using lay by (simp add: layout_ok_def)
  then have l: "length b = length (oi_block item)" using b by (auto simp: splice_simps)
  then show "layout_ok (item\<lparr>oi_data_size := 0, oi_data_len := 0, oi_block := b\<rparr>)"
    using lay n by (auto simp: layout_ok_def get_align_size_def)
  have "segment b k m = segment (oi_block item) (?D + k) m" if "k + m \<le> ?n" "m \<noteq> 0" for k m
    using segment_move [of ?D ?n "oi_block item" 0 k m] n b that by auto
  from this [of 0 "oi_default_size item"] this [of "oi_default_len item" "oi_autoselect_size item"]
  show "item_abs (item\<lparr>oi_data_size := 0, oi_data_len := 0, oi_block := b\<rparr>) = (item_abs item)\<lparr>iv_user := None\<rparr>"
    using lay by (auto simp: item_abs_simps layout_ok_def)
qed

lemma unset_user_ok:
  assumes ok: "item_ok item"
  obtains item' where "obs_data_item_unset_user_value item = Some (item',
      map (Release (oi_type item)) (owned (oi_type item) (iv_user (item_abs item))))"
    "layout_ok item'" "item_abs item' = (item_abs item)\<lparr>iv_user := None\<rparr>" "oi_name item' = oi_name item"
proof (cases "oi_data_size item = 0")
  case True
  then have "item_abs item = (item_abs item)\<lparr>iv_user := None\<rparr>" by (simp add: item_abs_simps)
  then show ?thesis
    using that [of item] ok True by (simp add: obs_data_item_unset_user_value_def item_ok_def owned_def item_abs_simps)
next
  case False
  let ?D = "oi_data_len item" let ?n = "oi_default_len item + oi_autoselect_size item"
  have lay: "layout_ok item" using ok by (simp add: item_ok_def)
  have more: "oi_default_size item \<noteq> 0 \<or> oi_autoselect_size item \<noteq> 0 \<longleftrightarrow> ?n \<noteq> 0" using lay by (auto simp: layout_ok_def)
  let ?b = "if ?n \<noteq> 0 then blit (oi_block item) 0 (segment (oi_block item) ?D ?n) else oi_block item"
  let ?i1 = "item\<lparr>oi_data_size := 0, oi_data_len := 0\<rparr>" let ?i2 = "?i1\<lparr>oi_block := ?b\<rparr>"
  have n: "?D + ?n \<le> length (oi_block item)" using lay by (simp add: layout_ok_def)
  have m: "(if oi_default_size ?i1 \<noteq> 0 \<or> oi_autoselect_size ?i1 \<noteq> 0
      then move_data ?i1 (get_default_data_ptr item) (get_default_data_ptr ?i1) (oi_default_len ?i1 + oi_autoselect_size ?i1) else Some ?i1) = Some ?i2"
    using move_data_ok [of ?D ?n ?i1 0] n more by (auto simp: get_ptr_defs)
  have "obs_data_item_unset_user_value item = Some (?i2, map (Release (oi_type item)) (owned (oi_type item) (iv_user (item_abs item))))"
    by (simp only: obs_data_item_unset_user_value_def False if_False Let_def item_data_release_ok [OF ok] Option.bind.simps m)
  then show ?thesis by (rule that) (use drop_user_ok [OF ok refl] in simp_all)
qed

lemma clear_item_ok:
  assumes ok: "item_ok item"
  obtains item' where "clear_item item = Some (item', map (Release (oi_type item)) (owned (oi_type item) (iv_user (item_abs item))))"
    "layout_ok item'" "item_abs item' = (item_abs item)\<lparr>iv_user := None\<rparr>" "oi_name item' = oi_name item"
proof (cases "oi_data_len item = 0")
  case True
  then have z: "oi_data_size item = 0" using ok by (simp add: item_ok_def layout_ok_def)
  then have "item_abs item = (item_abs item)\<lparr>iv_user := None\<rparr>" by (simp add: item_abs_simps)
  then show ?thesis using that [of item] ok True z by (simp add: clear_item_def item_ok_def owned_def item_abs_simps)
next
  case False
  let ?D = "oi_data_len item" let ?n = "oi_default_len item + oi_autoselect_size item"
  have lay: "layout_ok item" using ok by (simp add: item_ok_def)
  have size: "oi_data_size item \<noteq> 0" using False lay by (auto simp: layout_ok_def)
  let ?b = "if ?n \<noteq> 0 then blit (oi_block item) 0 (segment (oi_block item) ?D ?n) else oi_block item"
  let ?i2 = "item\<lparr>oi_block := ?b\<rparr>"
  have n: "?D + ?n \<le> length (oi_block item)" using lay by (simp add: layout_ok_def)
  have r: "(if oi_type item = OBS_DATA_OBJECT \<and> oi_data_size item \<noteq> 0 then
             do { off \<leftarrow> get_item_data item; p \<leftarrow> deref item off; Some (release OBS_DATA_OBJECT p) }
           else if oi_type item = OBS_DATA_ARRAY \<and> oi_data_size item \<noteq> 0 then
             do { off \<leftarrow> get_item_data item; p \<leftarrow> deref item off; Some (release OBS_DATA_ARRAY p) }
           else Some []) = Some (map (Release (oi_type item)) (owned (oi_type item) (iv_user (item_abs item))))"
    using item_data_release_ok [OF ok] size
    by (auto simp: item_data_release_def obs_data_item_has_user_value_def get_item_obj_def get_item_array_def get_ptr_defs)
  have m: "(if ?n \<noteq> 0 then do { ptr \<leftarrow> get_item_data item; move_data item (ptr + ?D) ptr ?n } else Some item) = Some ?i2"
    using move_data_ok [of ?D ?n item 0] n size by (auto simp: get_ptr_defs)
  let ?i3 = "item\<lparr>oi_data_size := 0, oi_data_len := 0, oi_block := ?b\<rparr>"
  have e: "?i2\<lparr>oi_data_size := 0, oi_data_len := 0\<rparr> = ?i3" by simp
  have "clear_item item = Some (?i3, map (Release (oi_type item)) (owned (oi_type item) (iv_user (item_abs item))))"
    by (simp only: clear_item_def False if_False r m Option.bind.simps e)
  then show ?thesis by (rule that) (use drop_user_ok [OF ok refl] in simp_all)
qed

lemma unset_default_ok:
  assumes ok: "item_ok item"
  obtains item' where "obs_data_item_unset_default_value item = Some (item',
      map (Release (oi_type item)) (owned (oi_type item) (iv_default (item_abs item))))"
    "layout_ok item'" "item_abs item' = (item_abs item)\<lparr>iv_default := None\<rparr>" "oi_name item' = oi_name item"
proof (cases "oi_default_size item = 0")
  case True
  then have "item_abs item = (item_abs item)\<lparr>iv_default := None\<rparr>" by (simp add: item_abs_simps)
  then show ?thesis
    using that [of item] ok True by (simp add: obs_data_item_unset_default_value_def item_ok_def owned_def item_abs_simps)
next
  case False
  let ?D = "oi_data_len item" let ?A = "oi_data_len item + oi_default_len item" let ?n = "oi_autoselect_size item"
  have lay: "layout_ok item" using ok by (simp add: item_ok_def)
  let ?b = "if ?n \<noteq> 0 then blit (oi_block item) ?D (segment (oi_block item) ?A ?n) else oi_block item"
  let ?i1 = "item\<lparr>oi_default_size := 0, oi_default_len := 0\<rparr>" let ?i2 = "?i1\<lparr>oi_block := ?b\<rparr>"
  have n: "?A + ?n \<le> length (oi_block item)" "?D + ?n \<le> length (oi_block item)" using lay by (auto simp: layout_ok_def)
  have m: "(if oi_autoselect_size ?i1 \<noteq> 0
      then move_data ?i1 (get_autoselect_data_ptr item) (get_autoselect_data_ptr ?i1) (oi_autoselect_size ?i1) else Some ?i1) = Some ?i2"
    using move_data_ok [of ?A ?n ?i1 ?D] n by (auto simp: get_ptr_defs)
  have "obs_data_item_unset_default_value item = Some (?i2, map (Release (oi_type item)) (owned (oi_type item) (iv_default (item_abs item))))"
    by (simp only: obs_data_item_unset_default_value_def False if_False Let_def item_default_data_release_ok [OF ok] Option.bind.simps m)
  moreover have "layout_ok ?i2" using lay n by (auto simp: layout_ok_def splice_simps)
  moreover have "segment ?b 0 (oi_data_size item) = segment (oi_block item) 0 (oi_data_size item)"
    using segment_blit_disjoint [of ?D "segment (oi_block item) ?A ?n" "oi_block item" 0 "oi_data_size item"] n lay
    by (auto simp: layout_ok_def splice_simps)
  moreover have "segment ?b ?D ?n = segment (oi_block item) ?A ?n" if "?n \<noteq> 0"
    using segment_move [of ?A ?n "oi_block item" ?D 0 ?n] n that by simp
  ultimately show ?thesis by (intro that [of ?i2]) (auto simp: item_abs_simps)
qed

lemma unset_autoselect_ok:
  assumes ok: "item_ok item"
  obtains item' where "obs_data_item_unset_autoselect_value item = Some (item',
      map (Release (oi_type item)) (owned (oi_type item) (iv_auto (item_abs item))))"
    "layout_ok item'" "item_abs item' = (item_abs item)\<lparr>iv_auto := None\<rparr>" "oi_name item' = oi_name item"
proof (cases "oi_autoselect_size item = 0")
  case True
  then have "item_abs item = (item_abs item)\<lparr>iv_auto := None\<rparr>" by (simp add: item_abs_simps)
  then show ?thesis
    using that [of item] ok True by (simp add: obs_data_item_unset_autoselect_value_def item_ok_def owned_def item_abs_simps)
next
  case False
  have "obs_data_item_unset_autoselect_value item = Some (item\<lparr>oi_autoselect_size := 0\<rparr>,
      map (Release (oi_type item)) (owned (oi_type item) (iv_auto (item_abs item))))"
    by (simp only: obs_data_item_unset_autoselect_value_def False if_False item_autoselect_data_release_ok [OF ok] Option.bind.simps)
  then show ?thesis by (rule that) (use ok in \<open>auto simp: item_ok_def layout_ok_def item_abs_simps\<close>)
qed

lemma item_create_ok:
  assumes v: "value_ok ty bs"
  obtains item where "obs_data_item_create name bs ty d a = Some (item, map (Addref ty) (owned ty (Some bs)))" "layout_ok item"
    "item_abs item = \<lparr>iv_type = ty, iv_user = (if d \<or> a then None else Some bs), iv_default = (if d then Some bs else None),
       iv_auto = (if \<not> d \<and> a then Some bs else None)\<rparr>" "oi_name item = name"
proof -
  have ne: "bs \<noteq> []" using v by auto
  let ?s = "length bs"
  let ?item = "\<lparr>oi_type = ty, oi_name = name, oi_name_len = get_name_align_size name, oi_data_len = (if d \<or> a then 0 else ?s),
    oi_data_size = (if d \<or> a then 0 else ?s), oi_default_len = (if d then ?s else 0), oi_default_size = (if d then ?s else 0),
    oi_autoselect_size = (if \<not> d \<and> a then ?s else 0), oi_capacity = get_name_align_size name + ITEM_SIZE + ?s, oi_block = bs\<rparr>"
  have "blit (replicate ?s 0) 0 bs = bs" by (simp add: blit_def)
  moreover have "item_data_addref ?item = Some (map (Addref ty) (owned ty (Some bs)))"
    using item_data_addref_ok [of ?item bs] ne v segment_all [of bs] by (cases d; cases a; simp)
  ultimately have "obs_data_item_create name bs ty d a = Some (?item, map (Addref ty) (owned ty (Some bs)))"
    using ne by (cases d; cases a; simp add: obs_data_item_create_def Let_def get_item_data_def poke_def)
  moreover have "layout_ok ?item" using ne by (simp add: layout_ok_def get_align_size_def)
  ultimately show ?thesis
    by (rule that) (use ne segment_all [of bs] in \<open>auto simp: item_abs_simps\<close>)
qed

lemma destroy_ok:
  assumes "item_ok item"
  shows "obs_data_item_destroy item = Some (map (Release (oi_type item))
    (owned (oi_type item) (iv_user (item_abs item)) @ owned (oi_type item) (iv_default (item_abs item)) @
     owned (oi_type item) (iv_auto (item_abs item))))"
  using item_data_release_ok [OF assms] item_default_data_release_ok [OF assms] item_autoselect_data_release_ok [OF assms]
  by (simp add: obs_data_item_destroy_def)

end
