(* ===== verification/Obs_Data_Layers.thy ===== *)
theory Obs_Data_Layers
  imports Obs_Data_Items "HOL-Library.List_Lexorder" "HOL-Library.Multiset"
begin

text \<open>
  Settings objects refine a map from names to three layers of values: the order of the names, the operations on the list of items,
  the balance of the references, and the properties of sequences of operations.
\<close>

subsection \<open>Names\<close>

lemma strcmp_order: "strcmp xs ys = (if xs = ys then 0 else if xs < ys then - 1 else 1)"
  by (induction xs ys rule: strcmp.induct) auto

lemma strcmp_simps [simp]:
  "strcmp xs ys = 0 \<longleftrightarrow> xs = ys" "strcmp xs ys < 0 \<longleftrightarrow> xs < ys" "0 < strcmp xs ys \<longleftrightarrow> ys < xs"
  by (auto simp: strcmp_order)

definition names_ok :: "obs_data_item list \<Rightarrow> bool" where
  "names_ok items \<longleftrightarrow> sorted_wrt (<) (map oi_name items)"

lemma find_name_Some: "find_name items name = Some item \<Longrightarrow> item \<in> set items \<and> oi_name item = name"
  by (induction items) (auto split: if_splits)

lemma find_name_None: "find_name items name = None \<longleftrightarrow> name \<notin> oi_name ` set items"
  by (induction items) auto

lemma find_name_append: "find_name (xs @ ys) name = (case find_name xs name of None \<Rightarrow> find_name ys name | Some item \<Rightarrow> Some item)"
  by (induction xs) auto

lemma place_loop: "place_loop name items k = k + length (takeWhile (\<lambda>item. \<not> name < oi_name item) items)"
  by (induction items arbitrary: k) auto

lemma insert_item_at:
  assumes "items = first # rest" "place_loop (oi_name new) rest 1 = Suc n"
  shows "insert_item items new =
    (if oi_name (items ! n) < oi_name new then take (Suc n) items @ new # drop (Suc n) items else new # drop n items)"
  using assms by (simp add: insert_item_def)

text \<open>The new item stands between the smaller and the larger names.\<close>

lemma insert_item_split:
  assumes "names_ok items" "name \<notin> oi_name ` set items" "oi_name new = name"
  obtains xs ys where "items = xs @ ys" "insert_item items new = xs @ new # ys"
    "\<forall>item \<in> set xs. oi_name item < name" "\<forall>item \<in> set ys. name < oi_name item"
proof (cases items)
  case Nil
  then show ?thesis using that [of "[]" "[]"] by (simp add: insert_item_def)
next
  case (Cons first rest)
  let ?P = "\<lambda>item. \<not> name < oi_name item"
  let ?a = "takeWhile ?P rest" let ?b = "dropWhile ?P rest"
  have k: "place_loop name rest 1 = Suc (length ?a)" by (simp add: place_loop)
  have sorted: "sorted_wrt (<) (oi_name first # map oi_name rest)" using assms(1) Cons by (simp add: names_ok_def)
  have take: "take (Suc (length ?a)) items = first # ?a" "drop (Suc (length ?a)) items = ?b"
    using Cons by (simp_all add: takeWhile_eq_take [symmetric] dropWhile_eq_drop [symmetric])
  have last: "items ! length ?a = last (first # ?a)"
  proof (cases "?a = []")
    case False
    then have "rest ! (length ?a - 1) = last ?a"
      by (metis last_conv_nth takeWhile_nth diff_less length_greater_0_conv less_numeral_extra(1))
    then show ?thesis using Cons False by (simp add: nth_Cons')
  qed (simp add: Cons)
  have smaller: "oi_name item < name" if "item \<in> set ?a" for item
  proof -
    have "oi_name item \<noteq> name" using assms(2) Cons set_takeWhileD [OF that] by auto
    then show ?thesis using set_takeWhileD [OF that] by auto
  qed
  have larger: "name < oi_name item" if it: "item \<in> set ?b" for item
  proof -
    obtain c cs where b: "?b = c # cs" using it by (cases ?b) (simp_all del: dropWhile_eq_Nil_conv)
    have c: "name < oi_name c" using b hd_dropWhile [of ?P rest] by force
    have "sorted_wrt (<) (map oi_name ?b)" using sorted by (simp add: sorted_wrt_map sorted_wrt_drop dropWhile_eq_drop)
    then show ?thesis using it b c by (auto simp: less_trans)
  qed
  note ins = insert_item_at [OF Cons k [folded assms(3)], unfolded last assms(3)]
  show ?thesis
  proof (cases "oi_name (last (first # ?a)) < name")
    case True
    have "oi_name first < name"
    proof (cases "?a = []")
      case False
      then have "last ?a \<in> set rest" using set_takeWhileD last_in_set by fastforce
      then have "oi_name first < oi_name (last ?a)" using sorted by simp
      then show ?thesis using True False by (simp add: less_trans)
    qed (use True in simp)
    then have "\<forall>item \<in> set (first # ?a). oi_name item < name" using smaller by simp
    moreover have "items = (first # ?a) @ ?b" using Cons by simp
    moreover have "insert_item items new = (first # ?a) @ new # ?b" using ins True take by (simp only: if_True)
    ultimately show ?thesis by (intro that) (use larger in blast)+
  next
    case False
    then have a: "?a = []" using smaller [of "last ?a"] by (cases "?a = []") auto
    then have "name < oi_name first" using False assms(2) Cons by (auto simp: not_less)
    moreover have "oi_name first < oi_name item" if "item \<in> set rest" for item using sorted that by simp
    moreover have "insert_item items new = new # items" using ins False a by simp
    ultimately show ?thesis by (intro that [of "[]" items]) (auto simp: Cons intro: less_trans)
  qed
qed

lemma insert_item_ok:
  assumes "names_ok items" "name \<notin> oi_name ` set items" "oi_name new = name"
  shows "names_ok (insert_item items new)" "set (insert_item items new) = insert new (set items)"
    "find_name (insert_item items new) n = (if n = name then Some new else find_name items n)"
    "sum_list (map f (insert_item items new)) = (f new + sum_list (map f items) :: 'a :: comm_monoid_add)"
proof -
  obtain xs ys where s: "items = xs @ ys" "insert_item items new = xs @ new # ys"
    "\<forall>item \<in> set xs. oi_name item < name" "\<forall>item \<in> set ys. name < oi_name item"
    using insert_item_split [OF assms] .
  show "names_ok (insert_item items new)"
    using assms(1) s assms(3) by (auto simp: names_ok_def sorted_wrt_append)
  show "set (insert_item items new) = insert new (set items)" using s by auto
  show "find_name (insert_item items new) n = (if n = name then Some new else find_name items n)"
    using s assms(3) find_name_None [of xs name] by (auto simp: find_name_append split: option.splits)
  show "sum_list (map f (insert_item items new)) = (f new + sum_list (map f items) :: 'a :: comm_monoid_add)"
    using s by (simp add: add_ac)
qed

subsection \<open>Reference counts\<close>

definition held :: "item_values \<Rightarrow> (obs_data_type \<times> 64 word) multiset" where
  "held iv = mset (map (Pair (iv_type iv)) (owned (iv_type iv) (iv_user iv) @ owned (iv_type iv) (iv_default iv) @ owned (iv_type iv) (iv_auto iv)))"

fun added :: "ref_call list \<Rightarrow> (obs_data_type \<times> 64 word) multiset" where
  "added [] = {#}"
| "added (Addref ty p # calls) = add_mset (ty, p) (added calls)"
| "added (Release ty p # calls) = added calls"

fun released :: "ref_call list \<Rightarrow> (obs_data_type \<times> 64 word) multiset" where
  "released [] = {#}"
| "released (Addref ty p # calls) = released calls"
| "released (Release ty p # calls) = add_mset (ty, p) (released calls)"

lemma added_append [simp]: "added (xs @ ys) = added xs + added ys"
  by (induction xs rule: added.induct) auto

lemma released_append [simp]: "released (xs @ ys) = released xs + released ys"
  by (induction xs rule: released.induct) auto

lemma calls_map [simp]:
  "added (map (Addref ty) ps) = mset (map (Pair ty) ps)" "added (map (Release ty) ps) = {#}"
  "released (map (Release ty) ps) = mset (map (Pair ty) ps)" "released (map (Addref ty) ps) = {#}"
  by (induction ps) auto

lemma owned_None [simp]: "owned ty None = []"
  by (simp add: owned_def)

definition data_refs :: "obs_data_item list \<Rightarrow> (obs_data_type \<times> 64 word) multiset" where
  "data_refs items = (\<Sum>item\<leftarrow>items. held (item_abs item))"

subsection \<open>What an object promises\<close>

definition items_ok :: "obs_data_item list \<Rightarrow> bool" where
  "items_ok items \<longleftrightarrow> names_ok items \<and> (\<forall>item \<in> set items. item_ok item)"

definition data_abs :: "obs_data_item list \<Rightarrow> byte list \<Rightarrow> item_values option" where
  "data_abs items name = map_option item_abs (find_name items name)"

text \<open>An operation on one item that changes its values by \<open>g\<close> and counts the references rightly.\<close>

definition item_op :: "(obs_data_item \<Rightarrow> (obs_data_item \<times> ref_call list) option) \<Rightarrow> (item_values \<Rightarrow> item_values) \<Rightarrow> obs_data_item \<Rightarrow> bool" where
  "item_op f g item \<longleftrightarrow> (\<exists>item' calls. f item = Some (item', calls) \<and> item_ok item' \<and> oi_name item' = oi_name item \<and>
     item_abs item' = g (item_abs item) \<and> held (item_abs item') + released calls = held (item_abs item) + added calls)"

lemma update_item_ok:
  assumes "items_ok items" and "\<And>item. find_name items name = Some item \<Longrightarrow> item_op f g item"
  shows "\<exists>items' calls. update_item f items name = Some (items', calls) \<and> items_ok items' \<and> map oi_name items' = map oi_name items \<and>
    data_abs items' = (case data_abs items name of None \<Rightarrow> data_abs items | Some iv \<Rightarrow> (data_abs items)(name \<mapsto> g iv)) \<and>
    data_refs items' + released calls = data_refs items + added calls"
  using assms
proof (induction items)
  case Nil
  then show ?case by (simp add: data_abs_def)
next
  case (Cons item items)
  have ok: "items_ok items" "item_ok item" "\<forall>n \<in> oi_name ` set items. oi_name item < n"
    using Cons.prems(1) by (auto simp: items_ok_def names_ok_def)
  show ?case
  proof (cases "oi_name item = name")
    case True
    obtain item' calls where f: "f item = Some (item', calls)" "item_ok item'" "oi_name item' = oi_name item"
      "item_abs item' = g (item_abs item)" "held (item_abs item') + released calls = held (item_abs item) + added calls"
      using Cons.prems(2) [of item] True by (auto simp: item_op_def)
    have "items_ok (item' # items)" using ok f(2,3) Cons.prems(1) by (simp add: items_ok_def names_ok_def)
    moreover have "data_abs (item' # items) = (data_abs (item # items))(name \<mapsto> g (item_abs item))"
      using True f(3,4) by (auto simp: data_abs_def fun_eq_iff)
    ultimately show ?thesis
      using True f by (auto simp: data_refs_def data_abs_def add_ac)
  next
    case False
    then obtain items' calls where u: "update_item f items name = Some (items', calls)" "items_ok items'" "map oi_name items' = map oi_name items"
      "data_abs items' = (case data_abs items name of None \<Rightarrow> data_abs items | Some iv \<Rightarrow> (data_abs items)(name \<mapsto> g iv))"
      "data_refs items' + released calls = data_refs items + added calls"
      using Cons.IH [OF ok(1)] Cons.prems(2) by auto
    have "items_ok (item # items')" using u(2,3) Cons.prems(1) by (simp add: items_ok_def names_ok_def)
    moreover have "data_abs (item # items') = (case data_abs (item # items) name of None \<Rightarrow> data_abs (item # items)
        | Some iv \<Rightarrow> (data_abs (item # items))(name \<mapsto> g iv))"
      using False u(4) by (auto simp: data_abs_def fun_eq_iff split: option.splits)
    ultimately show ?thesis using False u by (auto simp: data_refs_def add_ac)
  qed
qed


text \<open>Every operation on an item whose type stays the same is such an operation.\<close>

lemma item_opI:
  assumes "item_ok item" "f item = Some (item', calls)" "layout_ok item'" "oi_name item' = oi_name item" "item_abs item' = g (item_abs item)"
    "values_ok (g (item_abs item))" "held (g (item_abs item)) + released calls = held (item_abs item) + added calls"
  shows "item_op f g item"
  using assms by (auto simp: item_op_def item_ok_def)

lemma iv_type_abs [simp]: "iv_type (item_abs item) = oi_type item"
  by (simp add: item_abs_def)

lemma values_okD: "item_ok item \<Longrightarrow> values_ok (item_abs item)"
  by (simp add: item_ok_def)

lemma setdata_item_op:
  assumes "item_ok item" "value_ok ty bs" "oi_type item = ty"
  shows "item_op (\<lambda>item. obs_data_item_setdata fresh item bs ty) (\<lambda>iv. iv\<lparr>iv_user := Some bs\<rparr>) item"
proof -
  have t: "(item_abs item)\<lparr>iv_type := ty, iv_user := Some bs\<rparr> = (item_abs item)\<lparr>iv_user := Some bs\<rparr>"
    using assms(3) by (simp add: item_abs_def)
  show ?thesis
    by (rule setdata_ok [OF assms(1,2), of fresh], rule item_opI [OF assms(1)], assumption, assumption, assumption)
      (use assms values_okD [OF assms(1)] in \<open>auto simp: t values_ok_def held_def add_ac\<close>)
qed

lemma set_default_item_op:
  assumes "item_ok item" "value_ok ty bs" "oi_type item = ty" "oi_data_size item \<noteq> 0"
  shows "item_op (\<lambda>item. obs_data_item_set_default_data fresh item bs ty) (\<lambda>iv. iv\<lparr>iv_default := Some bs\<rparr>) item"
proof -
  have t: "(item_abs item)\<lparr>iv_type := ty, iv_default := Some bs\<rparr> = (item_abs item)\<lparr>iv_default := Some bs\<rparr>"
    using assms(3) by (simp add: item_abs_def)
  show ?thesis
    by (rule set_default_ok [OF assms(1,2), of fresh], rule item_opI [OF assms(1)], assumption, assumption, assumption)
      (use assms values_okD [OF assms(1)] in \<open>auto simp: t values_ok_def held_def add_ac\<close>)
qed

lemma set_autoselect_item_op:
  assumes "item_ok item" "value_ok ty bs" "oi_type item = ty"
  shows "item_op (\<lambda>item. obs_data_item_set_autoselect_data fresh item bs ty) (\<lambda>iv. iv\<lparr>iv_auto := Some bs\<rparr>) item"
proof -
  have t: "(item_abs item)\<lparr>iv_type := ty, iv_auto := Some bs\<rparr> = (item_abs item)\<lparr>iv_auto := Some bs\<rparr>"
    using assms(3) by (simp add: item_abs_def)
  show ?thesis
    by (rule set_autoselect_ok [OF assms(1,2), of fresh], rule item_opI [OF assms(1)], assumption, assumption, assumption)
      (use assms values_okD [OF assms(1)] in \<open>auto simp: t values_ok_def held_def add_ac\<close>)
qed

lemma unset_user_item_op:
  assumes ok: "item_ok item"
  shows "item_op obs_data_item_unset_user_value (\<lambda>iv. iv\<lparr>iv_user := None\<rparr>) item"
  by (rule unset_user_ok [OF ok], rule item_opI [OF ok], assumption, assumption, assumption)
    (use values_okD [OF ok] in \<open>auto simp: values_ok_def held_def add_ac\<close>)

lemma clear_item_op:
  assumes ok: "item_ok item"
  shows "item_op clear_item (\<lambda>iv. iv\<lparr>iv_user := None\<rparr>) item"
  by (rule clear_item_ok [OF ok], rule item_opI [OF ok], assumption, assumption, assumption)
    (use values_okD [OF ok] in \<open>auto simp: values_ok_def held_def add_ac\<close>)

lemma unset_default_item_op:
  assumes ok: "item_ok item"
  shows "item_op obs_data_item_unset_default_value (\<lambda>iv. iv\<lparr>iv_default := None\<rparr>) item"
  by (rule unset_default_ok [OF ok], rule item_opI [OF ok], assumption, assumption, assumption)
    (use values_okD [OF ok] in \<open>auto simp: values_ok_def held_def add_ac\<close>)

lemma unset_autoselect_item_op:
  assumes ok: "item_ok item"
  shows "item_op obs_data_item_unset_autoselect_value (\<lambda>iv. iv\<lparr>iv_auto := None\<rparr>) item"
  by (rule unset_autoselect_ok [OF ok], rule item_opI [OF ok], assumption, assumption, assumption)
    (use values_okD [OF ok] in \<open>auto simp: values_ok_def held_def add_ac\<close>)

subsection \<open>Sequences of operations\<close>

datatype data_op =
    SetUser "byte list" obs_data_type "byte list"
  | SetDefault "byte list" obs_data_type "byte list"
  | SetAuto "byte list" obs_data_type "byte list"
  | UnsetUser "byte list" | UnsetDefault "byte list" | UnsetAuto "byte list" | Erase "byte list" | Clear

fun apply_data_op :: "(nat \<Rightarrow> byte) \<Rightarrow> data_op \<Rightarrow> obs_data \<Rightarrow> (obs_data \<times> ref_call list) option" where
  "apply_data_op fresh (SetUser name ty bs) data = set_item fresh data name bs ty"
| "apply_data_op fresh (SetDefault name ty bs) data = set_item_def fresh data name bs ty"
| "apply_data_op fresh (SetAuto name ty bs) data = set_item_auto fresh data name bs ty"
| "apply_data_op fresh (UnsetUser name) data = obs_data_unset_user_value data name"
| "apply_data_op fresh (UnsetDefault name) data = obs_data_unset_default_value data name"
| "apply_data_op fresh (UnsetAuto name) data = obs_data_unset_autoselect_value data name"
| "apply_data_op fresh (Erase name) data = obs_data_erase data name"
| "apply_data_op fresh Clear data = obs_data_clear data"

fun apply_data_ops :: "(nat \<Rightarrow> byte) \<Rightarrow> data_op list \<Rightarrow> obs_data \<Rightarrow> (obs_data \<times> ref_call list) option" where
  "apply_data_ops fresh [] data = Some (data, [])"
| "apply_data_ops fresh (op # ops) data = do {
     (data, a) \<leftarrow> apply_data_op fresh op data;
     (data, b) \<leftarrow> apply_data_ops fresh ops data;
     Some (data, a @ b) }"

text \<open>The same operations on a map from names to values. A default is only taken for a name that has no value yet.\<close>

type_synonym data_map = "byte list \<Rightarrow> item_values option"

definition no_values :: "obs_data_type \<Rightarrow> item_values" where
  "no_values ty = \<lparr>iv_type = ty, iv_user = None, iv_default = None, iv_auto = None\<rparr>"

definition map_values :: "(item_values \<Rightarrow> item_values) \<Rightarrow> byte list \<Rightarrow> data_map \<Rightarrow> data_map" where
  "map_values g name m = (case m name of None \<Rightarrow> m | Some iv \<Rightarrow> m(name \<mapsto> g iv))"

fun data_spec :: "data_op \<Rightarrow> data_map \<Rightarrow> data_map" where
  "data_spec (SetUser name ty bs) m = m(name \<mapsto> (case m name of None \<Rightarrow> no_values ty | Some iv \<Rightarrow> iv)\<lparr>iv_user := Some bs\<rparr>)"
| "data_spec (SetDefault name ty bs) m = (case m name of None \<Rightarrow> m(name \<mapsto> (no_values ty)\<lparr>iv_default := Some bs\<rparr>) | Some iv \<Rightarrow> m)"
| "data_spec (SetAuto name ty bs) m = m(name \<mapsto> (case m name of None \<Rightarrow> no_values ty | Some iv \<Rightarrow> iv)\<lparr>iv_auto := Some bs\<rparr>)"
| "data_spec (UnsetUser name) m = map_values (\<lambda>iv. iv\<lparr>iv_user := None\<rparr>) name m"
| "data_spec (UnsetDefault name) m = map_values (\<lambda>iv. iv\<lparr>iv_default := None\<rparr>) name m"
| "data_spec (UnsetAuto name) m = map_values (\<lambda>iv. iv\<lparr>iv_auto := None\<rparr>) name m"
| "data_spec (Erase name) m = m(name := None)"
| "data_spec Clear m = (\<lambda>name. map_option (\<lambda>iv. iv\<lparr>iv_user := None\<rparr>) (m name))"

text \<open>Each name is used with one type.\<close>

fun op_typed :: "(byte list \<Rightarrow> obs_data_type) \<Rightarrow> data_op \<Rightarrow> bool" where
  "op_typed type_of (SetUser name ty bs) \<longleftrightarrow> type_of name = ty \<and> value_ok ty bs"
| "op_typed type_of (SetDefault name ty bs) \<longleftrightarrow> type_of name = ty \<and> value_ok ty bs"
| "op_typed type_of (SetAuto name ty bs) \<longleftrightarrow> type_of name = ty \<and> value_ok ty bs"
| "op_typed type_of op \<longleftrightarrow> True"

definition data_ok :: "(byte list \<Rightarrow> obs_data_type) \<Rightarrow> obs_data_item list \<Rightarrow> bool" where
  "data_ok type_of items \<longleftrightarrow> items_ok items \<and> (\<forall>item \<in> set items. oi_type item = type_of (oi_name item))"

lemma find_name_ok: "items_ok items \<Longrightarrow> find_name items name = Some item \<Longrightarrow> item_ok item"
  using find_name_Some by (auto simp: items_ok_def)

lemma data_typed: "items_ok items \<Longrightarrow> (\<forall>item \<in> set items. oi_type item = type_of (oi_name item)) \<longleftrightarrow>
    (\<forall>name iv. data_abs items name = Some iv \<longrightarrow> iv_type iv = type_of name)"
proof (intro iffI allI impI ballI)
  fix item assume ok: "items_ok items" and a: "\<forall>name iv. data_abs items name = Some iv \<longrightarrow> iv_type iv = type_of name" and i: "item \<in> set items"
  have "find_name items (oi_name item) = Some item"
    using ok i by (induction items) (auto simp: items_ok_def names_ok_def)
  then show "oi_type item = type_of (oi_name item)" using a [rule_format, of "oi_name item"] by (simp add: data_abs_def)
qed (use find_name_Some in \<open>fastforce simp: data_abs_def\<close>)

lemma on_item_ok:
  assumes "data_ok type_of (od_items data)" "\<And>item. find_name (od_items data) name = Some item \<Longrightarrow> item_op f g item"
    and "\<And>iv. iv_type (g iv) = iv_type iv"
  shows "\<exists>data' calls. on_item f data name = Some (data', calls) \<and> data_ok type_of (od_items data') \<and>
    data_abs (od_items data') = map_values g name (data_abs (od_items data)) \<and>
    data_refs (od_items data') + released calls = data_refs (od_items data) + added calls"
proof -
  obtain items' calls where u: "update_item f (od_items data) name = Some (items', calls)" "items_ok items'"
    "data_abs items' = map_values g name (data_abs (od_items data))"
    "data_refs items' + released calls = data_refs (od_items data) + added calls"
    using update_item_ok [of "od_items data" name f g] assms(1,2) by (auto simp: data_ok_def map_values_def)
  have "data_ok type_of items'"
    using assms(1,3) u(2,3) by (auto simp: data_ok_def data_typed map_values_def split: option.splits)
  then show ?thesis using u by (simp add: on_item_def)
qed


lemma balance_add:
  fixes a :: "'m multiset"
  assumes "a + r = b + s" "a' + r' = b' + s'"
  shows "a + a' + (r + r') = b + b' + (s + s')"
proof -
  have "a + a' + (r + r') = (a + r) + (a' + r')" by (simp add: add_ac)
  also have "\<dots> = b + b' + (s + s')" unfolding assms by (simp add: add_ac)
  finally show ?thesis .
qed

lemma balance_trans:
  fixes a :: "'m multiset"
  assumes "b + r = a + s" "c + r' = b + s'"
  shows "c + (r + r') = a + (s + s')"
proof -
  have "c + (r + r') = (c + r') + r" by (simp add: add_ac)
  also have "\<dots> = (b + r) + s'" unfolding assms(2) by (simp add: add_ac)
  also have "\<dots> = a + (s + s')" unfolding assms(1) by (simp add: add_ac)
  finally show ?thesis .
qed

text \<open>What an operation on an object has to do.\<close>

definition data_op_ok :: "(byte list \<Rightarrow> obs_data_type) \<Rightarrow> (obs_data \<times> ref_call list) option \<Rightarrow> data_map \<Rightarrow> obs_data \<Rightarrow> bool" where
  "data_op_ok type_of r m data \<longleftrightarrow> (\<exists>data' calls. r = Some (data', calls) \<and> data_ok type_of (od_items data') \<and>
     data_abs (od_items data') = m \<and> data_refs (od_items data') + released calls = data_refs (od_items data) + added calls)"

lemma create_op_ok:
  assumes ok: "data_ok type_of (od_items data)" and v: "value_ok ty bs" "type_of name = ty"
    and fresh_name: "get_item (Some data) name = None"
  shows "data_op_ok type_of (set_item_data fresh data name bs ty d a)
    ((data_abs (od_items data))(name \<mapsto> \<lparr>iv_type = ty, iv_user = (if d \<or> a then None else Some bs), iv_default = (if d then Some bs else None),
       iv_auto = (if \<not> d \<and> a then Some bs else None)\<rparr>)) data"
proof -
  obtain item where c: "obs_data_item_create name bs ty d a = Some (item, map (Addref ty) (owned ty (Some bs)))" "layout_ok item"
    "item_abs item = \<lparr>iv_type = ty, iv_user = (if d \<or> a then None else Some bs), iv_default = (if d then Some bs else None),
       iv_auto = (if \<not> d \<and> a then Some bs else None)\<rparr>" "oi_name item = name"
    by (rule item_create_ok [OF v(1)])
  have n: "names_ok (od_items data)" "name \<notin> oi_name ` set (od_items data)"
    using ok fresh_name by (simp_all add: data_ok_def items_ok_def get_item_def find_name_None)
  note i = insert_item_ok [OF n c(4)]
  have item: "item_ok item" "oi_type item = ty"
    using c(2,3) v by (auto simp: item_ok_def values_ok_def simp flip: iv_type_abs)
  have "data_ok type_of (insert_item (od_items data) item)"
    using ok i(1,2) item v(2) c(4) by (auto simp: data_ok_def items_ok_def)
  moreover have "held (item_abs item) = mset (map (Pair ty) (owned ty (Some bs)))" by (simp add: c(3) held_def)
  ultimately show ?thesis
    using i(3) i(4) [of "\<lambda>item. held (item_abs item)"] c(1,3) fresh_name
    by (auto simp: data_op_ok_def set_item_data_def data_refs_def data_abs_def fun_eq_iff)
qed

lemma data_abs_get: "data_abs (od_items data) name = map_option item_abs (get_item (Some data) name)"
  by (simp add: data_abs_def get_item_def)

lemma typed_get:
  assumes "data_ok type_of (od_items data)" "get_item (Some data) name = Some item"
  shows "item_ok item" "oi_type item = type_of name"
  using assms find_name_ok find_name_Some [of "od_items data" name item] by (auto simp: data_ok_def get_item_def)

lemma on_item_op_ok:
  assumes "data_ok type_of (od_items data)" "\<And>item. get_item (Some data) name = Some item \<Longrightarrow> item_op f g item"
    "\<And>iv. iv_type (g iv) = iv_type iv"
  shows "data_op_ok type_of (on_item f data name) (map_values g name (data_abs (od_items data))) data"
  using on_item_ok [OF assms(1) _ assms(3)] assms(2) by (simp add: data_op_ok_def get_item_def)

lemma set_user_op_ok:
  assumes "data_ok type_of (od_items data)" "value_ok ty bs" "type_of name = ty"
  shows "data_op_ok type_of (set_item fresh data name bs ty) (data_spec (SetUser name ty bs) (data_abs (od_items data))) data"
proof (cases "get_item (Some data) name")
  case None
  then show ?thesis
    using create_op_ok [OF assms None, of fresh False False] by (simp add: set_item_def data_abs_get no_values_def)
next
  case (Some item)
  then show ?thesis
    using on_item_op_ok [OF assms(1), of name "\<lambda>item. obs_data_item_setdata fresh item bs ty" "\<lambda>iv. iv\<lparr>iv_user := Some bs\<rparr>"]
      setdata_item_op [OF typed_get(1) [OF assms(1) Some] assms(2)] typed_get(2) [OF assms(1) Some] assms(3)
    by (simp add: set_item_def set_item_data_def map_values_def data_abs_get)
qed

lemma set_auto_op_ok:
  assumes "data_ok type_of (od_items data)" "value_ok ty bs" "type_of name = ty"
  shows "data_op_ok type_of (set_item_auto fresh data name bs ty) (data_spec (SetAuto name ty bs) (data_abs (od_items data))) data"
proof (cases "get_item (Some data) name")
  case None
  then show ?thesis
    using create_op_ok [OF assms None, of fresh False True] by (simp add: set_item_auto_def data_abs_get no_values_def)
next
  case (Some item)
  then show ?thesis
    using on_item_op_ok [OF assms(1), of name "\<lambda>item. obs_data_item_set_autoselect_data fresh item bs ty" "\<lambda>iv. iv\<lparr>iv_auto := Some bs\<rparr>"]
      set_autoselect_item_op [OF typed_get(1) [OF assms(1) Some] assms(2)] typed_get(2) [OF assms(1) Some] assms(3)
    by (simp add: set_item_auto_def set_item_data_def map_values_def data_abs_get)
qed

lemma set_default_op_ok:
  assumes "data_ok type_of (od_items data)" "value_ok ty bs" "type_of name = ty"
  shows "data_op_ok type_of (set_item_def fresh data name bs ty) (data_spec (SetDefault name ty bs) (data_abs (od_items data))) data"
proof (cases "get_item (Some data) name")
  case None
  then show ?thesis
    using create_op_ok [OF assms None, of fresh True False] by (simp add: set_item_def_def data_abs_get no_values_def)
next
  case (Some item)
  then show ?thesis
    using assms typed_get(2) [OF assms(1) Some] by (simp add: set_item_def_def data_abs_get data_op_ok_def)
qed

lemma erase_op_ok:
  assumes "data_ok type_of (od_items data)"
  shows "data_op_ok type_of (obs_data_erase data name) (data_spec (Erase name) (data_abs (od_items data))) data"
proof -
  have "\<exists>items' calls. erase_name items name = Some (items', calls) \<and> data_ok type_of items' \<and> set items' \<subseteq> set items \<and>
      data_abs items' = (data_abs items)(name := None) \<and> data_refs items' + released calls = data_refs items + added calls"
    if "data_ok type_of items" for items
    using that
  proof (induction items)
    case (Cons item items)
    have ok: "data_ok type_of items" "item_ok item" "\<forall>n \<in> oi_name ` set items. oi_name item < n"
      using Cons.prems by (auto simp: data_ok_def items_ok_def names_ok_def)
    show ?case
    proof (cases "oi_name item = name")
      case True
      then have "data_abs items name = None" using ok(3) by (auto simp: data_abs_def find_name_None)
      then have "data_abs items = (data_abs (item # items))(name := None)" using True by (auto simp: data_abs_def)
      then show ?thesis
        using True ok destroy_ok [OF ok(2)] by (auto simp: data_refs_def held_def add_ac simp flip: map_append)
    next
      case False
      obtain items' calls where e: "erase_name items name = Some (items', calls)" "data_ok type_of items'" "set items' \<subseteq> set items"
        "data_abs items' = (data_abs items)(name := None)" "data_refs items' + released calls = data_refs items + added calls"
        using Cons.IH [OF ok(1)] by blast
      have "data_ok type_of (item # items')"
        using e(2,3) Cons.prems by (auto simp: data_ok_def items_ok_def names_ok_def)
      moreover have "data_abs (item # items') = (data_abs (item # items))(name := None)"
        using e(4) False by (auto simp: data_abs_def fun_eq_iff)
      ultimately show ?thesis using False e by (auto simp: data_refs_def add_ac)
    qed
  qed (simp add: data_abs_def fun_eq_iff)
  from this [OF assms] show ?thesis by (auto simp: data_op_ok_def obs_data_erase_def)
qed

lemma clear_op_ok:
  assumes "data_ok type_of (od_items data)"
  shows "data_op_ok type_of (obs_data_clear data) (data_spec Clear (data_abs (od_items data))) data"
proof -
  have "\<exists>items' calls. clear_items items = Some (items', calls) \<and> data_ok type_of items' \<and> map oi_name items' = map oi_name items \<and>
      data_abs items' = data_spec Clear (data_abs items) \<and> data_refs items' + released calls = data_refs items + added calls"
    if "data_ok type_of items" for items
    using that
  proof (induction items)
    case (Cons item items)
    have ok: "data_ok type_of items" "item_ok item" using Cons.prems by (auto simp: data_ok_def items_ok_def names_ok_def)
    obtain items' calls where e: "clear_items items = Some (items', calls)" "data_ok type_of items'" "map oi_name items' = map oi_name items"
      "data_abs items' = data_spec Clear (data_abs items)" "data_refs items' + released calls = data_refs items + added calls"
      using Cons.IH [OF ok(1)] by blast
    obtain item' c where i: "clear_item item = Some (item', c)" "item_ok item'" "oi_name item' = oi_name item"
      "item_abs item' = (item_abs item)\<lparr>iv_user := None\<rparr>" "held (item_abs item') + released c = held (item_abs item) + added c"
      using clear_item_op [OF ok(2)] by (auto simp: item_op_def)
    have "oi_type item' = oi_type item" using arg_cong [OF i(4), of iv_type] by simp
    then have "data_ok type_of (item' # items')"
      using e(2,3) i(2,3) Cons.prems by (simp add: data_ok_def items_ok_def names_ok_def)
    moreover have "data_abs (item' # items') = data_spec Clear (data_abs (item # items))"
      using e(4) i(3,4) by (auto simp: data_abs_def fun_eq_iff)
    moreover have "data_refs (item' # items') + (released c + released calls) = data_refs (item # items) + (added c + added calls)"
      using balance_add [OF i(5) e(5)] by (simp add: data_refs_def)
    ultimately show ?case using e(1,3) i(1,3) by simp
  qed (simp add: data_abs_def fun_eq_iff)
  from this [OF assms] show ?thesis by (auto simp: data_op_ok_def obs_data_clear_def)
qed

lemma apply_data_op_ok:
  assumes "data_ok type_of (od_items data)" "op_typed type_of op"
  shows "data_op_ok type_of (apply_data_op fresh op data) (data_spec op (data_abs (od_items data))) data"
  using assms
  by (cases op)
    (simp_all add: set_user_op_ok set_default_op_ok set_auto_op_ok erase_op_ok clear_op_ok on_item_op_ok typed_get
      unset_user_item_op unset_default_item_op unset_autoselect_item_op obs_data_unset_user_value_def
      obs_data_unset_default_value_def obs_data_unset_autoselect_value_def del: data_spec.simps(1-3,7,8))

lemma apply_data_ops_ok:
  assumes "data_ok type_of (od_items data)" "list_all (op_typed type_of) ops"
  shows "data_op_ok type_of (apply_data_ops fresh ops data) (fold data_spec ops (data_abs (od_items data))) data"
  using assms
proof (induction ops arbitrary: data)
  case (Cons op ops)
  obtain data1 c1 where s1: "apply_data_op fresh op data = Some (data1, c1)" "data_ok type_of (od_items data1)"
    "data_abs (od_items data1) = data_spec op (data_abs (od_items data))"
    "data_refs (od_items data1) + released c1 = data_refs (od_items data) + added c1"
    using apply_data_op_ok [OF Cons.prems(1), of op fresh] Cons.prems(2) by (auto simp: data_op_ok_def)
  obtain data2 c2 where s2: "apply_data_ops fresh ops data1 = Some (data2, c2)" "data_ok type_of (od_items data2)"
    "data_abs (od_items data2) = fold data_spec ops (data_abs (od_items data1))"
    "data_refs (od_items data2) + released c2 = data_refs (od_items data1) + added c2"
    using Cons.IH [OF s1(2)] Cons.prems(2) by (auto simp: data_op_ok_def)
  have "data_refs (od_items data2) + (released c1 + released c2) = data_refs (od_items data) + (added c1 + added c2)"
    by (rule balance_trans [OF s1(4) s2(4)])
  then show ?case using s1 s2 by (auto simp: data_op_ok_def)
qed (simp add: data_op_ok_def)


subsection \<open>Reading\<close>

definition first_value :: "item_values \<Rightarrow> byte list option" where
  "first_value iv = (case iv_user iv of Some bs \<Rightarrow> Some bs | None \<Rightarrow> (case iv_default iv of Some bs \<Rightarrow> Some bs | None \<Rightarrow> iv_auto iv))"

text \<open>Reading at the start of the block gives the first value there is; the others are read at their places.\<close>

lemma first_value_at:
  assumes "item_ok item"
  shows "first_value (item_abs item) = (case get_item_data item of
    None \<Rightarrow> None | Some off \<Rightarrow> Some (segment (oi_block item) off
      (if oi_data_size item \<noteq> 0 then oi_data_size item else if oi_default_size item \<noteq> 0 then oi_default_size item else oi_autoselect_size item)))"
  using assms by (auto simp: first_value_def item_abs_simps get_item_data_def item_ok_def layout_ok_def)

lemma default_value_at: "iv_default (item_abs item) = (case get_item_default_data item of
    None \<Rightarrow> None | Some off \<Rightarrow> Some (segment (oi_block item) off (oi_default_size item)))"
  by (auto simp: item_abs_simps get_ptr_defs)

lemma auto_value_at: "iv_auto (item_abs item) = (case get_item_autoselect_data item of
    None \<Rightarrow> None | Some off \<Rightarrow> Some (segment (oi_block item) off (oi_autoselect_size item)))"
  by (auto simp: item_abs_simps get_ptr_defs)

text \<open>A getter of a place reads a value of the item, whichever it is.\<close>

definition reads :: "(obs_data_item \<Rightarrow> nat option) \<Rightarrow> (item_values \<Rightarrow> byte list option) \<Rightarrow> bool" where
  "reads get_data layer \<longleftrightarrow> (\<forall>item. item_ok item \<longrightarrow> (\<exists>n. layer (item_abs item) =
     map_option (\<lambda>off. segment (oi_block item) off n) (get_data item) \<and>
     (\<forall>off. get_data item = Some off \<longrightarrow> off + n \<le> length (oi_block item) \<and> value_ok (oi_type item) (segment (oi_block item) off n))))"

lemma reads_first: "reads get_item_data first_value"
  unfolding reads_def
proof (intro allI impI)
  fix item assume ok: "item_ok item"
  let ?n = "if oi_data_size item \<noteq> 0 then oi_data_size item else if oi_default_size item \<noteq> 0 then oi_default_size item else oi_autoselect_size item"
  have "value_ok (oi_type item) (segment (oi_block item) off ?n)" "off + ?n \<le> length (oi_block item)" if "get_item_data item = Some off" for off
    using value_at_ok [OF ok] ok that by (auto simp: get_item_data_def item_ok_def layout_ok_def split: if_splits)
  then show "\<exists>n. first_value (item_abs item) = map_option (\<lambda>off. segment (oi_block item) off n) (get_item_data item) \<and>
     (\<forall>off. get_item_data item = Some off \<longrightarrow> off + n \<le> length (oi_block item) \<and> value_ok (oi_type item) (segment (oi_block item) off n))"
    by (intro exI [of _ ?n]) (auto simp: first_value_at [OF ok] split: option.splits)
qed

lemma reads_default: "reads get_item_default_data iv_default"
  unfolding reads_def
proof (intro allI impI)
  fix item assume ok: "item_ok item"
  show "\<exists>n. iv_default (item_abs item) = map_option (\<lambda>off. segment (oi_block item) off n) (get_item_default_data item) \<and>
     (\<forall>off. get_item_default_data item = Some off \<longrightarrow> off + n \<le> length (oi_block item) \<and> value_ok (oi_type item) (segment (oi_block item) off n))"
    using value_at_ok(2) [OF ok] ok
    by (intro exI [of _ "oi_default_size item"]) (auto simp: default_value_at get_ptr_defs item_ok_def layout_ok_def)
qed

lemma reads_auto: "reads get_item_autoselect_data iv_auto"
  unfolding reads_def
proof (intro allI impI)
  fix item assume ok: "item_ok item"
  show "\<exists>n. iv_auto (item_abs item) = map_option (\<lambda>off. segment (oi_block item) off n) (get_item_autoselect_data item) \<and>
     (\<forall>off. get_item_autoselect_data item = Some off \<longrightarrow> off + n \<le> length (oi_block item) \<and> value_ok (oi_type item) (segment (oi_block item) off n))"
    using value_at_ok(3) [OF ok] ok
    by (intro exI [of _ "oi_autoselect_size item"]) (auto simp: auto_value_at get_ptr_defs item_ok_def layout_ok_def)
qed

text \<open>The value of a name in a layer, when the name has the type asked for.\<close>

definition layer_value :: "data_map \<Rightarrow> byte list \<Rightarrow> obs_data_type \<Rightarrow> (item_values \<Rightarrow> byte list option) \<Rightarrow> byte list option" where
  "layer_value m name ty layer = (case m name of None \<Rightarrow> None | Some iv \<Rightarrow> if iv_type iv = ty then layer iv else None)"

definition as_number :: "byte list \<Rightarrow> nat \<times> 64 word" where
  "as_number bs = (le_val (take 4 bs), word_of_nat (le_val (drop 8 bs)))"

lemma c_string_segment:
  assumes "c_string (segment b off n) = Some s"
  shows "c_string (drop off b) = Some s"
proof -
  obtain rest where "segment b off n = s @ 0 # rest" "0 \<notin> set s" using assms by (auto simp: c_string_Some)
  moreover have "drop off b = segment b off n @ drop n (drop off b)" unfolding segment_def by (rule append_take_drop_id [symmetric])
  ultimately show ?thesis by simp
qed

text \<open>The item behind a getter: none of the type asked for, one without the value, or one with it.\<close>

lemma getter_cases:
  assumes ok: "items_ok (od_items data)" and r: "reads get_data layer"
  obtains (no_item) "item_valid (get_item (Some data) name) ty = None" "layer_value (data_abs (od_items data)) name ty layer = None"
  | (no_value) item where "item_valid (get_item (Some data) name) ty = Some item" "get_data item = None"
      "layer_value (data_abs (od_items data)) name ty layer = None"
  | (has_value) item off n where "item_valid (get_item (Some data) name) ty = Some item" "get_data item = Some off"
      "layer_value (data_abs (od_items data)) name ty layer = Some (segment (oi_block item) off n)"
      "off + n \<le> length (oi_block item)" "value_ok ty (segment (oi_block item) off n)"
proof (cases "item_valid (get_item (Some data) name) ty")
  case None
  then show ?thesis
    by (intro no_item) (auto simp: item_valid_def layer_value_def data_abs_get split: option.splits if_splits)
next
  case (Some item)
  then have i: "get_item (Some data) name = Some item" "oi_type item = ty" by (auto simp: item_valid_def split: option.splits if_splits)
  then have "item_ok item" using find_name_ok [OF ok] by (simp add: get_item_def)
  then obtain n where n: "layer (item_abs item) = map_option (\<lambda>off. segment (oi_block item) off n) (get_data item)"
     "\<And>off. get_data item = Some off \<Longrightarrow> off + n \<le> length (oi_block item) \<and> value_ok ty (segment (oi_block item) off n)"
    using r i(2) unfolding reads_def by blast
  have l: "layer_value (data_abs (od_items data)) name ty layer = layer (item_abs item)"
    using i by (simp add: layer_value_def data_abs_get)
  show ?thesis
  proof (cases "get_data item")
    case None
    then show ?thesis using no_value [OF Some] l n(1) by simp
  next
    case (Some off)
    then show ?thesis using has_value [OF \<open>item_valid (get_item (Some data) name) ty = Some item\<close>] l n by simp
  qed
qed

lemma get_string_layer:
  assumes "items_ok (od_items data)" "reads get_data layer"
  shows "data_item_get_string (get_item (Some data) name) get_data =
    (case layer_value (data_abs (od_items data)) name OBS_DATA_STRING layer of None \<Rightarrow> Some [] | Some bs \<Rightarrow> c_string bs)"
proof (rule getter_cases [OF assms, of name OBS_DATA_STRING])
  fix item off n
  assume a: "item_valid (get_item (Some data) name) OBS_DATA_STRING = Some item" "get_data item = Some off"
    "layer_value (data_abs (od_items data)) name OBS_DATA_STRING layer = Some (segment (oi_block item) off n)"
    "value_ok OBS_DATA_STRING (segment (oi_block item) off n)"
  then obtain s where "c_string (segment (oi_block item) off n) = Some s" by auto
  then show ?thesis using a c_string_segment by (simp add: data_item_get_string_def)
qed (simp_all add: data_item_get_string_def)

lemma item_number_layer:
  assumes "off + n \<le> length (oi_block item)" "value_ok OBS_DATA_NUMBER (segment (oi_block item) off n)"
  shows "item_number item off = Some (as_number (segment (oi_block item) off n))"
proof -
  have n: "n = 16" using assms by (simp add: splice_simps)
  have "take 4 (segment (oi_block item) off n) = segment (oi_block item) off 4"
    "drop 8 (segment (oi_block item) off n) = segment (oi_block item) (off + 8) 8"
    using n by (simp_all add: segment_def drop_take add.commute)
  then show ?thesis using assms(1) n by (simp add: item_number_def peek_def as_number_def)
qed

lemma get_int_layer:
  assumes "items_ok (od_items data)" "reads get_data layer"
  shows "data_item_get_int to_ll (get_item (Some data) name) get_data =
    Some (case layer_value (data_abs (od_items data)) name OBS_DATA_NUMBER layer of None \<Rightarrow> 0
      | Some bs \<Rightarrow> (case as_number bs of (kind, val) \<Rightarrow> if kind = OBS_DATA_NUM_INT then val else to_ll val))"
  by (rule getter_cases [OF assms, of name OBS_DATA_NUMBER])
    (auto simp: data_item_get_int_def item_int_def item_number_layer split: prod.splits)

lemma get_double_layer:
  assumes "items_ok (od_items data)" "reads get_data layer"
  shows "data_item_get_double to_double (get_item (Some data) name) get_data =
    Some (case layer_value (data_abs (od_items data)) name OBS_DATA_NUMBER layer of None \<Rightarrow> 0
      | Some bs \<Rightarrow> (case as_number bs of (kind, val) \<Rightarrow> if kind = OBS_DATA_NUM_INT then to_double val else val))"
  by (rule getter_cases [OF assms, of name OBS_DATA_NUMBER])
    (auto simp: data_item_get_double_def item_double_def item_number_layer split: prod.splits)

lemma get_bool_layer:
  assumes "items_ok (od_items data)" "reads get_data layer"
  shows "data_item_get_bool (get_item (Some data) name) get_data =
    Some (case layer_value (data_abs (od_items data)) name OBS_DATA_BOOLEAN layer of None \<Rightarrow> False | Some bs \<Rightarrow> bs \<noteq> [0])"
proof (rule getter_cases [OF assms, of name OBS_DATA_BOOLEAN])
  fix item off n
  assume a: "item_valid (get_item (Some data) name) OBS_DATA_BOOLEAN = Some item" "get_data item = Some off"
    "layer_value (data_abs (od_items data)) name OBS_DATA_BOOLEAN layer = Some (segment (oi_block item) off n)"
    "off + n \<le> length (oi_block item)" "value_ok OBS_DATA_BOOLEAN (segment (oi_block item) off n)"
  then have "n = 1" by (simp add: splice_simps)
  then show ?thesis using a by (simp add: data_item_get_bool_def peek_def)
qed (simp_all add: data_item_get_bool_def)


subsection \<open>Properties\<close>

lemma empty_data_ok: "data_ok type_of []" "data_abs [] = (\<lambda>_. None)" "data_refs [] = {#}"
  by (simp_all add: data_ok_def items_ok_def names_ok_def data_abs_def data_refs_def fun_eq_iff)

text \<open>An object after a typed sequence of operations.\<close>

lemma run_ok:
  assumes "list_all (op_typed type_of) ops"
  obtains data calls where "apply_data_ops fresh ops obs_data_create = Some (data, calls)" "data_ok type_of (od_items data)"
    "data_abs (od_items data) = fold data_spec ops (\<lambda>_. None)" "data_refs (od_items data) + released calls = added calls"
  using apply_data_ops_ok [of type_of obs_data_create ops fresh] assms
  by (auto simp: data_op_ok_def obs_data_create_def empty_data_ok)

lemma on_item_ref: "on_item f data name = Some (data', calls) \<Longrightarrow> od_ref data' = od_ref data"
  by (auto simp: on_item_def split: bind_splits)

lemma op_ref: "apply_data_op fresh op data = Some (data', calls) \<Longrightarrow> od_ref data' = od_ref data"
  by (cases op)
    (auto simp: set_item_def set_item_def_def set_item_auto_def set_item_data_def obs_data_unset_user_value_def
      obs_data_unset_default_value_def obs_data_unset_autoselect_value_def obs_data_erase_def obs_data_clear_def
      dest: on_item_ref split: bind_splits if_splits option.splits)

lemma ops_ref: "apply_data_ops fresh ops data = Some (data', calls) \<Longrightarrow> od_ref data' = od_ref data"
  by (induction ops arbitrary: data calls) (auto dest!: op_ref split: bind_splits)

lemma destroy_items:
  "\<forall>item \<in> set items. item_ok item \<Longrightarrow> \<exists>calls. obs_data_destroy items = Some calls \<and> added calls = {#} \<and> released calls = data_refs items"
proof (induction items)
  case (Cons item items)
  then show ?case using destroy_ok [of item] by (auto simp: data_refs_def held_def add_ac simp flip: map_append)
qed (simp add: data_refs_def)

text \<open>C11: Whatever sequence of settings, defaults, automatic selections, removals and clearings is applied to a new object, each name
  being used with one type, every operation succeeds inside the items' memory; the items stay sorted by name, and the object holds
  what the same operations make of a map from names to three layers of values, in which a default is only taken
  for a name that is not there yet.\<close>

theorem obs_data_refines_layers:
  assumes "list_all (op_typed type_of) ops"
  shows "\<exists>data calls. apply_data_ops fresh ops obs_data_create = Some (data, calls) \<and>
    sorted_wrt (<) (map oi_name (od_items data)) \<and> data_abs (od_items data) = fold data_spec ops (\<lambda>_. None)"
  by (rule run_ok [OF assms, of fresh]) (auto simp: data_ok_def items_ok_def names_ok_def)

text \<open>C13: The references to nested objects are balanced: those taken and not yet released are the ones the object holds, and when
  its own last reference is released, each of them is released once.\<close>

theorem obs_data_references_balanced:
  assumes "list_all (op_typed type_of) ops" "apply_data_ops fresh ops obs_data_create = Some (data, calls)"
  shows "data_refs (od_items data) + released calls = added calls \<and>
    (\<exists>final. obs_data_release data = Some (None, final) \<and> released (calls @ final) = added (calls @ final))"
proof -
  obtain data2 calls2 where r: "apply_data_ops fresh ops obs_data_create = Some (data2, calls2)" "data_ok type_of (od_items data2)"
    "data_refs (od_items data2) + released calls2 = added calls2"
    using run_ok [OF assms(1), of fresh] by metis
  have e: "data2 = data" "calls2 = calls" using r(1) assms(2) by simp_all
  have "od_ref data = 1" using ops_ref [OF assms(2)] by (simp add: obs_data_create_def)
  moreover obtain final where "obs_data_destroy (od_items data) = Some final" "added final = {#}" "released final = data_refs (od_items data)"
    using destroy_items [of "od_items data"] r(2) e by (auto simp: data_ok_def items_ok_def)
  ultimately show ?thesis using r(3) e by (auto simp: obs_data_release_def add_ac)
qed

text \<open>What a layer of the map holds, read as a string, a number or a truth value.\<close>

definition layer_string :: "data_map \<Rightarrow> byte list \<Rightarrow> (item_values \<Rightarrow> byte list option) \<Rightarrow> byte list option" where
  "layer_string m name layer = (case layer_value m name OBS_DATA_STRING layer of None \<Rightarrow> Some [] | Some bs \<Rightarrow> c_string bs)"

definition layer_number :: "(64 word \<Rightarrow> 64 word) \<Rightarrow> (64 word \<Rightarrow> 64 word) \<Rightarrow> data_map \<Rightarrow> byte list \<Rightarrow> (item_values \<Rightarrow> byte list option) \<Rightarrow> 64 word option" where
  "layer_number conv_int conv_double m name layer = Some (case layer_value m name OBS_DATA_NUMBER layer of None \<Rightarrow> 0
     | Some bs \<Rightarrow> (case as_number bs of (kind, val) \<Rightarrow> if kind = OBS_DATA_NUM_INT then conv_int val else conv_double val))"

definition layer_bool :: "data_map \<Rightarrow> byte list \<Rightarrow> (item_values \<Rightarrow> byte list option) \<Rightarrow> bool option" where
  "layer_bool m name layer = Some (case layer_value m name OBS_DATA_BOOLEAN layer of None \<Rightarrow> False | Some bs \<Rightarrow> bs \<noteq> [0])"



text \<open>A value that is set is the first value of its name.\<close>

lemma set_first_value: "layer_value (data_spec (SetUser name ty bs) m) name ty first_value =
    (if (case m name of None \<Rightarrow> True | Some iv \<Rightarrow> iv_type iv = ty) then Some bs else None)"
  by (auto simp: layer_value_def first_value_def no_values_def split: option.splits)

lemma as_number_bytes: "kind < 256 ^ 4 \<Longrightarrow> as_number (number_bytes fresh kind val) = (kind, val)"
  using unsigned_less [of val, where ?'a = nat] by (simp add: as_number_def number_bytes_def)

lemma length_number_bytes [simp]: "length (number_bytes fresh kind val) = 16"
  by (simp add: number_bytes_def)

lemma number_bytes_ok [simp]: "value_ok OBS_DATA_NUMBER (number_bytes fresh kind val)"
  by (simp add: number_bytes_def)

lemma set_then_read:
  assumes "data_ok type_of (od_items data)" "value_ok ty bs" "type_of name = ty"
  obtains data' calls where "set_item fresh data name bs ty = Some (data', calls)" "items_ok (od_items data')"
    "layer_value (data_abs (od_items data')) name ty first_value = Some bs"
proof -
  obtain data' calls where s: "set_item fresh data name bs ty = Some (data', calls)" "data_ok type_of (od_items data')"
    "data_abs (od_items data') = data_spec (SetUser name ty bs) (data_abs (od_items data))"
    using set_user_op_ok [OF assms, of fresh] unfolding data_op_ok_def by blast
  have "(case data_abs (od_items data) name of None \<Rightarrow> True | Some iv \<Rightarrow> iv_type iv = ty)"
    using assms(1,3) by (auto simp: data_ok_def data_typed split: option.splits)
  then show ?thesis using that [OF s(1)] s(2,3) set_first_value by (simp add: data_ok_def)
qed

text \<open>On an object made by any typed sequence of operations, a string, an integer, a floating point number or a truth value that
  is set under a name of its type is the one that is read.\<close>

theorem obs_data_typed_roundtrip:
  assumes "list_all (op_typed type_of) ops" "apply_data_ops fresh ops obs_data_create = Some (data, calls)"
  shows "(type_of name = OBS_DATA_STRING \<and> 0 \<notin> set s \<longrightarrow>
      (\<exists>data' calls'. obs_data_set_string fresh data name (Some s) = Some (data', calls') \<and> obs_data_get_string (Some data') name = Some s)) \<and>
    (type_of name = OBS_DATA_NUMBER \<longrightarrow>
      (\<exists>data' calls'. obs_data_set_int fresh data name i = Some (data', calls') \<and> obs_data_get_int to_ll (Some data') name = Some i)) \<and>
    (type_of name = OBS_DATA_NUMBER \<longrightarrow>
      (\<exists>data' calls'. obs_data_set_double fresh data name d = Some (data', calls') \<and> obs_data_get_double to_double (Some data') name = Some d)) \<and>
    (type_of name = OBS_DATA_BOOLEAN \<longrightarrow>
      (\<exists>data' calls'. obs_data_set_bool fresh data name b = Some (data', calls') \<and> obs_data_get_bool (Some data') name = Some b))"
proof -
  have ok: "data_ok type_of (od_items data)" using run_ok [OF assms(1), of fresh] assms(2) by auto
  show ?thesis
  proof (intro conjI impI)
    assume t: "type_of name = OBS_DATA_STRING \<and> 0 \<notin> set s"
    then have v: "value_ok OBS_DATA_STRING (s @ [0])" by simp
    show "\<exists>data' calls'. obs_data_set_string fresh data name (Some s) = Some (data', calls') \<and> obs_data_get_string (Some data') name = Some s"
      by (rule set_then_read [OF ok v, of name fresh])
        (use t in \<open>auto simp: obs_data_set_string_def obs_set_string_def obs_data_get_string_def get_string_layer [OF _ reads_first]\<close>)
  next
    assume t: "type_of name = OBS_DATA_NUMBER"
    show "\<exists>data' calls'. obs_data_set_int fresh data name i = Some (data', calls') \<and> obs_data_get_int to_ll (Some data') name = Some i"
      by (rule set_then_read [OF ok number_bytes_ok [of fresh OBS_DATA_NUM_INT i] t, of fresh])
        (auto simp: obs_data_set_int_def obs_set_int_def obs_data_get_int_def get_int_layer [OF _ reads_first] as_number_bytes)
  next
    assume t: "type_of name = OBS_DATA_NUMBER"
    show "\<exists>data' calls'. obs_data_set_double fresh data name d = Some (data', calls') \<and> obs_data_get_double to_double (Some data') name = Some d"
      by (rule set_then_read [OF ok number_bytes_ok [of fresh OBS_DATA_NUM_DOUBLE d] t, of fresh])
        (auto simp: obs_data_set_double_def obs_set_double_def obs_data_get_double_def get_double_layer [OF _ reads_first] as_number_bytes)
  next
    assume t: "type_of name = OBS_DATA_BOOLEAN"
    have v: "value_ok OBS_DATA_BOOLEAN [if b then 1 else 0]" by simp
    show "\<exists>data' calls'. obs_data_set_bool fresh data name b = Some (data', calls') \<and> obs_data_get_bool (Some data') name = Some b"
      by (rule set_then_read [OF ok v t, of fresh])
        (auto simp: obs_data_set_bool_def obs_set_bool_def obs_data_get_bool_def get_bool_layer [OF _ reads_first])
  qed
qed

text \<open>A default that is set after the user's value is lost: when the user's value is removed, the name reads as zero.\<close>

theorem obs_data_default_lost:
  "\<exists>data1 calls1 data2 calls2 data3 calls3. obs_data_set_int fresh obs_data_create name v = Some (data1, calls1) \<and>
     obs_data_set_default_int fresh data1 name d = Some (data2, calls2) \<and> obs_data_unset_user_value data2 name = Some (data3, calls3) \<and>
     obs_data_get_int to_ll (Some data3) name = Some 0 \<and> \<not> obs_data_has_default_value (Some data3) name"
proof -
  let ?ops = "[SetUser name OBS_DATA_NUMBER (number_bytes fresh OBS_DATA_NUM_INT v),
    SetDefault name OBS_DATA_NUMBER (number_bytes fresh OBS_DATA_NUM_INT d), UnsetUser name]"
  have t: "list_all (op_typed (\<lambda>_. OBS_DATA_NUMBER)) ?ops" by simp
  obtain data calls where r: "apply_data_ops fresh ?ops obs_data_create = Some (data, calls)" "data_ok (\<lambda>_. OBS_DATA_NUMBER) (od_items data)"
    "data_abs (od_items data) = fold data_spec ?ops (\<lambda>_. None)"
    using run_ok [OF t, of fresh] by metis
  have m: "data_abs (od_items data) name = Some (no_values OBS_DATA_NUMBER)"
    by (simp add: r(3) map_values_def no_values_def)
  have i: "items_ok (od_items data)" using r(2) by (simp add: data_ok_def)
  have "obs_data_get_int to_ll (Some data) name = Some 0"
    using get_int_layer [OF i reads_first, of to_ll name] m
    by (simp add: obs_data_get_int_def layer_value_def first_value_def no_values_def)
  moreover have "\<not> obs_data_has_default_value (Some data) name"
    using m by (auto simp: obs_data_has_default_value_def obs_data_item_has_default_value_def data_abs_get no_values_def item_abs_simps
        split: option.splits if_splits)
  ultimately show ?thesis
    using r(1) by (fastforce simp: obs_data_set_int_def obs_set_int_def obs_data_set_default_int_def split: bind_splits)
qed


text \<open>An object with a number in three layers and a nested object.\<close>

definition example_ops :: "data_op list" where
  "example_ops = [SetDefault [98] OBS_DATA_NUMBER (number_bytes (\<lambda>_. 7) 1 5), SetUser [97] OBS_DATA_OBJECT (le_bytes 8 4096),
     SetUser [98] OBS_DATA_NUMBER (number_bytes (\<lambda>_. 7) 1 6), SetAuto [98] OBS_DATA_NUMBER (number_bytes (\<lambda>_. 7) 1 8), UnsetUser [98]]"

definition example_types :: "byte list \<Rightarrow> obs_data_type" where
  "example_types name = (if name = [97] then OBS_DATA_OBJECT else if name = [98] then OBS_DATA_NUMBER
     else if name = [99] then OBS_DATA_BOOLEAN else OBS_DATA_STRING)"

lemma example_ops_typed: "list_all (op_typed example_types) example_ops"
  by (simp add: example_ops_def example_types_def)

lemma obs_data_refines_layers_witness:
  "\<exists>data calls. apply_data_ops (\<lambda>_. 7) example_ops obs_data_create = Some (data, calls) \<and>
    sorted_wrt (<) (map oi_name (od_items data)) \<and> data_abs (od_items data) = fold data_spec example_ops (\<lambda>_. None)"
  by (rule obs_data_refines_layers [OF example_ops_typed])

lemma obs_data_references_balanced_witness:
  "\<exists>data calls. apply_data_ops (\<lambda>_. 7) example_ops obs_data_create = Some (data, calls) \<and>
    data_refs (od_items data) + released calls = added calls"
  by (rule run_ok [OF example_ops_typed, of "\<lambda>_. 7"]) (use obs_data_references_balanced [OF example_ops_typed] in blast)


lemma obs_data_typed_roundtrip_witness:
  "\<exists>data calls data' calls'. apply_data_ops (\<lambda>_. 7) example_ops obs_data_create = Some (data, calls) \<and>
    obs_data_set_string (\<lambda>_. 7) data [100] (Some [65, 66]) = Some (data', calls') \<and> obs_data_get_string (Some data') [100] = Some [65, 66]"
proof -
  obtain data calls where r: "apply_data_ops (\<lambda>_. 7) example_ops obs_data_create = Some (data, calls)"
    by (rule run_ok [OF example_ops_typed, of "\<lambda>_. 7"])
  show ?thesis
    using obs_data_typed_roundtrip [OF example_ops_typed r, of "[100]" "[65, 66]"] r by (auto simp: example_types_def)
qed

end
