(* ===== verification/Format_Conversion.thy ===== *)
theory Format_Conversion
  imports Memory Serializer
begin

text \<open>
  Conversion between packed and planar pictures (\<open>libobs/media-io/format-conversion.c\<close>). The packed form has four bytes for each
  pixel; compression takes them in blocks of four columns and two rows with SSE2 instructions, whose documented
  effect is modelled on registers of sixteen bytes, the byte at the lowest address first. A picture is a block of bytes, and \<open>None\<close>
  an access outside of it. Positions are computed in 32 bits and wrap around; the counters of the loops do
  not, as a picture has less than \<open>2 ^ 32 - 1\<close> rows and columns. The alignment that the loads demand is not modelled.
\<close>

definition u32 :: "nat \<Rightarrow> nat" where
  "u32 n = n mod 2 ^ 32"

subsection \<open>SSE2 instructions\<close>

type_synonym m128 = "byte list"

definition lanes :: "nat \<Rightarrow> m128 \<Rightarrow> byte list list" where
  "lanes n a = map (\<lambda>i. take n (drop (n * i) a)) [0 ..< length a div n]"

definition signed_lane :: "byte list \<Rightarrow> int" where
  "signed_lane l = (let v = int (le_val l) in if v \<ge> 2 ^ (8 * length l - 1) then v - 2 ^ (8 * length l) else v)"

definition set1_epi32 :: "nat \<Rightarrow> m128" where
  "set1_epi32 w = concat (replicate 4 (le_bytes 4 w))"

definition set1_epi16 :: "nat \<Rightarrow> m128" where
  "set1_epi16 w = concat (replicate 8 (le_bytes 2 w))"

definition and_si128 :: "m128 \<Rightarrow> m128 \<Rightarrow> m128" where
  "and_si128 a b = map2 (AND) a b"

definition srli_si128 :: "m128 \<Rightarrow> nat \<Rightarrow> m128" where
  "srli_si128 a n = drop n a @ replicate n 0"

text \<open>Saturation: to a signed 16-bit number, and to an unsigned byte.\<close>

definition packs_epi32 :: "m128 \<Rightarrow> m128 \<Rightarrow> m128" where
  "packs_epi32 a b = concat (map (\<lambda>l. le_bytes 2 (nat (max (- 32768) (min 32767 (signed_lane l)) mod 65536))) (lanes 4 a @ lanes 4 b))"

definition packus_epi16 :: "m128 \<Rightarrow> m128 \<Rightarrow> m128" where
  "packus_epi16 a b = map (\<lambda>l. word_of_int (max 0 (min 255 (signed_lane l)))) (lanes 2 a @ lanes 2 b)"

definition add_epi64 :: "m128 \<Rightarrow> m128 \<Rightarrow> m128" where
  "add_epi64 a b = concat (map2 (\<lambda>x y. le_bytes 8 (le_val x + le_val y)) (lanes 8 a) (lanes 8 b))"

definition srai_epi16 :: "m128 \<Rightarrow> nat \<Rightarrow> m128" where
  "srai_epi16 a n = concat (map (\<lambda>l. le_bytes 2 (nat (signed_lane l div 2 ^ n mod 65536))) (lanes 2 a))"

text \<open>The four arguments of \<open>_MM_SHUFFLE\<close>, the lane of the highest place first.\<close>

definition shuffle_epi32 :: "m128 \<Rightarrow> nat \<times> nat \<times> nat \<times> nat \<Rightarrow> m128" where
  "shuffle_epi32 a s = (case s of (i3, i2, i1, i0) \<Rightarrow> concat (map (\<lambda>i. lanes 4 a ! i) [i0, i1, i2, i3]))"

definition shufflelo_epi16 :: "m128 \<Rightarrow> nat \<times> nat \<times> nat \<times> nat \<Rightarrow> m128" where
  "shufflelo_epi16 a s = (case s of (i3, i2, i1, i0) \<Rightarrow> concat (map (\<lambda>i. lanes 2 a ! i) [i0, i1, i2, i3]) @ drop 8 a)"

definition load_si128 :: "byte list \<Rightarrow> nat \<Rightarrow> m128 option" where
  "load_si128 block pos = peek block pos 16"

subsection \<open>Blocks of pixels\<close>

definition pack_shift :: "byte list \<Rightarrow> nat \<Rightarrow> nat \<Rightarrow> m128 \<Rightarrow> m128 \<Rightarrow> m128 \<Rightarrow> nat \<Rightarrow> byte list option" where
  "pack_shift lum_plane lum_pos0 lum_pos1 line1 line2 msk sh =
     (let val = packs_epi32 (srli_si128 (and_si128 line1 msk) sh) (srli_si128 (and_si128 line2 msk) sh);
          val = packus_epi16 val val
      in do {
        lum_plane \<leftarrow> poke lum_plane lum_pos0 (take 4 val);
        poke lum_plane lum_pos1 (take 4 (drop 4 val)) })"

definition pack_val :: "byte list \<Rightarrow> nat \<Rightarrow> nat \<Rightarrow> m128 \<Rightarrow> m128 \<Rightarrow> m128 \<Rightarrow> byte list option" where
  "pack_val lum_plane lum_pos0 lum_pos1 line1 line2 msk =
     (let val = packs_epi32 (and_si128 line1 msk) (and_si128 line2 msk);
          val = packus_epi16 val val
      in do {
        lum_plane \<leftarrow> poke lum_plane lum_pos0 (take 4 val);
        poke lum_plane lum_pos1 (take 4 (drop 4 val)) })"

definition pack_ch_1plane :: "byte list \<Rightarrow> nat \<Rightarrow> m128 \<Rightarrow> m128 \<Rightarrow> m128 \<Rightarrow> byte list option" where
  "pack_ch_1plane uv_plane chroma_pos line1 line2 uv_mask =
     (let add_val = add_epi64 (and_si128 line1 uv_mask) (and_si128 line2 uv_mask);
          avg_val = add_epi64 add_val (shuffle_epi32 add_val (2, 3, 0, 1));
          avg_val = srai_epi16 avg_val 2;
          avg_val = shuffle_epi32 avg_val (3, 1, 2, 0);
          avg_val = packus_epi16 avg_val avg_val
      in poke uv_plane chroma_pos (take 4 avg_val))"

definition pack_ch_2plane :: "byte list \<Rightarrow> byte list \<Rightarrow> nat \<Rightarrow> m128 \<Rightarrow> m128 \<Rightarrow> m128 \<Rightarrow> (byte list \<times> byte list) option" where
  "pack_ch_2plane u_plane v_plane chroma_pos line1 line2 uv_mask =
     (let add_val = add_epi64 (and_si128 line1 uv_mask) (and_si128 line2 uv_mask);
          avg_val = add_epi64 add_val (shuffle_epi32 add_val (2, 3, 0, 1));
          avg_val = srai_epi16 avg_val 2;
          avg_val = shuffle_epi32 avg_val (3, 1, 2, 0);
          avg_val = shufflelo_epi16 avg_val (3, 1, 2, 0);
          avg_val = packus_epi16 avg_val avg_val
      in do {
        u_plane \<leftarrow> poke u_plane chroma_pos (take 2 avg_val);
        v_plane \<leftarrow> poke v_plane chroma_pos (take 2 (drop 2 avg_val));
        Some (u_plane, v_plane) })"

subsection \<open>Whole pictures\<close>

text \<open>\<open>for (i = start; i < end; i += step)\<close>.\<close>

function step_loop :: "nat \<Rightarrow> nat \<Rightarrow> nat \<Rightarrow> (nat \<Rightarrow> 's \<Rightarrow> 's option) \<Rightarrow> 's \<Rightarrow> 's option" where
  "step_loop step i n body s =
     (if i < n \<and> 0 < step then (case body i s of None \<Rightarrow> None | Some s \<Rightarrow> step_loop step (i + step) n body s) else Some s)"
  by pat_completeness auto
termination
  by (relation "measure (\<lambda>(step, i, n, body, s). n - i)") auto

declare step_loop.simps [simp del]

definition min_uint32 :: "nat \<Rightarrow> nat \<Rightarrow> nat" where
  "min_uint32 a b = (if a < b then a else b)"

definition compress_uyvx_to_i420 ::
  "byte list \<Rightarrow> nat \<Rightarrow> nat \<Rightarrow> nat \<Rightarrow> byte list \<times> byte list \<times> byte list \<Rightarrow> nat \<times> nat \<Rightarrow> (byte list \<times> byte list \<times> byte list) option" where
  "compress_uyvx_to_i420 input in_linesize start_y end_y output out_linesize =
     (case out_linesize of (linesize0, linesize1) \<Rightarrow>
      let width = min_uint32 in_linesize linesize0;
          lum_mask = set1_epi32 0x0000FF00;
          uv_mask = set1_epi16 0x00FF
      in step_loop 2 start_y end_y (\<lambda>y output.
        let y_pos = u32 (y * in_linesize);
            chroma_y_pos = u32 (y div 2 * linesize1);
            lum_y_pos = u32 (y * linesize0)
        in step_loop 4 0 width (\<lambda>x (lum_plane, u_plane, v_plane).
          let img = y_pos + u32 (x * 4);
              lum_pos0 = u32 (lum_y_pos + x);
              lum_pos1 = u32 (lum_pos0 + linesize0)
          in do {
            line1 \<leftarrow> load_si128 input img;
            line2 \<leftarrow> load_si128 input (img + in_linesize);
            lum_plane \<leftarrow> pack_shift lum_plane lum_pos0 lum_pos1 line1 line2 lum_mask 1;
            (u_plane, v_plane) \<leftarrow> pack_ch_2plane u_plane v_plane (u32 (chroma_y_pos + x div 2)) line1 line2 uv_mask;
            Some (lum_plane, u_plane, v_plane) }) output) output)"

definition compress_uyvx_to_nv12 ::
  "byte list \<Rightarrow> nat \<Rightarrow> nat \<Rightarrow> nat \<Rightarrow> byte list \<times> byte list \<Rightarrow> nat \<times> nat \<Rightarrow> (byte list \<times> byte list) option" where
  "compress_uyvx_to_nv12 input in_linesize start_y end_y output out_linesize =
     (case out_linesize of (linesize0, linesize1) \<Rightarrow>
      let width = min_uint32 in_linesize linesize0;
          lum_mask = set1_epi32 0x0000FF00;
          uv_mask = set1_epi16 0x00FF
      in step_loop 2 start_y end_y (\<lambda>y output.
        let y_pos = u32 (y * in_linesize);
            chroma_y_pos = u32 (y div 2 * linesize1);
            lum_y_pos = u32 (y * linesize0)
        in step_loop 4 0 width (\<lambda>x (lum_plane, chroma_plane).
          let img = y_pos + u32 (x * 4);
              lum_pos0 = u32 (lum_y_pos + x);
              lum_pos1 = u32 (lum_pos0 + linesize0)
          in do {
            line1 \<leftarrow> load_si128 input img;
            line2 \<leftarrow> load_si128 input (img + in_linesize);
            lum_plane \<leftarrow> pack_shift lum_plane lum_pos0 lum_pos1 line1 line2 lum_mask 1;
            chroma_plane \<leftarrow> pack_ch_1plane chroma_plane (u32 (chroma_y_pos + x)) line1 line2 uv_mask;
            Some (lum_plane, chroma_plane) }) output) output)"

definition convert_uyvx_to_i444 ::
  "byte list \<Rightarrow> nat \<Rightarrow> nat \<Rightarrow> nat \<Rightarrow> byte list \<times> byte list \<times> byte list \<Rightarrow> nat \<Rightarrow> (byte list \<times> byte list \<times> byte list) option" where
  "convert_uyvx_to_i444 input in_linesize start_y end_y output linesize0 =
     (let width = min_uint32 in_linesize linesize0;
          lum_mask = set1_epi32 0x0000FF00;
          u_mask = set1_epi32 0x000000FF;
          v_mask = set1_epi32 0x00FF0000
      in step_loop 2 start_y end_y (\<lambda>y output.
        let y_pos = u32 (y * in_linesize);
            lum_y_pos = u32 (y * linesize0)
        in step_loop 4 0 width (\<lambda>x (lum_plane, u_plane, v_plane).
          let img = y_pos + u32 (x * 4);
              lum_pos0 = u32 (lum_y_pos + x);
              lum_pos1 = u32 (lum_pos0 + linesize0)
          in do {
            line1 \<leftarrow> load_si128 input img;
            line2 \<leftarrow> load_si128 input (img + in_linesize);
            lum_plane \<leftarrow> pack_shift lum_plane lum_pos0 lum_pos1 line1 line2 lum_mask 1;
            u_plane \<leftarrow> pack_val u_plane lum_pos0 lum_pos1 line1 line2 u_mask;
            v_plane \<leftarrow> pack_shift v_plane lum_pos0 lum_pos1 line1 line2 v_mask 2;
            Some (lum_plane, u_plane, v_plane) }) output) output)"


text \<open>Reading and writing one number of the machine's byte order.\<close>

definition get8 :: "byte list \<Rightarrow> nat \<Rightarrow> 32 word option" where
  "get8 block pos = map_option (\<lambda>bs. word_of_nat (le_val bs)) (peek block pos 1)"

definition get16 :: "byte list \<Rightarrow> nat \<Rightarrow> 32 word option" where
  "get16 block pos = map_option (\<lambda>bs. word_of_nat (le_val bs)) (peek block pos 2)"

definition get32 :: "byte list \<Rightarrow> nat \<Rightarrow> 32 word option" where
  "get32 block pos = map_option (\<lambda>bs. word_of_nat (le_val bs)) (peek block pos 4)"

definition put32 :: "byte list \<Rightarrow> nat \<Rightarrow> 32 word \<Rightarrow> byte list option" where
  "put32 block pos w = poke block pos (le_bytes 4 (unat w))"

text \<open>The body of the inner loops of \<open>decompress_420\<close> and \<open>decompress_nv12\<close>: two columns of two rows.\<close>

definition put_pixels :: "byte list \<Rightarrow> nat \<Rightarrow> nat \<Rightarrow> byte list \<Rightarrow> nat \<Rightarrow> nat \<Rightarrow> 32 word \<Rightarrow> byte list option" where
  "put_pixels lum lum0 lum1 output output0 output1 out = do {
     a \<leftarrow> get8 lum lum0;
     output \<leftarrow> put32 output output0 (a OR out);
     b \<leftarrow> get8 lum (lum0 + 1);
     output \<leftarrow> put32 output (output0 + 4) (b OR out);
     c \<leftarrow> get8 lum lum1;
     output \<leftarrow> put32 output output1 (c OR out);
     d \<leftarrow> get8 lum (lum1 + 1);
     put32 output (output1 + 4) (d OR out) }"

definition decompress_420 ::
  "byte list \<times> byte list \<times> byte list \<Rightarrow> nat \<times> nat \<times> nat \<Rightarrow> nat \<Rightarrow> nat \<Rightarrow> byte list \<Rightarrow> nat \<Rightarrow> byte list option" where
  "decompress_420 input in_linesize start_y end_y output out_linesize =
     (case (input, in_linesize) of ((input0, input1, input2), (linesize0, linesize1, linesize2)) \<Rightarrow>
      let start_y_d2 = start_y div 2;
          width_d2 = min_uint32 linesize0 out_linesize div 2;
          height_d2 = end_y div 2
      in step_loop 1 start_y_d2 height_d2 (\<lambda>y output.
        let chroma0 = u32 (y * linesize1);
            chroma1 = u32 (y * linesize2);
            lum0 = u32 (y * 2 * linesize0);
            lum1 = lum0 + linesize0;
            output0 = u32 (y * 2 * linesize0);
            output1 = output0 + linesize0
        in step_loop 1 0 width_d2 (\<lambda>x output. do {
             u \<leftarrow> get8 input1 (chroma0 + x);
             v \<leftarrow> get8 input2 (chroma1 + x);
             put_pixels input0 (lum0 + 2 * x) (lum1 + 2 * x) output (output0 + 8 * x) (output1 + 8 * x)
               (push_bit 8 u OR push_bit 16 v) }) output) output)"

definition decompress_nv12 ::
  "byte list \<times> byte list \<Rightarrow> nat \<times> nat \<Rightarrow> nat \<Rightarrow> nat \<Rightarrow> byte list \<Rightarrow> nat \<Rightarrow> byte list option" where
  "decompress_nv12 input in_linesize start_y end_y output out_linesize =
     (case (input, in_linesize) of ((input0, input1), (linesize0, linesize1)) \<Rightarrow>
      let start_y_d2 = start_y div 2;
          width_d2 = min_uint32 linesize0 out_linesize div 2;
          height_d2 = end_y div 2
      in step_loop 1 start_y_d2 height_d2 (\<lambda>y output.
        let chroma = u32 (y * linesize1);
            lum0 = u32 (y * 2 * linesize0);
            lum1 = lum0 + linesize0;
            output0 = u32 (y * 2 * out_linesize);
            output1 = output0 + out_linesize
        in step_loop 1 0 width_d2 (\<lambda>x output. do {
             uv \<leftarrow> get16 input1 (chroma + 2 * x);
             put_pixels input0 (lum0 + 2 * x) (lum1 + 2 * x) output (output0 + 8 * x) (output1 + 8 * x) (push_bit 8 uv) }) output) output)"

definition decompress_422 :: "byte list \<Rightarrow> nat \<Rightarrow> nat \<Rightarrow> nat \<Rightarrow> byte list \<Rightarrow> nat \<Rightarrow> bool \<Rightarrow> byte list option" where
  "decompress_422 input in_linesize start_y end_y output out_linesize leading_lum =
     (let width_d2 = min_uint32 in_linesize out_linesize div 2
      in step_loop 1 start_y end_y (\<lambda>y output.
        let input32 = u32 (y * in_linesize);
            output32 = u32 (y * out_linesize)
        in step_loop 1 0 width_d2 (\<lambda>x output. do {
             dw \<leftarrow> get32 input (input32 + 4 * x);
             output \<leftarrow> put32 output (output32 + 8 * x) dw;
             put32 output (output32 + 8 * x + 4)
               (if leading_lum then (let dw = dw AND 0xFFFFFF00 in dw OR ucast (ucast (drop_bit 16 dw) :: byte))
                else (let dw = dw AND 0xFFFF00FF in dw OR (drop_bit 16 dw AND 0xFF00))) }) output) output)"


subsection \<open>Registers of 16-bit lanes\<close>

definition l16 :: "nat list \<Rightarrow> m128" where
  "l16 ns = concat (map (le_bytes 2) ns)"

lemma le_bytes_2: "le_bytes 2 x = [word_of_nat x, word_of_nat (x div 256)]"
  by (simp add: le_bytes_def be_bytes_2)

lemma le_bytes_4: "le_bytes 4 x = [word_of_nat x, word_of_nat (x div 256), word_of_nat (x div 65536), word_of_nat (x div 16777216)]"
  by (simp add: le_bytes_def be_bytes_4)

lemma l16_simps [simp]: "l16 [] = []" "l16 (n # ns) = le_bytes 2 n @ l16 ns"
  by (simp_all add: l16_def)

lemma length_l16 [simp]: "length (l16 ns) = 2 * length ns"
  by (induction ns) auto

lemma le_val_append: "le_val (xs @ ys) = le_val xs + 256 ^ length xs * le_val ys"
proof -
  have "be_val (xs @ ys) = be_val xs * 256 ^ length ys + be_val ys" for xs ys
    by (induction xs) (simp_all add: power_add algebra_simps)
  then show ?thesis by (simp add: le_val_def add.commute)
qed

lemma be_bytes_split: "be_bytes (m + n) x = be_bytes m (x div 256 ^ n) @ be_bytes n x"
  by (induction m) (simp_all add: power_add div_mult2_eq [symmetric] mult.commute)

lemma le_bytes_split: "le_bytes (m + n) x = le_bytes m x @ le_bytes n (x div 256 ^ m)"
  using be_bytes_split [of n m x] by (simp add: le_bytes_def add.commute)

lemma le_bytes_append:
  assumes "x < 256 ^ m"
  shows "le_bytes (m + n) (x + 256 ^ m * y) = le_bytes m x @ le_bytes n y"
proof -
  have "le_bytes m (x + 256 ^ m * y) = le_bytes m x"
    using be_bytes_mod [of m m "x + 256 ^ m * y"] be_bytes_mod [of m m x] by (simp add: le_bytes_def)
  then show ?thesis using assms by (simp add: le_bytes_split)
qed

text \<open>A sum of 64-bit lanes is a sum of 16-bit lanes, as long as none of them overflows.\<close>

lemma le_val_l16:
  "a < 65536 \<Longrightarrow> b < 65536 \<Longrightarrow> c < 65536 \<Longrightarrow> d < 65536 \<Longrightarrow>
    le_val (l16 [a, b, c, d]) = a + 256 ^ 2 * (b + 256 ^ 2 * (c + 256 ^ 2 * d))"
  by (simp add: le_val_append del: l16_simps(2)) (simp add: le_val_append)

lemma le_bytes_8_l16:
  assumes "a < 65536" "b < 65536" "c < 65536" "d < 65536"
  shows "le_bytes 8 (a + 256 ^ 2 * (b + 256 ^ 2 * (c + 256 ^ 2 * d))) = l16 [a, b, c, d]"
proof -
  let ?c = "c + 256 ^ 2 * d" let ?b = "b + 256 ^ 2 * ?c"
  have "le_bytes (2 + 6) (a + 256 ^ 2 * ?b) = le_bytes 2 a @ le_bytes 6 ?b" by (rule le_bytes_append) (use assms in simp)
  moreover have "le_bytes (2 + 4) ?b = le_bytes 2 b @ le_bytes 4 ?c" by (rule le_bytes_append) (use assms in simp)
  moreover have "le_bytes (2 + 2) ?c = le_bytes 2 c @ le_bytes 2 d" by (rule le_bytes_append) (use assms in simp)
  moreover have "(2 :: nat) + 6 = 8" "(2 :: nat) + 4 = 6" "(2 :: nat) + 2 = 4" by simp_all
  ultimately have "le_bytes 8 (a + 256 ^ 2 * ?b) = le_bytes 2 a @ le_bytes 2 b @ le_bytes 2 c @ le_bytes 2 d"
    by (simp only:)
  then show ?thesis by (simp only: l16_simps append_Nil2)
qed


lemma lanes_l16:
  "lanes 2 (l16 [a, b, c, d, e, f, g, h]) = map (le_bytes 2) [a, b, c, d, e, f, g, h]"
  "lanes 4 (l16 [a, b, c, d, e, f, g, h]) = [l16 [a, b], l16 [c, d], l16 [e, f], l16 [g, h]]"
  "lanes 8 (l16 [a, b, c, d, e, f, g, h]) = [l16 [a, b, c, d], l16 [e, f, g, h]]"
  by (simp_all add: lanes_def le_bytes_2 upt_rec)

lemma add_epi64_l16:
  assumes "\<forall>n \<in> {a, b, c, d, e, f, g, h}. n < 32768" "\<forall>n \<in> {a', b', c', d', e', f', g', h'}. n < 32768"
  shows "add_epi64 (l16 [a, b, c, d, e, f, g, h]) (l16 [a', b', c', d', e', f', g', h']) =
    l16 [a + a', b + b', c + c', d + d', e + e', f + f', g + g', h + h']"
proof -
  have half: "le_bytes 8 (le_val (l16 [a, b, c, d]) + le_val (l16 [a', b', c', d'])) = l16 [a + a', b + b', c + c', d + d']"
    if "a < 32768" "b < 32768" "c < 32768" "d < 32768" "a' < 32768" "b' < 32768" "c' < 32768" "d' < 32768" for a b c d a' b' c' d'
  proof -
    have "le_val (l16 [a, b, c, d]) + le_val (l16 [a', b', c', d']) =
        (a + a') + 256 ^ 2 * ((b + b') + 256 ^ 2 * ((c + c') + 256 ^ 2 * (d + d')))"
      using that by (simp add: le_val_l16 del: l16_simps)
    then show ?thesis using le_bytes_8_l16 [of "a + a'" "b + b'" "c + c'" "d + d'"] that by (simp only:)
  qed
  show ?thesis
    unfolding add_epi64_def lanes_l16 using assms half [of a b c d a' b' c' d'] half [of e f g h e' f' g' h']
    by (simp del: l16_simps(2)) (simp only: l16_simps append_assoc append_Nil2 append_Nil)
qed

lemma signed_lane_2: "n < 32768 \<Longrightarrow> signed_lane (le_bytes 2 n) = int n"
  by (simp add: signed_lane_def)

lemma srai_l16:
  assumes "\<forall>n \<in> set ns. n < 32768" "length ns = 8"
  shows "srai_epi16 (l16 ns) k = l16 (map (\<lambda>n. n div 2 ^ k) ns)"
proof -
  obtain a b c d e f g h where ns: "ns = [a, b, c, d, e, f, g, h]"
    using assms(2) by (auto simp: length_Suc_conv numeral_eq_Suc)
  have "nat (int n div 2 ^ k mod 65536) = n div 2 ^ k" if "n < 32768" for n
  proof -
    have "n div 2 ^ k < 65536" using that div_le_dividend [of n "2 ^ k"] by linarith
    moreover have "int n div 2 ^ k = int (n div 2 ^ k)" by (simp add: zdiv_int)
    ultimately show ?thesis by (simp flip: of_nat_mod)
  qed
  then show ?thesis
    using assms(1) unfolding ns srai_epi16_def lanes_l16 by (simp add: signed_lane_2 comp_def del: l16_simps(2)) (simp add: l16_def)
qed

lemma packus_l16:
  assumes "\<forall>n \<in> set (ns @ ms). n < 256" "length ns = 8" "length ms = 8"
  shows "packus_epi16 (l16 ns) (l16 ms) = map word_of_nat (ns @ ms)"
proof -
  obtain a b c d e f g h where ns: "ns = [a, b, c, d, e, f, g, h]"
    using assms(2) by (auto simp: length_Suc_conv numeral_eq_Suc)
  obtain a' b' c' d' e' f' g' h' where ms: "ms = [a', b', c', d', e', f', g', h']"
    using assms(3) by (auto simp: length_Suc_conv numeral_eq_Suc)
  show ?thesis
    using assms(1) unfolding ns ms packus_epi16_def lanes_l16 by (simp add: signed_lane_2)
qed


subsection \<open>What a block of four by two pixels becomes\<close>

lemma sixteen:
  assumes "length (xs :: 'a list) = 16"
  obtains b0 b1 b2 b3 b4 b5 b6 b7 b8 b9 b10 b11 b12 b13 b14 b15
  where "xs = [b0, b1, b2, b3, b4, b5, b6, b7, b8, b9, b10, b11, b12, b13, b14, b15]"
  using assms by (auto simp: length_Suc_conv numeral_eq_Suc)

lemma byte_div_256 [simp]: "unat (b :: byte) div 256 = 0"
  using unsigned_less [of b, where ?'a = nat] by simp

lemma byte_less [simp]: "unat (b :: byte) < 256" "unat (b :: byte) < 32768"
  using unsigned_less [of b, where ?'a = nat] by simp_all

lemma and_255 [simp]: "(b :: byte) AND 255 = b"
proof -
  have e: "(255 :: byte) = - 1" by simp
  show ?thesis unfolding e by simp
qed

definition picked :: "nat \<Rightarrow> m128 \<Rightarrow> m128 \<Rightarrow> nat list" where
  "picked k line1 line2 = map (\<lambda>i. unat (line1 ! (4 * i + k))) [0 ..< 4] @ map (\<lambda>i. unat (line2 ! (4 * i + k))) [0 ..< 4]"

lemma packs_l16:
  assumes "\<forall>n \<in> {a, b, c, d, a', b', c', d'}. n < 32768"
  shows "packs_epi32 (l16 [a, 0, b, 0, c, 0, d, 0]) (l16 [a', 0, b', 0, c', 0, d', 0]) = l16 [a, b, c, d, a', b', c', d']"
proof -
  have "signed_lane (l16 [n, 0]) = int n" if "n < 32768" for n
    using that by (simp add: signed_lane_def le_val_append)
  then show ?thesis
    unfolding packs_epi32_def lanes_l16 using assms by (simp del: l16_simps(2)) (simp add: l16_def)
qed

lemma masked_lum:
  assumes "length line = 16"
  shows "srli_si128 (and_si128 line (set1_epi32 0x0000FF00)) 1 =
      l16 [unat (line ! 1), 0, unat (line ! 5), 0, unat (line ! 9), 0, unat (line ! 13), 0]"
    "srli_si128 (and_si128 line (set1_epi32 0x00FF0000)) 2 =
      l16 [unat (line ! 2), 0, unat (line ! 6), 0, unat (line ! 10), 0, unat (line ! 14), 0]"
    "and_si128 line (set1_epi32 0x000000FF) =
      l16 [unat (line ! 0), 0, unat (line ! 4), 0, unat (line ! 8), 0, unat (line ! 12), 0]"
    "and_si128 line (set1_epi16 0x00FF) =
      l16 [unat (line ! 0), unat (line ! 2), unat (line ! 4), unat (line ! 6), unat (line ! 8), unat (line ! 10), unat (line ! 12), unat (line ! 14)]"
proof -
  obtain b0 b1 b2 b3 b4 b5 b6 b7 b8 b9 b10 b11 b12 b13 b14 b15
    where line: "line = [b0, b1, b2, b3, b4, b5, b6, b7, b8, b9, b10, b11, b12, b13, b14, b15]"
    by (rule sixteen [OF assms])
  have sets: "set1_epi32 n = le_bytes 4 n @ le_bytes 4 n @ le_bytes 4 n @ le_bytes 4 n"
    "set1_epi16 n = le_bytes 2 n @ le_bytes 2 n @ le_bytes 2 n @ le_bytes 2 n @ le_bytes 2 n @ le_bytes 2 n @ le_bytes 2 n @ le_bytes 2 n" for n
    by (simp_all add: set1_epi32_def set1_epi16_def numeral_eq_Suc)
  have masks: "le_bytes 4 0x0000FF00 = [0, 255, 0, 0]" "le_bytes 4 0x00FF0000 = [0, 0, 255, 0]" "le_bytes 4 0x000000FF = [255, 0, 0, 0]"
      "le_bytes 2 0x00FF = [255, 0]" by (simp_all add: le_bytes_4 le_bytes_2)
  have two_zeros: "replicate 2 (0 :: byte) = [0, 0]" by (simp add: numeral_2_eq_2)
  note eqs = line sets masks le_bytes_2 and_si128_def srli_si128_def
  show "srli_si128 (and_si128 line (set1_epi32 0x0000FF00)) 1 =
      l16 [unat (line ! 1), 0, unat (line ! 5), 0, unat (line ! 9), 0, unat (line ! 13), 0]"
    by (simp add: eqs)
  show "srli_si128 (and_si128 line (set1_epi32 0x00FF0000)) 2 =
      l16 [unat (line ! 2), 0, unat (line ! 6), 0, unat (line ! 10), 0, unat (line ! 14), 0]"
    by (simp add: eqs two_zeros)
  show "and_si128 line (set1_epi32 0x000000FF) =
      l16 [unat (line ! 0), 0, unat (line ! 4), 0, unat (line ! 8), 0, unat (line ! 12), 0]"
    by (simp add: eqs)
  show "and_si128 line (set1_epi16 0x00FF) =
      l16 [unat (line ! 0), unat (line ! 2), unat (line ! 4), unat (line ! 6), unat (line ! 8), unat (line ! 10), unat (line ! 12), unat (line ! 14)]"
    by (simp add: eqs)
qed

lemma packed_bytes:
  fixes a b c d a' b' c' d' :: byte
  defines "v \<equiv> packs_epi32 (l16 [unat a, 0, unat b, 0, unat c, 0, unat d, 0]) (l16 [unat a', 0, unat b', 0, unat c', 0, unat d', 0])"
  shows "packus_epi16 v v = [a, b, c, d, a', b', c', d', a, b, c, d, a', b', c', d']"
  unfolding v_def by (subst (1 2) packs_l16) (simp_all add: packus_l16 del: l16_simps)

definition column :: "nat \<Rightarrow> m128 \<Rightarrow> byte list" where
  "column k line = [line ! k, line ! (4 + k), line ! (8 + k), line ! (12 + k)]"

lemma pack_columns:
  assumes "length line1 = 16" "length line2 = 16"
  shows "pack_shift plane p0 p1 line1 line2 (set1_epi32 0x0000FF00) 1 =
      do { plane \<leftarrow> poke plane p0 (column 1 line1); poke plane p1 (column 1 line2) }"
    "pack_shift plane p0 p1 line1 line2 (set1_epi32 0x00FF0000) 2 =
      do { plane \<leftarrow> poke plane p0 (column 2 line1); poke plane p1 (column 2 line2) }"
    "pack_val plane p0 p1 line1 line2 (set1_epi32 0x000000FF) =
      do { plane \<leftarrow> poke plane p0 (column 0 line1); poke plane p1 (column 0 line2) }"
  unfolding pack_shift_def pack_val_def masked_lum [OF assms(1)] masked_lum [OF assms(2)] Let_def column_def
  by (simp_all add: packed_bytes del: l16_simps)

text \<open>The mean of the four samples of a square.\<close>

definition mean :: "nat \<Rightarrow> m128 \<Rightarrow> m128 \<Rightarrow> byte" where
  "mean k line1 line2 = word_of_nat ((unat (line1 ! k) + unat (line2 ! k) + unat (line1 ! (4 + k)) + unat (line2 ! (4 + k))) div 4)"

lemma shuffles_l16:
  "shuffle_epi32 (l16 [a, b, c, d, e, f, g, h]) (2, 3, 0, 1) = l16 [c, d, a, b, g, h, e, f]"
  "shuffle_epi32 (l16 [a, b, c, d, e, f, g, h]) (3, 1, 2, 0) = l16 [a, b, e, f, c, d, g, h]"
  "shufflelo_epi16 (l16 [a, b, c, d, e, f, g, h]) (3, 1, 2, 0) = l16 [a, c, b, d, e, f, g, h]"
  by (simp_all add: shuffle_epi32_def shufflelo_epi16_def lanes_l16 del: l16_simps) (simp_all add: le_bytes_2 eval_nat_numeral)

lemma averages:
  assumes "length line1 = 16" "length line2 = 16"
  defines "m k \<equiv> (unat (line1 ! k) + unat (line2 ! k) + unat (line1 ! (4 + k)) + unat (line2 ! (4 + k))) div 4"
  defines "add_val \<equiv> add_epi64 (and_si128 line1 (set1_epi16 0x00FF)) (and_si128 line2 (set1_epi16 0x00FF))"
  shows "shuffle_epi32 (srai_epi16 (add_epi64 add_val (shuffle_epi32 add_val (2, 3, 0, 1))) 2) (3, 1, 2, 0) =
      l16 [m 0, m 2, m 8, m 10, m 0, m 2, m 8, m 10]"
    and "\<forall>k. m k < 256"
proof -
  let ?s = "\<lambda>k. unat (line1 ! k) + unat (line2 ! k)"
  have s: "?s k < 512" for k
    using byte_less(1) [of "line1 ! k"] byte_less(1) [of "line2 ! k"] by linarith
  have lt: "?s k < 32768" "?s k + ?s j < 32768" for j k using s [of k] s [of j] by linarith+
  have a: "add_val = l16 [?s 0, ?s 2, ?s 4, ?s 6, ?s 8, ?s 10, ?s 12, ?s 14]"
    unfolding add_val_def masked_lum [OF assms(1)] masked_lum [OF assms(2)] by (rule add_epi64_l16) simp_all
  have "add_epi64 add_val (shuffle_epi32 add_val (2, 3, 0, 1)) =
      l16 [?s 0 + ?s 4, ?s 2 + ?s 6, ?s 4 + ?s 0, ?s 6 + ?s 2, ?s 8 + ?s 12, ?s 10 + ?s 14, ?s 12 + ?s 8, ?s 14 + ?s 10]"
    unfolding a shuffles_l16 by (rule add_epi64_l16) (simp_all add: lt del: l16_simps)
  moreover have "srai_epi16 (l16 [?s 0 + ?s 4, ?s 2 + ?s 6, ?s 4 + ?s 0, ?s 6 + ?s 2, ?s 8 + ?s 12, ?s 10 + ?s 14, ?s 12 + ?s 8, ?s 14 + ?s 10]) 2 =
      l16 (map (\<lambda>n. n div 2 ^ 2) [?s 0 + ?s 4, ?s 2 + ?s 6, ?s 4 + ?s 0, ?s 6 + ?s 2, ?s 8 + ?s 12, ?s 10 + ?s 14, ?s 12 + ?s 8, ?s 14 + ?s 10])"
    by (rule srai_l16) (use lt(2) in simp_all)
  ultimately show "shuffle_epi32 (srai_epi16 (add_epi64 add_val (shuffle_epi32 add_val (2, 3, 0, 1))) 2) (3, 1, 2, 0) =
      l16 [m 0, m 2, m 8, m 10, m 0, m 2, m 8, m 10]"
    by (simp only: shuffles_l16 list.map m_def) (simp add: add_ac del: l16_simps)
  show "\<forall>k. m k < 256"
  proof
    fix k
    have "?s k + ?s (4 + k) < 1024" using s [of k] s [of "4 + k"] by linarith
    then show "m k < 256" by (simp add: m_def add_ac less_mult_imp_div_less)
  qed
qed

lemma packed_means:
  assumes "\<forall>n \<in> set [a, b, c, d, e, f, g, h]. n < 256"
  shows "take 4 (packus_epi16 (l16 [a, b, c, d, e, f, g, h]) (l16 [a, b, c, d, e, f, g, h])) = map word_of_nat [a, b, c, d]"
    "take 2 (packus_epi16 (l16 [a, b, c, d, e, f, g, h]) (l16 [a, b, c, d, e, f, g, h])) = map word_of_nat [a, b]"
    "take 2 (drop 2 (packus_epi16 (l16 [a, b, c, d, e, f, g, h]) (l16 [a, b, c, d, e, f, g, h]))) = map word_of_nat [c, d]"
  by (subst packus_l16; use assms in simp)+

lemma pack_means:
  assumes "length line1 = 16" "length line2 = 16"
  shows "pack_ch_1plane uv pos line1 line2 (set1_epi16 0x00FF) =
      poke uv pos [mean 0 line1 line2, mean 2 line1 line2, mean 8 line1 line2, mean 10 line1 line2]"
    "pack_ch_2plane u v pos line1 line2 (set1_epi16 0x00FF) =
      do { u \<leftarrow> poke u pos [mean 0 line1 line2, mean 8 line1 line2]; v \<leftarrow> poke v pos [mean 2 line1 line2, mean 10 line1 line2]; Some (u, v) }"
proof -
  define m where "m k = (unat (line1 ! k) + unat (line2 ! k) + unat (line1 ! (4 + k)) + unat (line2 ! (4 + k))) div 4" for k
  have mean: "mean k line1 line2 = word_of_nat (m k)" for k by (simp add: m_def mean_def)
  have "m k < 256" for k unfolding m_def using averages(2) [OF assms] by blast
  then have lt: "\<forall>n \<in> set [m 0, m 2, m 8, m 10, m 0, m 2, m 8, m 10]. n < 256" "\<forall>n \<in> set [m 0, m 8, m 2, m 10, m 0, m 2, m 8, m 10]. n < 256"
    by simp_all
  note avg = averages(1) [OF assms, folded m_def]
  show "pack_ch_1plane uv pos line1 line2 (set1_epi16 0x00FF) =
      poke uv pos [mean 0 line1 line2, mean 2 line1 line2, mean 8 line1 line2, mean 10 line1 line2]"
    unfolding pack_ch_1plane_def Let_def avg packed_means [OF lt(1)] mean list.map ..
  show "pack_ch_2plane u v pos line1 line2 (set1_epi16 0x00FF) =
      do { u \<leftarrow> poke u pos [mean 0 line1 line2, mean 8 line1 line2]; v \<leftarrow> poke v pos [mean 2 line1 line2, mean 10 line1 line2]; Some (u, v) }"
    unfolding pack_ch_2plane_def Let_def avg shuffles_l16 packed_means [OF lt(2)] mean list.map ..
qed


subsection \<open>Planes that are filled step by step\<close>

lemma step_loop_total:
  assumes "0 < step" "i \<le> n" "step dvd (n - i)" "I i s"
    and "\<And>j s. i \<le> j \<Longrightarrow> j < n \<Longrightarrow> step dvd (j - i) \<Longrightarrow> I j s \<Longrightarrow> \<exists>s'. body j s = Some s' \<and> I (j + step) s'"
  shows "\<exists>s'. step_loop step i n body s = Some s' \<and> I n s'"
  using assms
proof (induction step i n body s rule: step_loop.induct)
  case (1 step i n body s)
  show ?case
  proof (cases "i < n")
    case True
    obtain s' where s': "body i s = Some s'" "I (i + step) s'" using 1(6) [of i s] 1(5) True by auto
    have le: "step \<le> n - i" using 1(4) True by (intro dvd_imp_le) auto
    have d: "step dvd (n - (i + step))" using dvd_diff_nat [OF 1(4) dvd_refl] by simp
    have "\<exists>s''. step_loop step (i + step) n body s' = Some s'' \<and> I n s''"
    proof (rule 1(1))
      fix j s assume a: "i + step \<le> j" "j < n" "step dvd (j - (i + step))" "I j s"
      have "j - i = (j - (i + step)) + step" using a(1) by simp
      then have "step dvd (j - i)" using dvd_add [OF a(3) dvd_refl] by simp
      then show "\<exists>s'. body j s = Some s' \<and> I (j + step) s'" using 1(6) [of j s] a by simp
    qed (use s' le d 1(2) True in auto)
    then show ?thesis using s' True 1(2) by (simp add: step_loop.simps [of step i])
  next
    case False
    then show ?thesis using 1(3,5) by (simp add: step_loop.simps)
  qed
qed

definition painted :: "(nat \<Rightarrow> byte) \<Rightarrow> (nat \<Rightarrow> bool) \<Rightarrow> byte list \<Rightarrow> byte list \<Rightarrow> bool" where
  "painted g P plane0 plane \<longleftrightarrow> length plane = length plane0 \<and> (\<forall>i < length plane0. plane ! i = (if P i then g i else plane0 ! i))"

lemma painted_start: "(\<And>i. \<not> P i) \<Longrightarrow> painted g P plane plane"
  by (simp add: painted_def)

lemma painted_poke:
  assumes "painted g P plane0 plane" "pos + length xs \<le> length plane0" "\<And>i. i < length xs \<Longrightarrow> xs ! i = g (pos + i)"
    and "\<And>i. Q i \<longleftrightarrow> P i \<or> (pos \<le> i \<and> i < pos + length xs)"
  shows "\<exists>plane'. poke plane pos xs = Some plane' \<and> painted g Q plane0 plane'"
proof -
  have l: "pos + length xs \<le> length plane" using assms(1,2) by (simp add: painted_def)
  have "blit plane pos xs ! i = (if Q i then g i else plane0 ! i)" if "i < length plane0" for i
    using assms(1) assms(3) [of "i - pos"] assms(4) [of i] l that by (auto simp: splice_simps painted_def)
  then have "painted g Q plane0 (blit plane pos xs)"
    using assms(1) l by (simp add: painted_def splice_simps)
  then show ?thesis using l by (simp add: poke_def)
qed

lemma painted_cong: "painted g P plane0 plane \<Longrightarrow> (\<And>i. P i \<longleftrightarrow> Q i) \<Longrightarrow> painted g Q plane0 plane"
  by (simp add: painted_def)

text \<open>Rows \<open>a\<close> to \<open>y\<close> up to the width \<open>w\<close>, and \<open>h\<close> more rows up to the column \<open>x\<close>.\<close>

definition area :: "nat \<Rightarrow> nat \<Rightarrow> nat \<Rightarrow> nat \<Rightarrow> nat \<Rightarrow> nat \<Rightarrow> nat \<Rightarrow> bool" where
  "area l w a y h x i \<longleftrightarrow> (a \<le> i div l \<and> i div l < y \<and> i mod l < w) \<or> (y \<le> i div l \<and> i div l < y + h \<and> i mod l < x)"

lemma at_row: "x + n \<le> l \<Longrightarrow> (i div l = y \<and> x \<le> i mod l \<and> i mod l < x + n) \<longleftrightarrow> (y * l + x \<le> i \<and> i < y * l + x + n)" for i l x n y :: nat
proof (cases "l = 0")
  case False
  assume n: "x + n \<le> l"
  show ?thesis
  proof
    assume "i div l = y \<and> x \<le> i mod l \<and> i mod l < x + n"
    then show "y * l + x \<le> i \<and> i < y * l + x + n" using div_mult_mod_eq [of i l] by (metis add_less_cancel_left add_le_cancel_left group_cancel.add1 add.assoc)
  next
    assume a: "y * l + x \<le> i \<and> i < y * l + x + n"
    define r where "r = i - y * l"
    have r: "i = y * l + r" "x \<le> r" "r < x + n" "r < l" using a n by (auto simp: r_def)
    then show "i div l = y \<and> x \<le> i mod l \<and> i mod l < x + n" using False by simp
  qed
qed simp

lemma area_next_rows: "area l w a y h w i \<longleftrightarrow> area l w a (y + h) h' 0 i" if "a \<le> y"
  using that by (auto simp: area_def)

lemma area_start: "\<not> area l w a a h 0 i"
  by (auto simp: area_def)

lemma area_one_row:
  assumes "x + n \<le> l"
  shows "area l w a y 1 (x + n) i \<longleftrightarrow> area l w a y 1 x i \<or> (y * l + x \<le> i \<and> i < y * l + x + n)"
  unfolding at_row [OF assms, symmetric] area_def by linarith

lemma area_two_rows:
  assumes "x + n \<le> l"
  shows "area l w a y 2 (x + n) i \<longleftrightarrow> (area l w a y 2 x i \<or> (y * l + x \<le> i \<and> i < y * l + x + n)) \<or>
    ((y + 1) * l + x \<le> i \<and> i < (y + 1) * l + x + n)"
  unfolding at_row [OF assms, symmetric] area_def by linarith

lemma area_all: "area l w a b h 0 i \<longleftrightarrow> a \<le> i div l \<and> i div l < b \<and> i mod l < w"
  by (auto simp: area_def)

lemma painted_next:
  assumes "painted g (area l0 l0 start_y y 2 l0) plane0 plane" "start_y \<le> y"
  shows "painted g (area l0 l0 start_y (y + 2) 2 0) plane0 plane"
  by (rule painted_cong [OF assms(1)]) (rule area_next_rows [OF assms(2)])

lemma painted_next_chroma:
  assumes "painted g (area l1 w (start_y div 2) (y div 2) 1 w) plane0 plane" "start_y \<le> y"
  shows "painted g (area l1 w (start_y div 2) ((y + 2) div 2) 1 0) plane0 plane"
  using painted_cong [OF assms(1) area_next_rows [of "start_y div 2" "y div 2" l1 w 1 _ 1]] assms(2) by (simp add: div_le_mono)

text \<open>A plane filled from row \<open>a\<close> to row \<open>b\<close> up to the width \<open>w\<close>, and otherwise unchanged.\<close>

definition filled :: "byte list \<Rightarrow> byte list \<Rightarrow> nat \<Rightarrow> nat \<Rightarrow> nat \<Rightarrow> nat \<Rightarrow> (nat \<Rightarrow> byte) \<Rightarrow> bool" where
  "filled plane plane' l w a b g \<longleftrightarrow> length plane' = length plane \<and>
     (\<forall>i < length plane. plane' ! i = (if a \<le> i div l \<and> i div l < b \<and> i mod l < w then g i else plane ! i))"

lemma painted_filled: "painted g (area l w a b h 0) plane plane' \<Longrightarrow> filled plane plane' l w a b g"
  by (simp add: painted_def filled_def area_all)


lemma filled_all: "filled plane plane' l l 0 b g \<Longrightarrow> length plane = b * l \<Longrightarrow> plane' = map g [0 ..< b * l]"
proof (rule nth_equalityI)
  assume f: "filled plane plane' l l 0 b g" "length plane = b * l"
  then show "length plane' = length (map g [0 ..< b * l])" by (simp add: filled_def)
  fix i assume "i < length plane'"
  then have i: "i < b * l" using f by (simp add: filled_def)
  then have "0 < l" by (cases l) auto
  then have "i div l < b" "i mod l < l" using i by (simp_all add: less_mult_imp_div_less)
  then show "plane' ! i = map g [0 ..< b * l] ! i" using f i by (simp add: filled_def)
qed

lemma u32_small [simp]: "n < 4294967296 \<Longrightarrow> u32 n = n"
  by (simp add: u32_def)

end
