(* ===== verification/Picture_Packing.thy ===== *)
theory Picture_Packing
  imports Format_Conversion
begin

text \<open>
  What the packing functions of \<open>Format_Conversion\<close> write: \<open>sample\<close> and \<open>mean_sample\<close> state the planes pixel by pixel, and
  the loops are shown to paint them block by block, by the invariants of \<open>picture_loops\<close>.
\<close>

subsection \<open>Pictures\<close>

text \<open>The samples of a packed picture, and the mean of the samples of a square of two by two pixels.\<close>

definition sample :: "byte list \<Rightarrow> nat \<Rightarrow> nat \<Rightarrow> nat \<Rightarrow> nat \<Rightarrow> byte" where
  "sample input L y x k = input ! (y * L + 4 * x + k)"

definition mean_sample :: "byte list \<Rightarrow> nat \<Rightarrow> nat \<Rightarrow> nat \<Rightarrow> nat \<Rightarrow> byte" where
  "mean_sample input L y2 x2 k = word_of_nat
     ((unat (sample input L (2 * y2) (2 * x2) k) + unat (sample input L (2 * y2 + 1) (2 * x2) k) +
       unat (sample input L (2 * y2) (2 * x2 + 1) k) + unat (sample input L (2 * y2 + 1) (2 * x2 + 1) k)) div 4)"

text \<open>A picture that lies in its block, its rows cut into blocks of four by two pixels.\<close>

definition picture_ok :: "byte list \<Rightarrow> nat \<Rightarrow> nat \<Rightarrow> nat \<Rightarrow> nat \<Rightarrow> bool" where
  "picture_ok input L start_y end_y l0 \<longleftrightarrow> 4 * l0 \<le> L \<and> end_y * L \<le> length input \<and> end_y * L < 2 ^ 32 \<and>
     even start_y \<and> even end_y \<and> start_y \<le> end_y \<and> 4 dvd l0"

lemma picture_rows:
  assumes "picture_ok input L start_y end_y l0" "y < end_y" "even y" "x + 4 \<le> l0"
  shows "(y + 1) * L + 4 * x + 16 \<le> length input" "y * L + 4 * x + 16 \<le> length input" "(y + 1) * L + 4 * x + 16 < 2 ^ 32 + L"
    "y * L < 2 ^ 32" "4 * x < 2 ^ 32" "(y + 1) * l0 + x + 4 \<le> end_y * l0" "end_y * l0 < 2 ^ 32" "y + 2 \<le> end_y"
proof -
  have p: "4 * l0 \<le> L" "end_y * L \<le> length input" "end_y * L < 2 ^ 32" "even end_y" using assms(1) by (auto simp: picture_ok_def)
  show y2: "y + 2 \<le> end_y" using assms(2,3) p(4) by (metis Suc_leI add_2_eq_Suc' dvd_0_right even_Suc le_neq_implies_less less_eq_Suc_le)
  then have "(y + 2) * L \<le> end_y * L" "(y + 2) * l0 \<le> end_y * l0" by (simp_all only: mult_le_mono1)
  moreover have e: "end_y * l0 \<le> end_y * L" by (rule mult_le_mono2) (use p(1) in simp)
  show "end_y * l0 < 2 ^ 32" using e p(3) by (rule le_less_trans)
  ultimately show "(y + 1) * L + 4 * x + 16 \<le> length input" "y * L + 4 * x + 16 \<le> length input" "(y + 1) * L + 4 * x + 16 < 2 ^ 32 + L"
    "y * L < 2 ^ 32" "(y + 1) * l0 + x + 4 \<le> end_y * l0"
    using p assms(4) by (auto simp: algebra_simps)
  have "1 * L \<le> end_y * L" by (rule mult_le_mono1) (use y2 in simp)
  then have "4 * x < end_y * L" using p(1) assms(4) by linarith
  then show "4 * x < 2 ^ 32" using p(3) by (rule less_trans)
qed

lemma column_sample:
  assumes "pos = y * L + 4 * x" "pos + 16 \<le> length input" "j < 4" "k < 4"
  shows "column k (segment input pos 16) ! j = sample input L y (x + j) k"
proof -
  have "segment input pos 16 ! (4 * j + k) = input ! (pos + (4 * j + k))" using assms by (simp add: splice_simps)
  moreover have "column k (segment input pos 16) ! j = segment input pos 16 ! (4 * j + k)"
    using assms(3) by (auto simp: column_def less_Suc_eq numeral_eq_Suc nth_Cons')
  ultimately show ?thesis by (simp add: sample_def assms(1) algebra_simps)
qed

lemma mean_mean_sample:
  assumes "pos1 = y * L + 4 * x" "pos2 = (y + 1) * L + 4 * x" "pos1 + 16 \<le> length input" "pos2 + 16 \<le> length input" "even y" "even x"
    "c < 2" "k < 4"
  shows "mean (8 * c + k) (segment input pos1 16) (segment input pos2 16) = mean_sample input L (y div 2) (x div 2 + c) k"
proof -
  have e: "2 * (y div 2) = y" "2 * (x div 2 + c) = x + 2 * c" using assms(5,6) by simp_all
  have "8 * c + k < 16" "4 + (8 * c + k) < 16" using assms(7,8) by auto
  then show ?thesis
    using assms(1-4) unfolding mean_def mean_sample_def e sample_def
    by (simp add: splice_simps) (simp add: algebra_simps)
qed

text \<open>One plane of full resolution, four columns of two rows.\<close>

lemma paint_columns:
  assumes pic: "picture_ok input L start_y end_y l0" and y: "y < end_y" "even y" and x: "x + 4 \<le> l0" and k: "k < 4"
    and p: "painted (\<lambda>i. sample input L (i div l0) (i mod l0) k) (area l0 l0 start_y y 2 x) plane0 plane" "end_y * l0 \<le> length plane0"
  shows "\<exists>plane'. do { plane \<leftarrow> poke plane (y * l0 + x) (column k (segment input (y * L + 4 * x) 16));
      poke plane (y * l0 + x + l0) (column k (segment input (y * L + 4 * x + L) 16)) } = Some plane' \<and>
    painted (\<lambda>i. sample input L (i div l0) (i mod l0) k) (area l0 l0 start_y y 2 (x + 4)) plane0 plane'"
proof -
  note r = picture_rows [OF pic y x]
  let ?g = "\<lambda>i. sample input L (i div l0) (i mod l0) k"
  let ?c1 = "column k (segment input (y * L + 4 * x) 16)" let ?c2 = "column k (segment input (y * L + 4 * x + L) 16)"
  have l: "length ?c1 = 4" "length ?c2 = 4" by (simp_all add: column_def)
  have g: "?g (y' * l0 + x + j) = sample input L y' (x + j) k" if "j < 4" for y' j
    using at_row [of x 4 l0 "y' * l0 + x + j" y'] that x by (auto simp: add.assoc)
  obtain plane1 where p1: "poke plane (y * l0 + x) ?c1 = Some plane1"
    "painted ?g (\<lambda>i. area l0 l0 start_y y 2 x i \<or> (y * l0 + x \<le> i \<and> i < y * l0 + x + 4)) plane0 plane1"
    using painted_poke [OF p(1), of "y * l0 + x" ?c1 "\<lambda>i. area l0 l0 start_y y 2 x i \<or> (y * l0 + x \<le> i \<and> i < y * l0 + x + 4)"]
      column_sample [OF refl r(2) _ k] g [of _ y] l r(6) p(2) by auto
  have pos: "y * L + 4 * x + L = (y + 1) * L + 4 * x" "y * l0 + x + l0 = (y + 1) * l0 + x" by (simp_all add: algebra_simps)
  obtain plane2 where p2: "poke plane1 (y * l0 + x + l0) ?c2 = Some plane2" "painted ?g (area l0 l0 start_y y 2 (x + 4)) plane0 plane2"
    using painted_poke [OF p1(2), of "(y + 1) * l0 + x" ?c2 "area l0 l0 start_y y 2 (x + 4)"]
      column_sample [OF pos(1) r(1) [folded pos(1)] _ k] g [of _ "y + 1"] l r(6) p(2) area_two_rows [OF x, of l0 start_y y]
    unfolding pos(2) by auto
  show ?thesis using p1 p2 by auto
qed


text \<open>The chroma of a block: interleaved samples, or two samples of one plane.\<close>

lemma chroma_row:
  assumes "y < end_y" "even y" "even end_y" "end_y div 2 * l1 \<le> n" "x + k \<le> l1"
  shows "y div 2 * l1 + x + k \<le> (n :: nat)"
proof -
  have "(y div 2 + 1) * l1 \<le> end_y div 2 * l1" by (rule mult_le_mono1) (use assms(1-3) in auto)
  then show ?thesis using assms(4,5) by (simp add: algebra_simps)
qed

lemma means_sample:
  assumes pic: "picture_ok input L start_y end_y l0" and y: "y < end_y" "even y" and x: "x + 4 \<le> l0" "even x" and ck: "c < 2" "k < 4"
  shows "mean (8 * c + k) (segment input (y * L + 4 * x) 16) (segment input (y * L + 4 * x + L) 16) =
    mean_sample input L (y div 2) (x div 2 + c) k"
proof -
  note r = picture_rows [OF pic y x(1)]
  have pos: "y * L + 4 * x + L = (y + 1) * L + 4 * x" by (simp add: algebra_simps)
  have "y * L + 4 * x + L + 16 \<le> length input" using r(1) by (simp add: algebra_simps)
  then show ?thesis by (rule mean_mean_sample [OF refl pos r(2) _ y(2) x(2) ck])
qed

lemma paint_nv12:
  assumes pic: "picture_ok input L start_y end_y l0" and y: "y < end_y" "even y" and x: "x + 4 \<le> l0" "4 dvd x" and w: "l0 \<le> l1"
    and p: "painted (\<lambda>i. mean_sample input L (i div l1) (i mod l1 div 2) (2 * (i mod l1 mod 2))) (area l1 l0 (start_y div 2) (y div 2) 1 x) plane0 plane"
      "end_y div 2 * l1 \<le> length plane0"
  defines "line1 \<equiv> segment input (y * L + 4 * x) 16" and "line2 \<equiv> segment input (y * L + 4 * x + L) 16"
  shows "\<exists>plane'. poke plane (y div 2 * l1 + x) [mean 0 line1 line2, mean 2 line1 line2, mean 8 line1 line2, mean 10 line1 line2] = Some plane' \<and>
    painted (\<lambda>i. mean_sample input L (i div l1) (i mod l1 div 2) (2 * (i mod l1 mod 2))) (area l1 l0 (start_y div 2) (y div 2) 1 (x + 4)) plane0 plane'"
proof (rule painted_poke [OF p(1)])
  have e: "even x" using x(2) by (metis dvd_trans even_numeral)
  have m: "mean 0 line1 line2 = mean_sample input L (y div 2) (x div 2) 0" "mean 2 line1 line2 = mean_sample input L (y div 2) (x div 2) 2"
    "mean 8 line1 line2 = mean_sample input L (y div 2) (x div 2 + 1) 0" "mean 10 line1 line2 = mean_sample input L (y div 2) (x div 2 + 1) 2"
    using means_sample [OF pic y x(1) e, of 0 0] means_sample [OF pic y x(1) e, of 0 2] means_sample [OF pic y x(1) e, of 1 0]
      means_sample [OF pic y x(1) e, of 1 2] by (simp_all add: line1_def line2_def numeral_2_eq_2)
  have even_end: "even end_y" using pic by (simp add: picture_ok_def)
  show "y div 2 * l1 + x + length [mean 0 line1 line2, mean 2 line1 line2, mean 8 line1 line2, mean 10 line1 line2] \<le> length plane0"
    using chroma_row [OF y even_end p(2), of x 4] x(1) w by simp
  fix j assume "j < length [mean 0 line1 line2, mean 2 line1 line2, mean 8 line1 line2, mean 10 line1 line2]"
  then have j: "j < 4" by simp
  have a: "(y div 2 * l1 + x + j) div l1 = y div 2" "(y div 2 * l1 + x + j) mod l1 = x + j"
    using at_row [of x 4 l1 "y div 2 * l1 + x + j" "y div 2"] x(1) w j by (auto simp: add.assoc)
  have b: "(x + j) div 2 = x div 2 + j div 2" "(x + j) mod 2 = j mod 2" using e by (auto elim!: evenE)
  have "j = 0 \<or> j = 1 \<or> j = 2 \<or> j = 3" using j by auto
  then show "[mean 0 line1 line2, mean 2 line1 line2, mean 8 line1 line2, mean 10 line1 line2] ! j =
      mean_sample input L ((y div 2 * l1 + x + j) div l1) ((y div 2 * l1 + x + j) mod l1 div 2) (2 * ((y div 2 * l1 + x + j) mod l1 mod 2))"
    unfolding a b by (elim disjE) (simp_all add: m)
next
  fix i
  show "area l1 l0 (start_y div 2) (y div 2) 1 (x + 4) i \<longleftrightarrow> area l1 l0 (start_y div 2) (y div 2) 1 x i \<or>
      (y div 2 * l1 + x \<le> i \<and> i < y div 2 * l1 + x + length [mean 0 line1 line2, mean 2 line1 line2, mean 8 line1 line2, mean 10 line1 line2])"
    using area_one_row [of x 4 l1] x(1) w by (simp add: numeral_eq_Suc)
qed

lemma paint_i420:
  assumes pic: "picture_ok input L start_y end_y l0" and y: "y < end_y" "even y" and x: "x + 4 \<le> l0" "4 dvd x" and w: "l0 div 2 \<le> l1" and k: "k < 4"
    and p: "painted (\<lambda>i. mean_sample input L (i div l1) (i mod l1) k) (area l1 (l0 div 2) (start_y div 2) (y div 2) 1 (x div 2)) plane0 plane"
      "end_y div 2 * l1 \<le> length plane0"
  defines "line1 \<equiv> segment input (y * L + 4 * x) 16" and "line2 \<equiv> segment input (y * L + 4 * x + L) 16"
  shows "\<exists>plane'. poke plane (y div 2 * l1 + x div 2) [mean k line1 line2, mean (8 + k) line1 line2] = Some plane' \<and>
    painted (\<lambda>i. mean_sample input L (i div l1) (i mod l1) k) (area l1 (l0 div 2) (start_y div 2) (y div 2) 1 (x div 2 + 2)) plane0 plane'"
proof (rule painted_poke [OF p(1)])
  have e: "even x" using x(2) by (metis dvd_trans even_numeral)
  have x2: "x div 2 + 2 \<le> l1" using x(1) w e by auto
  have m: "mean k line1 line2 = mean_sample input L (y div 2) (x div 2) k" "mean (8 + k) line1 line2 = mean_sample input L (y div 2) (x div 2 + 1) k"
    using means_sample [OF pic y x(1) e _ k, of 0] means_sample [OF pic y x(1) e _ k, of 1] by (simp_all add: line1_def line2_def)
  have even_end: "even end_y" using pic by (simp add: picture_ok_def)
  show "y div 2 * l1 + x div 2 + length [mean k line1 line2, mean (8 + k) line1 line2] \<le> length plane0"
    using chroma_row [OF y even_end p(2) x2] by simp
  fix j assume "j < length [mean k line1 line2, mean (8 + k) line1 line2]"
  then have j: "j < 2" by simp
  have a: "(y div 2 * l1 + x div 2 + j) div l1 = y div 2" "(y div 2 * l1 + x div 2 + j) mod l1 = x div 2 + j"
    using at_row [of "x div 2" 2 l1 "y div 2 * l1 + x div 2 + j" "y div 2"] x2 j by (auto simp: add.assoc)
  have "j = 0 \<or> j = 1" using j by auto
  then show "[mean k line1 line2, mean (8 + k) line1 line2] ! j =
      mean_sample input L ((y div 2 * l1 + x div 2 + j) div l1) ((y div 2 * l1 + x div 2 + j) mod l1) k"
    unfolding a by (elim disjE) (simp_all add: m)
next
  fix i
  have "x div 2 + 2 \<le> l1" using x w by auto
  then show "area l1 (l0 div 2) (start_y div 2) (y div 2) 1 (x div 2 + 2) i \<longleftrightarrow> area l1 (l0 div 2) (start_y div 2) (y div 2) 1 (x div 2) i \<or>
      (y div 2 * l1 + x div 2 \<le> i \<and> i < y div 2 * l1 + x div 2 + length [mean k line1 line2, mean (8 + k) line1 line2])"
    using area_one_row [of "x div 2" 2 l1] by (simp add: numeral_eq_Suc)
qed

text \<open>The loads of a block.\<close>

lemma loads:
  assumes pic: "picture_ok input L start_y end_y l0" and y: "y < end_y" "even y" and x: "x + 4 \<le> l0"
  shows "load_si128 input (u32 (y * L) + u32 (x * 4)) = Some (segment input (y * L + 4 * x) 16)"
    "load_si128 input (u32 (y * L) + u32 (x * 4) + L) = Some (segment input (y * L + 4 * x + L) 16)"
    "u32 (u32 (y * l0) + x) = y * l0 + x" "u32 (y * l0 + x + l0) = y * l0 + x + l0"
    "length (segment input (y * L + 4 * x) 16) = 16" "length (segment input (y * L + 4 * x + L) 16) = 16"
proof -
  note r = picture_rows [OF pic y x]
  have s: "y * L < 4294967296" "x * 4 < 4294967296" "y * l0 < 4294967296" "y * l0 + x < 4294967296" "y * l0 + x + l0 < 4294967296"
    using r by (auto simp: algebra_simps)
  show "load_si128 input (u32 (y * L) + u32 (x * 4)) = Some (segment input (y * L + 4 * x) 16)"
    using r(2) s by (simp add: load_si128_def peek_def mult.commute)
  show "load_si128 input (u32 (y * L) + u32 (x * 4) + L) = Some (segment input (y * L + 4 * x + L) 16)"
    using r(1) s by (simp add: load_si128_def peek_def algebra_simps)
  show "u32 (u32 (y * l0) + x) = y * l0 + x" "u32 (y * l0 + x + l0) = y * l0 + x + l0" using s by simp_all
  show "length (segment input (y * L + 4 * x) 16) = 16" "length (segment input (y * L + 4 * x + L) 16) = 16"
    using r(1,2) by (auto simp: splice_simps algebra_simps)
qed

subsection \<open>The loops over a picture\<close>

lemma picture_width: "picture_ok input L start_y end_y l0 \<Longrightarrow> min_uint32 L l0 = l0"
  by (auto simp: picture_ok_def min_uint32_def)

lemma picture_loops:
  assumes pic: "picture_ok input L start_y end_y l0" and init: "I start_y 0 s"
    and body: "\<And>y x s. y < end_y \<Longrightarrow> even y \<Longrightarrow> start_y \<le> y \<Longrightarrow> x + 4 \<le> l0 \<Longrightarrow> 4 dvd x \<Longrightarrow> I y x s \<Longrightarrow> \<exists>s'. body y x s = Some s' \<and> I y (x + 4) s'"
    and row_end: "\<And>y s. y < end_y \<Longrightarrow> even y \<Longrightarrow> start_y \<le> y \<Longrightarrow> I y l0 s \<Longrightarrow> I (y + 2) 0 s"
  shows "\<exists>s'. step_loop 2 start_y end_y (\<lambda>y s. step_loop 4 0 l0 (body y) s) s = Some s' \<and> I end_y 0 s'"
proof (rule step_loop_total [where I = "\<lambda>y s. I y 0 s"])
  have p: "even start_y" "even end_y" "start_y \<le> end_y" "4 dvd l0" using pic by (auto simp: picture_ok_def)
  then show "start_y \<le> end_y" "2 dvd (end_y - start_y)" "(0 :: nat) < 2" by auto
  fix y s assume y: "start_y \<le> y" "y < end_y" "2 dvd (y - start_y)" "I y 0 s"
  then have ey: "even y" using p(1) by auto
  have "\<exists>s'. step_loop 4 0 l0 (body y) s = Some s' \<and> I y l0 s'"
  proof (rule step_loop_total [where I = "I y"])
    fix x s assume x: "0 \<le> x" "x < l0" "4 dvd (x - 0)" "I y x s"
    have "4 dvd (l0 - x)" using p(4) x(3) by (simp add: dvd_diff_nat)
    then have "x + 4 \<le> l0" using x(2) by (auto dest!: dvd_imp_le)
    then show "\<exists>s'. body y x s = Some s' \<and> I y (x + 4) s'" using body [of y x s] y ey x by simp
  qed (use y(4) p(4) in auto)
  then show "\<exists>s'. step_loop 4 0 l0 (body y) s = Some s' \<and> I (y + 2) 0 s'" using row_end y ey by blast
qed (rule init)

lemma chroma_u32:
  assumes "picture_ok input L start_y end_y l0" "y < end_y" "even y" "x + k \<le> l1" "end_y div 2 * l1 < 2 ^ 32" "0 < k"
  shows "u32 (u32 (y div 2 * l1) + x) = y div 2 * l1 + x"
proof -
  have "y div 2 * l1 + x + k \<le> end_y div 2 * l1"
    using chroma_row [of y end_y l1 "end_y div 2 * l1" x k] assms by (simp add: picture_ok_def)
  then show ?thesis using assms(5,6) by simp
qed

definition lum_sample :: "byte list \<Rightarrow> nat \<Rightarrow> nat \<Rightarrow> nat \<Rightarrow> nat \<Rightarrow> byte" where
  "lum_sample input L l0 k i = sample input L (i div l0) (i mod l0) k"

definition nv12_sample :: "byte list \<Rightarrow> nat \<Rightarrow> nat \<Rightarrow> nat \<Rightarrow> byte" where
  "nv12_sample input L l1 i = mean_sample input L (i div l1) (i mod l1 div 2) (2 * (i mod l1 mod 2))"

definition chroma_sample :: "byte list \<Rightarrow> nat \<Rightarrow> nat \<Rightarrow> nat \<Rightarrow> nat \<Rightarrow> byte" where
  "chroma_sample input L l1 k i = mean_sample input L (i div l1) (i mod l1) k"

text \<open>C20: Packing to NV12 with SSE2 instructions gives what a loop over the pixels would give: the luma plane holds the second byte of every
  pixel, the chroma plane alternately the means of the first and of the third bytes of each square of four pixels, and nothing
  outside the rows and the width of the picture is written.\<close>

theorem compress_nv12_correct:
  assumes pic: "picture_ok input L start_y end_y l0" and w: "l0 \<le> l1" "end_y * l0 \<le> length lum" "end_y div 2 * l1 \<le> length chroma"
    "end_y div 2 * l1 < 2 ^ 32"
  shows "\<exists>lum' chroma'. compress_uyvx_to_nv12 input L start_y end_y (lum, chroma) (l0, l1) = Some (lum', chroma') \<and>
    filled lum lum' l0 l0 start_y end_y (lum_sample input L l0 1) \<and>
    filled chroma chroma' l1 l0 (start_y div 2) (end_y div 2) (nv12_sample input L l1)"
proof -
  let ?gl = "lum_sample input L l0 1" let ?gc = "nv12_sample input L l1"
  let ?I = "\<lambda>y x (lum', chroma'). painted ?gl (area l0 l0 start_y y 2 x) lum lum' \<and>
    painted ?gc (area l1 l0 (start_y div 2) (y div 2) 1 x) chroma chroma'"
  let ?body = "\<lambda>y x (lum_plane, chroma_plane).
          let img = u32 (y * L) + u32 (x * 4);
              lum_pos0 = u32 (u32 (y * l0) + x);
              lum_pos1 = u32 (lum_pos0 + l0)
          in do {
            line1 \<leftarrow> load_si128 input img;
            line2 \<leftarrow> load_si128 input (img + L);
            lum_plane \<leftarrow> pack_shift lum_plane lum_pos0 lum_pos1 line1 line2 (set1_epi32 0x0000FF00) 1;
            chroma_plane \<leftarrow> pack_ch_1plane chroma_plane (u32 (u32 (y div 2 * l1) + x)) line1 line2 (set1_epi16 0x00FF);
            Some (lum_plane, chroma_plane) }"
  have "\<exists>s'. step_loop 2 start_y end_y (\<lambda>y s. step_loop 4 0 l0 (?body y) s) (lum, chroma) = Some s' \<and> ?I end_y 0 s'"
  proof (rule picture_loops [OF pic, where I = ?I])
    show "?I start_y 0 (lum, chroma)" by (simp add: painted_start area_start)
  next
    fix y x s assume yx: "y < end_y" "even y" "start_y \<le> y" "x + 4 \<le> l0" "4 dvd x" and I: "?I y x s"
    obtain lum1 ch1 where s: "s = (lum1, ch1)" by (cases s)
    note ld = loads [OF pic yx(1,2,4)]
    have c: "u32 (u32 (y div 2 * l1) + x) = y div 2 * l1 + x" by (rule chroma_u32 [OF pic yx(1,2), of x 4]) (use yx(4) w in auto)
    obtain lum2 where l2: "do { plane \<leftarrow> poke lum1 (y * l0 + x) (column 1 (segment input (y * L + 4 * x) 16));
        poke plane (y * l0 + x + l0) (column 1 (segment input (y * L + 4 * x + L) 16)) } = Some lum2"
      "painted ?gl (area l0 l0 start_y y 2 (x + 4)) lum lum2"
      using paint_columns [OF pic yx(1,2,4), of 1 lum lum1] I s w(2) by (auto simp: lum_sample_def [abs_def])
    obtain ch2 where c2: "poke ch1 (y div 2 * l1 + x)
        [mean 0 (segment input (y * L + 4 * x) 16) (segment input (y * L + 4 * x + L) 16),
         mean 2 (segment input (y * L + 4 * x) 16) (segment input (y * L + 4 * x + L) 16),
         mean 8 (segment input (y * L + 4 * x) 16) (segment input (y * L + 4 * x + L) 16),
         mean 10 (segment input (y * L + 4 * x) 16) (segment input (y * L + 4 * x + L) 16)] = Some ch2"
      "painted ?gc (area l1 l0 (start_y div 2) (y div 2) 1 (x + 4)) chroma ch2"
      using paint_nv12 [OF pic yx(1,2,4,5) w(1), of chroma ch1] I s w(3) by (auto simp: nv12_sample_def [abs_def])
    have "?body y x s = Some (lum2, ch2)"
      unfolding s prod.case Let_def ld(1-4) Option.bind.simps pack_columns [OF ld(5,6)] pack_means [OF ld(5,6)] c l2(1) c2(1) ..
    then show "\<exists>s'. ?body y x s = Some s' \<and> ?I y (x + 4) s'" using l2(2) c2(2) by simp
  next
    fix y s assume "y < end_y" "even y" "start_y \<le> y" "?I y l0 s"
    then show "?I (y + 2) 0 s"
      by (cases s) (simp only: prod.case, blast intro: painted_next painted_next_chroma)
  qed
  then show ?thesis
    unfolding compress_uyvx_to_nv12_def prod.case Let_def picture_width [OF pic]
    by (auto dest: painted_filled)
qed


text \<open>Packing to I420 fills the luma plane with the second byte of every pixel and the two chroma planes with the means of the first and of
  the third bytes of each square of four pixels.\<close>

theorem compress_i420_correct:
  assumes pic: "picture_ok input L start_y end_y l0" and w: "l0 div 2 \<le> l1" "end_y * l0 \<le> length lum" "end_y div 2 * l1 \<le> length u"
    "end_y div 2 * l1 \<le> length v" "end_y div 2 * l1 < 2 ^ 32"
  shows "\<exists>lum' u' v'. compress_uyvx_to_i420 input L start_y end_y (lum, u, v) (l0, l1) = Some (lum', u', v') \<and>
    filled lum lum' l0 l0 start_y end_y (lum_sample input L l0 1) \<and>
    filled u u' l1 (l0 div 2) (start_y div 2) (end_y div 2) (chroma_sample input L l1 0) \<and>
    filled v v' l1 (l0 div 2) (start_y div 2) (end_y div 2) (chroma_sample input L l1 2)"
proof -
  let ?gl = "lum_sample input L l0 1" let ?gu = "chroma_sample input L l1 0" let ?gv = "chroma_sample input L l1 2"
  let ?I = "\<lambda>y x (lum', u', v'). painted ?gl (area l0 l0 start_y y 2 x) lum lum' \<and>
    painted ?gu (area l1 (l0 div 2) (start_y div 2) (y div 2) 1 (x div 2)) u u' \<and>
    painted ?gv (area l1 (l0 div 2) (start_y div 2) (y div 2) 1 (x div 2)) v v'"
  let ?body = "\<lambda>y x (lum_plane, u_plane, v_plane).
          let img = u32 (y * L) + u32 (x * 4);
              lum_pos0 = u32 (u32 (y * l0) + x);
              lum_pos1 = u32 (lum_pos0 + l0)
          in do {
            line1 \<leftarrow> load_si128 input img;
            line2 \<leftarrow> load_si128 input (img + L);
            lum_plane \<leftarrow> pack_shift lum_plane lum_pos0 lum_pos1 line1 line2 (set1_epi32 0x0000FF00) 1;
            (u_plane, v_plane) \<leftarrow> pack_ch_2plane u_plane v_plane (u32 (u32 (y div 2 * l1) + x div 2)) line1 line2 (set1_epi16 0x00FF);
            Some (lum_plane, u_plane, v_plane) }"
  have "\<exists>s'. step_loop 2 start_y end_y (\<lambda>y s. step_loop 4 0 l0 (?body y) s) (lum, u, v) = Some s' \<and> ?I end_y 0 s'"
  proof (rule picture_loops [OF pic, where I = ?I])
    show "?I start_y 0 (lum, u, v)" by (simp add: painted_start area_start)
  next
    fix y x s assume yx: "y < end_y" "even y" "start_y \<le> y" "x + 4 \<le> l0" "4 dvd x" and I: "?I y x s"
    obtain lum1 u1 v1 where s: "s = (lum1, u1, v1)" by (cases s)
    note ld = loads [OF pic yx(1,2,4)]
    have x2: "x div 2 + 2 \<le> l1" "(x + 4) div 2 = x div 2 + 2" using yx(4) w(1) by auto
    have c: "u32 (u32 (y div 2 * l1) + x div 2) = y div 2 * l1 + x div 2" by (rule chroma_u32 [OF pic yx(1,2) x2(1) w(5)]) simp
    obtain lum2 where l2: "do { plane \<leftarrow> poke lum1 (y * l0 + x) (column 1 (segment input (y * L + 4 * x) 16));
        poke plane (y * l0 + x + l0) (column 1 (segment input (y * L + 4 * x + L) 16)) } = Some lum2"
      "painted ?gl (area l0 l0 start_y y 2 (x + 4)) lum lum2"
      using paint_columns [OF pic yx(1,2,4), of 1 lum lum1] I s w(2) by (auto simp: lum_sample_def [abs_def])
    obtain u2 where u2: "poke u1 (y div 2 * l1 + x div 2)
        [mean 0 (segment input (y * L + 4 * x) 16) (segment input (y * L + 4 * x + L) 16),
         mean 8 (segment input (y * L + 4 * x) 16) (segment input (y * L + 4 * x + L) 16)] = Some u2"
      "painted ?gu (area l1 (l0 div 2) (start_y div 2) (y div 2) 1 ((x + 4) div 2)) u u2"
      using paint_i420 [OF pic yx(1,2,4,5) w(1), of 0 u u1] I s w(3) unfolding x2(2) by (auto simp: chroma_sample_def [abs_def])
    obtain v2 where v2: "poke v1 (y div 2 * l1 + x div 2)
        [mean 2 (segment input (y * L + 4 * x) 16) (segment input (y * L + 4 * x + L) 16),
         mean 10 (segment input (y * L + 4 * x) 16) (segment input (y * L + 4 * x + L) 16)] = Some v2"
      "painted ?gv (area l1 (l0 div 2) (start_y div 2) (y div 2) 1 ((x + 4) div 2)) v v2"
      using paint_i420 [OF pic yx(1,2,4,5) w(1), of 2 v v1] I s w(4) unfolding x2(2) by (auto simp: chroma_sample_def [abs_def])
    have "?body y x s = Some (lum2, u2, v2)"
      unfolding s prod.case Let_def ld(1-4) Option.bind.simps pack_columns [OF ld(5,6)] pack_means [OF ld(5,6)] c l2(1) u2(1) v2(1) ..
    then show "\<exists>s'. ?body y x s = Some s' \<and> ?I y (x + 4) s'" using l2(2) u2(2) v2(2) by simp
  next
    fix y s assume "y < end_y" "even y" "start_y \<le> y" "?I y l0 s"
    then show "?I (y + 2) 0 s"
      by (cases s) (simp only: prod.case div_0, blast intro: painted_next painted_next_chroma)
  qed
  then show ?thesis
    unfolding compress_uyvx_to_i420_def prod.case Let_def picture_width [OF pic]
    by (auto dest: painted_filled)
qed

text \<open>Unpacking to three planes of full resolution puts every byte of every pixel into its plane.\<close>

theorem convert_i444_correct:
  assumes pic: "picture_ok input L start_y end_y l0" and w: "end_y * l0 \<le> length lum" "end_y * l0 \<le> length u" "end_y * l0 \<le> length v"
  shows "\<exists>lum' u' v'. convert_uyvx_to_i444 input L start_y end_y (lum, u, v) l0 = Some (lum', u', v') \<and>
    filled lum lum' l0 l0 start_y end_y (lum_sample input L l0 1) \<and>
    filled u u' l0 l0 start_y end_y (lum_sample input L l0 0) \<and>
    filled v v' l0 l0 start_y end_y (lum_sample input L l0 2)"
proof -
  let ?g = "lum_sample input L l0"
  let ?I = "\<lambda>y x (lum', u', v'). painted (?g 1) (area l0 l0 start_y y 2 x) lum lum' \<and>
    painted (?g 0) (area l0 l0 start_y y 2 x) u u' \<and> painted (?g 2) (area l0 l0 start_y y 2 x) v v'"
  let ?body = "\<lambda>y x (lum_plane, u_plane, v_plane).
          let img = u32 (y * L) + u32 (x * 4);
              lum_pos0 = u32 (u32 (y * l0) + x);
              lum_pos1 = u32 (lum_pos0 + l0)
          in do {
            line1 \<leftarrow> load_si128 input img;
            line2 \<leftarrow> load_si128 input (img + L);
            lum_plane \<leftarrow> pack_shift lum_plane lum_pos0 lum_pos1 line1 line2 (set1_epi32 0x0000FF00) 1;
            u_plane \<leftarrow> pack_val u_plane lum_pos0 lum_pos1 line1 line2 (set1_epi32 0x000000FF);
            v_plane \<leftarrow> pack_shift v_plane lum_pos0 lum_pos1 line1 line2 (set1_epi32 0x00FF0000) 2;
            Some (lum_plane, u_plane, v_plane) }"
  have "\<exists>s'. step_loop 2 start_y end_y (\<lambda>y s. step_loop 4 0 l0 (?body y) s) (lum, u, v) = Some s' \<and> ?I end_y 0 s'"
  proof (rule picture_loops [OF pic, where I = ?I])
    show "?I start_y 0 (lum, u, v)" by (simp add: painted_start area_start)
  next
    fix y x s assume yx: "y < end_y" "even y" "start_y \<le> y" "x + 4 \<le> l0" "4 dvd x" and I: "?I y x s"
    obtain lum1 u1 v1 where s: "s = (lum1, u1, v1)" by (cases s)
    note ld = loads [OF pic yx(1,2,4)]
    note paint = paint_columns [OF pic yx(1,2,4)]
    obtain lum2 where l2: "do { plane \<leftarrow> poke lum1 (y * l0 + x) (column 1 (segment input (y * L + 4 * x) 16));
        poke plane (y * l0 + x + l0) (column 1 (segment input (y * L + 4 * x + L) 16)) } = Some lum2"
      "painted (?g 1) (area l0 l0 start_y y 2 (x + 4)) lum lum2"
      using paint [of 1 lum lum1] I s w(1) by (auto simp: lum_sample_def [abs_def])
    obtain u2 where u2: "do { plane \<leftarrow> poke u1 (y * l0 + x) (column 0 (segment input (y * L + 4 * x) 16));
        poke plane (y * l0 + x + l0) (column 0 (segment input (y * L + 4 * x + L) 16)) } = Some u2"
      "painted (?g 0) (area l0 l0 start_y y 2 (x + 4)) u u2"
      using paint [of 0 u u1] I s w(2) by (auto simp: lum_sample_def [abs_def])
    obtain v2 where v2: "do { plane \<leftarrow> poke v1 (y * l0 + x) (column 2 (segment input (y * L + 4 * x) 16));
        poke plane (y * l0 + x + l0) (column 2 (segment input (y * L + 4 * x + L) 16)) } = Some v2"
      "painted (?g 2) (area l0 l0 start_y y 2 (x + 4)) v v2"
      using paint [of 2 v v1] I s w(3) by (auto simp: lum_sample_def [abs_def])
    have "?body y x s = Some (lum2, u2, v2)"
      unfolding s prod.case Let_def ld(1-4) Option.bind.simps pack_columns [OF ld(5,6)] l2(1) u2(1) v2(1) ..
    then show "\<exists>s'. ?body y x s = Some s' \<and> ?I y (x + 4) s'" using l2(2) u2(2) v2(2) by simp
  next
    fix y s assume "y < end_y" "even y" "start_y \<le> y" "?I y l0 s"
    then show "?I (y + 2) 0 s"
      by (cases s) (simp only: prod.case, blast intro: painted_next)
  qed
  then show ?thesis
    unfolding convert_uyvx_to_i444_def prod.case Let_def picture_width [OF pic]
    by (auto dest: painted_filled)
qed


text \<open>A picture of four columns and two rows.\<close>

theorem compress_nv12_correct_witness:
  "\<exists>lum chroma. compress_uyvx_to_nv12 (map word_of_nat [0 ..< 32]) 16 0 2 (replicate 8 0, replicate 4 0) (4, 4) = Some (lum, chroma) \<and>
     lum = [1, 5, 9, 13, 17, 21, 25, 29] \<and> chroma = [10, 12, 18, 20]"
proof -
  let ?i = "map word_of_nat [0 ..< 32] :: byte list"
  obtain lum chroma where c: "compress_uyvx_to_nv12 ?i 16 0 2 (replicate 8 0, replicate 4 0) (4, 4) = Some (lum, chroma)"
    and f: "filled (replicate 8 0) lum 4 4 0 2 (lum_sample ?i 16 4 1)" "filled (replicate 4 0) chroma 4 4 0 1 (nv12_sample ?i 16 4)"
    using compress_nv12_correct [of ?i 16 0 2 4 4 "replicate 8 0" "replicate 4 0"] by (auto simp: picture_ok_def)
  have "lum = map (lum_sample ?i 16 4 1) [0 ..< 8]" using filled_all [OF f(1)] by simp
  moreover have "chroma = map (nv12_sample ?i 16 4) [0 ..< 4]" using filled_all [OF f(2)] by simp
  moreover have "map (lum_sample ?i 16 4 1) [0 ..< 8] = [1, 5, 9, 13, 17, 21, 25, 29]" "map (nv12_sample ?i 16 4) [0 ..< 4] = [10, 12, 18, 20]"
    by code_simp+
  ultimately show ?thesis using c by simp
qed

theorem compress_i420_correct_witness:
  "\<exists>lum u v. compress_uyvx_to_i420 (map word_of_nat [0 ..< 32]) 16 0 2 (replicate 8 0, replicate 2 0, replicate 2 0) (4, 2) = Some (lum, u, v) \<and>
     lum = [1, 5, 9, 13, 17, 21, 25, 29] \<and> u = [10, 18] \<and> v = [12, 20]"
proof -
  let ?i = "map word_of_nat [0 ..< 32] :: byte list"
  obtain lum u v where c: "compress_uyvx_to_i420 ?i 16 0 2 (replicate 8 0, replicate 2 0, replicate 2 0) (4, 2) = Some (lum, u, v)"
    and f: "filled (replicate 8 0) lum 4 4 0 2 (lum_sample ?i 16 4 1)" "filled (replicate 2 0) u 2 2 0 1 (chroma_sample ?i 16 2 0)"
      "filled (replicate 2 0) v 2 2 0 1 (chroma_sample ?i 16 2 2)"
    using compress_i420_correct [of ?i 16 0 2 4 2 "replicate 8 0" "replicate 2 0" "replicate 2 0"] by (auto simp: picture_ok_def)
  have "lum = map (lum_sample ?i 16 4 1) [0 ..< 8]" using filled_all [OF f(1)] by simp
  moreover have "u = map (chroma_sample ?i 16 2 0) [0 ..< 2]" "v = map (chroma_sample ?i 16 2 2) [0 ..< 2]"
    using filled_all [OF f(2)] filled_all [OF f(3)] by simp_all
  moreover have "map (lum_sample ?i 16 4 1) [0 ..< 8] = [1, 5, 9, 13, 17, 21, 25, 29]"
    "map (chroma_sample ?i 16 2 0) [0 ..< 2] = [10, 18]" "map (chroma_sample ?i 16 2 2) [0 ..< 2] = [12, 20]"
    by code_simp+
  ultimately show ?thesis using c by simp
qed

end
