(* ===== verification/Picture_Unpacking.thy ===== *)
theory Picture_Unpacking
  imports Format_Conversion
begin

text \<open>
  Unpacking of planar pictures (\<open>decompress_nv12\<close>, \<open>decompress_420\<close>, \<open>decompress_422\<close> of \<open>libobs/media-io/format-conversion.c\<close>). The
  first is correct; the second puts the rows of the output at the distance of the rows of the input, and the third takes
  line sizes, which are bytes, for numbers of pixels.
\<close>

subsection \<open>A pixel\<close>

lemma le_val_pair: "(word_of_nat (le_val [u, v]) :: 32 word) = ucast u OR push_bit 8 (ucast v)" for u v :: byte
proof -
  have "(ucast u :: 32 word) + push_bit 8 (ucast v) = ucast u OR push_bit 8 (ucast v)"
    by (rule disjunctive_add) (auto simp: bit_simps dest: bit_imp_le_length)
  moreover have "(word_of_nat (le_val [u, v]) :: 32 word) = ucast u + push_bit 8 (ucast v)"
    by (simp add: le_val_def push_bit_eq_mult unsigned_of_nat algebra_simps)
  ultimately show ?thesis by simp
qed

lemma word_of_nat_drop: "(word_of_nat (unat w div 2 ^ k) :: byte) = ucast (drop_bit k w)" for w :: "32 word"
  by (simp add: drop_bit_nat_def [symmetric] flip: unat_drop_bit_eq)

lemma pixel_bytes: "le_bytes 4 (unat (ucast a OR (push_bit 8 (ucast u) OR push_bit 16 (ucast v)) :: 32 word)) = [a, u, v, 0]" for a u v :: byte
proof -
  let ?w = "ucast a OR (push_bit 8 (ucast u) OR push_bit 16 (ucast v)) :: 32 word"
  have "ucast (drop_bit 0 ?w) = a" "ucast (drop_bit 8 ?w) = u" "ucast (drop_bit 16 ?w) = v" "ucast (drop_bit 24 ?w) = (0 :: byte)"
    by (rule bit_word_eqI; auto simp: bit_simps dest: bit_imp_le_length)+
  then show ?thesis
    using word_of_nat_drop [of ?w 0] word_of_nat_drop [of ?w 8] word_of_nat_drop [of ?w 16] word_of_nat_drop [of ?w 24]
    by (simp add: le_bytes_4)
qed

lemma get8: "pos < length block \<Longrightarrow> get8 block pos = Some (ucast (block ! pos))"
  by (simp add: get8_def peek_def segment_def le_val_def take_Suc_conv_app_nth Cons_nth_drop_Suc [symmetric])

lemma get16: "pos + 2 \<le> length block \<Longrightarrow> get16 block pos = Some (ucast (block ! pos) OR push_bit 8 (ucast (block ! (pos + 1))))"
  by (simp add: get16_def peek_def segment_def Cons_nth_drop_Suc [symmetric] numeral_2_eq_2 flip: le_val_pair)


text \<open>An output picture with luma and chroma given by functions of the pixel and of the square of four pixels.\<close>

definition unpacked :: "byte list \<Rightarrow> nat \<Rightarrow> nat \<Rightarrow> (nat \<Rightarrow> nat \<Rightarrow> byte) \<Rightarrow> (nat \<Rightarrow> nat \<Rightarrow> byte) \<Rightarrow> nat \<Rightarrow> byte" where
  "unpacked lum l0 L u v i = (let y = i div L; x = i mod L div 4
     in [lum ! (y * l0 + x), u (y div 2) (x div 2), v (y div 2) (x div 2), 0] ! (i mod L mod 4))"

lemma paint_pixel:
  assumes p: "painted (unpacked lum l0 L u v) P plane0 plane"
    and at: "pos = y * L + 4 * x" "lp = y * l0 + x" "cu = u (y div 2) (x div 2)" "cv = v (y div 2) (x div 2)"
    and x: "4 * x + 4 \<le> L" "pos + 4 \<le> length plane0" "lp < length lum"
  shows "\<exists>px plane'. get8 lum lp = Some px \<and> put32 plane pos (px OR (push_bit 8 (ucast cu) OR push_bit 16 (ucast cv))) = Some plane' \<and>
    painted (unpacked lum l0 L u v) (\<lambda>i. P i \<or> (pos \<le> i \<and> i < pos + 4)) plane0 plane'"
proof -
  let ?px = "[lum ! lp, cu, cv, 0]"
  have "\<exists>plane'. poke plane pos ?px = Some plane' \<and> painted (unpacked lum l0 L u v) (\<lambda>i. P i \<or> (pos \<le> i \<and> i < pos + 4)) plane0 plane'"
  proof (rule painted_poke [OF p])
    fix j assume "j < length ?px"
    then have j: "j < 4" by simp
    then have "(pos + j) div L = y" "(pos + j) mod L = 4 * x + j"
      using at_row [of "4 * x" 4 L "pos + j" y] x(1) by (auto simp: at add.assoc)
    then show "?px ! j = unpacked lum l0 L u v (pos + j)" using j by (simp add: unpacked_def at)
  qed (use x in \<open>auto simp: numeral_eq_Suc\<close>)
  then show ?thesis using x(3) by (simp add: put32_def pixel_bytes get8)
qed

lemma paint_pixels:
  assumes p: "painted (unpacked lum l0 L u v) (area L w a (2 * y) 2 (8 * x)) plane0 plane"
    and x: "8 * x + 8 \<le> L" "2 * y * L + L + 8 * x + 8 \<le> length plane0" "2 * y * l0 + l0 + 2 * x + 2 \<le> length lum"
  shows "\<exists>plane'. put_pixels lum (2 * y * l0 + 2 * x) (2 * y * l0 + l0 + 2 * x) plane (2 * y * L + 8 * x) (2 * y * L + L + 8 * x)
      (push_bit 8 (ucast (u y x)) OR push_bit 16 (ucast (v y x))) = Some plane' \<and>
    painted (unpacked lum l0 L u v) (area L w a (2 * y) 2 (8 * (x + 1))) plane0 plane'"
proof -
  let ?g = "unpacked lum l0 L u v"
  let ?s = "\<lambda>pos i. pos \<le> i \<and> i < pos + 4"
  let ?p0 = "2 * y * L + 8 * x" let ?p1 = "2 * y * L + L + 8 * x" let ?l0 = "2 * y * l0 + 2 * x" let ?l1 = "2 * y * l0 + l0 + 2 * x"
  let ?out = "push_bit 8 (ucast (u y x)) OR push_bit 16 (ucast (v y x)) :: 32 word"
  have c: "c y x = c (2 * y div 2) (2 * x div 2)" "c y x = c (2 * y div 2) ((2 * x + 1) div 2)" "c y x = c ((2 * y + 1) div 2) (2 * x div 2)"
    "c y x = c ((2 * y + 1) div 2) ((2 * x + 1) div 2)" for c :: "nat \<Rightarrow> nat \<Rightarrow> byte" by simp_all
  have pos: "?p0 = 2 * y * L + 4 * (2 * x)" "?p0 + 4 = 2 * y * L + 4 * (2 * x + 1)" "?p1 = (2 * y + 1) * L + 4 * (2 * x)"
    "?p1 + 4 = (2 * y + 1) * L + 4 * (2 * x + 1)" by simp_all
  have lp: "?l0 = 2 * y * l0 + 2 * x" "?l0 + 1 = 2 * y * l0 + (2 * x + 1)" "?l1 = (2 * y + 1) * l0 + 2 * x" "?l1 + 1 = (2 * y + 1) * l0 + (2 * x + 1)"
    by simp_all
  have b: "4 * (2 * x) + 4 \<le> L" "4 * (2 * x + 1) + 4 \<le> L" "?p0 + 4 \<le> length plane0" "?p0 + 4 + 4 \<le> length plane0" "?p1 + 4 \<le> length plane0"
    "?p1 + 4 + 4 \<le> length plane0" "?l0 < length lum" "?l0 + 1 < length lum" "?l1 < length lum" "?l1 + 1 < length lum" using x by simp_all
  obtain q1 a1 where a1: "get8 lum ?l0 = Some q1" "put32 plane ?p0 (q1 OR ?out) = Some a1"
    "painted ?g (\<lambda>i. area L w a (2 * y) 2 (8 * x) i \<or> ?s ?p0 i) plane0 a1"
    using paint_pixel [OF p pos(1) lp(1) c(1) [of u] c(1) [of v] b(1,3,7)] by blast
  obtain q2 a2 where a2: "get8 lum (?l0 + 1) = Some q2" "put32 a1 (?p0 + 4) (q2 OR ?out) = Some a2"
    "painted ?g (\<lambda>i. (area L w a (2 * y) 2 (8 * x) i \<or> ?s ?p0 i) \<or> ?s (?p0 + 4) i) plane0 a2"
    using paint_pixel [OF a1(3) pos(2) lp(2) c(2) [of u] c(2) [of v] b(2,4,8)] by blast
  obtain q3 a3 where a3: "get8 lum ?l1 = Some q3" "put32 a2 ?p1 (q3 OR ?out) = Some a3"
    "painted ?g (\<lambda>i. ((area L w a (2 * y) 2 (8 * x) i \<or> ?s ?p0 i) \<or> ?s (?p0 + 4) i) \<or> ?s ?p1 i) plane0 a3"
    using paint_pixel [OF a2(3) pos(3) lp(3) c(3) [of u] c(3) [of v] b(1,5,9)] by blast
  obtain q4 a4 where a4: "get8 lum (?l1 + 1) = Some q4" "put32 a3 (?p1 + 4) (q4 OR ?out) = Some a4"
    "painted ?g (\<lambda>i. (((area L w a (2 * y) 2 (8 * x) i \<or> ?s ?p0 i) \<or> ?s (?p0 + 4) i) \<or> ?s ?p1 i) \<or> ?s (?p1 + 4) i) plane0 a4"
    using paint_pixel [OF a3(3) pos(4) lp(4) c(4) [of u] c(4) [of v] b(2,6,10)] by blast
  have "painted ?g (area L w a (2 * y) 2 (8 * x + 8)) plane0 a4"
    by (rule painted_cong [OF a4(3)]) (auto simp: area_two_rows [OF x(1)])
  moreover have "put_pixels lum ?l0 ?l1 plane ?p0 ?p1 ?out = Some a4"
    unfolding put_pixels_def a1(1,2) a2(1,2) a3(1,2) a4(1,2) Option.bind.simps ..
  ultimately show ?thesis by (simp add: add.commute)
qed

subsection \<open>NV12\<close>

text \<open>C21: Unpacking NV12 gives every pixel its own luma byte and the two chroma bytes of its square of four pixels, and writes nothing
  outside the rows and the width of the picture.\<close>

theorem decompress_nv12_correct:
  assumes p: "even start_y" "even end_y" "start_y \<le> end_y" "even l0" "4 * l0 \<le> L" "l0 \<le> l1"
    and sizes: "end_y * l0 \<le> length lum" "end_y div 2 * l1 \<le> length chroma" "end_y * L \<le> length output"
    and bounds: "end_y * L < 2 ^ 32" "end_y div 2 * l1 < 2 ^ 32"
  shows "\<exists>output'. decompress_nv12 (lum, chroma) (l0, l1) start_y end_y output L = Some output' \<and>
    filled output output' L (4 * l0) start_y end_y
      (unpacked lum l0 L (\<lambda>y x. chroma ! (y * l1 + 2 * x)) (\<lambda>y x. chroma ! (y * l1 + 2 * x + 1)))"
proof -
  let ?g = "unpacked lum l0 L (\<lambda>y x. chroma ! (y * l1 + 2 * x)) (\<lambda>y x. chroma ! (y * l1 + 2 * x + 1))"
  let ?I = "\<lambda>y x out. painted ?g (area L (4 * l0) start_y (2 * y) 2 (8 * x)) output out"
  let ?body = "\<lambda>y x output. do {
             uv \<leftarrow> get16 chroma (u32 (y * l1) + 2 * x);
             put_pixels lum (u32 (y * 2 * l0) + 2 * x) (u32 (y * 2 * l0) + l0 + 2 * x) output
               (u32 (y * 2 * L) + 8 * x) (u32 (y * 2 * L) + L + 8 * x) (push_bit 8 uv) }"
  have width: "min_uint32 l0 L = l0" using p(5) by (auto simp: min_uint32_def)
  have body: "\<exists>out'. ?body y x out = Some out' \<and> ?I y (x + 1) out'"
    if y: "y < end_y div 2" and x: "x < l0 div 2" and I: "?I y x out" for y x out
  proof -
    have y2: "2 * y + 2 \<le> end_y" using y by linarith
    have "(2 * y + 2) * L \<le> end_y * L" "(2 * y + 2) * l0 \<le> end_y * l0" "(y + 1) * l1 \<le> end_y div 2 * l1" "end_y * l0 \<le> end_y * L"
      by (rule mult_le_mono; use y2 y p(5) in simp)+
    then have b: "(2 * y + 2) * L < 2 ^ 32" "(2 * y + 2) * l0 < 2 ^ 32" "(y + 1) * l1 < 2 ^ 32" "(2 * y + 2) * L \<le> length output"
      "(2 * y + 2) * l0 \<le> length lum" "(y + 1) * l1 \<le> length chroma"
      using bounds sizes by linarith+
    have u: "u32 (y * l1) = y * l1" "u32 (y * 2 * l0) = 2 * y * l0" "u32 (y * 2 * L) = 2 * y * L"
      by (rule trans [OF u32_small]; use b(1-3) in \<open>simp add: algebra_simps\<close>)+
    have x2: "2 * x + 2 \<le> l0" "8 * x + 8 \<le> L" using x p(4,5) by auto
    have c: "get16 chroma (y * l1 + 2 * x) = Some (ucast (chroma ! (y * l1 + 2 * x)) OR push_bit 8 (ucast (chroma ! (y * l1 + 2 * x + 1))))"
      by (rule get16) (use b(6) x2 p(6) in simp)
    show ?thesis
      using paint_pixels [OF I x2(2)] b(4,5) x2 unfolding u c
      by (simp add: push_bit_or algebra_simps)
  qed
  have "\<exists>out. step_loop 1 (start_y div 2) (end_y div 2) (\<lambda>y out. step_loop 1 0 (l0 div 2) (?body y) out) output = Some out \<and> ?I (end_y div 2) 0 out"
  proof (rule step_loop_total [where I = "\<lambda>y out. ?I y 0 out"])
    show "?I (start_y div 2) 0 output" using p(1) by (simp add: painted_start area_start)
  next
    fix y out assume y: "start_y div 2 \<le> y" "y < end_y div 2" "?I y 0 out"
    have "\<exists>out'. step_loop 1 0 (l0 div 2) (?body y) out = Some out' \<and> ?I y (l0 div 2) out'"
      by (rule step_loop_total [where I = "?I y"]) (use body [OF y(2)] y(3) in auto)
    moreover have "?I (y + 1) 0 out'" if out: "?I y (l0 div 2) out'" for out'
    proof (rule painted_cong [OF out])
      have e: "8 * (l0 div 2) = 4 * l0" "2 * (y + 1) = 2 * y + 2" and le: "start_y \<le> 2 * y" using y(1) p(1,4) by auto
      show "area L (4 * l0) start_y (2 * y) 2 (8 * (l0 div 2)) i \<longleftrightarrow> area L (4 * l0) start_y (2 * (y + 1)) 2 (8 * 0) i" for i
        unfolding e mult_0_right by (rule area_next_rows [OF le])
    qed
    ultimately show "\<exists>out'. step_loop 1 0 (l0 div 2) (?body y) out = Some out' \<and> ?I (y + 1) 0 out'" by blast
  qed (use p in \<open>auto simp: div_le_mono\<close>)
  then show ?thesis
    using p(2) unfolding decompress_nv12_def prod.case Let_def width
    by (auto dest: painted_filled)
qed


theorem decompress_nv12_correct_witness:
  "decompress_nv12 ([1, 2, 3, 4], [5, 6]) (2, 2) 0 2 (replicate 16 0) 8 = Some [1, 5, 6, 0, 2, 5, 6, 0, 3, 5, 6, 0, 4, 5, 6, 0]"
proof -
  let ?g = "unpacked [1, 2, 3, 4] 2 8 (\<lambda>y x. [5, 6] ! (y * 2 + 2 * x)) (\<lambda>y x. [5, 6] ! (y * 2 + 2 * x + 1))"
  obtain out where c: "decompress_nv12 ([1, 2, 3, 4], [5, 6]) (2, 2) 0 2 (replicate 16 0) 8 = Some out"
    and f: "filled (replicate 16 0) out 8 8 0 2 ?g"
    using decompress_nv12_correct [of 0 2 2 8 2 "[1, 2, 3, 4]" "[5, 6]" "replicate 16 0"] by auto
  have "out = map ?g [0 ..< 16]" using filled_all [OF f] by simp
  also have "\<dots> = [1, 5, 6, 0, 2, 5, 6, 0, 3, 5, 6, 0, 4, 5, 6, 0]" by code_simp
  finally show ?thesis using c by simp
qed

subsection \<open>The other two formats\<close>

text \<open>The same picture in three planes: the second row is written two bytes after the first, the line size of the luma plane, and not
  eight bytes after it, the line size of the output.\<close>

theorem decompress_420_rows_overlap:
  "decompress_420 ([1, 2, 3, 4], [5], [6]) (2, 1, 1) 0 2 (replicate 16 0) 8 = Some [1, 5, 3, 5, 6, 0, 4, 5, 6, 0, 0, 0, 0, 0, 0, 0]"
  by (simp add: decompress_420_def min_uint32_def step_loop.simps put_pixels_def get8 put32_def le_bytes_4 poke_def blit_def)
    (simp add: eval_nat_numeral)

text \<open>A loop fails when a step that it reaches always fails.\<close>

lemma step_loop_fails: "i \<le> j \<Longrightarrow> j < n \<Longrightarrow> (\<And>s. body j s = None) \<Longrightarrow> step_loop 1 i n body s = None"
proof (induction "j - i" arbitrary: i s)
  case 0
  then show ?case by (subst step_loop.simps) simp
next
  case (Suc d)
  then have "step_loop 1 (i + 1) n body s' = None" for s' by (intro Suc.hyps(1)) auto
  then show ?case using Suc.prems Suc.hyps(2) by (subst step_loop.simps) (simp split: option.split)
qed

text \<open>C22: Unpacking a 4:2:2 picture of \<open>w\<close> columns in rows of \<open>2 * w\<close> bytes into rows of \<open>4 * w\<close> bytes reads past the end of a picture of that
  size, whatever its content.\<close>

theorem decompress_422_overruns:
  assumes "0 < w" "0 < h" "length input = h * (2 * w)" "h * (4 * w) < 2 ^ 32"
  shows "decompress_422 input (2 * w) 0 h output (4 * w) leading_lum = None"
proof -
  have width: "min_uint32 (2 * w) (4 * w) div 2 = w" using assms(1) by (simp add: min_uint32_def)
  have last: "h * (2 * w) = (h - 1) * (2 * w) + 2 * w" using assms(2) by (cases h) simp_all
  have "(h - 1) * (2 * w) \<le> h * (4 * w)" by (rule mult_le_mono) simp_all
  then have "u32 ((h - 1) * (2 * w)) = (h - 1) * (2 * w)" using le_less_trans [OF _ assms(4)] by (intro u32_small) fastforce
  moreover have "get32 input ((h - 1) * (2 * w) + 4 * (w - 1)) = None"
    using assms(1,3) last by (cases w) (auto simp: get32_def peek_def)
  ultimately have inner: "step_loop 1 0 w (\<lambda>x output. do {
             dw \<leftarrow> get32 input (u32 ((h - 1) * (2 * w)) + 4 * x);
             output \<leftarrow> put32 output (o32 + 8 * x) dw;
             put32 output (o32 + 8 * x + 4) (f dw) }) s = None" for o32 f s
    using assms(1) by (intro step_loop_fails [of 0 "w - 1"]) simp_all
  show ?thesis
    unfolding decompress_422_def Let_def width
    by (rule step_loop_fails [of 0 "h - 1"]) (use assms(2) inner in auto)
qed

theorem decompress_422_overruns_witness:
  "decompress_422 [1, 2, 3, 4, 5, 6, 7, 8] 4 0 2 (replicate 16 0) 8 True = None"
  using decompress_422_overruns [of 2 2 "[1, 2, 3, 4, 5, 6, 7, 8]" "replicate 16 0" True] by simp

end
