(* ===== verification/Text_Lookup.thy ===== *)
theory Text_Lookup
  imports Config_File "HOL-Library.Sublist"
begin

text \<open>
  Tables of translated texts (\<open>libobs/util/text-lookup.c\<close>): a radix tree from names to texts, read from files. The strings of the
  nodes are the byte lists that their dynamic strings hold (\<open>Dstr\<close>); the sub-nodes of a node are a list, the first one first. Names
  are compared without regard to case when a text is looked up, but the branch that a new name is put into is chosen by the
  exact first character. The parser works on the tokens of the base lexer; \<open>None\<close> is an access outside the text.
\<close>

subsection \<open>The tree\<close>

record text_leaf =
  tl_lookup :: "byte list"
  tl_value :: "byte list"

datatype text_node = Text_node (tn_str: "byte list") (tn_subnodes: "text_node list") (tn_leaf: "text_leaf option")

fun bychar_loop :: "text_node list \<Rightarrow> byte \<Rightarrow> nat option" where
  "bychar_loop [] ch = None"
| "bychar_loop (subnode # rest) ch =
     (if tn_str subnode \<noteq> [] \<and> hd (tn_str subnode) = ch then Some 0 else map_option Suc (bychar_loop rest ch))"

text \<open>A position in the list of sub-nodes stands for the pointer to one of them.\<close>

definition text_node_bychar :: "text_node \<Rightarrow> byte \<Rightarrow> nat option" where
  "text_node_bychar node ch = bychar_loop (tn_subnodes node) ch"

definition text_node_byname :: "text_node \<Rightarrow> byte list \<Rightarrow> text_node option" where
  "text_node_byname node name = find (\<lambda>subnode. astrcmpi_n (tn_str subnode) name (length (tn_str subnode)) = 0) (tn_subnodes node)"

definition lookup_createsubnode :: "byte list \<Rightarrow> text_leaf \<Rightarrow> text_node \<Rightarrow> text_node" where
  "lookup_createsubnode lookup_val leaf node =
     Text_node (tn_str node) (Text_node lookup_val [] (Some leaf) # tn_subnodes node) (tn_leaf node)"

definition lookup_splitnode :: "byte list \<Rightarrow> nat \<Rightarrow> text_leaf \<Rightarrow> text_node \<Rightarrow> text_node" where
  "lookup_splitnode lookup_val len leaf node =
     (let split = Text_node (drop len (tn_str node)) (tn_subnodes node) (tn_leaf node);
          str = take len (tn_str node)
      in if drop len lookup_val \<noteq> [] then lookup_createsubnode (drop len lookup_val) leaf (Text_node str [split] None)
         else Text_node str [split] (Some leaf))"

definition lookup_replaceleaf :: "text_node \<Rightarrow> text_leaf \<Rightarrow> text_node" where
  "lookup_replaceleaf node leaf = Text_node (tn_str node) (tn_subnodes node) (Some leaf)"

definition lower_char :: "byte \<Rightarrow> byte" where
  "lower_char val = (if 65 \<le> val \<and> val \<le> 90 then val + 32 else val)"

text \<open>The end of the name differs from every character of the node.\<close>

fun match_len :: "byte list \<Rightarrow> byte list \<Rightarrow> nat" where
  "match_len [] lookup_val = 0"
| "match_len (val1 # str) [] = 0"
| "match_len (val1 # str) (val2 # lookup_val) = (if lower_char val1 \<noteq> lower_char val2 then 0 else Suc (match_len str lookup_val))"

lemma bychar_Some: "bychar_loop subs ch = Some i \<Longrightarrow> i < length subs \<and> tn_str (subs ! i) \<noteq> [] \<and> hd (tn_str (subs ! i)) = ch"
  by (induction subs arbitrary: i) (auto split: if_splits)

lemma bychar_None: "bychar_loop subs ch = None \<Longrightarrow> sub \<in> set subs \<Longrightarrow> tn_str sub \<noteq> [] \<Longrightarrow> hd (tn_str sub) \<noteq> ch"
  by (induction subs) (auto split: if_splits)

function lookup_addstring :: "byte list \<Rightarrow> text_leaf \<Rightarrow> text_node \<Rightarrow> text_node" where
  "lookup_addstring lookup_val leaf node =
     (case lookup_val of
        [] \<Rightarrow> lookup_replaceleaf node leaf
      | ch # _ \<Rightarrow>
          (case text_node_bychar node ch of
             Some i \<Rightarrow>
               (let child = tn_subnodes node ! i;
                    len = match_len (tn_str child) lookup_val;
                    child = (if len = length (tn_str child) then lookup_addstring (drop len lookup_val) leaf child
                             else lookup_splitnode lookup_val len leaf child)
                in Text_node (tn_str node) ((tn_subnodes node)[i := child]) (tn_leaf node))
           | None \<Rightarrow> lookup_createsubnode lookup_val leaf node))"
  by pat_completeness auto
termination
proof (relation "measure (\<lambda>(lookup_val, _, _). length lookup_val)")
  fix lookup_val leaf node ch rest i child len
  assume a: "lookup_val = ch # rest" "text_node_bychar node ch = Some i" "child = tn_subnodes node ! i" "len = match_len (tn_str child) lookup_val"
    "len = length (tn_str child)"
  then have "tn_str child \<noteq> []" by (simp add: text_node_bychar_def bychar_Some)
  then have "0 < len" using a(5) by (cases "tn_str child") simp_all
  then show "((drop len lookup_val, leaf, child), lookup_val, leaf, node) \<in> measure (\<lambda>(lookup_val, _, _). length lookup_val)" using a(1) by simp
qed simp

declare lookup_addstring.simps [simp del]

lemma byname_sub: "text_node_byname node name = Some child \<Longrightarrow> child \<in> set (tn_subnodes node)"
  by (auto simp: text_node_byname_def find_Some_iff)

text \<open>The value that is found; \<open>false\<close> is \<open>None\<close>.\<close>

function lookup_getstring :: "byte list \<Rightarrow> text_node option \<Rightarrow> byte list option" where
  "lookup_getstring lookup_val node =
     (case node of
        None \<Rightarrow> None
      | Some node \<Rightarrow>
          (case text_node_byname node lookup_val of
             None \<Rightarrow> None
           | Some child \<Rightarrow>
               (let lookup_val = drop (length (tn_str child)) lookup_val
                in if lookup_val \<noteq> [] then lookup_getstring lookup_val (Some child)
                   else map_option tl_value (tn_leaf child))))"
  by pat_completeness auto
termination
proof (relation "measure (\<lambda>(_, node). case node of None \<Rightarrow> 0 | Some node \<Rightarrow> size node)")
  fix lookup_val node x child l
  assume "node = Some x" "text_node_byname x lookup_val = Some child"
  then have "child \<in> set (tn_subnodes x)" by (simp add: byname_sub)
  then have "size child < size x" by (cases x) (auto dest: size_list_estimation' [of _ _ _ size] simp: less_Suc_eq_le)
  then show "((l, Some child), lookup_val, node) \<in> measure (\<lambda>(_, node). case node of None \<Rightarrow> 0 | Some node \<Rightarrow> size node)"
    using \<open>node = Some x\<close> by simp
qed simp

declare lookup_getstring.simps [simp del]


subsection \<open>What a tree holds\<close>

text \<open>The leaf of a name in upper case.\<close>

abbreviation upper :: "byte list \<Rightarrow> byte list" where
  "upper \<equiv> map toupper"

definition child_for :: "text_node list \<Rightarrow> byte list \<Rightarrow> text_node option" where
  "child_for subs k = find (\<lambda>sub. prefix (upper (tn_str sub)) k) subs"

function leaf_at :: "text_node \<Rightarrow> byte list \<Rightarrow> text_leaf option" where
  "leaf_at node k =
     (if k = [] then tn_leaf node
      else case child_for (tn_subnodes node) k of None \<Rightarrow> None | Some sub \<Rightarrow> leaf_at sub (drop (length (tn_str sub)) k))"
  by pat_completeness auto
termination
proof (relation "measure (\<lambda>(node, k). size node)")
  fix node sub :: text_node and k :: "byte list"
  assume "child_for (tn_subnodes node) k = Some sub"
  then have "sub \<in> set (tn_subnodes node)" by (auto simp: child_for_def find_Some_iff)
  then show "((sub, drop (length (tn_str sub)) k), node, k) \<in> measure (\<lambda>(node, k). size node)"
    by (cases node) (auto dest: size_list_estimation' [of _ _ _ size] simp: less_Suc_eq_le)
qed simp

declare leaf_at.simps [simp del]

text \<open>Siblings begin with different letters, and no string is empty.\<close>

definition branching :: "text_node list \<Rightarrow> bool" where
  "branching subs \<longleftrightarrow> (\<forall>sub \<in> set subs. tn_str sub \<noteq> [] \<and> 0 \<notin> set (tn_str sub)) \<and> distinct (map (\<lambda>sub. toupper (hd (tn_str sub))) subs)"

inductive well_formed :: "text_node \<Rightarrow> bool" where
  "branching subs \<Longrightarrow> (\<And>sub. sub \<in> set subs \<Longrightarrow> well_formed sub) \<Longrightarrow> well_formed (Text_node str subs leaf)"

inductive_simps well_formed_node [simp]: "well_formed (Text_node str subs leaf)"

lemma well_formed_subs: "well_formed node \<Longrightarrow> branching (tn_subnodes node) \<and> (\<forall>sub \<in> set (tn_subnodes node). well_formed sub)"
  by (cases node) simp

text \<open>Looking up is \<open>leaf_at\<close>.\<close>

lemma prefix_take: "prefix s t \<longleftrightarrow> take (length s) t = s"
  by (metis append_eq_conv_conj prefix_def)

lemma byname_child_for:
  assumes "branching (tn_subnodes node)" "0 \<notin> set name"
  shows "text_node_byname node name = child_for (tn_subnodes node) (upper name)"
proof -
  have "astrcmpi_n (tn_str sub) name (length (tn_str sub)) = 0 \<longleftrightarrow> prefix (upper (tn_str sub)) (upper name)" if "sub \<in> set (tn_subnodes node)" for sub
    using assms that unfolding prefix_take by (subst astrcmpi_n_eq) (auto simp: branching_def take_map [symmetric])
  then show ?thesis unfolding text_node_byname_def child_for_def by (intro find_cong) auto
qed

lemma child_for_Some: "child_for subs k = Some sub \<Longrightarrow> sub \<in> set subs \<and> prefix (upper (tn_str sub)) k"
  by (auto simp: child_for_def find_Some_iff)

lemma getstring_leaf_at:
  assumes "well_formed node" "0 \<notin> set k" "k \<noteq> []"
  shows "lookup_getstring k (Some node) = map_option tl_value (leaf_at node (upper k))"
  using assms
proof (induction node "upper k" arbitrary: k rule: leaf_at.induct)
  case (1 node)
  have child: "text_node_byname node k = child_for (tn_subnodes node) (upper k)"
    by (rule byname_child_for) (use 1(2,3) in \<open>simp_all add: well_formed_subs\<close>)
  show ?case
  proof (cases "child_for (tn_subnodes node) (upper k)")
    case None
    then show ?thesis using 1(4) child by (simp add: lookup_getstring.simps leaf_at.simps [of node])
  next
    case (Some sub)
    let ?k = "drop (length (tn_str sub)) k"
    have wf: "well_formed sub" using 1(2) child_for_Some [OF Some] by (auto dest: well_formed_subs)
    have z: "0 \<notin> set ?k" using 1(3) by (meson in_set_dropD)
    have "lookup_getstring ?k (Some sub) = map_option tl_value (leaf_at sub (upper ?k))" if "?k \<noteq> []"
      using 1(1) [OF _ Some drop_map wf z that] 1(4) by simp
    then show ?thesis using 1(4) child Some
      by (auto simp: lookup_getstring.simps [of k] leaf_at.simps [of node] leaf_at.simps [of sub "[]"] Let_def drop_map)
  qed
qed


subsection \<open>Adding a name\<close>

text \<open>A name clashes when its branch would begin with the letter of another branch in the other case.\<close>

function case_clash :: "byte list \<Rightarrow> text_node \<Rightarrow> bool" where
  "case_clash lookup_val node =
     (case lookup_val of
        [] \<Rightarrow> False
      | ch # _ \<Rightarrow>
          (case text_node_bychar node ch of
             Some i \<Rightarrow>
               (let child = tn_subnodes node ! i
                in match_len (tn_str child) lookup_val = length (tn_str child) \<and> case_clash (drop (length (tn_str child)) lookup_val) child)
           | None \<Rightarrow> list_ex (\<lambda>sub. toupper (hd (tn_str sub)) = toupper ch) (tn_subnodes node)))"
  by pat_completeness auto
termination
  by (relation "measure (\<lambda>(lookup_val, node). length lookup_val)") (auto simp: text_node_bychar_def dest: bychar_Some)

declare case_clash.simps [simp del]

lemma lower_upper: "lower_char c = lower_char d \<longleftrightarrow> toupper c = toupper d"
proof -
  have up: "65 \<le> c - 32 \<and> c - 32 \<le> 90 \<and> 90 < c" if "97 \<le> c" "c \<le> 122" for c :: byte using that by (unat_arith; simp)
  have low: "97 \<le> c + 32 \<and> c + 32 \<le> 122 \<and> c < 97" if "65 \<le> c" "c \<le> 90" for c :: byte using that by (unat_arith; simp)
  have "lower_char (toupper c) = lower_char c \<and> toupper (lower_char c) = toupper c" for c
    using up [of c] low [of c] by (auto simp: lower_char_def toupper_def)
  then show ?thesis by metis
qed

lemma match_len_prefix: "match_len s k = length s \<longleftrightarrow> prefix (upper s) (upper k)"
  by (induction s k rule: match_len.induct) (auto simp: lower_upper)

lemma match_len_le: "match_len s k \<le> length s" "match_len s k \<le> length k"
  by (induction s k rule: match_len.induct) auto

lemma match_len_take: "upper (take (match_len s k) s) = upper (take (match_len s k) k)"
  by (induction s k rule: match_len.induct) (auto simp: lower_upper)

lemma match_len_stop: "drop (match_len s k) s = c # s' \<Longrightarrow> drop (match_len s k) k = d # k' \<Longrightarrow> toupper c \<noteq> toupper d"
  by (induction s k rule: match_len.induct) (auto simp: lower_upper split: if_splits)

text \<open>The leaves below a branch.\<close>

definition branch_leaf :: "text_node \<Rightarrow> byte list \<Rightarrow> text_leaf option" where
  "branch_leaf sub k = (if prefix (upper (tn_str sub)) k then leaf_at sub (drop (length (tn_str sub)) k) else None)"

definition branch_char :: "text_node \<Rightarrow> byte" where
  "branch_char sub = toupper (hd (tn_str sub))"

lemma branch_leaf_char: "tn_str sub \<noteq> [] \<Longrightarrow> branch_leaf sub k \<noteq> None \<Longrightarrow> k \<noteq> [] \<and> hd k = branch_char sub"
  by (cases "tn_str sub"; cases k) (auto simp: branch_leaf_def branch_char_def split: if_splits)

lemma leaf_at_branches:
  assumes "branching subs" "k \<noteq> []"
  shows "leaf_at (Text_node s subs l) k =
    (case find (\<lambda>sub. branch_char sub = hd k) subs of None \<Rightarrow> None | Some sub \<Rightarrow> branch_leaf sub k)"
proof -
  have "(case child_for subs k of None \<Rightarrow> None | Some sub \<Rightarrow> leaf_at sub (drop (length (tn_str sub)) k)) =
    (case find (\<lambda>sub. branch_char sub = hd k) subs of None \<Rightarrow> None | Some sub \<Rightarrow> branch_leaf sub k)"
    using assms(1)
  proof (induction subs)
    case Nil
    then show ?case by (simp add: child_for_def)
  next
    case (Cons sub subs)
    have str: "tn_str sub \<noteq> []" and br: "branching subs" using Cons.prems by (auto simp: branching_def)
    have "branch_char sub \<notin> branch_char ` set subs" using Cons.prems by (simp add: branching_def branch_char_def image_def)
    then have other: "\<forall>x \<in> set subs. branch_char x \<noteq> branch_char sub" by (metis imageI)
    show ?case
    proof (cases "branch_char sub = hd k")
      case True
      then have "find (\<lambda>sub. branch_char sub = hd k) subs = None" using other by (auto simp: find_None_iff)
      then show ?thesis using True Cons.IH [OF br] by (auto simp: child_for_def branch_leaf_def)
    next
      case False
      then have "\<not> prefix (upper (tn_str sub)) k" using str assms(2) by (cases "tn_str sub"; cases k) (auto simp: branch_char_def)
      then show ?thesis using False Cons.IH [OF br] by (simp add: child_for_def)
    qed
  qed
  then show ?thesis using assms(2) by (simp add: leaf_at.simps [of "Text_node s subs l"])
qed

lemma find_update:
  assumes "distinct (map f subs)" "i < length subs" "f x = f (subs ! i)"
  shows "find (\<lambda>sub. f sub = c) (subs[i := x]) = (if c = f x then Some x else find (\<lambda>sub. f sub = c) subs)"
  using assms
proof (induction subs arbitrary: i)
  case (Cons y subs)
  then show ?case by (cases i) (auto simp: find_None_iff)
qed simp

lemma branching_update:
  assumes "branching subs" "i < length subs" "tn_str x \<noteq> []" "0 \<notin> set (tn_str x)" "branch_char x = branch_char (subs ! i)"
  shows "branching (subs[i := x])"
proof -
  have "map branch_char (subs[i := x]) = map branch_char subs" using assms(5) by (simp add: map_update list_update_same_conv assms(2))
  then show ?thesis using assms(1,3,4) set_update_subset_insert [of subs i x] unfolding branching_def branch_char_def [symmetric] by auto
qed

lemma leaf_at_root [simp]: "leaf_at node [] = tn_leaf node"
  by (simp add: leaf_at.simps)

lemma leaf_at_update:
  assumes "branching subs" "i < length subs" "tn_str x \<noteq> []" "0 \<notin> set (tn_str x)" "branch_char x = branch_char (subs ! i)"
    and leaf: "branch_leaf x = (branch_leaf (subs ! i))(k \<mapsto> leaf)"
  shows "leaf_at (Text_node s (subs[i := x]) l) = (leaf_at (Text_node s subs l))(k \<mapsto> leaf)"
proof
  fix q
  have d: "distinct (map branch_char subs)" using assms(1) unfolding branching_def branch_char_def by simp
  have sub: "find (\<lambda>sub. branch_char sub = branch_char x) subs = Some (subs ! i)"
    using d assms(2,5) by (auto simp: find_Some_iff distinct_conv_nth intro!: exI [of _ i]) 
  have "branch_leaf x k \<noteq> None" using leaf by simp
  then have k: "k \<noteq> []" "hd k = branch_char x" using branch_leaf_char [OF assms(3)] by auto
  show "leaf_at (Text_node s (subs[i := x]) l) q = ((leaf_at (Text_node s subs l))(k \<mapsto> leaf)) q"
  proof (cases "q = []")
    case True
    then show ?thesis using k by simp
  next
    case False
    then show ?thesis
      using leaf k sub by (auto simp: leaf_at_branches [OF branching_update [OF assms(1-5)]] leaf_at_branches [OF assms(1)] find_update [OF d assms(2,5)])
  qed
qed

lemma leaf_at_create:
  assumes "branching (tn_subnodes node)" "k \<noteq> []" "0 \<notin> set k" "\<forall>sub \<in> set (tn_subnodes node). branch_char sub \<noteq> toupper (hd k)"
  shows "leaf_at (lookup_createsubnode k leaf node) = (leaf_at node)(upper k \<mapsto> leaf)"
    "branching (tn_subnodes (lookup_createsubnode k leaf node))"
proof -
  let ?new = "Text_node k [] (Some leaf)"
  show br: "branching (tn_subnodes (lookup_createsubnode k leaf node))"
    using assms by (auto simp: branching_def branch_char_def lookup_createsubnode_def)
  show "leaf_at (lookup_createsubnode k leaf node) = (leaf_at node)(upper k \<mapsto> leaf)"
  proof
    fix q
    have node: "node = Text_node (tn_str node) (tn_subnodes node) (tn_leaf node)" by simp
    have none: "find (\<lambda>sub. branch_char sub = toupper (hd k)) (tn_subnodes node) = None" using assms(4) by (auto simp: find_None_iff)
    have new: "branch_leaf ?new q = (if q = upper k then Some leaf else None)" for q
      by (auto simp: branch_leaf_def leaf_at.simps [of ?new] child_for_def prefix_def)
    have at: "leaf_at node q = (case find (\<lambda>sub. branch_char sub = hd q) (tn_subnodes node) of None \<Rightarrow> None | Some sub \<Rightarrow> branch_leaf sub q)" if "q \<noteq> []"
      using leaf_at_branches [OF assms(1) that, of "tn_str node" "tn_leaf node"] by simp
    show "leaf_at (lookup_createsubnode k leaf node) q = ((leaf_at node)(upper k \<mapsto> leaf)) q"
    proof (cases "q = []")
      case True
      then show ?thesis using assms(2) by (simp add: lookup_createsubnode_def)
    next
      case False
      have hd: "hd (upper k) = toupper (hd k)" using assms(2) by (simp add: hd_map)
      show ?thesis
        using False none new hd at br unfolding lookup_createsubnode_def
        by (auto simp: leaf_at_branches branch_char_def)
    qed
  qed
qed


lemma branch_leaf_update:
  assumes "tn_str x = tn_str y" "leaf_at x = (leaf_at y)(q \<mapsto> leaf)"
  shows "branch_leaf x = (branch_leaf y)(upper (tn_str y) @ q \<mapsto> leaf)"
proof
  fix k
  have "prefix (upper (tn_str y)) k \<and> drop (length (tn_str y)) k = q \<longleftrightarrow> k = upper (tn_str y) @ q" by (auto simp: prefix_def)
  then show "branch_leaf x k = ((branch_leaf y)(upper (tn_str y) @ q \<mapsto> leaf)) k"
    by (auto simp: branch_leaf_def assms)
qed

lemma leaf_at_str: "leaf_at (Text_node s subs l) = leaf_at (Text_node s' subs l)"
  by (rule ext) (simp add: leaf_at.simps [of "Text_node s subs l"] leaf_at.simps [of "Text_node s' subs l"])

lemma split_branch:
  assumes "0 < n" "n < length (tn_str child)"
  shows "branch_leaf (Text_node (take n (tn_str child)) [Text_node (drop n (tn_str child)) (tn_subnodes child) (tn_leaf child)] None) = branch_leaf child"
proof
  fix k
  let ?split = "Text_node (drop n (tn_str child)) (tn_subnodes child) (tn_leaf child)"
  have "upper (tn_str child) = upper (take n (tn_str child)) @ upper (drop n (tn_str child))" by (simp flip: map_append)
  then have p: "prefix (upper (tn_str child)) k \<longleftrightarrow> prefix (upper (take n (tn_str child))) k \<and> prefix (upper (drop n (tn_str child))) (drop n k)"
    using assms by (auto simp: prefix_def)
  have leaf: "leaf_at ?split = leaf_at child" using leaf_at_str [of _ "tn_subnodes child" "tn_leaf child" "tn_str child"] by simp
  have "drop n (tn_str child) \<noteq> []" using assms by simp
  moreover have "drop (length (tn_str child) - n) (drop n k) = drop (length (tn_str child)) k" using assms by simp
  ultimately show "branch_leaf (Text_node (take n (tn_str child)) [?split] None) k = branch_leaf child k"
    using assms p leaf by (auto simp: branch_leaf_def child_for_def leaf_at.simps [of "Text_node (take n (tn_str child)) [?split] None"])
qed

lemma splitnode_branch:
  assumes wf: "well_formed child" "tn_str child \<noteq> []" "0 \<notin> set (tn_str child)" "0 \<notin> set key"
    and n: "n = match_len (tn_str child) key" "0 < n" "n < length (tn_str child)"
  shows "tn_str (lookup_splitnode key n leaf child) = take n (tn_str child)" "well_formed (lookup_splitnode key n leaf child)"
    "branch_leaf (lookup_splitnode key n leaf child) = (branch_leaf child)(upper key \<mapsto> leaf)"
proof -
  let ?split = "Text_node (drop n (tn_str child)) (tn_subnodes child) (tn_leaf child)" let ?x = "lookup_splitnode key n leaf child"
  let ?base = "Text_node (take n (tn_str child)) [?split] None"
  show str: "tn_str ?x = take n (tn_str child)" by (simp add: lookup_splitnode_def lookup_createsubnode_def Let_def)
  have br: "branching [?split]" using assms by (auto simp: branching_def dest: in_set_dropD)
  have split: "well_formed ?split" using wf(1) by (cases child) simp
  have key: "upper key = upper (tn_str ?base) @ upper (drop n key)" using match_len_take [of "tn_str child" key] n(1)
    by (simp flip: map_append)
  have "leaf_at ?x = (leaf_at ?base)(upper (drop n key) \<mapsto> leaf) \<and> well_formed ?x"
  proof (cases "drop n key")
    case Nil
    have "leaf_at (Text_node s [?split] (Some leaf)) = (leaf_at (Text_node s [?split] None))([] \<mapsto> leaf)" for s
      by (rule ext) (simp add: leaf_at.simps [of "Text_node s [?split] _"])
    then show ?thesis using Nil br split by (simp add: lookup_splitnode_def Let_def)
  next
    case (Cons d ks)
    obtain c s where c: "drop n (tn_str child) = c # s" using n(3) by (cases "drop n (tn_str child)") auto
    have "toupper c \<noteq> toupper d" using match_len_stop [of "tn_str child" key] Cons c n(1) by blast
    then have "\<forall>sub \<in> set (tn_subnodes ?base). branch_char sub \<noteq> toupper (hd (drop n key))" using c Cons by (simp add: branch_char_def)
    moreover have "0 \<notin> set (drop n key)" using wf(4) by (meson in_set_dropD)
    moreover have x: "?x = lookup_createsubnode (drop n key) leaf ?base" using Cons by (simp add: lookup_splitnode_def Let_def)
    ultimately have "leaf_at ?x = (leaf_at ?base)(upper (drop n key) \<mapsto> leaf)" "branching (tn_subnodes ?x)"
      using leaf_at_create [of ?base "drop n key" leaf] br Cons by simp_all
    moreover have "branching []" by (simp add: branching_def)
    ultimately show ?thesis using split unfolding x lookup_createsubnode_def by auto
  qed
  then show "well_formed ?x" "branch_leaf ?x = (branch_leaf child)(upper key \<mapsto> leaf)"
    using branch_leaf_update [of ?x ?base "upper (drop n key)" leaf] str key split_branch [OF n(2,3)] by simp_all
qed

text \<open>Adding a name that does not clash.\<close>

lemma addstring_leaf:
  assumes "well_formed node" "0 \<notin> set key" "\<not> case_clash key node"
  shows "tn_str (lookup_addstring key leaf node) = tn_str node \<and> well_formed (lookup_addstring key leaf node) \<and>
    leaf_at (lookup_addstring key leaf node) = (leaf_at node)(upper key \<mapsto> leaf)"
  using assms
proof (induction key leaf node rule: lookup_addstring.induct)
  case (1 key leaf node)
  obtain str subs l where node: "node = Text_node str subs l" by (cases node)
  have br: "branching subs" and wf: "\<forall>sub \<in> set subs. well_formed sub" using 1(2) node by auto
  show ?case
  proof (cases key)
    case Nil
    have "leaf_at (Text_node str subs (Some leaf)) = (leaf_at node)([] \<mapsto> leaf)"
      by (rule ext) (simp add: node leaf_at.simps [of "Text_node str subs _"])
    then show ?thesis using Nil 1(2) node by (simp add: lookup_addstring.simps lookup_replaceleaf_def)
  next
    case key: (Cons ch ks)
    show ?thesis
    proof (cases "text_node_bychar node ch")
      case None
      then have "\<forall>sub \<in> set subs. branch_char sub \<noteq> toupper ch"
        using 1(4) key node by (auto simp: case_clash.simps [of "ch # ks"] branch_char_def list_ex_iff)
      then have create: "leaf_at (lookup_createsubnode key leaf node) = (leaf_at node)(upper key \<mapsto> leaf)" "branching (tn_subnodes (lookup_createsubnode key leaf node))"
        using leaf_at_create [of node key leaf] br 1(3) key node by simp_all
      moreover have "branching []" by (simp add: branching_def)
      ultimately have "well_formed (lookup_createsubnode key leaf node)" using wf node unfolding lookup_createsubnode_def by auto
      then show ?thesis using None key create(1) by (simp add: lookup_addstring.simps) (simp add: lookup_createsubnode_def)
    next
      case (Some i)
      define child where "child = subs ! i"
      define len where "len = match_len (tn_str child) key"
      have i: "i < length subs" "tn_str child \<noteq> []" "hd (tn_str child) = ch"
        using bychar_Some [of subs ch i] Some node by (auto simp: text_node_bychar_def child_def)
      have c: "child \<in> set subs" "0 \<notin> set (tn_str child)" using i(1) br by (auto simp: child_def branching_def)
      define x where "x = (if len = length (tn_str child) then lookup_addstring (drop len key) leaf child else lookup_splitnode key len leaf child)"
      have add: "lookup_addstring key leaf node = Text_node str (subs[i := x]) l"
        using Some key node by (simp add: lookup_addstring.simps [of "ch # ks"] Let_def x_def len_def child_def)
      have pos: "0 < len" using i(2,3) key by (cases "tn_str child") (auto simp: len_def)
      have x: "tn_str x \<noteq> [] \<and> hd (tn_str x) = ch \<and> 0 \<notin> set (tn_str x) \<and> well_formed x \<and> branch_leaf x = (branch_leaf child)(upper key \<mapsto> leaf)"
      proof (cases "len = length (tn_str child)")
        case True
        have clash: "\<not> case_clash (drop len key) child"
          using 1(4) Some key node True by (auto simp: case_clash.simps [of "ch # ks"] child_def len_def Let_def)
        have z: "0 \<notin> set (drop len key)" using 1(3) by (meson in_set_dropD)
        have IH: "tn_str x = tn_str child \<and> well_formed x \<and> leaf_at x = (leaf_at child)(upper (drop len key) \<mapsto> leaf)"
          using 1(1) [OF key Some refl refl] wf c(1) z clash True node by (simp add: x_def child_def len_def fun_upd_def)
        have "upper key = upper (tn_str child) @ upper (drop len key)"
          using True match_len_prefix [of "tn_str child" key] by (auto simp: len_def prefix_def simp flip: drop_map)
        then show ?thesis using branch_leaf_update [of x child "upper (drop len key)" leaf] IH i(2,3) c(2) by simp
      next
        case False
        then have lt: "len < length (tn_str child)" using match_len_le(1) [of "tn_str child" key] by (simp add: len_def)
        have xs: "x = lookup_splitnode key len leaf child" using False by (simp add: x_def)
        note split = splitnode_branch [OF _ i(2) c(2) 1(3) len_def pos lt, of leaf, folded xs]
        have "well_formed child" using wf c(1) by simp
        then show ?thesis using split i(2,3) c(2) pos by (auto dest: in_set_takeD)
      qed
      have bc: "branch_char x = branch_char child" using x i(3) by (simp add: branch_char_def)
      have "leaf_at (Text_node str (subs[i := x]) l) = (leaf_at node)(upper key \<mapsto> leaf)"
        unfolding node by (rule leaf_at_update [OF br i(1)]) (use x bc in \<open>auto simp: child_def\<close>)
      moreover have "branching (subs[i := x])" by (rule branching_update [OF br i(1)]) (use x bc in \<open>auto simp: child_def\<close>)
      moreover have "\<forall>sub \<in> set (subs[i := x]). well_formed sub" using wf x set_update_subset_insert [of subs i x] by auto
      ultimately show ?thesis unfolding add using node by simp
    qed
  qed
qed


subsection \<open>Names that are written alike\<close>

text \<open>Names agree in case when no two of them begin with the same letters written differently.\<close>

definition case_consistent :: "byte list list \<Rightarrow> bool" where
  "case_consistent ks \<longleftrightarrow> list_all (\<lambda>k. list_all (\<lambda>k'. list_all (\<lambda>n. upper (take n k) = upper (take n k') \<longrightarrow> take n k = take n k')
     [0 ..< Suc (length k)]) ks) ks"

lemma case_consistentD:
  "case_consistent ks \<Longrightarrow> k \<in> set ks \<Longrightarrow> k' \<in> set ks \<Longrightarrow> n \<le> length k \<Longrightarrow> upper (take n k) = upper (take n k') \<Longrightarrow> take n k = take n k'"
  by (auto simp: case_consistent_def list_all_iff simp del: upt_Suc)

lemma case_consistent_prefix:
  assumes "case_consistent ks" "k \<in> set ks" "k' \<in> set ks" "prefix (p @ a) k" "prefix (p @ b) k'" "upper a = upper b"
  shows "a = b"
proof -
  let ?n = "length p + length a"
  have l: "length a = length b" using assms(6) by (metis length_map)
  have "take ?n k = p @ a" "take ?n k' = p @ b" "?n \<le> length k" using assms(4,5) l by (auto simp: prefix_def)
  then show ?thesis using case_consistentD [OF assms(1-3), of ?n] assms(6) by simp
qed

text \<open>What the branches of a tree spell.\<close>

inductive spells :: "text_node \<Rightarrow> byte list \<Rightarrow> bool" where
  spells_root: "spells node []"
| spells_sub: "sub \<in> set (tn_subnodes node) \<Longrightarrow> spells sub p \<Longrightarrow> spells node (tn_str sub @ p)"

lemma spells_node: "spells node p \<longleftrightarrow> p = [] \<or> (\<exists>sub q. sub \<in> set (tn_subnodes node) \<and> spells sub q \<and> p = tn_str sub @ q)"
  by (subst spells.simps) auto

lemma spells_subnodes: "tn_subnodes node = tn_subnodes node' \<Longrightarrow> spells node p \<longleftrightarrow> spells node' p"
  by (simp add: spells_node [of node] spells_node [of node'])

definition spelled_by :: "byte list list \<Rightarrow> byte list \<Rightarrow> text_node \<Rightarrow> bool" where
  "spelled_by ks pre node \<longleftrightarrow> (\<forall>p. spells node p \<longrightarrow> (\<exists>k \<in> set ks. prefix (pre @ p) k))"

lemma spelled_by_node:
  "spelled_by ks pre node \<longleftrightarrow> (\<exists>k \<in> set ks. prefix pre k) \<and> (\<forall>sub \<in> set (tn_subnodes node). spelled_by ks (pre @ tn_str sub) sub)"
  unfolding spelled_by_def by (subst (1) spells_node) auto

lemma spelled_by_prefix: "spelled_by ks pre node \<Longrightarrow> \<exists>k \<in> set ks. prefix pre k"
  by (simp add: spelled_by_node [of _ _ node])

lemma spelled_by_split:
  assumes ks: "pre @ key \<in> set ks" and child: "spelled_by ks (pre @ tn_str child) child" and len: "take len (tn_str child) = take len key"
  shows "spelled_by ks (pre @ take len (tn_str child)) (lookup_splitnode key len leaf child)"
proof -
  let ?split = "Text_node (drop len (tn_str child)) (tn_subnodes child) (tn_leaf child)"
  have split: "spelled_by ks ((pre @ take len (tn_str child)) @ drop len (tn_str child)) ?split"
    using child by (simp add: spelled_by_node [of _ _ ?split] spelled_by_node [of _ _ child])
  have new: "spelled_by ks ((pre @ take len (tn_str child)) @ drop len key) (Text_node (drop len key) [] (Some leaf))"
    using ks by (auto simp: spelled_by_node [of _ _ "Text_node _ [] _"] len intro!: bexI [OF _ ks])
  have "\<exists>k \<in> set ks. prefix (pre @ take len (tn_str child)) k"
    using ks unfolding len by (intro bexI [OF _ ks]) (metis append.assoc append_take_drop_id prefixI)
  then show ?thesis
    using split new by (auto simp: lookup_splitnode_def lookup_createsubnode_def Let_def spelled_by_node [of _ _ "Text_node (take len (tn_str child)) _ _"])
qed

lemma addstring_spelled:
  assumes "case_consistent ks" "pre @ key \<in> set ks" "well_formed node" "spelled_by ks pre node"
  shows "\<not> case_clash key node \<and> spelled_by ks pre (lookup_addstring key leaf node) \<and>
    tn_str (lookup_addstring key leaf node) = tn_str node"
  using assms(2-4)
proof (induction key leaf node arbitrary: pre rule: lookup_addstring.induct)
  case (1 key leaf node)
  have pre: "\<exists>k \<in> set ks. prefix pre k" using 1(4) by (rule spelled_by_prefix)
  have br: "branching (tn_subnodes node)" and wf: "\<forall>sub \<in> set (tn_subnodes node). well_formed sub" using well_formed_subs [OF 1(3)] by auto
  have subs: "\<forall>sub \<in> set (tn_subnodes node). spelled_by ks (pre @ tn_str sub) sub" using 1(4) by (simp add: spelled_by_node [of _ _ node])
  show ?case
  proof (cases key)
    case Nil
    then show ?thesis using subs pre
      by (simp add: case_clash.simps lookup_addstring.simps lookup_replaceleaf_def spelled_by_node [of _ _ "Text_node _ _ (Some leaf)"])
  next
    case key: (Cons ch rest)
    show ?thesis
    proof (cases "text_node_bychar node ch")
      case None
      have "toupper (hd (tn_str sub)) \<noteq> toupper ch" if sub: "sub \<in> set (tn_subnodes node)" for sub
      proof
        assume u: "toupper (hd (tn_str sub)) = toupper ch"
        have str: "tn_str sub \<noteq> []" using br sub by (simp add: branching_def)
        obtain k where k: "k \<in> set ks" "prefix (pre @ tn_str sub) k" using spelled_by_prefix subs sub by blast
        have "prefix (pre @ [hd (tn_str sub)]) k" using k(2) str by (cases "tn_str sub") (auto simp: prefix_def)
        moreover have "prefix (pre @ [ch]) (pre @ key)" using key by simp
        ultimately have "[hd (tn_str sub)] = [ch]" by (rule case_consistent_prefix [OF assms(1) k(1) 1(2)]) (use u in simp)
        then show False using bychar_None [of "tn_subnodes node" ch sub] None sub str by (simp add: text_node_bychar_def)
      qed
      then have "\<not> case_clash key node" using None key by (simp add: case_clash.simps [of "ch # rest"] list_ex_iff)
      moreover have "spelled_by ks (pre @ key) (Text_node key [] (Some leaf))"
        using 1(2) by (auto simp: spelled_by_node [of _ _ "Text_node key _ _"])
      ultimately show ?thesis using None key pre subs
        by (simp add: lookup_addstring.simps [of "ch # rest"] lookup_createsubnode_def spelled_by_node [of _ _ "Text_node (tn_str node) _ _"])
    next
      case (Some i)
      define child where "child = tn_subnodes node ! i"
      define len where "len = match_len (tn_str child) key"
      have i: "i < length (tn_subnodes node)" using bychar_Some [of "tn_subnodes node" ch i] Some by (simp add: text_node_bychar_def)
      then have c: "child \<in> set (tn_subnodes node)" by (simp add: child_def)
      have child: "spelled_by ks (pre @ tn_str child) child" using subs c by blast
      then obtain k where k: "k \<in> set ks" "prefix (pre @ tn_str child) k" using spelled_by_prefix by blast
      have "prefix (pre @ take len (tn_str child)) k" using k(2) by (metis append.assoc append_take_drop_id prefix_def)
      moreover have "prefix (pre @ take len key) (pre @ key)" by (simp add: take_is_prefix)
      ultimately have same: "take len (tn_str child) = take len key"
        by (rule case_consistent_prefix [OF assms(1) k(1) 1(2)]) (use match_len_take [of "tn_str child" key] in \<open>simp add: len_def\<close>)
      define x where "x = (if len = length (tn_str child) then lookup_addstring (drop len key) leaf child else lookup_splitnode key len leaf child)"
      have add: "lookup_addstring key leaf node = Text_node (tn_str node) ((tn_subnodes node)[i := x]) (tn_leaf node)"
        using Some key by (simp add: lookup_addstring.simps [of "ch # rest"] Let_def x_def len_def child_def)
      have clash: "case_clash key node \<longleftrightarrow> len = length (tn_str child) \<and> case_clash (drop len key) child"
        using Some key by (auto simp: case_clash.simps [of "ch # rest"] child_def len_def Let_def)
      have x: "\<not> case_clash key node \<and> spelled_by ks (pre @ tn_str x) x"
      proof (cases "len = length (tn_str child)")
        case True
        then have full: "tn_str child = take len key" using same by simp
        have p: "(pre @ tn_str child) @ drop len key \<in> set ks" using 1(2) unfolding full by simp
        have "\<not> case_clash (drop len key) child \<and> spelled_by ks (pre @ tn_str child) x \<and> tn_str x = tn_str child"
          using 1(1) [OF key Some refl refl _ _ _ child [unfolded child_def]] True p wf c by (simp add: x_def child_def len_def)
        then show ?thesis using clash True by simp
      next
        case False
        moreover have "tn_str (lookup_splitnode key len leaf child) = take len (tn_str child)"
          by (simp add: lookup_splitnode_def lookup_createsubnode_def Let_def)
        ultimately show ?thesis using spelled_by_split [OF 1(2) child same] clash by (simp add: x_def)
      qed
      have "spelled_by ks pre (Text_node (tn_str node) ((tn_subnodes node)[i := x]) (tn_leaf node))"
        using pre subs x set_update_subset_insert [of "tn_subnodes node" i x] by (auto simp: spelled_by_node [of _ _ "Text_node (tn_str node) _ _"])
      then show ?thesis using x unfolding add by simp
    qed
  qed
qed


subsection \<open>Tables\<close>

text \<open>Adding a list of leaves to an empty tree.\<close>

definition add_leaves :: "text_leaf list \<Rightarrow> text_node \<Rightarrow> text_node" where
  "add_leaves leaves node = fold (\<lambda>leaf node. lookup_addstring (tl_lookup leaf) leaf node) leaves node"

definition last_leaf :: "text_leaf list \<Rightarrow> byte list \<Rightarrow> text_leaf option" where
  "last_leaf leaves name = find (\<lambda>leaf. same_name (tl_lookup leaf) name) (rev leaves)"

lemma well_formed_empty: "well_formed (Text_node [] [] None)"
  by (simp add: branching_def)

lemma add_leaves_map:
  assumes "case_consistent (map tl_lookup leaves)" "\<forall>leaf \<in> set leaves. 0 \<notin> set (tl_lookup leaf)"
    and "set added \<subseteq> set leaves" "added \<noteq> []"
  shows "well_formed (add_leaves added (Text_node [] [] None)) \<and> spelled_by (map tl_lookup leaves) [] (add_leaves added (Text_node [] [] None)) \<and>
    (\<forall>k. leaf_at (add_leaves added (Text_node [] [] None)) (upper k) = last_leaf added k)"
  using assms(3,4)
proof (induction added rule: rev_induct)
  case (snoc leaf ls)
  let ?node = "add_leaves ls (Text_node [] [] None)"
  have leaf: "leaf \<in> set leaves" using snoc.prems by simp
  have node: "well_formed ?node \<and> spelled_by (map tl_lookup leaves) [] ?node \<and> (\<forall>k. leaf_at ?node (upper k) = last_leaf ls k)"
  proof (cases "ls = []")
    case True
    have "leaf_at (Text_node [] [] None) k = None" for k by (simp add: leaf_at.simps child_for_def)
    then show ?thesis using True well_formed_empty leaf
      by (auto simp: add_leaves_def last_leaf_def spelled_by_node [of _ _ "Text_node [] [] None"])
  qed (use snoc in simp)
  have z: "0 \<notin> set (tl_lookup leaf)" using assms(2) leaf by blast
  note sp = addstring_spelled [OF assms(1), of "[]" "tl_lookup leaf" ?node leaf]
  have clash: "\<not> case_clash (tl_lookup leaf) ?node" and sp': "spelled_by (map tl_lookup leaves) [] (lookup_addstring (tl_lookup leaf) leaf ?node)"
    using sp node leaf by auto
  note add = addstring_leaf [OF _ z clash, of leaf]
  have "leaf_at (lookup_addstring (tl_lookup leaf) leaf ?node) (upper k) = last_leaf (ls @ [leaf]) k" for k
    using add node by (auto simp: last_leaf_def same_name_def)
  then show ?case using add node sp' by (simp add: add_leaves_def)
qed simp

text \<open>C27: When names agree in case, the tree is a map: whatever the order in which they are added, a name is found exactly when it was
  added, in any case, and the text is the one added last.\<close>

theorem text_lookup_map:
  assumes "case_consistent (map tl_lookup leaves)" "\<forall>leaf \<in> set leaves. 0 \<notin> set (tl_lookup leaf)" "0 \<notin> set name" "name \<noteq> []"
  shows "lookup_getstring name (Some (add_leaves leaves (Text_node [] [] None))) = map_option tl_value (last_leaf leaves name)"
proof (cases "leaves = []")
  case True
  then show ?thesis by (simp add: add_leaves_def last_leaf_def lookup_getstring.simps text_node_byname_def)
next
  case False
  note map = add_leaves_map [OF assms(1,2) subset_refl False]
  then have "well_formed (add_leaves leaves (Text_node [] [] None))" by blast
  then show ?thesis using getstring_leaf_at [OF _ assms(3,4)] map by simp
qed

text \<open>Names: \<open>ab\<close>, \<open>abc\<close>, \<open>ad\<close>, and \<open>abc\<close> once more.\<close>

theorem text_lookup_map_witness:
  "lookup_getstring [65, 66, 99] (Some (add_leaves
     [\<lparr>tl_lookup = [97, 98], tl_value = [1]\<rparr>, \<lparr>tl_lookup = [97, 98, 99], tl_value = [2]\<rparr>, \<lparr>tl_lookup = [97, 100], tl_value = [3]\<rparr>,
      \<lparr>tl_lookup = [97, 98, 99], tl_value = [4]\<rparr>] (Text_node [] [] None))) = Some [4]"
proof -
  let ?ls = "[\<lparr>tl_lookup = [97, 98], tl_value = [1]\<rparr>, \<lparr>tl_lookup = [97, 98, 99], tl_value = [2]\<rparr>, \<lparr>tl_lookup = [97, 100], tl_value = [3]\<rparr>,
      \<lparr>tl_lookup = [97, 98, 99], tl_value = [4]\<rparr>] :: text_leaf list"
  have "case_consistent (map tl_lookup ?ls)" by code_simp
  moreover have "map_option tl_value (last_leaf ?ls [65, 66, 99]) = Some [4]" by code_simp
  ultimately show ?thesis using text_lookup_map [of ?ls "[65, 66, 99]"] by simp
qed

text \<open>Otherwise a name can be lost: after \<open>abc\<close>, \<open>ABd\<close> and \<open>A\<close> the name \<open>abc\<close> is no longer found.\<close>

theorem text_lookup_mixed_case:
  "lookup_getstring [97, 98, 99] (Some (add_leaves [\<lparr>tl_lookup = [97, 98, 99], tl_value = [1]\<rparr>, \<lparr>tl_lookup = [65, 66, 100], tl_value = [2]\<rparr>]
     (Text_node [] [] None))) = Some [1] \<and>
   lookup_getstring [97, 98, 99] (Some (add_leaves [\<lparr>tl_lookup = [97, 98, 99], tl_value = [1]\<rparr>, \<lparr>tl_lookup = [65, 66, 100], tl_value = [2]\<rparr>,
     \<lparr>tl_lookup = [65], tl_value = [3]\<rparr>] (Text_node [] [] None))) = None"
  by code_simp

end
