(* ===== verification/Text_Lookup_File.thy ===== *)
theory Text_Lookup_File
  imports Text_Lookup
begin

text \<open>
  Reading a table of texts from a file (\<open>libobs/util/text-lookup.c\<close>). A line is a name, an equals sign and a quoted text, without blanks
  in between; comments begin with a number sign. References point into the text of the file.
\<close>

subsection \<open>Tokens\<close>

text \<open>The character after the closing quote, or the end of the line or of the text.\<close>

function string_end :: "byte list \<Rightarrow> nat \<Rightarrow> bool \<Rightarrow> nat" where
  "string_end text temp was_backslash =
     (if temp < length text \<and> text ! temp \<noteq> 0 \<and> text ! temp \<noteq> 10 then
        if \<not> was_backslash then
          (if text ! temp = 92 then string_end text (temp + 1) True
           else if text ! temp = 34 then temp + 1
           else string_end text (temp + 1) False)
        else string_end text (temp + 1) False
      else temp)"
  by pat_completeness auto
termination by (relation "measure (\<lambda>(text, temp, _). length text - temp)") auto

declare string_end.simps [simp del]

definition lookup_getstringtoken :: "lexer \<Rightarrow> strref \<Rightarrow> (strref \<times> lexer) option" where
  "lookup_getstringtoken lx token = do {
     text \<leftarrow> lx_text lx;
     a \<leftarrow> ref_array token;
     let temp = string_end text (lx_offset lx) False;
         token = token\<lparr>ref_len := ref_len token + word_of_nat (temp - lx_offset lx)\<rparr>;
         token = (if char_at text a = 34
                  then (let token = token\<lparr>ref_array := Some (a + 1), ref_len := ref_len token - 1\<rparr>
                        in if char_at text (temp - 1) = 34 then token\<lparr>ref_len := ref_len token - 1\<rparr> else token)
                  else token)
     in Some (token, lx\<lparr>lx_offset := temp\<rparr>) }"

text \<open>\<open>while (ch != '\n' && ch != 0) ch = *(++lex->offset);\<close>, which looks at the character after the next first.\<close>

function comment_end :: "byte list \<Rightarrow> nat \<Rightarrow> nat option" where
  "comment_end text offset =
     (if offset + 1 > length text then None
      else if char_at text (offset + 1) = 10 \<or> char_at text (offset + 1) = 0 then Some (offset + 1)
      else comment_end text (offset + 1))"
  by pat_completeness auto
termination by (relation "measure (\<lambda>(text, offset). length text - offset)") auto

declare comment_end.simps [simp del]

definition skip_comment :: "lexer \<Rightarrow> lexer option" where
  "skip_comment lx = do {
     text \<leftarrow> lx_text lx;
     offset \<leftarrow> comment_end text (lx_offset lx);
     Some (lx\<lparr>lx_offset := offset\<rparr>) }"

lemma comment_end_less: "comment_end text offset = Some e \<Longrightarrow> offset < e"
  by (induction "text" offset arbitrary: e rule: comment_end.induct) (subst (asm) (2) comment_end.simps, auto split: if_splits)

lemma skip_comment_le: "skip_comment lx = Some lx' \<Longrightarrow> lx_le lx lx'"
  by (auto simp: skip_comment_def lx_le_def split: Option.bind_splits dest: comment_end_less)

lemma string_end_ge: "temp \<le> string_end text temp b"
  by (induction "text" temp b rule: string_end.induct) (subst string_end.simps, auto)

lemma getstringtoken_le: "lookup_getstringtoken lx token = Some (token', lx') \<Longrightarrow> lx_le lx lx'"
  using string_end_ge by (auto simp: lookup_getstringtoken_def lx_le_def Let_def split: Option.bind_splits)

function gettoken_loop :: "lexer \<Rightarrow> strref \<Rightarrow> (strref \<times> lexer) option" where
  "gettoken_loop lx str =
     (case lexer_getbasetoken lx PARSE_WHITESPACE of
        (None, lx) \<Rightarrow> Some (str, lx)
      | (Some temp, lx) \<Rightarrow>
          (let ch = token_char lx temp
           in if ref_array str = None then
                (if ch = 35 then (case skip_comment lx of None \<Rightarrow> None | Some lx \<Rightarrow> gettoken_loop lx str)
                 else if bt_type temp = BASETOKEN_WHITESPACE then Some (bt_text temp, lx)
                 else if ch = 34 then lookup_getstringtoken lx (bt_text temp)
                 else if ch = 61 then Some (bt_text temp, lx)
                 else gettoken_loop lx (bt_text temp))
              else if bt_type temp = BASETOKEN_WHITESPACE \<or> ch = 61 then
                Some (str, lx\<lparr>lx_offset := lx_offset lx - unat (ref_len (bt_text temp))\<rparr>)
              else if ch = 35 then Some (str, lx\<lparr>lx_offset := lx_offset lx - 1\<rparr>)
              else gettoken_loop lx (str\<lparr>ref_len := ref_len str + ref_len (bt_text temp)\<rparr>)))"
  by pat_completeness auto
termination
proof (relation "measure (\<lambda>(lx, _). remaining lx)", goal_cases)
  case (2 lx str x lx1 temp ch lx2)
  then show ?case using token_progress(1) [of lx temp lx1] lx_le_remaining [OF skip_comment_le [of lx1 lx2]] by auto
qed (auto dest: token_progress(1) [OF sym])

declare gettoken_loop.simps [simp del]

definition lookup_gettoken :: "lexer \<Rightarrow> (bool \<times> strref \<times> lexer) option" where
  "lookup_gettoken lx = do {
     (str, lx) \<leftarrow> gettoken_loop lx strref_clear;
     Some (ref_len str \<noteq> 0, str, lx) }"


text \<open>Every token that is returned is a step forward.\<close>

lemma getbasetoken_Some:
  assumes "lexer_getbasetoken lx PARSE_WHITESPACE = (Some t, lx')"
  shows "\<exists>n. 0 < n \<and> bt_text t = strref_set (lx_offset lx) n \<and> lx' = lx\<lparr>lx_offset := lx_offset lx + n\<rparr>"
proof -
  obtain T where T: "lx_text lx = Some T" using assms by (auto simp: lexer_getbasetoken_def split: option.splits)
  then have lx: "lx = \<lparr>lx_text = Some T, lx_offset = lx_offset lx\<rparr>" by simp
  show ?thesis
  proof (cases "lx_offset lx < length T \<and> T ! lx_offset lx \<noteq> 0")
    case True
    then have d: "drop (lx_offset lx) T = T ! lx_offset lx # drop (Suc (lx_offset lx)) T" by (simp add: Cons_nth_drop_Suc)
    show ?thesis
      using getbasetoken_token [OF d] True assms lx token_len_bounds(1) by (metis Pair_inject base_token.select_convs(1) lexer.update_convs(2) option.inject)
  next
    case False
    then show ?thesis using assms T by (auto simp: lexer_getbasetoken_def token_loop.simps)
  qed
qed

lemma gettoken_loop_progress:
  "gettoken_loop lx str = Some (str', lx') \<Longrightarrow>
     remaining lx' \<le> remaining lx \<and> (ref_array str = None \<longrightarrow> str' = str \<or> remaining lx' < remaining lx)"
proof (induction lx str arbitrary: str' lx' rule: gettoken_loop.induct)
  case (1 lx str)
  show ?case
  proof (cases "lexer_getbasetoken lx PARSE_WHITESPACE")
    case g: (Pair r lx1)
    show ?thesis
    proof (cases r)
      case None
      then show ?thesis using 1(4) g lx_le_remaining [OF getbasetoken_le [OF g]] by (simp add: gettoken_loop.simps [of lx str])
    next
      case (Some t)
      note g = g [unfolded Some]
      have less: "remaining lx1 < remaining lx" using token_progress(1) [OF g] .
      obtain n where n: "0 < n" "bt_text t = strref_set (lx_offset lx) n" "lx1 = lx\<lparr>lx_offset := lx_offset lx + n\<rparr>"
        using getbasetoken_Some [OF g] by blast
      have "unat (word_of_nat n :: 64 word) \<le> n" by (simp add: unat_of_nat)
      then have unread: "remaining (lx1\<lparr>lx_offset := lx_offset lx1 - unat (ref_len (bt_text t))\<rparr>) \<le> remaining lx"
          "remaining (lx1\<lparr>lx_offset := lx_offset lx1 - 1\<rparr>) \<le> remaining lx"
        using n by (auto simp: remaining_def strref_set_def split: option.split)
      show ?thesis
      proof (cases "ref_array str")
        case arr: None
        show ?thesis
        proof (cases "token_char lx1 t = 35")
          case True
          then obtain lx2 where c: "skip_comment lx1 = Some lx2" using 1(4) g arr by (auto simp: gettoken_loop.simps [of lx str] split: option.splits)
          then show ?thesis using 1(1) [OF g [symmetric] refl refl arr True c, of str' lx'] 1(4) g arr True less lx_le_remaining [OF skip_comment_le [OF c]]
            by (auto simp: gettoken_loop.simps [of lx str])
        next
          case False
          then show ?thesis
            using 1(4) 1(2) [OF g [symmetric] refl refl arr False, of str' lx'] g arr less n(2)
            by (auto simp: gettoken_loop.simps [of lx str] Let_def strref_set_def split: if_splits dest!: getstringtoken_le lx_le_remaining)
        qed
      next
        case arr: (Some a)
        then show ?thesis
          using 1(4) 1(3) [OF g [symmetric] refl refl, of str' lx'] g less unread
          by (auto simp: gettoken_loop.simps [of lx str] Let_def split: if_splits)
      qed
    qed
  qed
qed

lemma gettoken_progress: "lookup_gettoken lx = Some (True, str, lx') \<Longrightarrow> remaining lx' < remaining lx"
  by (auto simp: lookup_gettoken_def strref_clear_def split: Option.bind_splits prod.splits dest!: gettoken_loop_progress)

lemma gettoken_le: "lookup_gettoken lx = Some (b, str, lx') \<Longrightarrow> remaining lx' \<le> remaining lx"
  by (auto simp: lookup_gettoken_def split: Option.bind_splits prod.splits dest!: gettoken_loop_progress)

subsection \<open>Lines\<close>

text \<open>The character a reference begins with.\<close>

definition ref_char :: "lexer \<Rightarrow> strref \<Rightarrow> byte" where
  "ref_char lx str = (case (lx_text lx, ref_array str) of (Some text, Some a) \<Rightarrow> char_at text a | _ \<Rightarrow> 0)"

function lookup_goto_nextline :: "lexer \<Rightarrow> (bool \<times> lexer) option" where
  "lookup_goto_nextline p =
     (case lookup_gettoken p of
        None \<Rightarrow> None
      | Some (success, val, p) \<Rightarrow>
          if \<not> success then Some (False, p)
          else if ref_char p val = 10 then Some (True, p)
          else lookup_goto_nextline p)"
  by pat_completeness auto
termination by (relation "measure remaining") (auto dest: gettoken_progress)

declare lookup_goto_nextline.simps [simp del]

lemma goto_nextline_le: "lookup_goto_nextline p = Some (b, p') \<Longrightarrow> remaining p' \<le> remaining p"
proof (induction p arbitrary: b p' rule: lookup_goto_nextline.induct)
  case (1 p)
  then show ?case
    by (subst (asm) (2) lookup_goto_nextline.simps) (fastforce split: option.splits prod.splits if_splits dest: gettoken_le)
qed

text \<open>\<open>fresh\<close> is the content of fresh memory.\<close>

definition convert_string :: "(nat \<Rightarrow> byte) \<Rightarrow> byte list \<Rightarrow> byte list option" where
  "convert_string fresh str = do {
     let out = \<lparr>ds_array = Some (str @ [0]), ds_len = length str, ds_capacity = length str + 1\<rparr>;
     out \<leftarrow> dstr_replace fresh out [92, 110] (Some [10]);
     out \<leftarrow> dstr_replace fresh out [92, 116] (Some [9]);
     out \<leftarrow> dstr_replace fresh out [92, 114] (Some [13]);
     a \<leftarrow> ds_array out;
     c_string a }"

text \<open>The label \<open>getval\<close>: the token after the name, or the one after the equals sign.\<close>

definition getval :: "lexer \<Rightarrow> (bool \<times> strref \<times> lexer) option" where
  "getval lx = do {
     (success, value, lx) \<leftarrow> lookup_gettoken lx;
     if success \<and> ref_char lx value = 61 then lookup_gettoken lx else Some (success, value, lx) }"

lemma getval_le: "getval lx = Some (b, str, lx') \<Longrightarrow> remaining lx' \<le> remaining lx"
  by (auto simp: getval_def split: Option.bind_splits prod.splits if_splits dest!: gettoken_le)

function addfile_loop :: "(nat \<Rightarrow> byte) \<Rightarrow> lexer \<Rightarrow> text_node \<Rightarrow> text_node option" where
  "addfile_loop fresh lx node =
     (case lookup_gettoken lx of
        None \<Rightarrow> None
      | Some (success, name, lx) \<Rightarrow>
          if \<not> success then Some node
          else if ref_char lx name = 10 then addfile_loop fresh lx node
          else (case getval lx of
                  None \<Rightarrow> None
                | Some (success, val, lx) \<Rightarrow>
                    if \<not> success then Some node
                    else if ref_char lx val = 10 then addfile_loop fresh lx node
                    else (case do {
                            text \<leftarrow> lx_text lx;
                            n \<leftarrow> dup_ref text name;
                            v \<leftarrow> dup_ref text val;
                            v \<leftarrow> convert_string fresh v;
                            Some \<lparr>tl_lookup = n, tl_value = v\<rparr> } of
                            None \<Rightarrow> None
                          | Some leaf \<Rightarrow>
                              (let node = lookup_addstring (tl_lookup leaf) leaf node
                               in case lookup_goto_nextline lx of
                                    None \<Rightarrow> None
                                  | Some (success, lx) \<Rightarrow> if \<not> success then Some node else addfile_loop fresh lx node))))"
  by pat_completeness auto
termination
  by (relation "measure (\<lambda>(fresh, lx, node). remaining lx)")
    (auto dest!: gettoken_progress getval_le goto_nextline_le)


declare addfile_loop.simps [simp del]

definition lookup_addfiledata :: "(nat \<Rightarrow> byte) \<Rightarrow> text_node \<Rightarrow> byte list \<Rightarrow> text_node option" where
  "lookup_addfiledata fresh root file_data = addfile_loop fresh (lexer_start (Some file_data)) root"

record text_lookup =
  tx_language :: "byte list"
  tx_top :: "text_node option"

text \<open>A file that cannot be opened or has no text gives \<open>false\<close>.\<close>

definition text_lookup_add :: "(nat \<Rightarrow> byte) \<Rightarrow> files \<Rightarrow> text_lookup \<Rightarrow> byte list \<Rightarrow> (bool \<times> text_lookup) option" where
  "text_lookup_add fresh fs lookup path =
     (case fs path of
        None \<Rightarrow> Some (False, lookup)
      | Some content \<Rightarrow>
          (case os_fread_utf8 content of
             None \<Rightarrow> Some (False, lookup)
           | Some temp \<Rightarrow> do {
               let file_str = dstr_init_move_array (Some (takeWhile (\<lambda>c. c \<noteq> 0) temp));
               let root = (case tx_top lookup of None \<Rightarrow> Text_node [] [] None | Some root \<Rightarrow> root);
               file_str \<leftarrow> dstr_replace fresh file_str [13] (Some [32]);
               a \<leftarrow> ds_array file_str;
               data \<leftarrow> c_string a;
               root \<leftarrow> lookup_addfiledata fresh root data;
               Some (True, lookup\<lparr>tx_top := Some root\<rparr>) }))"

definition text_lookup_create :: "(nat \<Rightarrow> byte) \<Rightarrow> files \<Rightarrow> byte list \<Rightarrow> text_lookup option option" where
  "text_lookup_create fresh fs path = do {
     (success, lookup) \<leftarrow> text_lookup_add fresh fs \<lparr>tx_language = [], tx_top = None\<rparr> path;
     Some (if success then Some lookup else None) }"

definition text_lookup_getstr :: "text_lookup option \<Rightarrow> byte list \<Rightarrow> byte list option" where
  "text_lookup_getstr lookup lookup_val =
     (case lookup of None \<Rightarrow> None | Some lookup \<Rightarrow> lookup_getstring lookup_val (tx_top lookup))"

subsection \<open>Escapes\<close>

lemma replace_skip: "take (length f) (c # s) \<noteq> f \<Longrightarrow> f \<noteq> [] \<Longrightarrow> replace_all f r (c # s) = c # replace_all f r s"
  by (subst (1 2) replace_all.simps) (simp add: strstr.simps [of "c # s"] split: option.split)

lemma replace_match: "f \<noteq> [] \<Longrightarrow> replace_all f r (f @ s) = r @ replace_all f r s"
  by (subst replace_all.simps) (simp add: strstr.simps [of "f @ s"])

text \<open>A text as a list of plain characters and escapes.\<close>

definition escape_token :: "byte list \<Rightarrow> bool" where
  "escape_token t \<longleftrightarrow> (\<exists>c. c \<noteq> 92 \<and> t = [c]) \<or> (\<exists>d. d \<noteq> 92 \<and> t = [92, d])"

lemma replace_tokens:
  assumes "\<forall>t \<in> set ts. escape_token t" "x \<noteq> 92"
  shows "replace_all [92, x] [y] (concat ts) = concat (map (\<lambda>t. if t = [92, x] then [y] else t) ts)"
  using assms(1)
proof (induction ts)
  case Nil
  then show ?case by simp
next
  case (Cons t ts)
  then consider c where "c \<noteq> 92" "t = [c]" | d where "d \<noteq> 92" "d \<noteq> x" "t = [92, d]" | "t = [92, x]"
    by (auto simp: escape_token_def)
  then show ?case
  proof cases
    case 1
    then show ?thesis using Cons by (simp add: replace_skip)
  next
    case 2
    then show ?thesis using Cons by (simp add: replace_skip)
  next
    case 3
    then show ?thesis using Cons replace_match [of "[92, x]" "[y]" "concat ts"] by simp
  qed
qed

text \<open>How a text is written between the quotes of a file.\<close>

definition write_char :: "byte \<Rightarrow> byte list" where
  "write_char c = (if c = 10 then [92, 110] else if c = 9 then [92, 116] else if c = 13 then [92, 114] else [c])"

definition write_text :: "byte list \<Rightarrow> byte list" where
  "write_text s = concat (map write_char s)"

lemma convert_write:
  assumes "\<forall>c \<in> set s. c \<noteq> 0 \<and> c \<noteq> 92"
  shows "convert_string fresh (write_text s) = Some s"
proof -
  let ?t1 = "map (\<lambda>t. if t = [92, 110] then [10] else t) (map write_char s)"
  let ?t2 = "map (\<lambda>t. if t = [92, 116] then [9] else t) ?t1"
  let ?t3 = "map (\<lambda>t. if t = [92, 114] then [13] else t) ?t2"
  have tok: "\<forall>t \<in> set (map write_char s). escape_token t" "\<forall>t \<in> set ?t1. escape_token t" "\<forall>t \<in> set ?t2. escape_token t"
    using assms by (auto simp: escape_token_def write_char_def)
  have r: "replace_all [92, 110] [10] (write_text s) = concat ?t1" "replace_all [92, 116] [9] (concat ?t1) = concat ?t2"
    "replace_all [92, 114] [13] (concat ?t2) = concat ?t3"
    unfolding write_text_def using replace_tokens [OF tok(1), of 110 10] replace_tokens [OF tok(2), of 116 9] replace_tokens [OF tok(3), of 114 13]
    by simp_all
  have "?t3 = map (\<lambda>c. [c]) s" using assms by (auto simp: write_char_def)
  then have t3: "concat ?t3 = s" by (simp only: concat_map_singleton map_ident)
  have z: "0 \<notin> set (write_text s)" using assms by (auto simp: write_text_def write_char_def split: if_splits)
  let ?d = "\<lparr>ds_array = Some (write_text s @ [0]), ds_len = length (write_text s), ds_capacity = length (write_text s) + 1\<rparr>"
  have "dstr_holds ?d (write_text s)" using z by (intro dstr_holdsI [where R = "[]"]) auto
  then obtain d1 where d1: "dstr_replace fresh ?d [92, 110] (Some [10]) = Some d1" "dstr_holds d1 (concat ?t1)"
    using replace_holds [of ?d "write_text s" "[92, 110]" "[10]" fresh] r(1) by auto
  obtain d2 where d2: "dstr_replace fresh d1 [92, 116] (Some [9]) = Some d2" "dstr_holds d2 (concat ?t2)"
    using replace_holds [OF d1(2), of "[92, 116]" "[9]" fresh] r(2) by auto
  obtain d3 where d3: "dstr_replace fresh d2 [92, 114] (Some [13]) = Some d3" "dstr_holds d3 s"
    using replace_holds [OF d2(2), of "[92, 114]" "[13]" fresh] r(3) t3 by auto
  show ?thesis
  proof (cases "s = []")
    case True
    then show ?thesis by (simp add: convert_string_def write_text_def dstr_replace_def dstr_is_empty_def)
  next
    case False
    then obtain R where "ds_array d3 = Some (s @ 0 # R)" using d3(2) by (auto simp: dstr_holds_def split: option.splits)
    moreover have "0 \<notin> set s" using assms by blast
    ultimately show ?thesis unfolding convert_string_def Let_def d1(1) d2(1) d3(1) Option.bind.simps by simp
  qed
qed


subsection \<open>Reading a line\<close>

lemma name_loop:
  assumes "drop off T = s @ 61 # rest" "\<forall>c \<in> set s. c \<noteq> 0 \<and> \<not> is_whitespace c \<and> c \<noteq> 61 \<and> c \<noteq> 35" "ref_array r \<noteq> None"
  shows "gettoken_loop (at_pos T off) r = Some (extend_ref r off (length s), at_pos T (off + length s))"
  using assms
proof (induction "length s" arbitrary: s off r rule: less_induct)
  case less
  obtain a where a: "ref_array r = Some a" using less.prems(3) by blast
  show ?case
  proof (cases s)
    case Nil
    then have d: "drop off T = 61 # rest" using less.prems(1) by simp
    have tk: "lexer_getbasetoken (at_pos T off) PARSE_WHITESPACE =
        (Some \<lparr>bt_text = strref_set off 1, bt_type = get_char_token_type 61\<rparr>, at_pos T (off + 1))"
      using getbasetoken_token [OF d] by simp
    have "unat (ref_len (strref_set off 1)) = 1" by (simp add: strref_set_def)
    then show ?thesis using tk token_char_at [OF d, of "off + 1" 1] a Nil by (subst gettoken_loop.simps) (simp add: Let_def)
  next
    case (Cons c cs)
    let ?n = "token_len (c # cs @ 61 # rest)"
    have d: "drop off T = c # cs @ 61 # rest" "c \<noteq> 0" using less.prems Cons by auto
    have c: "\<not> is_whitespace c" "c \<noteq> 61" "c \<noteq> 35" "\<not> is_newline c" using less.prems(2) Cons newline_whitespace [of c] by auto
    have n: "0 < ?n" "?n \<le> length s"
      using token_len_bounds(1) token_inside [OF sep_type(1) c(4), of cs rest] Cons by (auto simp del: token_len.simps)
    have add: "r\<lparr>ref_len := ref_len r + word_of_nat ?n\<rparr> = strref_add r (strref_set off ?n)"
      using a by (simp add: strref_add_def strref_set_def del: token_len.simps)
    have "gettoken_loop (at_pos T off) r = gettoken_loop (at_pos T (off + ?n)) (strref_add r (strref_set off ?n))"
      unfolding add [symmetric]
      using getbasetoken_token [OF d] token_char_at [OF d(1)] a c by (subst gettoken_loop.simps) (simp add: Let_def strref_set_def whitespace_type del: token_len.simps)
    also have "\<dots> = Some (extend_ref (strref_add r (strref_set off ?n)) (off + ?n) (length (drop ?n s)), at_pos T (off + ?n + length (drop ?n s)))"
    proof (rule less.hyps)
      show "length (drop ?n s) < length s" using n by (simp del: token_len.simps)
      have "drop (off + ?n) T = drop ?n (drop off T)" by (simp add: add.commute del: token_len.simps)
      also have "\<dots> = drop ?n s @ 61 # rest" using n(2) less.prems(1) by (simp del: token_len.simps)
      finally show "drop (off + ?n) T = drop ?n s @ 61 # rest" .
      show "\<forall>c \<in> set (drop ?n s). c \<noteq> 0 \<and> \<not> is_whitespace c \<and> c \<noteq> 61 \<and> c \<noteq> 35" using less.prems(2) by (meson in_set_dropD)
      show "ref_array (strref_add r (strref_set off ?n)) \<noteq> None" using a by (simp add: strref_add_def del: token_len.simps)
    qed
    also have "off + ?n + length (drop ?n s) = off + length s" using n(2) by (simp del: token_len.simps)
    also have "extend_ref (strref_add r (strref_set off ?n)) (off + ?n) (length (drop ?n s)) = extend_ref r off (length s)"
      using extend_extend [OF n(1), of r off "length (drop ?n s)"] n(2) by (simp del: token_len.simps)
    finally show ?thesis .
  qed
qed

lemma ref_len_nonzero: "0 < n \<Longrightarrow> n < 2 ^ 64 \<Longrightarrow> ref_len (strref_set a n) \<noteq> 0"
  using unat_of_nat [where 'a = 64, of n] by (auto simp: strref_set_def simp del: unat_of_nat)

definition name_ok :: "byte list \<Rightarrow> bool" where
  "name_ok s \<longleftrightarrow> s \<noteq> [] \<and> hd s \<noteq> 34 \<and> (\<forall>c \<in> set s. c \<noteq> 0 \<and> \<not> is_whitespace c \<and> c \<noteq> 61 \<and> c \<noteq> 35)"

lemma gettoken_name:
  assumes "drop off T = s @ 61 # rest" "name_ok s" "length T < 2 ^ 64"
  shows "lookup_gettoken (at_pos T off) = Some (True, strref_set off (length s), at_pos T (off + length s))"
proof -
  obtain c cs where s: "s = c # cs" using assms(2) by (cases s) (auto simp: name_ok_def)
  let ?n = "token_len (c # cs @ 61 # rest)"
  have ok: "\<forall>c \<in> set s. c \<noteq> 0 \<and> \<not> is_whitespace c \<and> c \<noteq> 61 \<and> c \<noteq> 35" using assms(2) by (simp add: name_ok_def)
  have d: "drop off T = c # cs @ 61 # rest" "c \<noteq> 0" using assms(1) s ok by auto
  have c: "\<not> is_whitespace c" "c \<noteq> 61" "c \<noteq> 35" "\<not> is_newline c" "c \<noteq> 34" using assms(2) s newline_whitespace [of c] by (auto simp: name_ok_def)
  have n: "0 < ?n" "?n \<le> length s" using token_len_bounds(1) token_inside [OF sep_type(1) c(4), of cs rest] s by (auto simp del: token_len.simps)
  have "drop (off + ?n) T = drop ?n (drop off T)" by (simp add: add.commute del: token_len.simps)
  also have "\<dots> = drop ?n s @ 61 # rest" using n(2) assms(1) by (simp del: token_len.simps)
  finally have d2: "drop (off + ?n) T = drop ?n s @ 61 # rest" .
  have "gettoken_loop (at_pos T off) strref_clear = gettoken_loop (at_pos T (off + ?n)) (strref_set off ?n)"
    using getbasetoken_token [OF d] token_char_at [OF d(1)] c
    by (subst gettoken_loop.simps) (simp add: Let_def strref_clear_def whitespace_type del: token_len.simps)
  also have "\<dots> = Some (extend_ref (strref_set off ?n) (off + ?n) (length (drop ?n s)), at_pos T (off + ?n + length (drop ?n s)))"
    by (rule name_loop [OF d2]) (use ok in \<open>auto simp: strref_set_def simp del: token_len.simps dest: in_set_dropD\<close>)
  also have "off + ?n + length (drop ?n s) = off + length s" using n(2) by (simp del: token_len.simps)
  also have "extend_ref (strref_set off ?n) (off + ?n) (length (drop ?n s)) = strref_set off (length s)"
    using n(2) by (simp add: extend_set del: token_len.simps)
  finally have g: "gettoken_loop (at_pos T off) strref_clear = Some (strref_set off (length s), at_pos T (off + length s))" .
  have "off + length s \<le> length T" using drop_le [OF assms(1)] s by simp
  then have "ref_len (strref_set off (length s)) \<noteq> 0" using assms(3) s by (intro ref_len_nonzero) auto
  then show ?thesis using g by (simp add: lookup_gettoken_def)
qed

lemma gettoken_single:
  assumes "drop off T = c # rest" "c = 61 \<or> c = 10 \<and> (rest = [] \<or> hd rest \<noteq> 13)"
  shows "lookup_gettoken (at_pos T off) = Some (True, strref_set off 1, at_pos T (off + 1))"
proof -
  have "c \<noteq> 0" using assms(2) by auto
  moreover have run: "\<not> run_type (get_char_token_type c)" using assms(2) sep_type by auto
  have "token_len (c # rest) = 1"
  proof (cases rest)
    case (Cons d ds)
    then have "d \<noteq> 13" if "c = 10" using assms(2) that by simp
    then show ?thesis using Cons run assms(2) by (auto simp: is_newline_pair_def)
  qed (use run assms(2) in \<open>auto simp: is_newline_pair_def\<close>)
  ultimately have tk: "lexer_getbasetoken (at_pos T off) PARSE_WHITESPACE =
      (Some \<lparr>bt_text = strref_set off 1, bt_type = get_char_token_type c\<rparr>, at_pos T (off + 1))"
    using getbasetoken_token [OF assms(1)] by simp
  have "get_char_token_type c = BASETOKEN_WHITESPACE \<or> c = 61" "c \<noteq> 35" using assms(2) by (auto simp: whitespace_type is_whitespace_def)
  then have "gettoken_loop (at_pos T off) strref_clear = Some (strref_set off 1, at_pos T (off + 1))"
    using token_char_at [OF assms(1), of "off + 1" 1] by (subst gettoken_loop.simps) (auto simp: tk Let_def strref_clear_def)
  then show ?thesis by (simp add: lookup_gettoken_def strref_set_def)
qed

lemma gettoken_end: "drop off T = [] \<Longrightarrow> lookup_gettoken (at_pos T off) = Some (False, strref_clear, at_pos T off)"
  using getbasetoken_end [of off T] by (simp add: lookup_gettoken_def gettoken_loop.simps strref_clear_def)

lemma string_end_text:
  assumes "drop off T = write_text v @ 34 # rest" "\<forall>c \<in> set v. c \<noteq> 0 \<and> c \<noteq> 92 \<and> c \<noteq> 34"
  shows "string_end T off False = off + length (write_text v) + 1"
  using assms
proof (induction v arbitrary: off)
  case Nil
  then have d: "drop off T = 34 # rest" by (simp add: write_text_def)
  then have "off < length T" "T ! off = 34" using nth_via_drop [OF d] by (cases "off < length T"; simp)+
  then show ?case by (subst string_end.simps) (simp add: write_text_def)
next
  case (Cons c v)
  have d: "drop off T = write_char c @ write_text v @ 34 # rest" using Cons.prems(1) by (simp add: write_text_def)
  have IH: "string_end T (off + length (write_char c)) False = off + length (write_char c) + length (write_text v) + 1"
    using Cons.IH [OF drop_next [OF d]] Cons.prems(2) by simp
  have at: "off + i < length T \<and> T ! (off + i) = write_char c ! i" if "i < length (write_char c)" for i
  proof -
    have "off + length (write_char c) \<le> length T" using drop_le [OF d] that by (cases "write_char c") auto
    then show ?thesis using that d nth_drop [of off T i] by (simp add: nth_append)
  qed
  have "string_end T off False = string_end T (off + length (write_char c)) False"
  proof (cases "c = 10 \<or> c = 9 \<or> c = 13")
    case True
    then have "length (write_char c) = 2" "write_char c ! 0 = 92" "write_char c ! 1 \<noteq> 0" "write_char c ! 1 \<noteq> 10" by (auto simp: write_char_def)
    then show ?thesis using at [of 0] at [of 1] by (subst string_end.simps, subst string_end.simps) simp
  next
    case False
    then have "write_char c = [c]" by (simp add: write_char_def)
    then show ?thesis using at [of 0] Cons.prems(2) False by (subst string_end.simps) simp
  qed
  then show ?case using IH by (simp add: write_text_def)
qed


lemma gettoken_string:
  assumes "drop off T = 34 # write_text v @ 34 # rest" "v \<noteq> []" "\<forall>c \<in> set v. c \<noteq> 0 \<and> c \<noteq> 92 \<and> c \<noteq> 34" "length T < 2 ^ 64"
  shows "lookup_gettoken (at_pos T off) =
    Some (True, strref_set (off + 1) (length (write_text v)), at_pos T (off + length (write_text v) + 2))"
proof -
  let ?n = "length (write_text v)"
  have d: "drop (off + 1) T = write_text v @ 34 # rest" using drop_next [of off T "[34]"] assms(1) by simp
  have pos: "0 < ?n" using assms(2) by (cases v) (auto simp: write_text_def write_char_def)
  have run: "\<not> run_type (get_char_token_type 34)" "get_char_token_type 34 \<noteq> BASETOKEN_WHITESPACE"
    by (simp_all add: get_char_token_type_def is_whitespace_def run_type_def)
  have "token_len (34 # write_text v @ 34 # rest) = 1" using run by (auto simp: is_newline_pair_def)
  then have tk: "lexer_getbasetoken (at_pos T off) PARSE_WHITESPACE =
      (Some \<lparr>bt_text = strref_set off 1, bt_type = get_char_token_type 34\<rparr>, at_pos T (off + 1))"
    using getbasetoken_token [OF assms(1)] by simp
  have string_end: "string_end T (off + 1) False = off + ?n + 2" using string_end_text [OF d assms(3)] by simp
  have at34: "char_at T pos = 34" if "drop pos T = 34 # xs" for pos xs
    using nth_via_drop [OF that] that by (cases "pos < length T") (auto simp: char_at_def)
  have quotes: "char_at T off = 34" "char_at T (off + ?n + 1) = 34"
    using at34 [OF assms(1)] at34 [OF drop_next [OF d]] by (simp_all add: add.commute add.left_commute)
  have len: "?n < 2 ^ 64" using drop_le [OF d] pos assms(4) by simp
  have "gettoken_loop (at_pos T off) strref_clear = Some (strref_set (off + 1) ?n, at_pos T (off + ?n + 2))"
    using token_char_at [OF assms(1), of "off + 1" 1] run quotes string_end
    by (subst gettoken_loop.simps) (simp add: tk Let_def strref_clear_def lookup_getstringtoken_def strref_set_def)
  then show ?thesis using ref_len_nonzero [OF pos len] by (simp add: lookup_gettoken_def)
qed

text \<open>A name and its text as a line of a file.\<close>

definition write_line :: "byte list \<times> byte list \<Rightarrow> byte list" where
  "write_line = (\<lambda>(name, val). name @ 61 # 34 # write_text val @ 34 # [10])"

definition entry_ok :: "byte list \<times> byte list \<Rightarrow> bool" where
  "entry_ok = (\<lambda>(name, val). name_ok name \<and> val \<noteq> [] \<and> (\<forall>c \<in> set val. c \<noteq> 0 \<and> c \<noteq> 92 \<and> c \<noteq> 34))"

definition leaf_of :: "byte list \<times> byte list \<Rightarrow> text_leaf" where
  "leaf_of = (\<lambda>(name, val). \<lparr>tl_lookup = name, tl_value = val\<rparr>)"

lemma leaf_of_simps [simp]: "tl_lookup (leaf_of e) = fst e" "tl_value (leaf_of e) = snd e"
  by (simp_all add: leaf_of_def split: prod.split)

lemma zero_free_write_text: "\<forall>c \<in> set v. c \<noteq> 0 \<Longrightarrow> 0 \<notin> set (write_text v)"
  by (auto simp: write_text_def write_char_def split: if_splits)

lemma read_line:
  assumes d: "drop off T = write_line (name, val) @ rest" and ok: "entry_ok (name, val)" and rest: "rest = [] \<or> hd rest \<noteq> 13" and T: "length T < 2 ^ 64"
  shows "addfile_loop fresh (at_pos T off) node =
    addfile_loop fresh (at_pos T (off + length (write_line (name, val)))) (lookup_addstring name (leaf_of (name, val)) node)"
proof -
  let ?n = "length name" let ?w = "write_text val" let ?v = "length ?w"
  have n: "name_ok name" and v: "val \<noteq> []" "\<forall>c \<in> set val. c \<noteq> 0 \<and> c \<noteq> 92 \<and> c \<noteq> 34" using ok by (auto simp: entry_ok_def)
  have d1: "drop off T = name @ 61 # 34 # ?w @ 34 # 10 # rest" using d by (simp add: write_line_def)
  have d2: "drop (off + ?n) T = 61 # 34 # ?w @ 34 # 10 # rest" using drop_next [OF d1] .
  have d3: "drop (off + ?n + 1) T = 34 # ?w @ 34 # 10 # rest" using drop_next [of "off + ?n" T "[61]"] d2 by simp
  have d4: "drop (off + ?n + 2) T = ?w @ 34 # 10 # rest" using drop_next [of "off + ?n + 1" T "[34]"] d3 by simp
  have e5: "off + ?n + 2 + length (?w @ [34]) = off + ?n + ?v + 3" by simp
  have d5: "drop (off + ?n + ?v + 3) T = 10 # rest"
    using drop_next [of "off + ?n + 2" T "?w @ [34]" "10 # rest"] d4 unfolding e5 by simp
  have hd: "name \<noteq> []" "char_at T off = hd name" "hd name \<noteq> 10" "0 \<notin> set name"
    using n d1 drop_le [OF d1] nth_via_drop [of off T "hd name"] by (cases name; auto simp: name_ok_def is_whitespace_def char_at_def)+
  have w: "?w \<noteq> []" using v by (cases val) (auto simp: write_text_def write_char_def)
  have hw: "char_at T (off + ?n + 2) = hd ?w" using nth_via_drop [of "off + ?n + 2" T "hd ?w" "tl ?w @ 34 # 10 # rest"] d4 drop_le [OF d4 w] w by (auto simp: char_at_def)
  have hw': "hd ?w \<noteq> 10" using v by (cases val) (auto simp: write_text_def write_char_def)
  note g1 = gettoken_name [OF d1 n T]
  note g2 = gettoken_single [OF d2, simplified]
  have at61: "char_at T (off + ?n) = 61" using nth_via_drop [OF d2] drop_le [of "off + ?n" T "[61]"] d2 by (auto simp: char_at_def)
  note g3 = gettoken_string [OF d3 v T]
  have g4: "lookup_gettoken (at_pos T (off + ?n + ?v + 3)) = Some (True, strref_set (off + ?n + ?v + 3) 1, at_pos T (off + ?n + ?v + 4))"
    using gettoken_single [OF d5] rest by simp
  have at10: "char_at T (off + ?n + ?v + 3) = 10" using nth_via_drop [OF d5] drop_le [of "off + ?n + ?v + 3" T "[10]"] d5 by (auto simp: char_at_def)
  have val: "getval (at_pos T (off + ?n)) = Some (True, strref_set (off + ?n + 2) ?v, at_pos T (off + ?n + ?v + 3))"
    using g2 g3 at61 by (simp add: getval_def ref_char_def strref_set_def)
  have next_line: "lookup_goto_nextline (at_pos T (off + ?n + ?v + 3)) = Some (True, at_pos T (off + ?n + ?v + 4))"
    using g4 at10 by (subst lookup_goto_nextline.simps) (simp add: ref_char_def strref_set_def)
  have dup: "dup_ref T (strref_set off ?n) = Some name" "dup_ref T (strref_set (off + ?n + 2) ?v) = Some ?w"
    using dup_ref_text [OF d1 hd(1,4) T] dup_ref_text [OF d4 w _ T] zero_free_write_text [of val] v(2) by auto
  have conv: "convert_string fresh ?w = Some val" by (rule convert_write) (use v(2) in auto)
  have r1: "ref_char (at_pos T (off + ?n)) (strref_set off ?n) \<noteq> 10" using hd(2,3) by (simp add: ref_char_def strref_set_def)
  have r2: "ref_char (at_pos T (off + ?n + ?v + 3)) (strref_set (off + ?n + 2) ?v) \<noteq> 10" using hw hw' by (simp add: ref_char_def strref_set_def)
  have len: "off + length (write_line (name, val)) = off + ?n + ?v + 4" by (simp add: write_line_def)
  show ?thesis
    unfolding len leaf_of_def prod.case
    by (subst addfile_loop.simps) (simp add: g1 val r1 r2 dup conv next_line del: add_2_eq_Suc add_2_eq_Suc')
qed

lemma read_lines:
  assumes "drop off T = concat (map write_line entries)" "\<forall>e \<in> set entries. entry_ok e" "length T < 2 ^ 64"
  shows "addfile_loop fresh (at_pos T off) node = Some (add_leaves (map leaf_of entries) node)"
  using assms(1,2)
proof (induction entries arbitrary: off node)
  case Nil
  then show ?case using gettoken_end [of off T] by (subst addfile_loop.simps) (simp add: add_leaves_def)
next
  case (Cons e entries)
  obtain name val where e: "e = (name, val)" by (cases e)
  let ?rest = "concat (map write_line entries)"
  have rest: "?rest = [] \<or> hd ?rest \<noteq> 13"
  proof (cases entries)
    case (Cons f fs)
    then show ?thesis using Cons.prems(2) by (cases "fst f") (auto simp: write_line_def entry_ok_def name_ok_def is_whitespace_def split: prod.splits)
  qed simp
  have d: "drop off T = write_line (name, val) @ ?rest" using Cons.prems(1) e by simp
  have ok: "entry_ok (name, val)" using Cons.prems(2) e by simp
  show ?case
    using read_line [OF d ok rest assms(3), of fresh node] Cons.IH [OF drop_next [OF d]] Cons.prems(2) e
    by (simp add: add_leaves_def leaf_of_def)
qed


lemma write_line_chars:
  assumes "entry_ok (name, val)"
  shows "0 \<notin> set (write_line (name, val))" "13 \<notin> set (write_line (name, val))" "6 \<le> length (write_line (name, val))"
proof -
  have n: "name \<noteq> []" "0 \<notin> set name" "13 \<notin> set name" using assms by (auto simp: entry_ok_def name_ok_def is_whitespace_def)
  have w: "write_text val \<noteq> []" "0 \<notin> set (write_text val)" using assms zero_free_write_text [of val]
    by (auto simp: entry_ok_def) (cases val, auto simp: write_text_def write_char_def split: if_splits)
  have cr: "13 \<notin> set (write_text val)" by (auto simp: write_text_def write_char_def split: if_splits)
  show "0 \<notin> set (write_line (name, val))" "13 \<notin> set (write_line (name, val))" using n w cr by (simp_all add: write_line_def)
  have "0 < length name" "0 < length (write_text val)" using n(1) w(1) by simp_all
  then show "6 \<le> length (write_line (name, val))" by (simp add: write_line_def del: length_greater_0_conv)
qed

lemma fread_text: "3 \<le> length t \<Longrightarrow> bom \<or> take 3 t \<noteq> utf8_bom \<Longrightarrow> os_fread_utf8 ((if bom then utf8_bom else []) @ t) = Some t"
  by (cases t) (auto simp: os_fread_utf8_def utf8_bom_def)

lemma find_map: "find P (map f xs) = map_option f (find (\<lambda>x. P (f x)) xs)"
  by (induction xs) auto

text \<open>C28: A table that is written as lines of a name and a quoted text is read back from its file: every name is found in any case and
  gives the text of its last line, with line breaks and tabulators, and a name that is not in the file is not found.\<close>

theorem text_lookup_roundtrip:
  assumes fs_file: "fs path = Some ((if bom then utf8_bom else []) @ concat (map write_line entries))"
    and ok: "entries \<noteq> []" "\<forall>e \<in> set entries. entry_ok e" "case_consistent (map fst entries)"
    and size_ok: "length (concat (map write_line entries)) < 2 ^ 64"
    and first: "bom \<or> take 3 (concat (map write_line entries)) \<noteq> utf8_bom"
    and name: "name \<noteq> []" "0 \<notin> set name"
  shows "\<exists>lookup. text_lookup_create fresh fs path = Some (Some lookup) \<and>
    text_lookup_getstr (Some lookup) name = map_option snd (find (\<lambda>e. same_name (fst e) name) (rev entries))"
proof -
  let ?T = "concat (map write_line entries)"
  have line: "0 \<notin> set (write_line e) \<and> 13 \<notin> set (write_line e) \<and> 6 \<le> length (write_line e)" if "e \<in> set entries" for e
    using ok(2) that by (cases e) (simp add: write_line_chars)
  then have z: "0 \<notin> set ?T" "13 \<notin> set ?T" by auto
  have long: "3 \<le> length ?T" using ok(1) line [of "hd entries"] by (cases entries) auto
  then have fread: "os_fread_utf8 ((if bom then utf8_bom else []) @ ?T) = Some ?T"
    by (rule fread_text) (rule first)
  have "\<forall>c \<in> set ?T. c \<noteq> 0" using z(1) by blast
  then have text_all: "takeWhile (\<lambda>c. c \<noteq> 0) ?T = ?T" by (simp only: takeWhile_eq_all_conv)
  have "dstr_holds (dstr_init_move_array (Some ?T)) ?T" using z by (intro dstr_holdsI [where R = "[]"]) (auto simp: dstr_init_move_array_def)
  moreover have "replace_all [13] [32] ?T = ?T" using z(2) strstr_absent [of 13 ?T] by (simp add: replace_all.simps)
  ultimately obtain d where d: "dstr_replace fresh (dstr_init_move_array (Some ?T)) [13] (Some [32]) = Some d" "dstr_holds d ?T"
    using replace_holds [of "dstr_init_move_array (Some ?T)" ?T "[13]" "[32]" fresh] by auto
  have "?T \<noteq> []" using long by (metis list.size(3) not_numeral_le_zero)
  then obtain R where R: "ds_array d = Some (?T @ 0 # R)" using d(2) by (auto simp: dstr_holds_def split: option.splits)
  let ?node = "add_leaves (map leaf_of entries) (Text_node [] [] None)"
  have "lookup_addfiledata fresh (Text_node [] [] None) ?T = Some ?node"
    using read_lines [of 0 ?T entries fresh "Text_node [] [] None"] ok(2) size_ok by (simp add: lookup_addfiledata_def lexer_start_def)
  moreover have "c_string (?T @ 0 # R) = Some ?T" using z(1) by (rule c_string_terminated)
  ultimately have create: "text_lookup_create fresh fs path = Some (Some \<lparr>tx_language = [], tx_top = Some ?node\<rparr>)"
    unfolding text_lookup_create_def text_lookup_add_def fs_file option.case fread text_all Let_def text_lookup.simps d(1) Option.bind.simps R
    by (simp only: Option.bind.simps prod.case if_True option.case text_lookup.simps simp_thms)
  have names: "map tl_lookup (map leaf_of entries) = map fst entries" by (auto simp: leaf_of_def)
  have "0 \<notin> set (tl_lookup (leaf_of e))" if "e \<in> set entries" for e
    using ok(2) that by (cases e) (auto simp: leaf_of_def entry_ok_def name_ok_def dest!: bspec)
  then have "\<forall>leaf \<in> set (map leaf_of entries). 0 \<notin> set (tl_lookup leaf)" by simp
  then have "leaf_at ?node (upper name) = last_leaf (map leaf_of entries) name" "well_formed ?node"
    using add_leaves_map [of "map leaf_of entries" "map leaf_of entries", unfolded names, OF ok(3)] ok(1) by simp_all
  then show ?thesis
    using create getstring_leaf_at [of ?node name] name
    by (simp add: text_lookup_getstr_def last_leaf_def rev_map find_map option.map_comp comp_def)
qed


text \<open>The file \<open>a="x\ny"\<close>, \<open>ab="z"\<close>, asked for \<open>A\<close>.\<close>

theorem text_lookup_roundtrip_witness:
  "\<exists>lookup. text_lookup_create (\<lambda>_. 0) [[1] \<mapsto> concat (map write_line [([97], [120, 10, 121]), ([97, 98], [122])])] [1] = Some (Some lookup) \<and>
     text_lookup_getstr (Some lookup) [65] = Some [120, 10, 121]"
proof -
  let ?es = "[([97], [120, 10, 121]), ([97, 98], [122])] :: (byte list \<times> byte list) list"
  have c: "case_consistent (map fst ?es)" by code_simp
  have f: "find (\<lambda>e. same_name (fst e) [65]) (rev ?es) = Some ([97], [120, 10, 121])" by code_simp
  have ok: "\<forall>e \<in> set ?es. entry_ok e" by (simp add: entry_ok_def name_ok_def is_whitespace_def)
  have t: "concat (map write_line ?es) = [97, 61, 34, 120, 92, 110, 121, 34, 10, 97, 98, 61, 34, 122, 34, 10]"
    by (simp add: write_line_def write_text_def write_char_def)
  show ?thesis
    using text_lookup_roundtrip [of "[[1] \<mapsto> concat (map write_line ?es)]" "[1]" False ?es "[65]" "\<lambda>_. 0", OF _ _ ok c] f unfolding t
    by (simp add: utf8_bom_def)
qed

subsection \<open>Lines that go wrong\<close>

lemma gettoken_quotes:
  assumes "drop off T = 34 # tail" "tail = [] \<or> hd tail = 34" "length T < 2 ^ 64"
  shows "gettoken_loop (at_pos T off) strref_clear =
    Some (\<lparr>ref_array = Some (off + 1), ref_len = (if tail = [] then - 1 else 0)\<rparr>, at_pos T (off + (if tail = [] then 1 else 2)))"
proof -
  have d: "drop (off + 1) T = tail" using drop_next [of off T "[34]"] assms(1) by simp
  have at: "off < length T" "T ! off = 34" using nth_via_drop [OF assms(1)] assms(1) by (cases "off < length T"; simp)+
  have run: "\<not> run_type (get_char_token_type 34)" "get_char_token_type 34 \<noteq> BASETOKEN_WHITESPACE"
    by (simp_all add: get_char_token_type_def is_whitespace_def run_type_def)
  then have "token_len (34 # tail) = 1" by (auto simp: is_newline_pair_def)
  then have tk: "lexer_getbasetoken (at_pos T off) PARSE_WHITESPACE =
      (Some \<lparr>bt_text = strref_set off 1, bt_type = get_char_token_type 34\<rparr>, at_pos T (off + 1))"
    using getbasetoken_token [OF assms(1)] by simp
  have string_end: "string_end T (off + 1) False = off + (if tail = [] then 1 else 2) \<and>
      (tail \<noteq> [] \<longrightarrow> off + 1 < length T \<and> T ! (off + 1) = 34)"
  proof (cases tail)
    case Nil
    then show ?thesis using d by (subst string_end.simps) simp
  next
    case (Cons c cs)
    then have "off + 1 < length T" "T ! (off + 1) = 34" using d assms(2) nth_via_drop [of "off + 1" T c cs] by (cases "off + 1 < length T"; simp)+
    then show ?thesis using Cons by (subst string_end.simps) simp
  qed
  then show ?thesis
    using token_char_at [OF assms(1), of "off + 1" 1] run at
    by (subst gettoken_loop.simps) (auto simp: tk Let_def strref_clear_def lookup_getstringtoken_def strref_set_def char_at_def)
qed

text \<open>A line with an empty text ends the reading of the whole file, whatever follows it; and a single quote at the end of the file makes
  a text of length minus one, whose copy reads past the end.\<close>

theorem text_lookup_malformed_lines:
  assumes "name_ok name" "length name + length rest + 5 < 2 ^ 64"
  shows "lookup_addfiledata fresh node (name @ 61 # 34 # 34 # rest) = Some node \<and>
    lookup_addfiledata fresh node (name @ [61, 34]) = None"
proof -
  have start: "lookup_gettoken (at_pos T 0) = Some (True, strref_set 0 (length name), at_pos T (length name)) \<and>
      ref_char (at_pos T (length name)) (strref_set 0 (length name)) \<noteq> 10 \<and>
      getval (at_pos T (length name)) = lookup_gettoken (at_pos T (length name + 1)) \<and> dup_ref T (strref_set 0 (length name)) = Some name"
    if T: "T = name @ 61 # 34 # tail" "length T < 2 ^ 64" for T tail
  proof -
    have d: "drop 0 T = name @ 61 # 34 # tail" and d2: "drop (length name) T = 61 # 34 # tail" using T(1) by simp_all
    have n: "name \<noteq> []" "0 \<notin> set name" "hd name \<noteq> 10" using assms(1) by (cases name; auto simp: name_ok_def is_whitespace_def)+
    have "char_at T 0 = hd name" "char_at T (length name) = 61" using T(1) n(1) by (auto simp: char_at_def nth_append hd_conv_nth)
    then show ?thesis
      using gettoken_name [OF d assms(1) T(2)] gettoken_single [OF d2] dup_ref_text [OF d n(1,2) T(2)] n(3)
      by (simp add: getval_def ref_char_def strref_set_def)
  qed
  let ?T1 = "name @ 61 # 34 # 34 # rest" let ?T2 = "name @ [61, 34]"
  have l: "length ?T1 < 2 ^ 64" "length ?T2 < 2 ^ 64" using assms(2) by simp_all
  have "drop (length name + 1) ?T1 = 34 # 34 # rest" "drop (length name + 1) ?T2 = [34]" by simp_all
  note q = gettoken_quotes [OF this(1) _ l(1)] gettoken_quotes [OF this(2) _ l(2)]
  have v1: "\<exists>val lx. getval (at_pos ?T1 (length name)) = Some (False, val, lx)"
    using start [OF refl l(1)] q(1) by (simp add: lookup_gettoken_def)
  have r1: "lookup_addfiledata fresh node ?T1 = Some node"
    using start [OF refl l(1)] v1 unfolding lookup_addfiledata_def lexer_start_def by (subst addfile_loop.simps) auto
  have v2: "getval (at_pos ?T2 (length name)) =
      Some (True, \<lparr>ref_array = Some (length name + 2), ref_len = - 1\<rparr>, at_pos ?T2 (length name + 2))"
    using start [OF refl l(2)] q(2) by (simp add: lookup_gettoken_def)
  have "(- 1 :: 64 word) = 18446744073709551615" by simp
  then have "unat (- 1 :: 64 word) = 18446744073709551615" by (simp only:) simp
  then have "dup_ref ?T2 \<lparr>ref_array = Some (length name + 2), ref_len = - 1\<rparr> = None" by (simp add: dup_ref_def peek_def)
  moreover have "lookup_gettoken (at_pos ?T2 0) = Some (True, strref_set 0 (length name), at_pos ?T2 (length name))"
      "ref_char (at_pos ?T2 (length name)) (strref_set 0 (length name)) \<noteq> 10" "dup_ref ?T2 (strref_set 0 (length name)) = Some name"
    using start [OF refl l(2)] by blast+
  ultimately have "lookup_addfiledata fresh node ?T2 = None"
    using v2 unfolding lookup_addfiledata_def lexer_start_def
    by (subst addfile_loop.simps) (simp add: ref_char_def char_at_def)
  then show ?thesis using r1 by blast
qed

theorem text_lookup_malformed_lines_witness:
  "lookup_addfiledata (\<lambda>_. 0) (Text_node [] [] None) ([97] @ 61 # 34 # 34 # concat (map write_line [([98], [120])])) = Some (Text_node [] [] None) \<and>
   lookup_addfiledata (\<lambda>_. 0) (Text_node [] [] None) ([97] @ [61, 34]) = None"
proof -
  have "name_ok [97]" by (simp add: name_ok_def is_whitespace_def)
  moreover have "length (concat (map write_line [([98], [120])])) = 6" by (simp add: write_line_def write_text_def write_char_def)
  ultimately show ?thesis using text_lookup_malformed_lines [of "[97]" "concat (map write_line [([98], [120])])" "\<lambda>_. 0" "Text_node [] [] None"] by simp
qed

text \<open>An empty comment takes the line below it along, because the search for its end begins one character late.\<close>

theorem text_lookup_empty_comment:
  "skip_comment \<lparr>lx_text = Some [35, 10, 97, 61, 34, 98, 34, 10], lx_offset = 1\<rparr> =
     Some \<lparr>lx_text = Some [35, 10, 97, 61, 34, 98, 34, 10], lx_offset = 7\<rparr> \<and>
   skip_comment \<lparr>lx_text = Some [35], lx_offset = 1\<rparr> = None"
  by code_simp

end
