(* ===== verification/Scene.thy ===== *)
theory Scene
  imports Prelude "HOL-Library.Word"
begin

text \<open>
  Scenes and their items (\<open>libobs/obs-scene.c\<close>). Scenes and items live in an explicit store, from pointers to
  structures; an item that has been freed is no longer in the store, and \<open>None\<close> is an access through a null
  pointer or to freed memory. The items of a scene are a doubly linked list, from the bottom to the top of the picture.
  A source is a number. The ghost fields count the references the scene holds on its sources and the times a source has been made an active child
  of another, and record the signals. Sections under both mutexes of a scene are atomic. Transforms,
  rendering and the mixing of samples are not modelled.
\<close>

type_synonym ptr = nat

subsection \<open>Structures\<close>

record item_action =
  ia_visible :: bool
  ia_timestamp :: "64 word"

record obs_scene_item =
  si_ref :: int
  si_removed :: bool
  si_parent :: "ptr option"
  si_source :: nat
  si_active_refs :: int
  si_user_visible :: bool
  si_visible :: bool
  si_selected :: bool
  si_audio_actions :: "item_action list"
  si_prev :: "ptr option"
  si_next :: "ptr option"

record obs_scene =
  os_source :: nat
  os_first_item :: "ptr option"

datatype scene_signal =
    Item_add ptr ptr
  | Item_remove ptr ptr
  | Item_reorder ptr
  | Item_visible ptr ptr bool
  | Item_select ptr ptr
  | Item_deselect ptr ptr

record store =
  w_scenes :: "ptr \<Rightarrow> obs_scene option"
  w_items :: "ptr \<Rightarrow> obs_scene_item option"
  w_children :: "nat \<Rightarrow> nat \<Rightarrow> int"
  w_source_refs :: "nat \<Rightarrow> int"
  w_signals :: "scene_signal list"

definition upd_item :: "store \<Rightarrow> ptr \<Rightarrow> (obs_scene_item \<Rightarrow> obs_scene_item) \<Rightarrow> store option" where
  "upd_item w p f = (case w_items w p of None \<Rightarrow> None | Some it \<Rightarrow> Some (w\<lparr>w_items := (w_items w)(p \<mapsto> f it)\<rparr>))"

definition upd_scene :: "store \<Rightarrow> ptr \<Rightarrow> (obs_scene \<Rightarrow> obs_scene) \<Rightarrow> store option" where
  "upd_scene w s f = (case w_scenes w s of None \<Rightarrow> None | Some sc \<Rightarrow> Some (w\<lparr>w_scenes := (w_scenes w)(s \<mapsto> f sc)\<rparr>))"

definition signal :: "store \<Rightarrow> scene_signal \<Rightarrow> store" where
  "signal w e = w\<lparr>w_signals := w_signals w @ [e]\<rparr>"

text \<open>What the scene asks of the sources; \<open>may_add\<close> is the answer of the search for a recursion.\<close>

definition obs_source_add_active_child :: "bool \<Rightarrow> store \<Rightarrow> nat \<Rightarrow> nat \<Rightarrow> bool \<times> store" where
  "obs_source_add_active_child may_add w parent child =
     (if parent = child \<or> \<not> may_add then (False, w)
      else (True, w\<lparr>w_children := (w_children w)(parent := (w_children w parent)(child := w_children w parent child + 1))\<rparr>))"

definition obs_source_remove_active_child :: "store \<Rightarrow> nat \<Rightarrow> nat \<Rightarrow> store" where
  "obs_source_remove_active_child w parent child =
     w\<lparr>w_children := (w_children w)(parent := (w_children w parent)(child := w_children w parent child - 1))\<rparr>"

definition obs_source_addref :: "store \<Rightarrow> nat \<Rightarrow> store" where
  "obs_source_addref w source = w\<lparr>w_source_refs := (w_source_refs w)(source := w_source_refs w source + 1)\<rparr>"

definition obs_source_release :: "store \<Rightarrow> nat \<Rightarrow> store" where
  "obs_source_release w source = w\<lparr>w_source_refs := (w_source_refs w)(source := w_source_refs w source - 1)\<rparr>"

subsection \<open>The list of items\<close>

text \<open>\<open>if (prev) prev->next = item; else parent->first_item = item;\<close>\<close>

definition set_link :: "store \<Rightarrow> ptr option \<Rightarrow> ptr option \<Rightarrow> ptr option \<Rightarrow> store option" where
  "set_link w prev parent item =
     (case prev of
        Some prev \<Rightarrow> upd_item w prev (\<lambda>it. it\<lparr>si_next := item\<rparr>)
      | None \<Rightarrow> do { parent \<leftarrow> parent; upd_scene w parent (\<lambda>sc. sc\<lparr>os_first_item := item\<rparr>) })"

definition detach_sceneitem :: "store \<Rightarrow> ptr \<Rightarrow> store option" where
  "detach_sceneitem w item = do {
     it \<leftarrow> w_items w item;
     w \<leftarrow> set_link w (si_prev it) (si_parent it) (si_next it);
     it \<leftarrow> w_items w item;
     w \<leftarrow> (case si_next it of None \<Rightarrow> Some w | Some n \<Rightarrow> upd_item w n (\<lambda>i. i\<lparr>si_prev := si_prev it\<rparr>));
     upd_item w item (\<lambda>it. it\<lparr>si_parent := None\<rparr>) }"

definition attach_sceneitem :: "store \<Rightarrow> ptr option \<Rightarrow> ptr \<Rightarrow> ptr option \<Rightarrow> store option" where
  "attach_sceneitem w parent item prev = do {
     w \<leftarrow> upd_item w item (\<lambda>it. it\<lparr>si_prev := prev, si_parent := parent\<rparr>);
     following \<leftarrow> (case prev of
                Some prev \<Rightarrow> map_option si_next (w_items w prev)
              | None \<Rightarrow> do { parent \<leftarrow> parent; map_option os_first_item (w_scenes w parent) });
     w \<leftarrow> upd_item w item (\<lambda>it. it\<lparr>si_next := following\<rparr>);
     w \<leftarrow> (case following of None \<Rightarrow> Some w | Some n \<Rightarrow> upd_item w n (\<lambda>it. it\<lparr>si_prev := Some item\<rparr>));
     set_link w prev parent (Some item) }"

subsection \<open>Visibility and references\<close>

definition set_visibility :: "store \<Rightarrow> bool \<Rightarrow> ptr \<Rightarrow> bool \<Rightarrow> store option" where
  "set_visibility w may_add item vis = do {
     w \<leftarrow> upd_item w item (\<lambda>it. it\<lparr>si_audio_actions := []\<rparr>);
     it \<leftarrow> w_items w item;
     w \<leftarrow> (if si_active_refs it > 0 then
             (if \<not> vis then do {
                parent \<leftarrow> si_parent it;
                sc \<leftarrow> w_scenes w parent;
                Some (obs_source_remove_active_child w (os_source sc) (si_source it)) }
              else Some w)
           else if vis then do {
             parent \<leftarrow> si_parent it;
             sc \<leftarrow> w_scenes w parent;
             Some (snd (obs_source_add_active_child may_add w (os_source sc) (si_source it))) }
           else Some w);
     upd_item w item (\<lambda>it. it\<lparr>si_active_refs := (if vis then 1 else 0), si_visible := vis, si_user_visible := vis\<rparr>) }"

definition signal_item_remove :: "store \<Rightarrow> ptr \<Rightarrow> store option" where
  "signal_item_remove w item = do { it \<leftarrow> w_items w item; parent \<leftarrow> si_parent it; Some (signal w (Item_remove parent item)) }"

definition remove_without_release :: "store \<Rightarrow> ptr \<Rightarrow> store option" where
  "remove_without_release w item = do {
     w \<leftarrow> upd_item w item (\<lambda>it. it\<lparr>si_removed := True\<rparr>);
     w \<leftarrow> set_visibility w False item False;
     w \<leftarrow> signal_item_remove w item;
     detach_sceneitem w item }"

definition obs_sceneitem_destroy :: "store \<Rightarrow> ptr \<Rightarrow> store option" where
  "obs_sceneitem_destroy w item = do {
     it \<leftarrow> w_items w item;
     let w = obs_source_release w (si_source it) in Some (w\<lparr>w_items := (w_items w)(item := None)\<rparr>) }"

definition obs_sceneitem_addref :: "store \<Rightarrow> ptr option \<Rightarrow> store option" where
  "obs_sceneitem_addref w item =
     (case item of None \<Rightarrow> Some w | Some item \<Rightarrow> upd_item w item (\<lambda>it. it\<lparr>si_ref := si_ref it + 1\<rparr>))"

definition obs_sceneitem_release :: "store \<Rightarrow> ptr option \<Rightarrow> store option" where
  "obs_sceneitem_release w item =
     (case item of
        None \<Rightarrow> Some w
      | Some item \<Rightarrow> do {
          w \<leftarrow> upd_item w item (\<lambda>it. it\<lparr>si_ref := si_ref it - 1\<rparr>);
          it \<leftarrow> w_items w item;
          if si_ref it = 0 then obs_sceneitem_destroy w item else Some w })"

definition obs_sceneitem_remove :: "store \<Rightarrow> ptr option \<Rightarrow> store option" where
  "obs_sceneitem_remove w item =
     (case item of
        None \<Rightarrow> Some w
      | Some item \<Rightarrow> do {
          it \<leftarrow> w_items w item;
          if si_removed it then Some w
          else do {
            w \<leftarrow> upd_item w item (\<lambda>it. it\<lparr>si_removed := True\<rparr>);
            w \<leftarrow> set_visibility w False item False;
            w \<leftarrow> signal_item_remove w item;
            w \<leftarrow> detach_sceneitem w item;
            obs_sceneitem_release w (Some item) } })"

text \<open>Walks along the list; a loop that does not end is \<open>None\<close>.\<close>

partial_function (option) remove_loop :: "store \<Rightarrow> ptr option \<Rightarrow> ptr list \<Rightarrow> (store \<times> ptr list) option" where
  "remove_loop w item items =
     (case item of
        None \<Rightarrow> Some (w, items)
      | Some del_item \<Rightarrow> do {
          it \<leftarrow> w_items w del_item;
          w \<leftarrow> remove_without_release w del_item;
          remove_loop w (si_next it) (items @ [del_item]) })"

fun release_all :: "store \<Rightarrow> ptr list \<Rightarrow> store option" where
  "release_all w [] = Some w"
| "release_all w (item # items) = do { w \<leftarrow> obs_sceneitem_release w (Some item); release_all w items }"

definition remove_all_items :: "store \<Rightarrow> ptr \<Rightarrow> store option" where
  "remove_all_items w scene = do {
     sc \<leftarrow> w_scenes w scene;
     (w, items) \<leftarrow> remove_loop w (os_first_item sc) [];
     release_all w items }"

definition scene_create :: "bool \<Rightarrow> store \<Rightarrow> ptr \<Rightarrow> nat \<Rightarrow> ptr option \<times> store" where
  "scene_create mutex_ok w scene source =
     (if \<not> mutex_ok then (None, w)
      else (Some scene, w\<lparr>w_scenes := (w_scenes w)(scene \<mapsto> \<lparr>os_source = source, os_first_item = None\<rparr>)\<rparr>))"

definition scene_destroy :: "store \<Rightarrow> ptr \<Rightarrow> store option" where
  "scene_destroy w scene = do {
     w \<leftarrow> remove_all_items w scene;
     Some (w\<lparr>w_scenes := (w_scenes w)(scene := None)\<rparr>) }"

partial_function (option) last_item :: "store \<Rightarrow> ptr \<Rightarrow> ptr option" where
  "last_item w item = do {
     it \<leftarrow> w_items w item;
     case si_next it of None \<Rightarrow> Some item | Some n \<Rightarrow> last_item w n }"

definition new_item :: "(nat \<Rightarrow> bool) \<Rightarrow> ptr \<Rightarrow> nat \<Rightarrow> 64 word \<Rightarrow> obs_scene_item" where
  "new_item source_has_audio scene source time =
     \<lparr>si_ref = 1, si_removed = False, si_parent = Some scene, si_source = source, si_active_refs = 1, si_user_visible = True,
      si_visible = (\<not> source_has_audio source), si_selected = False,
      si_audio_actions = (if source_has_audio source then [\<lparr>ia_visible = True, ia_timestamp = time\<rparr>] else []),
      si_prev = None, si_next = None\<rparr>"

text \<open>\<open>item\<close> is the address of the new structure, \<open>mutex_ok\<close> says whether its mutex can be created.\<close>

definition obs_scene_add ::
  "(nat \<Rightarrow> bool) \<Rightarrow> store \<Rightarrow> bool \<Rightarrow> bool \<Rightarrow> 64 word \<Rightarrow> ptr \<Rightarrow> ptr option \<Rightarrow> nat option \<Rightarrow> (ptr option \<times> store) option" where
  "obs_scene_add source_has_audio w mutex_ok may_add time item scene source =
     (case (scene, source) of
        (Some scene, Some source) \<Rightarrow> if \<not> mutex_ok then Some (None, w) else do {
          sc \<leftarrow> w_scenes w scene;
          (case obs_source_add_active_child may_add w (os_source sc) source of
             (False, w) \<Rightarrow> Some (None, w)
           | (True, w) \<Rightarrow> do {
               let w = w\<lparr>w_items := (w_items w)(item \<mapsto> new_item source_has_audio scene source time)\<rparr>;
               let w = obs_source_addref w source;
               w \<leftarrow> (case os_first_item sc of
                      None \<Rightarrow> upd_scene w scene (\<lambda>sc. sc\<lparr>os_first_item := Some item\<rparr>)
                    | Some first \<Rightarrow> do {
                        last \<leftarrow> last_item w first;
                        w \<leftarrow> upd_item w last (\<lambda>it. it\<lparr>si_next := Some item\<rparr>);
                        upd_item w item (\<lambda>it. it\<lparr>si_prev := Some last\<rparr>) });
               Some (Some item, signal w (Item_add scene item)) }) }
      | _ \<Rightarrow> Some (None, w))"

subsection \<open>Order\<close>

datatype obs_order_movement = OBS_ORDER_MOVE_UP | OBS_ORDER_MOVE_DOWN | OBS_ORDER_MOVE_TOP | OBS_ORDER_MOVE_BOTTOM

definition signal_reorder :: "store \<Rightarrow> ptr \<Rightarrow> store option" where
  "signal_reorder w item = do { it \<leftarrow> w_items w item; parent \<leftarrow> si_parent it; Some (signal w (Item_reorder parent)) }"

definition obs_sceneitem_set_order :: "store \<Rightarrow> ptr option \<Rightarrow> obs_order_movement \<Rightarrow> store option" where
  "obs_sceneitem_set_order w item movement =
     (case item of
        None \<Rightarrow> Some w
      | Some item \<Rightarrow> do {
          it \<leftarrow> w_items w item;
          scene \<leftarrow> si_parent it;
          let following = si_next it;
          let prev = si_prev it;
          w \<leftarrow> detach_sceneitem w item;
          w \<leftarrow> (case movement of
                 OBS_ORDER_MOVE_DOWN \<Rightarrow> do {
                   before \<leftarrow> (case prev of None \<Rightarrow> Some None | Some prev \<Rightarrow> map_option si_prev (w_items w prev));
                   attach_sceneitem w (Some scene) item before }
               | OBS_ORDER_MOVE_UP \<Rightarrow> attach_sceneitem w (Some scene) item (if following \<noteq> None then following else prev)
               | OBS_ORDER_MOVE_TOP \<Rightarrow> do {
                   last \<leftarrow> (case following of None \<Rightarrow> Some prev | Some n \<Rightarrow> map_option Some (last_item w n));
                   attach_sceneitem w (Some scene) item last }
               | OBS_ORDER_MOVE_BOTTOM \<Rightarrow> attach_sceneitem w (Some scene) item None);
          signal_reorder w item })"

text \<open>\<open>for (int i = position; i > 1; --i)\<close>, with \<open>n\<close> rounds to go.\<close>

fun position_loop :: "store \<Rightarrow> nat \<Rightarrow> ptr option \<Rightarrow> ptr option option" where
  "position_loop w 0 following = Some following"
| "position_loop w (Suc n) following = do {
     p \<leftarrow> following;
     it \<leftarrow> w_items w p;
     case si_next it of None \<Rightarrow> Some following | Some m \<Rightarrow> position_loop w n (Some m) }"

definition obs_sceneitem_set_order_position :: "store \<Rightarrow> ptr option \<Rightarrow> int \<Rightarrow> store option" where
  "obs_sceneitem_set_order_position w item position =
     (case item of
        None \<Rightarrow> Some w
      | Some item \<Rightarrow> do {
          it \<leftarrow> w_items w item;
          scene \<leftarrow> si_parent it;
          w \<leftarrow> detach_sceneitem w item;
          sc \<leftarrow> w_scenes w scene;
          w \<leftarrow> (if position = 0 then attach_sceneitem w (Some scene) item None
                else do {
                  following \<leftarrow> position_loop w (nat (position - 1)) (os_first_item sc);
                  attach_sceneitem w (Some scene) item following });
          signal_reorder w item })"

fun find_index :: "ptr list \<Rightarrow> ptr \<Rightarrow> nat option" where
  "find_index [] item = None"
| "find_index (x # items) item = (if x = item then Some 0 else map_option Suc (find_index items item))"

text \<open>Whether the items are the same, and whether they are in the same order.\<close>

partial_function (option) match_loop :: "store \<Rightarrow> ptr list \<Rightarrow> ptr option \<Rightarrow> nat \<Rightarrow> bool \<Rightarrow> (bool \<times> bool) option" where
  "match_loop w items item count order_matches =
     (case item of
        None \<Rightarrow> Some (count = length items, order_matches)
      | Some p \<Rightarrow>
          (case find_index items p of
             None \<Rightarrow> Some (False, order_matches)
           | Some i \<Rightarrow> do {
               it \<leftarrow> w_items w p;
               match_loop w items (si_next it) (count + 1) (order_matches \<and> count = i) }))"

definition sceneitems_match :: "store \<Rightarrow> ptr \<Rightarrow> ptr list \<Rightarrow> (bool \<times> bool) option" where
  "sceneitems_match w scene items = do { sc \<leftarrow> w_scenes w scene; match_loop w items (os_first_item sc) 0 True }"

fun reorder_loop :: "store \<Rightarrow> ptr option \<Rightarrow> ptr list \<Rightarrow> store option" where
  "reorder_loop w prev [] = Some w"
| "reorder_loop w prev (item # items) = do {
     w \<leftarrow> upd_item w item (\<lambda>it. it\<lparr>si_prev := prev, si_next := None\<rparr>);
     w \<leftarrow> (case prev of None \<Rightarrow> Some w | Some prev \<Rightarrow> upd_item w prev (\<lambda>it. it\<lparr>si_next := Some item\<rparr>));
     reorder_loop w (Some item) items }"

definition obs_scene_reorder_items :: "store \<Rightarrow> ptr option \<Rightarrow> ptr list \<Rightarrow> (bool \<times> store) option" where
  "obs_scene_reorder_items w scene item_order =
     (case scene of
        None \<Rightarrow> Some (False, w)
      | Some scene \<Rightarrow>
          if item_order = [] then Some (False, w)
          else do {
            (same, order_matches) \<leftarrow> sceneitems_match w scene item_order;
            if \<not> same \<or> order_matches then Some (False, w)
            else do {
              w \<leftarrow> upd_scene w scene (\<lambda>sc. sc\<lparr>os_first_item := Some (hd item_order)\<rparr>);
              w \<leftarrow> reorder_loop w None item_order;
              w \<leftarrow> signal_reorder w (hd item_order);
              Some (True, w) } })"

subsection \<open>Showing and hiding\<close>

definition obs_sceneitem_set_visible ::
  "(nat \<Rightarrow> bool) \<Rightarrow> store \<Rightarrow> bool \<Rightarrow> 64 word \<Rightarrow> ptr option \<Rightarrow> bool \<Rightarrow> (bool \<times> store) option" where
  "obs_sceneitem_set_visible source_has_audio w may_add time item visible =
     (case item of
        None \<Rightarrow> Some (False, w)
      | Some item \<Rightarrow> do {
          it \<leftarrow> w_items w item;
          if si_user_visible it = visible then Some (False, w)
          else (case si_parent it of
                  None \<Rightarrow> Some (False, w)
                | Some scene \<Rightarrow> do {
                    sc \<leftarrow> w_scenes w scene;
                    (added, w) \<leftarrow>
                      (if visible then do {
                         w \<leftarrow> upd_item w item (\<lambda>it. it\<lparr>si_active_refs := si_active_refs it + 1\<rparr>);
                         if si_active_refs it + 1 = 1 then
                           (case obs_source_add_active_child may_add w (os_source sc) (si_source it) of
                              (True, w) \<Rightarrow> Some (True, w)
                            | (False, w) \<Rightarrow> do {
                                w \<leftarrow> upd_item w item (\<lambda>it. it\<lparr>si_active_refs := si_active_refs it - 1\<rparr>);
                                Some (False, w) })
                         else Some (True, w) }
                       else Some (True, w));
                    if \<not> added then Some (False, w)
                    else do {
                      w \<leftarrow> upd_item w item (\<lambda>it. it\<lparr>si_user_visible := visible\<rparr>);
                      let w = signal w (Item_visible scene item visible);
                      w \<leftarrow> (if source_has_audio (si_source it)
                           then upd_item w item (\<lambda>it. it\<lparr>si_audio_actions := si_audio_actions it @ [\<lparr>ia_visible = visible, ia_timestamp = time\<rparr>]\<rparr>)
                           else set_visibility w may_add item visible);
                      Some (True, w) } }) })"

definition AUDIO_OUTPUT_FRAMES :: nat where
  "AUDIO_OUTPUT_FRAMES = 1024"

text \<open>The frame an action falls on.\<close>

definition action_frame :: "64 word \<Rightarrow> 64 word \<Rightarrow> 64 word \<Rightarrow> 64 word" where
  "action_frame timestamp ts sample_rate =
     (let timestamp = (if timestamp < ts then ts else timestamp) in (timestamp - ts) * sample_rate div 1000000000)"

text \<open>The volume of each frame of the block as a truth value: the frames written so far are \<open>buf\<close>. The result is what is left of
  the actions, the visibility, the frames and the number of references to drop.\<close>

fun actions_loop ::
  "64 word \<Rightarrow> 64 word \<Rightarrow> item_action list \<Rightarrow> bool \<Rightarrow> bool list \<Rightarrow> nat \<Rightarrow> item_action list \<times> bool \<times> bool list \<times> nat" where
  "actions_loop ts sample_rate [] cur_visible buf deref_count = ([], cur_visible, buf, deref_count)"
| "actions_loop ts sample_rate (action # actions) cur_visible buf deref_count =
     (let new_frame_num = unat (action_frame (ia_timestamp action) ts sample_rate)
      in if new_frame_num \<ge> AUDIO_OUTPUT_FRAMES then (action # actions, cur_visible, buf, deref_count)
         else actions_loop ts sample_rate actions (ia_visible action)
           (buf @ replicate (new_frame_num - length buf) cur_visible)
           (if \<not> ia_visible action then deref_count + 1 else deref_count))"

fun deref_loop :: "store \<Rightarrow> ptr \<Rightarrow> nat \<Rightarrow> store option" where
  "deref_loop w item 0 = Some w"
| "deref_loop w item (Suc n) = do {
     w \<leftarrow> upd_item w item (\<lambda>it. it\<lparr>si_active_refs := si_active_refs it - 1\<rparr>);
     it \<leftarrow> w_items w item;
     w \<leftarrow> (if si_active_refs it = 0 then do {
            parent \<leftarrow> si_parent it;
            sc \<leftarrow> w_scenes w parent;
            Some (obs_source_remove_active_child w (os_source sc) (si_source it)) }
          else Some w);
     deref_loop w item n }"

definition apply_scene_item_audio_actions :: "store \<Rightarrow> ptr \<Rightarrow> 64 word \<Rightarrow> 64 word \<Rightarrow> (bool list \<times> store) option" where
  "apply_scene_item_audio_actions w item ts sample_rate = do {
     it \<leftarrow> w_items w item;
     (case actions_loop ts sample_rate (si_audio_actions it) (si_visible it) [] 0 of
        (actions, visible, buf, deref_count) \<Rightarrow> do {
          w \<leftarrow> upd_item w item (\<lambda>it. it\<lparr>si_audio_actions := actions, si_visible := visible\<rparr>);
          w \<leftarrow> deref_loop w item deref_count;
          Some (buf @ replicate (AUDIO_OUTPUT_FRAMES - length buf) visible, w) }) }"

text \<open>\<open>None\<close> in the result: the volume of the block is left alone.\<close>

definition apply_scene_item_volume :: "store \<Rightarrow> ptr \<Rightarrow> 64 word \<Rightarrow> 64 word \<Rightarrow> (bool list option \<times> store) option" where
  "apply_scene_item_volume w item ts sample_rate = do {
     it \<leftarrow> w_items w item;
     (case si_audio_actions it of
        [] \<Rightarrow> Some (None, w)
      | action # _ \<Rightarrow>
          (let duration = of_nat AUDIO_OUTPUT_FRAMES * 1000000000 div sample_rate
           in if ia_timestamp action < ts + duration then do {
                (buf, w) \<leftarrow> apply_scene_item_audio_actions w item ts sample_rate;
                Some (Some buf, w) }
              else Some (None, w))) }"

definition obs_sceneitem_select :: "store \<Rightarrow> ptr option \<Rightarrow> bool \<Rightarrow> store option" where
  "obs_sceneitem_select w item select =
     (case item of
        None \<Rightarrow> Some w
      | Some item \<Rightarrow> do {
          it \<leftarrow> w_items w item;
          if si_selected it = select then Some w
          else do {
            w \<leftarrow> upd_item w item (\<lambda>it. it\<lparr>si_selected := select\<rparr>);
            parent \<leftarrow> si_parent it;
            Some (signal w (if select then Item_select parent item else Item_deselect parent item)) } })"

subsection \<open>Walking over a scene\<close>

text \<open>\<open>obs_scene_enum_items\<close>: the next item is remembered before the callback runs.\<close>

partial_function (option) enum_loop :: "(store \<Rightarrow> ptr \<Rightarrow> (bool \<times> store) option) \<Rightarrow> store \<Rightarrow> ptr option \<Rightarrow> store option" where
  "enum_loop callback w item =
     (case item of
        None \<Rightarrow> Some w
      | Some p \<Rightarrow> do {
          it \<leftarrow> w_items w p;
          w \<leftarrow> obs_sceneitem_addref w (Some p);
          (go_on, w) \<leftarrow> callback w p;
          w \<leftarrow> obs_sceneitem_release w (Some p);
          if go_on then enum_loop callback w (si_next it) else Some w })"

definition obs_scene_enum_items :: "(store \<Rightarrow> ptr \<Rightarrow> (bool \<times> store) option) \<Rightarrow> store \<Rightarrow> ptr option \<Rightarrow> store option" where
  "obs_scene_enum_items callback w scene =
     (case scene of None \<Rightarrow> Some w | Some scene \<Rightarrow> do { sc \<leftarrow> w_scenes w scene; enum_loop callback w (os_first_item sc) })"

partial_function (option) find_loop :: "(nat \<Rightarrow> bool) \<Rightarrow> store \<Rightarrow> ptr option \<Rightarrow> ptr option option" where
  "find_loop found w item =
     (case item of
        None \<Rightarrow> Some None
      | Some p \<Rightarrow> do {
          it \<leftarrow> w_items w p;
          if found (si_source it) then Some (Some p) else find_loop found w (si_next it) })"

definition obs_scene_find_source :: "(nat \<Rightarrow> string) \<Rightarrow> store \<Rightarrow> ptr option \<Rightarrow> string \<Rightarrow> ptr option option" where
  "obs_scene_find_source source_name w scene name =
     (case scene of
        None \<Rightarrow> Some None
      | Some scene \<Rightarrow> do { sc \<leftarrow> w_scenes w scene; find_loop (\<lambda>source. source_name source = name) w (os_first_item sc) })"

definition sceneitem_get_ref :: "store \<Rightarrow> ptr \<Rightarrow> (ptr option \<times> store) option" where
  "sceneitem_get_ref w si = do {
     it \<leftarrow> w_items w si;
     if si_ref it > 0 then do { w \<leftarrow> upd_item w si (\<lambda>it. it\<lparr>si_ref := si_ref it + 1\<rparr>); Some (Some si, w) }
     else Some (None, w) }"

text \<open>\<open>hotkey_show_sceneitem\<close> for \<open>show_it = True\<close>, \<open>hotkey_hide_sceneitem\<close> for \<open>False\<close>.\<close>

definition hotkey_sceneitem ::
  "(nat \<Rightarrow> bool) \<Rightarrow> store \<Rightarrow> bool \<Rightarrow> 64 word \<Rightarrow> bool \<Rightarrow> ptr \<Rightarrow> bool \<Rightarrow> (bool \<times> store) option" where
  "hotkey_sceneitem source_has_audio w may_add time show_it data pressed = do {
     (si, w) \<leftarrow> sceneitem_get_ref w data;
     user_visible \<leftarrow> (case si of None \<Rightarrow> Some show_it | Some si \<Rightarrow> map_option si_user_visible (w_items w si));
     if pressed \<and> si \<noteq> None \<and> user_visible \<noteq> show_it then do {
       (_, w) \<leftarrow> obs_sceneitem_set_visible source_has_audio w may_add time si show_it;
       w \<leftarrow> obs_sceneitem_release w si;
       Some (True, w) }
     else do { w \<leftarrow> obs_sceneitem_release w si; Some (False, w) } }"

end
