(* ===== verification/Scene_Order.thy ===== *)
theory Scene_Order
  imports Scene "HOL-Library.Multiset"
begin

text \<open>
  The items of a scene as a list: the doubly linked structures of \<open>Scene\<close> refine it, and every operation that changes the order does to the list
  what it says.
\<close>

subsection \<open>Links\<close>

definition first_or :: "'a list \<Rightarrow> 'a option \<Rightarrow> 'a option" where
  "first_or xs nx = (case xs of [] \<Rightarrow> nx | y # _ \<Rightarrow> Some y)"

definition last_or :: "'a option \<Rightarrow> 'a list \<Rightarrow> 'a option" where
  "last_or pv xs = (if xs = [] then pv else Some (last xs))"

lemma first_or_simps [simp]: "first_or [] nx = nx" "first_or (x # xs) nx = Some x"
  by (simp_all add: first_or_def)

lemma last_or_simps [simp]: "last_or pv [] = pv" "last_or pv (x # xs) = last_or (Some x) xs" "last_or pv (xs @ [x]) = Some x"
  by (simp_all add: last_or_def)

lemma first_or_append: "first_or (xs @ ys) nx = first_or xs (first_or ys nx)"
  by (cases xs) simp_all

lemma first_or_None [simp]: "first_or xs None = None \<longleftrightarrow> xs = []"
  by (cases xs) simp_all

fun links :: "(ptr \<Rightarrow> obs_scene_item option) \<Rightarrow> ptr \<Rightarrow> ptr option \<Rightarrow> ptr list \<Rightarrow> ptr option \<Rightarrow> bool" where
  "links h s pv [] nx \<longleftrightarrow> True"
| "links h s pv (x # xs) nx \<longleftrightarrow>
     (\<exists>it. h x = Some it \<and> si_parent it = Some s \<and> si_prev it = pv \<and> si_next it = first_or xs nx) \<and> links h s (Some x) xs nx"

lemma links_append: "links h s pv (as @ bs) nx \<longleftrightarrow> links h s pv as (first_or bs nx) \<and> links h s (last_or pv as) bs nx"
  by (induction as arbitrary: pv) (auto simp: first_or_append)

lemma links_cong: "(\<And>x. x \<in> set xs \<Longrightarrow> h' x = h x) \<Longrightarrow> links h' s pv xs nx \<longleftrightarrow> links h s pv xs nx"
  by (induction xs arbitrary: pv) auto

lemma links_frame: "(\<And>p. p \<notin> X \<Longrightarrow> h' p = h p) \<Longrightarrow> X \<inter> set xs = {} \<Longrightarrow> links h' s pv xs nx \<longleftrightarrow> links h s pv xs nx"
  by (rule links_cong) blast

text \<open>Fields that are not links do not matter.\<close>

definition link_fields :: "obs_scene_item \<Rightarrow> ptr option \<times> ptr option \<times> ptr option" where
  "link_fields it = (si_parent it, si_prev it, si_next it)"

lemma links_fields:
  "(\<And>x. x \<in> set xs \<Longrightarrow> map_option link_fields (h' x) = map_option link_fields (h x)) \<Longrightarrow> links h s pv xs nx \<Longrightarrow> links h' s pv xs nx"
proof (induction xs arbitrary: pv)
  case (Cons x xs)
  have "map_option link_fields (h' x) = map_option link_fields (h x)" using Cons.prems(1) by simp
  moreover obtain it where it: "h x = Some it" "link_fields it = (Some s, pv, first_or xs nx)" using Cons.prems(2) by (auto simp: link_fields_def)
  ultimately obtain it' where "h' x = Some it'" "link_fields it' = (Some s, pv, first_or xs nx)" by auto
  moreover have "links h' s (Some x) xs nx" using Cons by auto
  ultimately show ?case by (auto simp: link_fields_def)
qed simp

lemma links_item: "links h s pv xs nx \<Longrightarrow> x \<in> set xs \<Longrightarrow> \<exists>it. h x = Some it \<and> si_parent it = Some s"
  by (induction xs arbitrary: pv) auto

lemma links_last:
  assumes "links h s pv xs nx" "xs \<noteq> []" "distinct xs" "h (last xs) = Some it"
  shows "links (h(last xs \<mapsto> it\<lparr>si_next := nx'\<rparr>)) s pv xs nx'"
  using assms
proof (induction xs arbitrary: pv)
  case (Cons x xs)
  show ?case
  proof (cases "xs = []")
    case False
    then have "last xs \<in> set xs" "last xs \<noteq> x" using Cons.prems(3) by auto
    then show ?thesis using Cons False by (auto simp: first_or_def split: list.splits)
  qed (use Cons in auto)
qed simp

lemma links_first:
  assumes "links h s pv (x # xs) nx" "x \<notin> set xs" "h x = Some it"
  shows "links (h(x \<mapsto> it\<lparr>si_prev := pv'\<rparr>)) s pv' (x # xs) nx"
proof -
  have "links (h(x \<mapsto> it\<lparr>si_prev := pv'\<rparr>)) s (Some x) xs nx \<longleftrightarrow> links h s (Some x) xs nx" by (rule links_cong) (use assms(2) in auto)
  then show ?thesis using assms by simp
qed

text \<open>What an operation that only moves items leaves alone.\<close>

definition item_core :: "obs_scene_item \<Rightarrow> obs_scene_item" where
  "item_core it = it\<lparr>si_parent := None, si_prev := None, si_next := None\<rparr>"

definition relinks :: "ptr \<Rightarrow> ptr set \<Rightarrow> store \<Rightarrow> store \<Rightarrow> bool" where
  "relinks s X w w' \<longleftrightarrow> w_children w' = w_children w \<and> w_source_refs w' = w_source_refs w \<and> w_signals w' = w_signals w \<and>
     (\<forall>p. map_option item_core (w_items w' p) = map_option item_core (w_items w p)) \<and> (\<forall>p. p \<notin> X \<longrightarrow> w_items w' p = w_items w p) \<and>
     (\<forall>q. map_option os_source (w_scenes w' q) = map_option os_source (w_scenes w q)) \<and> (\<forall>q. q \<noteq> s \<longrightarrow> w_scenes w' q = w_scenes w q)"

lemma relinks_refl: "relinks s X w w"
  by (simp add: relinks_def)

lemma relinks_trans: "relinks s X w w1 \<Longrightarrow> relinks s Y w1 w2 \<Longrightarrow> relinks s (X \<union> Y) w w2"
  by (auto simp: relinks_def)

lemma relinks_mono: "relinks s X w w' \<Longrightarrow> X \<subseteq> Y \<Longrightarrow> relinks s Y w w'"
  by (auto simp: relinks_def)

lemma relinks_upd_item:
  "upd_item w p f = Some w' \<Longrightarrow> (\<And>it. item_core (f it) = item_core it) \<Longrightarrow> p \<in> X \<Longrightarrow> relinks s X w w'"
  by (auto simp: upd_item_def relinks_def split: option.splits)

lemma relinks_upd_first:
  "upd_scene w s (\<lambda>sc. sc\<lparr>os_first_item := nx\<rparr>) = Some w' \<Longrightarrow> relinks s X w w'"
  by (auto simp: upd_scene_def relinks_def split: option.splits)

definition scene_list :: "store \<Rightarrow> ptr \<Rightarrow> ptr list \<Rightarrow> bool" where
  "scene_list w s xs \<longleftrightarrow> distinct xs \<and> map_option os_first_item (w_scenes w s) = Some (first_or xs None) \<and> links (w_items w) s None xs None"

text \<open>Setting the link in front of a segment.\<close>

lemma set_link_segment:
  assumes "links (w_items w) s None as nx" "distinct as" "map_option os_first_item (w_scenes w s) = Some (first_or as nx)"
  shows "\<exists>w'. set_link w (last_or None as) (Some s) nx' = Some w' \<and> links (w_items w') s None as nx' \<and>
    map_option os_first_item (w_scenes w' s) = Some (first_or as nx') \<and> relinks s (set as) w w'"
proof (cases "as = []")
  case True
  obtain sc where sc: "w_scenes w s = Some sc" using assms(3) by auto
  have "upd_scene w s (\<lambda>sc. sc\<lparr>os_first_item := nx'\<rparr>) = Some (w\<lparr>w_scenes := (w_scenes w)(s \<mapsto> sc\<lparr>os_first_item := nx'\<rparr>)\<rparr>)"
    using sc by (simp add: upd_scene_def)
  then show ?thesis using True relinks_upd_first by (fastforce simp: set_link_def)
next
  case False
  then obtain it where it: "w_items w (last as) = Some it" using links_item [OF assms(1), of "last as"] by auto
  let ?w = "w\<lparr>w_items := (w_items w)(last as \<mapsto> it\<lparr>si_next := nx'\<rparr>)\<rparr>"
  have set: "set_link w (last_or None as) (Some s) nx' = Some ?w" "upd_item w (last as) (\<lambda>it. it\<lparr>si_next := nx'\<rparr>) = Some ?w"
    using False it by (simp_all add: set_link_def last_or_def upd_item_def)
  have "relinks s (set as) w ?w" by (rule relinks_upd_item [OF set(2)]) (use False in \<open>simp_all add: item_core_def\<close>)
  moreover have "first_or as nx' = first_or as nx" using False by (cases as) simp_all
  ultimately show ?thesis using set(1) links_last [OF assms(1) False assms(2) it, of nx'] assms(3) by (intro exI [of _ ?w]) simp
qed

lemma set_prev_segment:
  assumes "links (w_items w) s pv bs None" "distinct bs"
  shows "\<exists>w'. (case first_or bs None of None \<Rightarrow> Some w | Some n \<Rightarrow> upd_item w n (\<lambda>i. i\<lparr>si_prev := pv'\<rparr>)) = Some w' \<and>
    links (w_items w') s pv' bs None \<and> relinks s (set bs) w w' \<and> w_scenes w' = w_scenes w"
proof (cases bs)
  case Nil
  then show ?thesis by (simp add: relinks_refl)
next
  case (Cons b bs')
  then obtain ib where ib: "w_items w b = Some ib" using assms by auto
  let ?w = "w\<lparr>w_items := (w_items w)(b \<mapsto> ib\<lparr>si_prev := pv'\<rparr>)\<rparr>"
  have u: "upd_item w b (\<lambda>i. i\<lparr>si_prev := pv'\<rparr>) = Some ?w" using ib by (simp add: upd_item_def)
  have "relinks s (set bs) w ?w" by (rule relinks_upd_item [OF u]) (simp_all add: Cons item_core_def)
  then show ?thesis using u links_first [of "w_items w" s pv b bs' None ib] assms ib Cons by simp
qed

lemma detach_list:
  assumes "scene_list w s (as @ x # bs)"
  shows "\<exists>w'. detach_sceneitem w x = Some w' \<and> scene_list w' s (as @ bs) \<and> relinks s (set (as @ x # bs)) w w' \<and>
    (\<exists>it. w_items w' x = Some it \<and> si_parent it = None)"
proof -
  have d: "distinct as" "distinct bs" "x \<notin> set as" "x \<notin> set bs" "set as \<inter> set bs = {}" using assms by (auto simp: scene_list_def)
  have la: "links (w_items w) s None as (Some x)" and lx: "links (w_items w) s (last_or None as) (x # bs) None"
    using assms by (simp_all add: scene_list_def links_append)
  have sc: "map_option os_first_item (w_scenes w s) = Some (first_or as (Some x))" using assms by (simp add: scene_list_def first_or_append)
  obtain it where it: "w_items w x = Some it" "si_parent it = Some s" "si_prev it = last_or None as" "si_next it = first_or bs None"
    using lx by auto
  have lb: "links (w_items w) s (Some x) bs None" using lx by simp
  obtain w1 where w1: "set_link w (last_or None as) (Some s) (first_or bs None) = Some w1" "links (w_items w1) s None as (first_or bs None)"
    "map_option os_first_item (w_scenes w1 s) = Some (first_or as (first_or bs None))" "relinks s (set as) w w1"
    using set_link_segment [OF la d(1) sc] by blast
  have frame1: "w_items w1 p = w_items w p" if "p \<notin> set as" for p using w1(4) that by (simp add: relinks_def)
  have it1: "w_items w1 x = Some it" using frame1 d(3) it(1) by simp
  have lb1: "links (w_items w1) s (Some x) bs None" using lb d(5) frame1 by (subst links_cong [where h = "w_items w"]) auto
  obtain w2 where w2: "(case first_or bs None of None \<Rightarrow> Some w1 | Some n \<Rightarrow> upd_item w1 n (\<lambda>i. i\<lparr>si_prev := last_or None as\<rparr>)) = Some w2"
    "links (w_items w2) s (last_or None as) bs None" "relinks s (set bs) w1 w2" "w_scenes w2 = w_scenes w1"
    using set_prev_segment [OF lb1 d(2)] by blast
  have frame2: "w_items w2 p = w_items w1 p" if "p \<notin> set bs" for p using w2(3) that by (simp add: relinks_def)
  have it2: "w_items w2 x = Some it" using frame2 d(4) it1 by simp
  let ?w = "w2\<lparr>w_items := (w_items w2)(x \<mapsto> it\<lparr>si_parent := None\<rparr>)\<rparr>"
  have u: "upd_item w2 x (\<lambda>it. it\<lparr>si_parent := None\<rparr>) = Some ?w" using it2 by (simp add: upd_item_def)
  have r: "relinks s {x} w2 ?w" by (rule relinks_upd_item [OF u]) (simp_all add: item_core_def)
  have "detach_sceneitem w x = Some ?w"
    unfolding detach_sceneitem_def it(1) Option.bind.simps it(2-4) w1(1) it1 w2(1) u ..
  moreover have "links (w_items w2) s None as (first_or bs None)"
    using w1(2) d(5) frame2 by (subst links_cong [where h = "w_items w1"]) auto
  then have "links (w_items w2) s None (as @ bs) None" using w2(2) by (simp add: links_append)
  then have "links (w_items ?w) s None (as @ bs) None" using d by (subst links_cong [where h = "w_items w2"]) auto
  then have "scene_list ?w s (as @ bs)" using d w1(3) w2(4) by (simp add: scene_list_def first_or_append)
  moreover have "relinks s (set (as @ x # bs)) w ?w"
    using relinks_trans [OF relinks_trans [OF w1(4) w2(3)] r] by (rule relinks_mono) auto
  ultimately show ?thesis by auto
qed


lemma attach_list:
  assumes "scene_list w s (as @ bs)" "x \<notin> set (as @ bs)" "w_items w x = Some it0"
  shows "\<exists>w'. attach_sceneitem w (Some s) x (last_or None as) = Some w' \<and> scene_list w' s (as @ x # bs) \<and> relinks s (set (as @ x # bs)) w w'"
proof -
  let ?pv = "last_or None as" and ?nx = "first_or bs None"
  have d: "distinct as" "distinct bs" "x \<notin> set as" "x \<notin> set bs" "set as \<inter> set bs = {}" using assms by (auto simp: scene_list_def)
  have la: "links (w_items w) s None as ?nx" and lb: "links (w_items w) s ?pv bs None"
    using assms(1) by (simp_all add: scene_list_def links_append)
  have sc: "map_option os_first_item (w_scenes w s) = Some (first_or as ?nx)" using assms(1) by (simp add: scene_list_def first_or_append)
  let ?it = "it0\<lparr>si_prev := ?pv, si_parent := Some s\<rparr>"
  define w1 where "w1 = w\<lparr>w_items := (w_items w)(x \<mapsto> ?it)\<rparr>"
  have u1: "upd_item w x (\<lambda>it. it\<lparr>si_prev := ?pv, si_parent := Some s\<rparr>) = Some w1" using assms(3) by (simp add: upd_item_def w1_def)
  have following: "(case ?pv of None \<Rightarrow> map_option os_first_item (w_scenes w1 s) | Some prev \<Rightarrow> map_option si_next (w_items w1 prev)) = Some ?nx"
  proof (cases "as = []")
    case True
    then show ?thesis using sc by (simp add: w1_def)
  next
    case False
    then obtain as' a where a: "as = as' @ [a]" by (cases as rule: rev_cases) auto
    then have "a \<noteq> x" using d(3) by auto
    then show ?thesis using la a by (auto simp: w1_def links_append)
  qed
  define w2 where "w2 = w1\<lparr>w_items := (w_items w1)(x \<mapsto> ?it\<lparr>si_next := ?nx\<rparr>)\<rparr>"
  have u2: "upd_item w1 x (\<lambda>it. it\<lparr>si_next := ?nx\<rparr>) = Some w2" by (simp add: upd_item_def w2_def w1_def)
  have r12: "relinks s {x} w w2"
    using relinks_trans [OF relinks_upd_item [OF u1] relinks_upd_item [OF u2], of "{x}" "{x}"] by (simp add: item_core_def)
  have it2: "w_items w2 x = Some (?it\<lparr>si_next := ?nx\<rparr>)" by (simp add: w2_def)
  have frame2: "w_items w2 p = w_items w p" if "p \<noteq> x" for p using r12 that by (simp add: relinks_def)
  have lb2: "links (w_items w2) s ?pv bs None" using lb d(4) frame2 by (subst links_frame [where h = "w_items w" and X = "{x}"]) auto
  obtain w3 where w3: "(case ?nx of None \<Rightarrow> Some w2 | Some n \<Rightarrow> upd_item w2 n (\<lambda>i. i\<lparr>si_prev := Some x\<rparr>)) = Some w3"
    "links (w_items w3) s (Some x) bs None" "relinks s (set bs) w2 w3" "w_scenes w3 = w_scenes w"
    using set_prev_segment [OF lb2 d(2), of "Some x"] by (auto simp: w2_def w1_def)
  have frame3: "w_items w3 p = w_items w2 p" if "p \<notin> set bs" for p using w3(3) that by (simp add: relinks_def)
  have la3: "links (w_items w3) s None as ?nx"
    using la d(3,5) frame2 frame3 by (subst links_frame [where h = "w_items w" and X = "insert x (set bs)"]) auto
  obtain w4 where w4: "set_link w3 ?pv (Some s) (Some x) = Some w4" "links (w_items w4) s None as (Some x)"
    "map_option os_first_item (w_scenes w4 s) = Some (first_or as (Some x))" "relinks s (set as) w3 w4"
    using set_link_segment [OF la3 d(1), of "Some x"] sc w3(4) by auto
  have frame4: "w_items w4 p = w_items w3 p" if "p \<notin> set as" for p using w4(4) that by (simp add: relinks_def)
  have "links (w_items w4) s (Some x) bs None"
    using w3(2) d(5) frame4 by (subst links_cong [where h = "w_items w3"]) auto
  moreover have "w_items w4 x = Some (?it\<lparr>si_next := ?nx\<rparr>)" using it2 frame3 frame4 d(3,4) by simp
  ultimately have "links (w_items w4) s None (as @ x # bs) None" using w4(2) by (simp add: links_append)
  then have "scene_list w4 s (as @ x # bs)" using d w4(3) by (simp add: scene_list_def first_or_append)
  moreover have "attach_sceneitem w (Some s) x ?pv = Some w4"
    unfolding attach_sceneitem_def u1 Option.bind.simps following u2 w3(1) w4(1) ..
  moreover have "relinks s (set (as @ x # bs)) w w4"
    using relinks_trans [OF relinks_trans [OF r12 w3(3)] w4(4)] by (rule relinks_mono) auto
  ultimately show ?thesis by auto
qed


subsection \<open>Moving an item\<close>

fun move_up :: "'a \<Rightarrow> 'a list \<Rightarrow> 'a list" where
  "move_up x (y # z # ys) = (if x = y then z # y # ys else y # move_up x (z # ys))"
| "move_up x ys = ys"

definition move_item :: "obs_order_movement \<Rightarrow> 'a \<Rightarrow> 'a list \<Rightarrow> 'a list" where
  "move_item movement x xs =
     (case movement of
        OBS_ORDER_MOVE_UP \<Rightarrow> move_up x xs
      | OBS_ORDER_MOVE_DOWN \<Rightarrow> rev (move_up x (rev xs))
      | OBS_ORDER_MOVE_TOP \<Rightarrow> remove1 x xs @ [x]
      | OBS_ORDER_MOVE_BOTTOM \<Rightarrow> x # remove1 x xs)"

definition move_to_position :: "int \<Rightarrow> 'a \<Rightarrow> 'a list \<Rightarrow> 'a list" where
  "move_to_position position x xs =
     (let ys = remove1 x xs; n = (if position = 0 then 0 else max 1 (nat position)) in take n ys @ x # drop n ys)"

lemma move_up_last: "x \<notin> set as \<Longrightarrow> move_up x (as @ [x]) = as @ [x]"
proof (induction as)
  case (Cons a as)
  then show ?case by (cases as) auto
qed simp

lemma move_up_inner: "x \<notin> set as \<Longrightarrow> move_up x (as @ x # b # bs) = as @ b # x # bs"
proof (induction as)
  case (Cons a as)
  then show ?case by (cases as) auto
qed simp

lemma last_item_links: "links (w_items w) s pv (b # bs) None \<Longrightarrow> last_item w b = Some (last (b # bs))"
proof (induction bs arbitrary: pv b)
  case Nil
  then show ?case by (auto simp: last_item.simps [of w b])
next
  case (Cons c bs)
  then show ?case using Cons.IH [of "Some b" c] by (auto simp: last_item.simps [of w b])
qed

text \<open>Detaching an item and attaching it elsewhere.\<close>

lemma detach_attach:
  assumes "scene_list w s (as @ x # bs)"
  obtains w1 where "detach_sceneitem w x = Some w1" "scene_list w1 s (as @ bs)"
    "\<And>cs ds. cs @ ds = as @ bs \<Longrightarrow>
      \<exists>w2. attach_sceneitem w1 (Some s) x (last_or None cs) = Some w2 \<and> scene_list w2 s (cs @ x # ds) \<and> relinks s (set (as @ x # bs)) w w2"
proof -
  obtain w1 it where w1: "detach_sceneitem w x = Some w1" "scene_list w1 s (as @ bs)" "relinks s (set (as @ x # bs)) w w1" "w_items w1 x = Some it"
    using detach_list [OF assms] by blast
  have x: "x \<notin> set (as @ bs)" using assms by (auto simp: scene_list_def)
  show thesis
  proof (rule that [OF w1(1,2)])
    fix cs ds
    assume eq: "cs @ ds = as @ bs"
    have "set (cs @ x # ds) = set (as @ x # bs)" using arg_cong [OF eq, of set] by auto
    moreover obtain w2 where "attach_sceneitem w1 (Some s) x (last_or None cs) = Some w2" "scene_list w2 s (cs @ x # ds)"
      "relinks s (set (cs @ x # ds)) w1 w2"
      using attach_list [of w1 s cs ds x it] w1(2,4) x eq by auto
    ultimately show "\<exists>w2. attach_sceneitem w1 (Some s) x (last_or None cs) = Some w2 \<and> scene_list w2 s (cs @ x # ds) \<and> relinks s (set (as @ x # bs)) w w2"
      using relinks_trans [OF w1(3)] by (metis sup_idem)
  qed
qed

lemma scene_list_item:
  assumes "scene_list w s (as @ x # bs)"
  shows "\<exists>it. w_items w x = Some it \<and> si_parent it = Some s \<and> si_prev it = last_or None as \<and> si_next it = first_or bs None"
  using assms by (auto simp: scene_list_def links_append)

lemma scene_list_signal [simp]: "scene_list (signal w e) s xs \<longleftrightarrow> scene_list w s xs"
  by (simp add: scene_list_def signal_def)

lemma signal_reorder_list: "scene_list w s (cs @ x # ds) \<Longrightarrow> signal_reorder w x = Some (signal w (Item_reorder s))"
  using scene_list_item [of w s cs x ds] by (auto simp: signal_reorder_def)


lemma remove1_middle: "x \<notin> set as \<Longrightarrow> remove1 x (as @ x # bs) = as @ bs"
  by (simp add: remove1_append)

lemma set_order_step:
  assumes "scene_list w s (as @ x # bs)" "detach_sceneitem w x = Some w1"
    "(case movement of
        OBS_ORDER_MOVE_DOWN \<Rightarrow> do {
          before \<leftarrow> (case last_or None as of None \<Rightarrow> Some None | Some prev \<Rightarrow> map_option si_prev (w_items w1 prev));
          attach_sceneitem w1 (Some s) x before }
      | OBS_ORDER_MOVE_UP \<Rightarrow> attach_sceneitem w1 (Some s) x (if first_or bs None \<noteq> None then first_or bs None else last_or None as)
      | OBS_ORDER_MOVE_TOP \<Rightarrow> do {
          last \<leftarrow> (case first_or bs None of None \<Rightarrow> Some (last_or None as) | Some n \<Rightarrow> map_option Some (last_item w1 n));
          attach_sceneitem w1 (Some s) x last }
      | OBS_ORDER_MOVE_BOTTOM \<Rightarrow> attach_sceneitem w1 (Some s) x None) = attach_sceneitem w1 (Some s) x (last_or None cs)"
    "attach_sceneitem w1 (Some s) x (last_or None cs) = Some w2" "scene_list w2 s (cs @ x # ds)"
  shows "obs_sceneitem_set_order w (Some x) movement = Some (signal w2 (Item_reorder s))"
proof -
  obtain it where it: "w_items w x = Some it" "si_parent it = Some s" "si_prev it = last_or None as" "si_next it = first_or bs None"
    using scene_list_item [OF assms(1)] by blast
  show ?thesis
    unfolding obs_sceneitem_set_order_def option.case it(1) Option.bind.simps it(2-4) Let_def assms(2-4) signal_reorder_list [OF assms(5)] ..
qed

lemma obs_sceneitem_set_order_list:
  assumes "scene_list w s (as @ x # bs)"
  shows "\<exists>w'. obs_sceneitem_set_order w (Some x) movement = Some (signal w' (Item_reorder s)) \<and>
    scene_list w' s (move_item movement x (as @ x # bs)) \<and> relinks s (set (as @ x # bs)) w w'"
proof -
  obtain w1 where w1: "detach_sceneitem w x = Some w1" "scene_list w1 s (as @ bs)"
    "\<And>cs ds. cs @ ds = as @ bs \<Longrightarrow>
      \<exists>w2. attach_sceneitem w1 (Some s) x (last_or None cs) = Some w2 \<and> scene_list w2 s (cs @ x # ds) \<and> relinks s (set (as @ x # bs)) w w2"
    by (rule detach_attach [OF assms]) blast
  have d: "x \<notin> set as" "x \<notin> set bs" using assms by (auto simp: scene_list_def)
  let ?C = "\<lambda>cs. (case movement of
        OBS_ORDER_MOVE_DOWN \<Rightarrow> do {
          before \<leftarrow> (case last_or None as of None \<Rightarrow> Some None | Some prev \<Rightarrow> map_option si_prev (w_items w1 prev));
          attach_sceneitem w1 (Some s) x before }
      | OBS_ORDER_MOVE_UP \<Rightarrow> attach_sceneitem w1 (Some s) x (if first_or bs None \<noteq> None then first_or bs None else last_or None as)
      | OBS_ORDER_MOVE_TOP \<Rightarrow> do {
          last \<leftarrow> (case first_or bs None of None \<Rightarrow> Some (last_or None as) | Some n \<Rightarrow> map_option Some (last_item w1 n));
          attach_sceneitem w1 (Some s) x last }
      | OBS_ORDER_MOVE_BOTTOM \<Rightarrow> attach_sceneitem w1 (Some s) x None) = attach_sceneitem w1 (Some s) x (last_or None cs)"
  have concl: ?thesis if c: "cs @ ds = as @ bs" "move_item movement x (as @ x # bs) = cs @ x # ds" "?C cs" for cs ds
  proof -
    obtain w2 where w2: "attach_sceneitem w1 (Some s) x (last_or None cs) = Some w2" "scene_list w2 s (cs @ x # ds)"
      "relinks s (set (as @ x # bs)) w w2"
      using w1(3) [OF c(1)] by blast
    show ?thesis using set_order_step [OF assms w1(1) c(3) w2(1,2)] w2(2,3) c(2) by auto
  qed
  show ?thesis
  proof (cases movement)
    case OBS_ORDER_MOVE_UP
    show ?thesis
    proof (cases bs)
      case Nil
      show ?thesis by (rule concl [of as "[]"]) (use OBS_ORDER_MOVE_UP d Nil in \<open>simp_all add: move_item_def move_up_last\<close>)
    next
      case (Cons b bs')
      show ?thesis by (rule concl [of "as @ [b]" bs']) (use OBS_ORDER_MOVE_UP d Cons in \<open>simp_all add: move_item_def move_up_inner\<close>)
    qed
  next
    case OBS_ORDER_MOVE_DOWN
    show ?thesis
    proof (cases as rule: rev_cases)
      case Nil
      show ?thesis by (rule concl [of "[]" bs]) (use OBS_ORDER_MOVE_DOWN d Nil in \<open>simp_all add: move_item_def move_up_last\<close>)
    next
      case (snoc as' a)
      have "scene_list w1 s (as' @ a # bs)" using w1(2) snoc by simp
      then obtain ia where ia: "w_items w1 a = Some ia" "si_prev ia = last_or None as'" using scene_list_item by blast
      show ?thesis by (rule concl [of as' "a # bs"]) (use OBS_ORDER_MOVE_DOWN d snoc ia in \<open>simp_all add: move_item_def move_up_inner\<close>)
    qed
  next
    case OBS_ORDER_MOVE_TOP
    show ?thesis
    proof (cases bs)
      case Nil
      show ?thesis by (rule concl [of as "[]"]) (use OBS_ORDER_MOVE_TOP d Nil in \<open>simp_all add: move_item_def remove1_middle\<close>)
    next
      case (Cons b bs')
      have "links (w_items w1) s (last_or None as) (b # bs') None" using w1(2) Cons by (simp add: scene_list_def links_append)
      note last = last_item_links [OF this]
      show ?thesis by (rule concl [of "as @ bs" "[]"]) (use OBS_ORDER_MOVE_TOP d Cons last in \<open>simp_all add: move_item_def remove1_middle last_or_def\<close>)
    qed
  next
    case OBS_ORDER_MOVE_BOTTOM
    show ?thesis by (rule concl [of "[]" "as @ bs"]) (use OBS_ORDER_MOVE_BOTTOM d in \<open>simp_all add: move_item_def remove1_middle\<close>)
  qed
qed

lemma split_item:
  assumes "x \<in> set xs"
  obtains as bs where "xs = as @ x # bs"
  using assms by (meson split_list)

text \<open>
  C8: moving an item is the corresponding movement in the list of the items. On a scene whose structures represent the list \<open>xs\<close>, every order
  movement of an item of \<open>xs\<close> succeeds (no null or dangling pointer is followed, the walk to the last item ends); afterwards the structures represent
  the list in which the item is exchanged with its neighbour, or is the last or the first, and the signal \<open>reorder\<close> has been given once. Nothing but
  the links of these items and the scene's first item has changed.
\<close>

theorem obs_sceneitem_set_order_refines:
  assumes "scene_list w s xs" "x \<in> set xs"
  shows "\<exists>w'. obs_sceneitem_set_order w (Some x) movement = Some (signal w' (Item_reorder s)) \<and>
    scene_list w' s (move_item movement x xs) \<and> relinks s (set xs) w w'"
proof -
  obtain as bs where "xs = as @ x # bs" using assms(2) by (rule split_item)
  then show ?thesis using obs_sceneitem_set_order_list assms(1) by blast
qed


lemma position_loop_links:
  "links (w_items w) s pv (y # ys) None \<Longrightarrow> position_loop w n (Some y) = Some (Some (last (take (Suc n) (y # ys))))"
proof (induction ys arbitrary: pv y n)
  case Nil
  then show ?case by (cases n) auto
next
  case (Cons z ys)
  then show ?case by (cases n) (auto simp: Cons.IH [of "Some y" z])
qed

lemma position_loop_list:
  assumes "scene_list w s ys" "ys \<noteq> [] \<or> n = 0"
  shows "position_loop w n (first_or ys None) = Some (last_or None (take (Suc n) ys))"
  using assms position_loop_links [of w s None _ _ n] by (cases ys) (auto simp: scene_list_def last_or_def)

lemma obs_sceneitem_set_order_position_list:
  assumes "scene_list w s xs" "x \<in> set xs" "position < 2 \<or> xs \<noteq> [x]"
  shows "\<exists>w'. obs_sceneitem_set_order_position w (Some x) position = Some (signal w' (Item_reorder s)) \<and>
      scene_list w' s (move_to_position position x xs) \<and> relinks s (set xs) w w'"
proof -
  obtain as bs where xs: "xs = as @ x # bs" using assms(2) by (rule split_item)
  let ?ys = "as @ bs" and ?n = "nat (position - 1)"
  have ys: "remove1 x xs = ?ys" using assms(1) xs by (simp add: scene_list_def remove1_middle)
  obtain it where it: "w_items w x = Some it" "si_parent it = Some s" using scene_list_item [of w s as x bs] assms(1) xs by blast
  obtain w1 where w1: "detach_sceneitem w x = Some w1" "scene_list w1 s ?ys"
    "\<And>cs ds. cs @ ds = as @ bs \<Longrightarrow>
      \<exists>w2. attach_sceneitem w1 (Some s) x (last_or None cs) = Some w2 \<and> scene_list w2 s (cs @ x # ds) \<and> relinks s (set (as @ x # bs)) w w2"
    by (rule detach_attach [OF assms(1) [unfolded xs]]) blast
  obtain sc where sc: "w_scenes w1 s = Some sc" "os_first_item sc = first_or ?ys None" using w1(2) by (auto simp: scene_list_def)
  note step = obs_sceneitem_set_order_position_def option.case it(1) Option.bind.simps it(2) w1(1) sc
  have nonempty: "?ys \<noteq> [] \<or> position < 2" using assms(3) xs by auto
  let ?m = "if position = 0 then 0 else Suc ?n"
  have "(if position = 0 then attach_sceneitem w1 (Some s) x None
      else position_loop w1 ?n (first_or ?ys None) \<bind> attach_sceneitem w1 (Some s) x) = attach_sceneitem w1 (Some s) x (last_or None (take ?m ?ys))"
    using position_loop_list [OF w1(2), of ?n] nonempty by auto
  moreover obtain w2 where w2: "attach_sceneitem w1 (Some s) x (last_or None (take ?m ?ys)) = Some w2"
    "scene_list w2 s (take ?m ?ys @ x # drop ?m ?ys)" "relinks s (set xs) w w2"
    using w1(3) [OF append_take_drop_id [of ?m ?ys]] unfolding xs by blast
  ultimately have "obs_sceneitem_set_order_position w (Some x) position = Some (signal w2 (Item_reorder s))"
    unfolding step using signal_reorder_list [OF w2(2)] by simp
  moreover have "move_to_position position x xs = take ?m ?ys @ x # drop ?m ?ys"
    unfolding move_to_position_def ys Let_def by (simp add: max_def Suc_nat_eq_nat_zadd1 nat_le_iff)
  ultimately show ?thesis using w2 by auto
qed

lemma obs_sceneitem_set_order_position_alone:
  assumes "scene_list w s [x]" "position \<ge> 2"
  shows "obs_sceneitem_set_order_position w (Some x) position = None"
proof -
  obtain it where it: "w_items w x = Some it" "si_parent it = Some s" using scene_list_item [of w s "[]" x "[]"] assms(1) by auto
  obtain w1 where w1: "detach_sceneitem w x = Some w1" "scene_list w1 s []" using detach_list [of w s "[]" x "[]"] assms(1) by auto
  obtain m where "nat (position - 1) = Suc m" using assms(2) that [of "nat (position - 2)"] by auto
  then show ?thesis using it w1 assms(2) by (auto simp: obs_sceneitem_set_order_position_def scene_list_def)
qed

text \<open>
  Moving an item to a position. On a scene that represents \<open>xs\<close>, an item of \<open>xs\<close> is taken out of the list and put back behind the first
  \<open>position\<close> of the others, or behind all of them where there are fewer; a negative position is treated as 1, not as 0. The one exception is
  an item that is alone in its scene: a position of 2 or more then follows a null pointer.
\<close>

theorem obs_sceneitem_set_order_position_refines:
  assumes "scene_list w s xs" "x \<in> set xs"
  shows "if xs = [x] \<and> position \<ge> 2 then obs_sceneitem_set_order_position w (Some x) position = None
    else \<exists>w'. obs_sceneitem_set_order_position w (Some x) position = Some (signal w' (Item_reorder s)) \<and>
      scene_list w' s (move_to_position position x xs) \<and> relinks s (set xs) w w'"
  using obs_sceneitem_set_order_position_list [OF assms, of position] obs_sceneitem_set_order_position_alone [of w s x position] assms(1) by auto

subsection \<open>A new order for all items\<close>

lemma find_index_None: "find_index items p = None \<longleftrightarrow> p \<notin> set items"
  by (induction items) auto

lemma find_index_Some: "find_index items p = Some i \<Longrightarrow> i < length items \<and> items ! i = p"
  by (induction items arbitrary: i) (auto split: if_splits)

lemma find_index_nth: "distinct items \<Longrightarrow> i < length items \<Longrightarrow> find_index items (items ! i) = Some i"
  by (induction items arbitrary: i) (auto simp: nth_Cons less_Suc_eq_0_disj split: nat.split)

lemma append_next:
  assumes "links (w_items w) s None as nx" "distinct as"
  shows "\<exists>w'. (case last_or None as of None \<Rightarrow> Some w | Some p \<Rightarrow> upd_item w p (\<lambda>it. it\<lparr>si_next := Some x\<rparr>)) = Some w' \<and>
    links (w_items w') s None as (Some x) \<and> relinks s (set as) w w' \<and> w_scenes w' = w_scenes w"
proof (cases "as = []")
  case False
  then obtain it where it: "w_items w (last as) = Some it" using links_item [OF assms(1), of "last as"] by auto
  let ?w = "w\<lparr>w_items := (w_items w)(last as \<mapsto> it\<lparr>si_next := Some x\<rparr>)\<rparr>"
  have u: "upd_item w (last as) (\<lambda>it. it\<lparr>si_next := Some x\<rparr>) = Some ?w" using it by (simp add: upd_item_def)
  have "relinks s (set as) w ?w" by (rule relinks_upd_item [OF u]) (use False in \<open>simp_all add: item_core_def\<close>)
  then show ?thesis using u False links_last [OF assms(1) False assms(2) it, of "Some x"] by (simp add: last_or_def)
qed (simp add: relinks_refl)

lemma match_loop_links:
  assumes "links (w_items w) s pv ys None"
  shows "\<exists>same om'. match_loop w items (first_or ys None) n om = Some (same, om') \<and>
    (same \<longleftrightarrow> set ys \<subseteq> set items \<and> n + length ys = length items) \<and>
    (same \<longrightarrow> om' = (om \<and> (\<forall>i < length ys. find_index items (ys ! i) = Some (n + i))))"
  using assms
proof (induction ys arbitrary: pv n om)
  case Nil
  then show ?case by (simp add: match_loop.simps)
next
  case (Cons y ys)
  then obtain it where it: "w_items w y = Some it" "si_next it = first_or ys None" by auto
  show ?case
  proof (cases "find_index items y")
    case None
    then have "match_loop w items (Some y) n om = Some (False, om)" by (simp add: match_loop.simps [of w items "Some y"])
    then show ?thesis using None by (auto simp: find_index_None)
  next
    case (Some i)
    then have "y \<in> set items" using find_index_None [of items y] by auto
    moreover have "match_loop w items (Some y) n om = match_loop w items (first_or ys None) (n + 1) (om \<and> n = i)"
      using Some it by (simp add: match_loop.simps [of w items "Some y"])
    moreover obtain same om' where
      "match_loop w items (first_or ys None) (n + 1) (om \<and> n = i) = Some (same, om')"
      "same \<longleftrightarrow> set ys \<subseteq> set items \<and> n + 1 + length ys = length items"
      "same \<longrightarrow> om' = ((om \<and> n = i) \<and> (\<forall>i < length ys. find_index items (ys ! i) = Some (n + 1 + i)))"
      using Cons.IH [of "Some y" "n + 1" "om \<and> n = i"] Cons.prems by auto
    ultimately show ?thesis using Some by (auto simp: less_Suc_eq_0_disj)
  qed
qed

lemma same_items_permutation:
  assumes "distinct xs" "set xs \<subseteq> set items" "length xs = length items"
  shows "mset items = mset xs" "distinct items"
proof -
  have "card (set items) \<le> card (set xs)" using assms(1,3) by (metis card_length distinct_card)
  then have e: "set xs = set items" using assms(2) by (simp add: card_seteq)
  then show d: "distinct items" using assms by (metis card_distinct distinct_card)
  show "mset items = mset xs" using e d assms(1) by (metis set_eq_iff_mset_eq_distinct)
qed

lemma sceneitems_match_list:
  assumes "scene_list w s xs"
  shows "\<exists>same om. sceneitems_match w s items = Some (same, om) \<and> (same \<longleftrightarrow> mset items = mset xs) \<and> (same \<longrightarrow> om = (items = xs))"
proof -
  have d: "distinct xs" and l: "links (w_items w) s None xs None" using assms by (simp_all add: scene_list_def)
  obtain same om where m: "match_loop w items (first_or xs None) 0 True = Some (same, om)"
    "same \<longleftrightarrow> set xs \<subseteq> set items \<and> 0 + length xs = length items"
    "same \<longrightarrow> om = (True \<and> (\<forall>i < length xs. find_index items (xs ! i) = Some (0 + i)))"
    using match_loop_links [OF l] by blast
  have "sceneitems_match w s items = Some (same, om)" using assms m(1) by (auto simp: sceneitems_match_def scene_list_def)
  moreover have same: "same \<longleftrightarrow> mset items = mset xs"
    using m(2) same_items_permutation [OF d] by (metis add_0 mset_eq_length mset_eq_setD order_refl)
  moreover have "om = (items = xs)" if same
  proof -
    have len: "length xs = length items" and di: "distinct items" using m(2) that same_items_permutation [OF d] by auto
    have "(\<forall>i < length xs. find_index items (xs ! i) = Some i) \<longleftrightarrow> items = xs"
      using find_index_nth [OF di] find_index_Some [of items] len by (metis list_eq_iff_nth_eq)
    then show ?thesis using m(3) that by simp
  qed
  ultimately show ?thesis by blast
qed

lemma reorder_loop_links:
  assumes "links (w_items w) s None ps None" "distinct (ps @ xs)" "\<And>x. x \<in> set xs \<Longrightarrow> \<exists>it. w_items w x = Some it \<and> si_parent it = Some s"
  shows "\<exists>w'. reorder_loop w (last_or None ps) xs = Some w' \<and> links (w_items w') s None (ps @ xs) None \<and>
    relinks s (set (ps @ xs)) w w' \<and> w_scenes w' = w_scenes w"
  using assms
proof (induction xs arbitrary: w ps)
  case Nil
  then show ?case by (simp add: relinks_refl)
next
  case (Cons x xs)
  let ?pv = "last_or None ps"
  obtain it where it: "w_items w x = Some it" "si_parent it = Some s" using Cons.prems(3) by auto
  define w1 where "w1 = w\<lparr>w_items := (w_items w)(x \<mapsto> it\<lparr>si_prev := ?pv, si_next := None\<rparr>)\<rparr>"
  have u1: "upd_item w x (\<lambda>it. it\<lparr>si_prev := ?pv, si_next := None\<rparr>) = Some w1" using it by (simp add: upd_item_def w1_def)
  have r1: "relinks s {x} w w1" by (rule relinks_upd_item [OF u1]) (simp_all add: item_core_def)
  have l1: "links (w_items w1) s None ps None"
    using Cons.prems(1,2) by (subst links_frame [where h = "w_items w" and X = "{x}"]) (auto simp: w1_def)
  obtain w2 where w2: "(case ?pv of None \<Rightarrow> Some w1 | Some p \<Rightarrow> upd_item w1 p (\<lambda>it. it\<lparr>si_next := Some x\<rparr>)) = Some w2"
    "links (w_items w2) s None ps (Some x)" "relinks s (set ps) w1 w2" "w_scenes w2 = w_scenes w1"
    using append_next [OF l1, of x] Cons.prems(2) by auto
  have x2: "w_items w2 x = w_items w1 x" using w2(3) Cons.prems(2) by (simp add: relinks_def)
  have "links (w_items w2) s None (ps @ [x]) None" using w2(2) x2 it by (simp add: links_append w1_def)
  moreover have "\<exists>it. w_items w2 y = Some it \<and> si_parent it = Some s" if "y \<in> set xs" for y
  proof -
    have "y \<notin> set ps" "y \<noteq> x" using Cons.prems(2) that by auto
    then have "w_items w2 y = w_items w y" using w2(3) r1 by (simp add: relinks_def)
    then show ?thesis using Cons.prems(3) [of y] that by simp
  qed
  ultimately obtain w' where w': "reorder_loop w2 (Some x) xs = Some w'" "links (w_items w') s None (ps @ x # xs) None"
    "relinks s (set (ps @ x # xs)) w2 w'" "w_scenes w' = w_scenes w2"
    using Cons.IH [of w2 "ps @ [x]"] Cons.prems(2) by auto
  have "relinks s (set (ps @ x # xs)) w w'"
    using relinks_trans [OF relinks_trans [OF r1 w2(3)] w'(3)] by (rule relinks_mono) auto
  moreover have "reorder_loop w ?pv (x # xs) = Some w'" unfolding reorder_loop.simps u1 Option.bind.simps w2(1) w'(1) ..
  moreover have "w_scenes w' = w_scenes w" using w'(4) w2(4) by (simp add: w1_def)
  ultimately show ?case using w'(2) by blast
qed


lemma reorder_items_relinked:
  assumes "scene_list w s xs" "mset items = mset xs" "items \<noteq> []"
  shows "\<exists>w1 w'. upd_scene w s (\<lambda>sc. sc\<lparr>os_first_item := Some (hd items)\<rparr>) = Some w1 \<and> reorder_loop w1 None items = Some w' \<and>
    scene_list w' s items \<and> relinks s (set xs) w w'"
proof -
  have d: "distinct items" "set items = set xs"
    using assms(1) mset_eq_imp_distinct_iff [OF assms(2)] mset_eq_setD [OF assms(2)] by (simp_all add: scene_list_def)
  obtain sc where sc: "w_scenes w s = Some sc" using assms(1) by (auto simp: scene_list_def)
  define w1 where "w1 = w\<lparr>w_scenes := (w_scenes w)(s \<mapsto> sc\<lparr>os_first_item := Some (hd items)\<rparr>)\<rparr>"
  have u1: "upd_scene w s (\<lambda>sc. sc\<lparr>os_first_item := Some (hd items)\<rparr>) = Some w1" using sc by (simp add: upd_scene_def w1_def)
  have r1: "relinks s (set xs) w w1" by (rule relinks_upd_first [OF u1])
  have "\<exists>it. w_items w1 x = Some it \<and> si_parent it = Some s" if "x \<in> set items" for x
    using links_item [of "w_items w" s None xs None x] assms(1) d(2) that by (auto simp: scene_list_def w1_def)
  then obtain w' where w': "reorder_loop w1 None items = Some w'" "links (w_items w') s None items None" "relinks s (set items) w1 w'"
    "w_scenes w' = w_scenes w1"
    using reorder_loop_links [of w1 s "[]" items] d(1) by auto
  have "scene_list w' s items" using w'(2,4) d(1) assms(3) by (cases items) (auto simp: scene_list_def w1_def)
  moreover have "relinks s (set xs) w w'" using relinks_trans [OF r1 w'(3)] d(2) by simp
  ultimately show ?thesis using u1 w'(1) by blast
qed

lemma obs_scene_reorder_items_list:
  assumes "scene_list w s xs"
  shows "if items \<noteq> [] \<and> mset items = mset xs \<and> items \<noteq> xs
    then \<exists>w'. obs_scene_reorder_items w (Some s) items = Some (True, signal w' (Item_reorder s)) \<and> scene_list w' s items \<and> relinks s (set xs) w w'
    else obs_scene_reorder_items w (Some s) items = Some (False, w)"
proof (cases "items \<noteq> [] \<and> mset items = mset xs \<and> items \<noteq> xs")
  case True
  then obtain w1 w' where w1: "upd_scene w s (\<lambda>sc. sc\<lparr>os_first_item := Some (hd items)\<rparr>) = Some w1" "reorder_loop w1 None items = Some w'"
    "scene_list w' s items" "relinks s (set xs) w w'"
    using reorder_items_relinked [OF assms] by blast
  have "sceneitems_match w s items = Some (True, False)" using sceneitems_match_list [OF assms, of items] True by auto
  moreover have "signal_reorder w' (hd items) = Some (signal w' (Item_reorder s))"
    using signal_reorder_list [of w' s "[]" "hd items" "tl items"] w1(3) True by simp
  ultimately have "obs_scene_reorder_items w (Some s) items = Some (True, signal w' (Item_reorder s))"
    using True w1(1,2) by (simp add: obs_scene_reorder_items_def)
  then show ?thesis using True w1(3,4) by auto
next
  case False
  obtain same om where "sceneitems_match w s items = Some (same, om)" "same \<longleftrightarrow> mset items = mset xs" "same \<longrightarrow> om = (items = xs)"
    using sceneitems_match_list [OF assms, of items] by blast
  then show ?thesis using False by (auto simp: obs_scene_reorder_items_def)
qed

text \<open>
  C9: giving all items of a scene a new order. On a scene that represents \<open>xs\<close> the call succeeds exactly when the array is not empty, is a permutation
  of \<open>xs\<close> and is not \<open>xs\<close> itself; then the scene represents the array and \<open>reorder\<close> has been signalled once. In every other case (a
  missing, a foreign or a repeated item, an order that is already there) it answers false and the store is as it was.
\<close>

theorem obs_scene_reorder_items_correct:
  assumes "scene_list w s xs"
  shows "if items \<noteq> [] \<and> mset items = mset xs \<and> items \<noteq> xs
    then \<exists>w'. obs_scene_reorder_items w (Some s) items = Some (True, signal w' (Item_reorder s)) \<and> scene_list w' s items \<and> relinks s (set xs) w w'
    else obs_scene_reorder_items w (Some s) items = Some (False, w)"
  by (rule obs_scene_reorder_items_list [OF assms])

subsection \<open>A scene\<close>

text \<open>Three items on one scene, for the examples.\<close>

definition example_item :: "ptr option \<Rightarrow> ptr option \<Rightarrow> nat \<Rightarrow> obs_scene_item" where
  "example_item prev following source =
     \<lparr>si_ref = 1, si_removed = False, si_parent = Some 0, si_source = source, si_active_refs = 1, si_user_visible = True, si_visible = True,
      si_selected = False, si_audio_actions = [], si_prev = prev, si_next = following\<rparr>"

definition example_store :: store where
  "example_store =
     \<lparr>w_scenes = [0 \<mapsto> \<lparr>os_source = 100, os_first_item = Some 1\<rparr>],
      w_items = [1 \<mapsto> example_item None (Some 2) 101, 2 \<mapsto> example_item (Some 1) (Some 3) 102, 3 \<mapsto> example_item (Some 2) None 103],
      w_children = (\<lambda>p c. if p = 100 \<and> c \<in> {101, 102, 103} then 1 else 0), w_source_refs = (\<lambda>c. if c \<in> {101, 102, 103} then 2 else 1),
      w_signals = []\<rparr>"

lemma example_list: "scene_list example_store 0 [1, 2, 3]"
  by (simp add: scene_list_def example_store_def example_item_def)

lemma obs_sceneitem_set_order_refines_witness:
  "\<exists>w'. obs_sceneitem_set_order example_store (Some 1) OBS_ORDER_MOVE_TOP = Some (signal w' (Item_reorder 0)) \<and>
    scene_list w' 0 [2, 3, 1] \<and> relinks 0 {1, 2, 3} example_store w'"
  using obs_sceneitem_set_order_refines [OF example_list, of 1 OBS_ORDER_MOVE_TOP] by (simp add: move_item_def)

lemma obs_sceneitem_set_order_position_refines_witness:
  "\<exists>w'. obs_sceneitem_set_order_position example_store (Some 1) 1 = Some (signal w' (Item_reorder 0)) \<and>
    scene_list w' 0 [2, 1, 3] \<and> relinks 0 {1, 2, 3} example_store w'"
  using obs_sceneitem_set_order_position_refines [OF example_list, of 1 1] by (simp add: move_to_position_def)

lemma obs_scene_reorder_items_correct_witness:
  "(\<exists>w'. obs_scene_reorder_items example_store (Some 0) [3, 1, 2] = Some (True, signal w' (Item_reorder 0)) \<and> scene_list w' 0 [3, 1, 2] \<and>
      relinks 0 {1, 2, 3} example_store w') \<and>
   obs_scene_reorder_items example_store (Some 0) [3, 1, 1] = Some (False, example_store)"
  using obs_scene_reorder_items_correct [OF example_list, of "[3, 1, 2]"] obs_scene_reorder_items_correct [OF example_list, of "[3, 1, 1]"]
  by simp

end
