(* ===== verification/Scene_Items.thy ===== *)
theory Scene_Items
  imports Scene_Order
begin

text \<open>
  The items of a scene and the sources they show. The invariant ties the counter \<open>active_refs\<close> of every item to the visibility the user has chosen and to
  the hidings that still wait for the audio thread, and the number of times each source is an active child of the scene's source to the items that hold it
  active. Every operation keeps it, and under it no operation follows a null or a dangling pointer.
\<close>

subsection \<open>The invariant\<close>

definition pending_hides :: "item_action list \<Rightarrow> nat" where
  "pending_hides actions = length (filter (\<lambda>a. \<not> ia_visible a) actions)"

lemma pending_hides_simps [simp]:
  "pending_hides [] = 0" "pending_hides (a # as) = (if ia_visible a then 0 else 1) + pending_hides as"
  "pending_hides (as @ bs) = pending_hides as + pending_hides bs"
  by (simp_all add: pending_hides_def)

definition sceneitem_ok :: "(nat \<Rightarrow> bool) \<Rightarrow> obs_scene_item \<Rightarrow> bool" where
  "sceneitem_ok source_has_audio it \<longleftrightarrow> si_ref it \<ge> 1 \<and> \<not> si_removed it \<and>
     si_active_refs it = (if si_user_visible it then 1 else 0) + int (pending_hides (si_audio_actions it)) \<and>
     (si_user_visible it \<longleftrightarrow> (if si_audio_actions it = [] then si_visible it else ia_visible (last (si_audio_actions it)))) \<and>
     (\<not> source_has_audio (si_source it) \<longrightarrow> si_audio_actions it = [])"

definition holds :: "nat \<Rightarrow> obs_scene_item \<Rightarrow> int" where
  "holds c it = (if si_source it = c \<and> si_active_refs it > 0 then 1 else 0)"

definition item_holds :: "store \<Rightarrow> nat \<Rightarrow> ptr \<Rightarrow> int" where
  "item_holds w c x = (case w_items w x of None \<Rightarrow> 0 | Some it \<Rightarrow> holds c it)"

definition scene_inv :: "(nat \<Rightarrow> bool) \<Rightarrow> store \<Rightarrow> ptr \<Rightarrow> nat \<Rightarrow> ptr list \<Rightarrow> bool" where
  "scene_inv source_has_audio w s S xs \<longleftrightarrow> scene_list w s xs \<and> map_option os_source (w_scenes w s) = Some S \<and>
     (\<forall>x \<in> set xs. \<exists>it. w_items w x = Some it \<and> sceneitem_ok source_has_audio it) \<and>
     (\<forall>c. w_children w S c = (\<Sum>x\<in>set xs. item_holds w c x))"

lemma scene_inv_item:
  assumes "scene_inv A w s S xs" "x \<in> set xs"
  shows "\<exists>it sc. w_items w x = Some it \<and> sceneitem_ok A it \<and> si_parent it = Some s \<and> w_scenes w s = Some sc \<and> os_source sc = S"
  using assms links_item [of "w_items w" s None xs None x] by (fastforce simp: scene_inv_def scene_list_def)

lemma scene_list_fields:
  assumes "scene_list w s xs" "w_scenes w' s = w_scenes w s"
    "\<And>x. x \<in> set xs \<Longrightarrow> map_option link_fields (w_items w' x) = map_option link_fields (w_items w x)"
  shows "scene_list w' s xs"
  using assms links_fields [of xs "w_items w'" "w_items w" s None None] by (simp add: scene_list_def)

lemma scene_inv_signal [simp]: "scene_inv A (signal w e) s S xs \<longleftrightarrow> scene_inv A w s S xs"
  by (simp add: scene_inv_def item_holds_def) (simp add: signal_def)

text \<open>Changing one item, and with it the number of its source.\<close>

lemma scene_inv_update:
  assumes inv: "scene_inv A w s S xs" and x: "x \<in> set xs" "w_items w x = Some it"
    and it': "sceneitem_ok A it'" "link_fields it' = link_fields it" "si_source it' = si_source it"
    and w': "w_items w' = (w_items w)(x \<mapsto> it')" "w_scenes w' = w_scenes w"
      "\<And>c. w_children w' S c = w_children w S c + (holds c it' - holds c it)"
  shows "scene_inv A w' s S xs"
proof -
  have "(\<Sum>y\<in>set xs. item_holds w' c y) = (\<Sum>y\<in>set xs. item_holds w c y) + (holds c it' - holds c it)" for c
  proof -
    have "(\<Sum>y\<in>set xs - {x}. item_holds w' c y) = (\<Sum>y\<in>set xs - {x}. item_holds w c y)"
      by (rule sum.cong) (simp_all add: item_holds_def w'(1))
    then show ?thesis using x by (simp add: sum.remove [of "set xs" x] item_holds_def w'(1))
  qed
  moreover have "scene_list w' s xs"
    by (rule scene_list_fields [where w = w]) (use inv x it'(2) in \<open>auto simp: scene_inv_def w'\<close>)
  ultimately show ?thesis using inv it'(1) by (simp add: scene_inv_def w')
qed

lemma sceneitem_ok_item_core: "sceneitem_ok A (item_core it) \<longleftrightarrow> sceneitem_ok A it"
  by (simp add: item_core_def sceneitem_ok_def)

lemma holds_item_core: "holds c (item_core it) = holds c it"
  by (simp add: item_core_def holds_def)

lemma sceneitem_ok_core: "item_core it' = item_core it \<Longrightarrow> sceneitem_ok A it' \<longleftrightarrow> sceneitem_ok A it"
  using sceneitem_ok_item_core [of A it] sceneitem_ok_item_core [of A it'] by simp

lemma holds_core: "item_core it' = item_core it \<Longrightarrow> holds c it' = holds c it"
  using holds_item_core [of c it] holds_item_core [of c it'] by simp

lemma core_item:
  assumes "map_option item_core h' = map_option item_core h" "h = Some it" "sceneitem_ok A it"
  shows "\<exists>it'. h' = Some it' \<and> sceneitem_ok A it'"
  using assms by (cases h') (auto dest: sceneitem_ok_core)

lemma item_holds_core: "map_option item_core (w_items w' x) = map_option item_core (w_items w x) \<Longrightarrow> item_holds w' c x = item_holds w c x"
  by (cases "w_items w x"; cases "w_items w' x") (auto simp: item_holds_def dest: holds_core)

lemma scene_inv_relinks:
  assumes inv: "scene_inv A w s S xs" and "scene_list w' s ys" "set ys = set xs" "relinks s X w w'"
  shows "scene_inv A w' s S ys"
proof -
  have core: "map_option item_core (w_items w' x) = map_option item_core (w_items w x)" for x using assms(4) by (simp add: relinks_def)
  have "\<exists>it. w_items w' x = Some it \<and> sceneitem_ok A it" if "x \<in> set xs" for x
    using core_item [OF core] scene_inv_item [OF inv that] by blast
  then show ?thesis using assms item_holds_core [OF core] by (simp add: scene_inv_def relinks_def)
qed

text \<open>Taking one item out.\<close>

lemma scene_inv_removed:
  assumes inv: "scene_inv A w s S (as @ x # bs)" and "scene_list w' s (as @ bs)" "map_option os_source (w_scenes w' s) = Some S"
    and core: "\<And>y. y \<noteq> x \<Longrightarrow> map_option item_core (w_items w' y) = map_option item_core (w_items w y)"
    and "\<And>c. w_children w' S c = w_children w S c - item_holds w c x"
  shows "scene_inv A w' s S (as @ bs)"
proof -
  have d: "x \<notin> set (as @ bs)" using inv by (auto simp: scene_inv_def scene_list_def)
  have ne: "y \<noteq> x" if "y \<in> set (as @ bs)" for y using d that by blast
  have "\<exists>it. w_items w' y = Some it \<and> sceneitem_ok A it" if "y \<in> set (as @ bs)" for y
    using core_item [OF core [OF ne [OF that]]] scene_inv_item [OF inv, of y] that by auto
  moreover have "(\<Sum>y\<in>set (as @ bs). item_holds w' c y) = (\<Sum>y\<in>set (as @ bs). item_holds w c y)" for c
    using item_holds_core [OF core [OF ne]] by (intro sum.cong) simp_all
  moreover have "(\<Sum>y\<in>set (as @ x # bs). item_holds w c y) = item_holds w c x + (\<Sum>y\<in>set (as @ bs). item_holds w c y)" for c
    using d by simp
  ultimately show ?thesis using assms(2,3,5) inv by (simp add: scene_inv_def)
qed


subsection \<open>Each operation\<close>

definition shown_item :: "bool \<Rightarrow> obs_scene_item \<Rightarrow> obs_scene_item" where
  "shown_item vis it = it\<lparr>si_audio_actions := [], si_active_refs := (if vis then 1 else 0), si_visible := vis, si_user_visible := vis\<rparr>"

text \<open>What differs between two stores besides one item.\<close>

definition one_item :: "store \<Rightarrow> ptr \<Rightarrow> obs_scene_item \<Rightarrow> store \<Rightarrow> bool" where
  "one_item w x it' w' \<longleftrightarrow> w_items w' = (w_items w)(x \<mapsto> it') \<and> w_scenes w' = w_scenes w \<and> w_source_refs w' = w_source_refs w"

lemma set_visibility_eq:
  assumes "w_items w x = Some it" "si_parent it = Some s" "w_scenes w s = Some sc" "vis \<Longrightarrow> si_active_refs it > 0"
  shows "\<exists>w'. set_visibility w may_add x vis = Some w' \<and> one_item w x (shown_item vis it) w' \<and> w_signals w' = w_signals w \<and>
    (\<forall>c. w_children w' (os_source sc) c = w_children w (os_source sc) c + (holds c (shown_item vis it) - holds c it))"
  using assms by (auto simp: set_visibility_def upd_item_def one_item_def shown_item_def holds_def obs_source_remove_active_child_def)

lemma sceneitem_ok_shown: "sceneitem_ok A it \<Longrightarrow> sceneitem_ok A (shown_item vis it)"
  by (simp add: sceneitem_ok_def shown_item_def)

lemma link_fields_shown [simp]: "link_fields (shown_item vis it) = link_fields it"
  by (simp add: shown_item_def link_fields_def)

lemma si_source_shown [simp]: "si_source (shown_item vis it) = si_source it"
  by (simp add: shown_item_def)

lemma scene_inv_one_item:
  assumes "scene_inv A w s S xs" "x \<in> set xs" "w_items w x = Some it" "sceneitem_ok A it'" "link_fields it' = link_fields it" "si_source it' = si_source it"
    "one_item w x it' w'" "\<And>c. w_children w' S c = w_children w S c + (holds c it' - holds c it)"
  shows "scene_inv A w' s S xs"
  by (rule scene_inv_update [OF assms(1-6)]) (use assms(7,8) in \<open>auto simp: one_item_def\<close>)

text \<open>Selecting an item and taking a reference.\<close>

lemma select_keeps:
  assumes inv: "scene_inv A w s S xs" and x: "x \<in> set xs"
  shows "\<exists>w'. obs_sceneitem_select w (Some x) selected = Some w' \<and> scene_inv A w' s S xs"
proof -
  obtain it where it: "w_items w x = Some it" "sceneitem_ok A it" "si_parent it = Some s" using scene_inv_item [OF inv x] by blast
  let ?it = "it\<lparr>si_selected := selected\<rparr>" and ?w = "w\<lparr>w_items := (w_items w)(x \<mapsto> it\<lparr>si_selected := selected\<rparr>)\<rparr>"
  have "scene_inv A ?w s S xs"
    by (rule scene_inv_one_item [OF inv x it(1), of ?it]) (use it(2) in \<open>simp_all add: sceneitem_ok_def link_fields_def one_item_def holds_def\<close>)
  then show ?thesis using inv it by (simp add: obs_sceneitem_select_def upd_item_def)
qed

lemma set_ref_keeps:
  assumes inv: "scene_inv A w s S xs" and x: "x \<in> set xs" "w_items w x = Some it" and n: "n \<ge> 1"
  shows "scene_inv A (w\<lparr>w_items := (w_items w)(x \<mapsto> it\<lparr>si_ref := n\<rparr>)\<rparr>) s S xs"
proof -
  have "sceneitem_ok A it" using scene_inv_item [OF inv x(1)] x(2) by simp
  then show ?thesis
    by (intro scene_inv_one_item [OF inv x, of "it\<lparr>si_ref := n\<rparr>"]) (use n in \<open>simp_all add: sceneitem_ok_def link_fields_def one_item_def holds_def\<close>)
qed

lemma addref_keeps:
  assumes inv: "scene_inv A w s S xs" and x: "x \<in> set xs"
  shows "\<exists>w'. obs_sceneitem_addref w (Some x) = Some w' \<and> scene_inv A w' s S xs"
proof -
  obtain it where it: "w_items w x = Some it" "sceneitem_ok A it" using scene_inv_item [OF inv x] by blast
  then show ?thesis using set_ref_keeps [OF inv x it(1), of "si_ref it + 1"]
    by (simp add: obs_sceneitem_addref_def upd_item_def sceneitem_ok_def)
qed

lemma release_keeps:
  assumes inv: "scene_inv A w s S xs" and x: "x \<in> set xs" and "w_items w x = Some it" "si_ref it > 1"
  shows "\<exists>w'. obs_sceneitem_release w (Some x) = Some w' \<and> scene_inv A w' s S xs"
  using set_ref_keeps [OF inv x assms(3), of "si_ref it - 1"] assms(3,4) by (simp add: obs_sceneitem_release_def upd_item_def)

text \<open>Showing and hiding.\<close>

lemma add_child_eq:
  "obs_source_add_active_child m w S c =
     (if S = c \<or> \<not> m then (False, w) else (True, w\<lparr>w_children := (w_children w)(S := (w_children w S)(c := w_children w S c + 1))\<rparr>))"
  by (simp add: obs_source_add_active_child_def)

text \<open>The last part of \<open>obs_sceneitem_set_visible\<close>, after the reference has been taken: an audio source is shown or hidden later, by the
  audio thread.\<close>

definition final_item :: "bool \<Rightarrow> 64 word \<Rightarrow> bool \<Rightarrow> obs_scene_item \<Rightarrow> obs_scene_item" where
  "final_item has_audio t visible it =
     (if has_audio then it\<lparr>si_user_visible := visible, si_audio_actions := si_audio_actions it @ [\<lparr>ia_visible = visible, ia_timestamp = t\<rparr>]\<rparr>
      else shown_item visible it)"

lemma final_item_eq:
  assumes "w_items w x = Some it" "si_parent it = Some s" "w_scenes w s = Some sc" "visible \<longrightarrow> si_active_refs it > 0"
  shows "\<exists>w'. (do {
      w \<leftarrow> upd_item w x (\<lambda>it. it\<lparr>si_user_visible := visible\<rparr>);
      let w = signal w (Item_visible s x visible);
      w \<leftarrow> (if A (si_source it)
           then upd_item w x (\<lambda>it. it\<lparr>si_audio_actions := si_audio_actions it @ [\<lparr>ia_visible = visible, ia_timestamp = t\<rparr>]\<rparr>)
           else set_visibility w m x visible);
      Some (True, w) }) = Some (True, w') \<and> one_item w x (final_item (A (si_source it)) t visible it) w' \<and>
    (\<forall>c. w_children w' (os_source sc) c =
      w_children w (os_source sc) c + (holds c (final_item (A (si_source it)) t visible it) - holds c it))"
proof (cases "A (si_source it)")
  case True
  then show ?thesis using assms by (simp add: upd_item_def signal_def Let_def final_item_def one_item_def holds_def)
next
  case False
  let ?it = "it\<lparr>si_user_visible := visible\<rparr>"
  let ?w = "signal (w\<lparr>w_items := (w_items w)(x \<mapsto> ?it)\<rparr>) (Item_visible s x visible)"
  have "shown_item visible ?it = shown_item visible it" "\<And>c. holds c ?it = holds c it" by (simp_all add: shown_item_def holds_def)
  moreover have "\<exists>w'. set_visibility ?w m x visible = Some w' \<and> one_item ?w x (shown_item visible ?it) w' \<and> w_signals w' = w_signals ?w \<and>
      (\<forall>c. w_children w' (os_source sc) c = w_children ?w (os_source sc) c + (holds c (shown_item visible ?it) - holds c ?it))"
    by (rule set_visibility_eq [where s = s]) (use assms in \<open>simp_all add: signal_def\<close>)
  ultimately show ?thesis using False assms(1) by (auto simp: upd_item_def Let_def final_item_def one_item_def signal_def)
qed

lemma sceneitem_ok_final:
  assumes "sceneitem_ok A it" "si_user_visible it \<noteq> visible"
  shows "sceneitem_ok A (final_item (A (si_source it)) t visible (if visible then it\<lparr>si_active_refs := si_active_refs it + 1\<rparr> else it))"
  using assms by (cases visible) (auto simp: sceneitem_ok_def final_item_def shown_item_def)

lemma final_item_fields [simp]:
  "link_fields (final_item b t visible it) = link_fields it" "si_source (final_item b t visible it) = si_source it"
  by (simp_all add: final_item_def link_fields_def shown_item_def)

lemma set_visible_keeps:
  assumes inv: "scene_inv A w s S xs" and x: "x \<in> set xs"
  shows "\<exists>r w'. obs_sceneitem_set_visible A w m t (Some x) visible = Some (r, w') \<and> scene_inv A w' s S xs \<and>
    map_option si_ref (w_items w' x) = map_option si_ref (w_items w x)"
proof -
  obtain it sc where it: "w_items w x = Some it" "sceneitem_ok A it" "si_parent it = Some s" and sc: "w_scenes w s = Some sc" "os_source sc = S"
    using scene_inv_item [OF inv x] by blast
  have r0: "si_active_refs it \<ge> 0" using it(2) by (simp add: sceneitem_ok_def)
  define it1 where "it1 = (if visible then it\<lparr>si_active_refs := si_active_refs it + 1\<rparr> else it)"
  have it1: "si_source it1 = si_source it" "si_parent it1 = Some s" "link_fields it1 = link_fields it" "visible \<longrightarrow> si_active_refs it1 > 0"
    using it(3) r0 by (simp_all add: it1_def link_fields_def)
  have inner: ?thesis
    if eq: "obs_sceneitem_set_visible A w m t (Some x) visible = (do {
          w \<leftarrow> upd_item w1 x (\<lambda>it. it\<lparr>si_user_visible := visible\<rparr>);
          let w = signal w (Item_visible s x visible);
          w \<leftarrow> (if A (si_source it1)
               then upd_item w x (\<lambda>it. it\<lparr>si_audio_actions := si_audio_actions it @ [\<lparr>ia_visible = visible, ia_timestamp = t\<rparr>]\<rparr>)
               else set_visibility w m x visible);
          Some (True, w) })" and changed: "si_user_visible it \<noteq> visible" and w1: "one_item w x it1 w1"
      "\<And>c. w_children w1 S c = w_children w S c + (holds c it1 - holds c it)" for w1
  proof -
    have items: "w_items w1 x = Some it1" "w_scenes w1 s = Some sc" using w1(1) sc by (simp_all add: one_item_def)
    obtain w' where w': "obs_sceneitem_set_visible A w m t (Some x) visible = Some (True, w')"
      "one_item w1 x (final_item (A (si_source it1)) t visible it1) w'"
      "\<And>c. w_children w' S c = w_children w1 S c + (holds c (final_item (A (si_source it1)) t visible it1) - holds c it1)"
      using final_item_eq [OF items(1) it1(2) items(2) it1(4), of A t m] unfolding sc(2) eq by blast
    have ok: "sceneitem_ok A (final_item (A (si_source it1)) t visible it1)"
      using sceneitem_ok_final [OF it(2) changed, of t] it1(1) unfolding it1_def by simp
    have "scene_inv A w' s S xs"
      by (rule scene_inv_one_item [OF inv x it(1) ok]) (use w'(2,3) w1 it1 in \<open>simp_all add: one_item_def\<close>)
    moreover have "si_ref (final_item (A (si_source it1)) t visible it1) = si_ref it" by (simp add: final_item_def shown_item_def it1_def)
    ultimately show ?thesis using w'(1,2) it(1) by (auto simp: one_item_def)
  qed
  let ?w = "w\<lparr>w_items := (w_items w)(x \<mapsto> it\<lparr>si_active_refs := si_active_refs it + 1\<rparr>)\<rparr>"
  show ?thesis
  proof (cases "si_user_visible it = visible")
    case True
    then show ?thesis using inv it(1) by (auto simp: obs_sceneitem_set_visible_def)
  next
    case ne: False
    show ?thesis
    proof (cases visible)
      case False
      have no: "visible = False" using False by simp
      show ?thesis
        by (rule inner [of w]) (use ne it sc in \<open>simp_all add: no obs_sceneitem_set_visible_def it1_def one_item_def Let_def fun_upd_idem cong: if_cong\<close>)
    next
      case True
      then have vis: "visible = True" by simp
      consider (refused) "si_active_refs it = 0" "S = si_source it \<or> \<not> m" | (added) "si_active_refs it = 0" "S \<noteq> si_source it" m
        | (active) "si_active_refs it > 0" using r0 by fastforce
      then show ?thesis
      proof cases
        case refused
        have same: "it\<lparr>si_active_refs := 0\<rparr> = it" using refused(1) by (cases it) simp
        have "obs_sceneitem_set_visible A w m t (Some x) visible = Some (False, w\<lparr>w_items := (w_items w)(x \<mapsto> it)\<rparr>)"
          using refused ne vis it sc by (auto simp: obs_sceneitem_set_visible_def upd_item_def add_child_eq same)
        moreover have "w\<lparr>w_items := (w_items w)(x \<mapsto> it)\<rparr> = w" using it(1) by (simp add: fun_upd_idem)
        ultimately show ?thesis using inv by auto
      next
        case added
        show ?thesis
          by (rule inner [of "snd (obs_source_add_active_child m ?w S (si_source it))"])
            (use added ne it sc in \<open>simp_all add: vis obs_sceneitem_set_visible_def upd_item_def add_child_eq it1_def one_item_def Let_def holds_def cong: if_cong\<close>)
      next
        case active
        show ?thesis
          by (rule inner [of ?w])
            (use active ne it sc in \<open>simp_all add: vis obs_sceneitem_set_visible_def upd_item_def it1_def one_item_def Let_def holds_def cong: if_cong\<close>)
      qed
    qed
  qed
qed


text \<open>The audio thread.\<close>

lemma actions_loop_split:
  "actions_loop ts rate actions v buf n = (rest, v', buf', n') \<Longrightarrow>
    \<exists>applied. actions = applied @ rest \<and> v' = (if applied = [] then v else ia_visible (last applied)) \<and> n' = n + pending_hides applied \<and>
      (length buf \<le> AUDIO_OUTPUT_FRAMES \<longrightarrow> length buf' \<le> AUDIO_OUTPUT_FRAMES)"
proof (induction actions arbitrary: v buf n)
  case (Cons a actions)
  let ?f = "unat (action_frame (ia_timestamp a) ts rate)"
  show ?case
  proof (cases "?f \<ge> AUDIO_OUTPUT_FRAMES")
    case True
    then show ?thesis using Cons.prems by (intro exI [of _ "[]"]) auto
  next
    case False
    then obtain applied where "actions = applied @ rest" "v' = (if applied = [] then ia_visible a else ia_visible (last applied))"
      "n' = (if \<not> ia_visible a then n + 1 else n) + pending_hides applied"
      "length (buf @ replicate (?f - length buf) v) \<le> AUDIO_OUTPUT_FRAMES \<longrightarrow> length buf' \<le> AUDIO_OUTPUT_FRAMES"
      using Cons.IH [of "ia_visible a" "buf @ replicate (?f - length buf) v" "if \<not> ia_visible a then n + 1 else n"] Cons.prems
      by (auto simp: Let_def)
    then show ?thesis using False by (intro exI [of _ "a # applied"]) auto
  qed
qed auto

lemma deref_loop_eq:
  assumes "w_items w x = Some it" "si_parent it = Some s" "w_scenes w s = Some sc" "int n \<le> si_active_refs it"
  shows "\<exists>w'. deref_loop w x n = Some w' \<and> one_item w x (it\<lparr>si_active_refs := si_active_refs it - int n\<rparr>) w' \<and>
    (\<forall>c. w_children w' (os_source sc) c =
      w_children w (os_source sc) c + (holds c (it\<lparr>si_active_refs := si_active_refs it - int n\<rparr>) - holds c it))"
  using assms
proof (induction n arbitrary: w it)
  case 0
  then show ?case by (simp add: one_item_def fun_upd_idem)
next
  case (Suc n)
  let ?it = "it\<lparr>si_active_refs := si_active_refs it - 1\<rparr>" and ?c = "os_source sc"
  let ?w = "w\<lparr>w_items := (w_items w)(x \<mapsto> ?it)\<rparr>"
  let ?w1 = "if si_active_refs ?it = 0 then obs_source_remove_active_child ?w ?c (si_source it) else ?w"
  have step: "deref_loop w x (Suc n) = deref_loop ?w1 x n"
    using Suc.prems by (simp add: upd_item_def obs_source_remove_active_child_def)
  have fields: "w_items ?w1 = w_items ?w" "w_scenes ?w1 = w_scenes w" "w_source_refs ?w1 = w_source_refs w"
    by (simp_all add: obs_source_remove_active_child_def)
  have children: "w_children ?w1 ?c c = w_children w ?c c + (holds c ?it - holds c it)" for c
    using Suc.prems(4) by (auto simp: obs_source_remove_active_child_def holds_def)
  have prems: "w_items ?w1 x = Some ?it" "si_parent ?it = Some s" "w_scenes ?w1 s = Some sc" "int n \<le> si_active_refs ?it"
    using Suc.prems(2-4) unfolding fields by simp_all
  obtain w' where w': "deref_loop ?w1 x n = Some w'" "one_item ?w1 x (?it\<lparr>si_active_refs := si_active_refs ?it - int n\<rparr>) w'"
    "\<And>c. w_children w' ?c c = w_children ?w1 ?c c + (holds c (?it\<lparr>si_active_refs := si_active_refs ?it - int n\<rparr>) - holds c ?it)"
    using Suc.IH [OF prems] by blast
  have "one_item w x (it\<lparr>si_active_refs := si_active_refs it - int (Suc n)\<rparr>) w'"
    "\<And>c. w_children w' ?c c = w_children w ?c c + (holds c (it\<lparr>si_active_refs := si_active_refs it - int (Suc n)\<rparr>) - holds c it)"
    using w'(2,3) children fields unfolding one_item_def by (simp_all add: diff_diff_eq)
  then show ?case using step w'(1) by auto
qed

lemma audio_actions_keep:
  assumes inv: "scene_inv A w s S xs" and x: "x \<in> set xs"
  shows "\<exists>buf w'. apply_scene_item_audio_actions w x ts rate = Some (buf, w') \<and> scene_inv A w' s S xs \<and> length buf = AUDIO_OUTPUT_FRAMES"
proof -
  obtain it sc where it: "w_items w x = Some it" "sceneitem_ok A it" "si_parent it = Some s" and sc: "w_scenes w s = Some sc" "os_source sc = S"
    using scene_inv_item [OF inv x] by blast
  obtain rest v buf n where loop: "actions_loop ts rate (si_audio_actions it) (si_visible it) [] 0 = (rest, v, buf, n)"
    using prod_cases4 by blast
  obtain applied where a: "si_audio_actions it = applied @ rest" "v = (if applied = [] then si_visible it else ia_visible (last applied))"
    "n = pending_hides applied" "length buf \<le> AUDIO_OUTPUT_FRAMES"
    using actions_loop_split [OF loop] by auto
  let ?it = "it\<lparr>si_audio_actions := rest, si_visible := v\<rparr>"
  let ?w = "w\<lparr>w_items := (w_items w)(x \<mapsto> ?it)\<rparr>" and ?final = "?it\<lparr>si_active_refs := si_active_refs ?it - int n\<rparr>"
  have "int n \<le> si_active_refs ?it" using it(2) a(1,3) by (simp add: sceneitem_ok_def)
  then obtain w' where w': "deref_loop ?w x n = Some w'" "one_item ?w x ?final w'"
    "\<And>c. w_children w' S c = w_children ?w S c + (holds c ?final - holds c ?it)"
    using deref_loop_eq [of ?w x ?it s sc n] it(3) sc by auto
  have "sceneitem_ok A ?final" using it(2) a(1-3) by (auto simp: sceneitem_ok_def)
  then have "scene_inv A w' s S xs"
    by (intro scene_inv_one_item [OF inv x it(1), of ?final]) (use w'(2,3) in \<open>auto simp: link_fields_def one_item_def holds_def\<close>)
  then show ?thesis using it(1) loop w'(1) a(4) by (simp add: apply_scene_item_audio_actions_def upd_item_def)
qed

lemma volume_keeps:
  assumes inv: "scene_inv A w s S xs" and x: "x \<in> set xs"
  shows "\<exists>buf w'. apply_scene_item_volume w x ts rate = Some (buf, w') \<and> scene_inv A w' s S xs \<and> (\<forall>b. buf = Some b \<longrightarrow> length b = AUDIO_OUTPUT_FRAMES)"
proof -
  obtain it where it: "w_items w x = Some it" using scene_inv_item [OF inv x] by blast
  then show ?thesis using inv audio_actions_keep [OF inv x, of ts rate]
    by (cases "si_audio_actions it") (auto simp: apply_scene_item_volume_def Let_def)
qed


text \<open>Removing an item.\<close>

lemma scene_inv_other:
  assumes "scene_inv A w s S xs" "\<And>y. y \<in> set xs \<Longrightarrow> w_items w' y = w_items w y" "w_scenes w' s = w_scenes w s" "w_children w' S = w_children w S"
  shows "scene_inv A w' s S xs"
proof -
  have "(\<Sum>y\<in>set xs. item_holds w' c y) = (\<Sum>y\<in>set xs. item_holds w c y)" for c
    by (rule sum.cong) (use assms(2) in \<open>simp_all add: item_holds_def\<close>)
  moreover have "scene_list w' s xs" by (rule scene_list_fields [where w = w]) (use assms in \<open>auto simp: scene_inv_def\<close>)
  ultimately show ?thesis using assms by (simp add: scene_inv_def)
qed

definition hidden :: "store \<Rightarrow> ptr \<Rightarrow> store option" where
  "hidden w item = do {
     w \<leftarrow> upd_item w item (\<lambda>it. it\<lparr>si_removed := True\<rparr>);
     w \<leftarrow> set_visibility w False item False;
     signal_item_remove w item }"

lemma hidden_eq:
  assumes inv: "scene_inv A w s S xs" and x: "x \<in> set xs" and it: "w_items w x = Some it"
  shows "\<exists>w'. hidden w x = Some w' \<and> one_item w x (shown_item False (it\<lparr>si_removed := True\<rparr>)) w' \<and>
    w_signals w' = w_signals w @ [Item_remove s x] \<and> (\<forall>c. w_children w' S c = w_children w S c - item_holds w c x)"
proof -
  obtain sc where sc: "w_scenes w s = Some sc" "os_source sc = S" and par: "si_parent it = Some s" using scene_inv_item [OF inv x] it by auto
  let ?it = "it\<lparr>si_removed := True\<rparr>"
  define w1 where "w1 = w\<lparr>w_items := (w_items w)(x \<mapsto> ?it)\<rparr>"
  have u1: "upd_item w x (\<lambda>it. it\<lparr>si_removed := True\<rparr>) = Some w1" using it by (simp add: upd_item_def w1_def)
  have held: "holds c ?it = item_holds w c x" "holds c (shown_item False ?it) = 0" for c using it by (simp_all add: item_holds_def holds_def shown_item_def)
  obtain w2 where w2: "set_visibility w1 False x False = Some w2" "one_item w1 x (shown_item False ?it) w2" "w_signals w2 = w_signals w1"
    "\<And>c. w_children w2 S c = w_children w1 S c + (holds c (shown_item False ?it) - holds c ?it)"
    using set_visibility_eq [of w1 x ?it s sc False False] par sc by (auto simp: w1_def)
  have "signal_item_remove w2 x = Some (signal w2 (Item_remove s x))"
    using w2(2) par by (simp add: signal_item_remove_def one_item_def shown_item_def)
  then have "hidden w x = Some (signal w2 (Item_remove s x))" using u1 w2(1) by (simp add: hidden_def)
  then show ?thesis using w2(2-4) held by (simp add: one_item_def w1_def signal_def)
qed

lemma remove_without_release_keeps:
  assumes inv: "scene_inv A w s S (as @ x # bs)" and it: "w_items w x = Some it"
  shows "\<exists>w' it'. remove_without_release w x = Some w' \<and> scene_inv A w' s S (as @ bs) \<and>
    w_items w' x = Some it' \<and> si_ref it' = si_ref it \<and> si_source it' = si_source it \<and> w_source_refs w' = w_source_refs w \<and>
    (\<forall>y. y \<noteq> x \<longrightarrow> map_option item_core (w_items w' y) = map_option item_core (w_items w y)) \<and> w_signals w' = w_signals w @ [Item_remove s x]"
proof -
  let ?it = "shown_item False (it\<lparr>si_removed := True\<rparr>)"
  obtain w1 where w1: "hidden w x = Some w1" "one_item w x ?it w1" "w_signals w1 = w_signals w @ [Item_remove s x]"
    "\<And>c. w_children w1 S c = w_children w S c - item_holds w c x"
    using hidden_eq [OF inv _ it] by auto
  have items1: "w_items w1 = (w_items w)(x \<mapsto> ?it)" "w_scenes w1 = w_scenes w" "w_source_refs w1 = w_source_refs w"
    using w1(2) by (simp_all add: one_item_def)
  have "scene_list w1 s (as @ x # bs)"
    by (rule scene_list_fields [where w = w]) (use inv it in \<open>simp_all add: items1 scene_inv_def link_fields_def shown_item_def\<close>)
  then obtain w' it' where w': "detach_sceneitem w1 x = Some w'" "scene_list w' s (as @ bs)" "relinks s (set (as @ x # bs)) w1 w'"
    "w_items w' x = Some it'"
    using detach_list by blast
  have core: "map_option item_core (w_items w' y) = map_option item_core (w_items w1 y)" for y using w'(3) by (simp add: relinks_def)
  have core': "map_option item_core (w_items w' y) = map_option item_core (w_items w y)" if "y \<noteq> x" for y
    using core [of y] that by (simp add: items1)
  have "item_core it' = item_core ?it" using core [of x] w'(4) by (simp add: items1)
  then have "si_ref (item_core it') = si_ref (item_core ?it)" "si_source (item_core it') = si_source (item_core ?it)" by simp_all
  then have kept: "si_ref it' = si_ref it" "si_source it' = si_source it" by (simp_all add: item_core_def shown_item_def)
  have "scene_inv A w' s S (as @ bs)"
    by (rule scene_inv_removed [OF inv w'(2)]) (use w'(3) w1(4) inv core' in \<open>simp_all add: relinks_def items1 scene_inv_def\<close>)
  moreover have "remove_without_release w x = do { w \<leftarrow> hidden w x; detach_sceneitem w x }"
    by (simp add: remove_without_release_def hidden_def bind_assoc)
  moreover have "w_source_refs w' = w_source_refs w" "w_signals w' = w_signals w @ [Item_remove s x]"
    using w'(3) w1(3) by (simp_all add: relinks_def items1)
  ultimately show ?thesis using w1(1) w'(1,4) kept core' by simp
qed

lemma remove_eq:
  "w_items w x = Some it \<Longrightarrow> \<not> si_removed it \<Longrightarrow>
    obs_sceneitem_remove w (Some x) = do { w \<leftarrow> remove_without_release w x; obs_sceneitem_release w (Some x) }"
  by (simp add: obs_sceneitem_remove_def remove_without_release_def bind_assoc)

lemma release_outside:
  assumes inv: "scene_inv A w s S xs" and x: "x \<notin> set xs" "w_items w x = Some it"
  shows "\<exists>w'. obs_sceneitem_release w (Some x) = Some w' \<and> scene_inv A w' s S xs \<and> (\<forall>y. y \<noteq> x \<longrightarrow> w_items w' y = w_items w y) \<and>
    (if si_ref it = 1 then w_items w' x = None \<and> w_source_refs w' = (w_source_refs w)(si_source it := w_source_refs w (si_source it) - 1)
     else w_items w' x \<noteq> None \<and> w_source_refs w' = w_source_refs w) \<and> w_signals w' = w_signals w"
proof -
  let ?w = "w\<lparr>w_items := (w_items w)(x \<mapsto> it\<lparr>si_ref := si_ref it - 1\<rparr>)\<rparr>"
  have eq: "obs_sceneitem_release w (Some x) = (if si_ref it = 1 then obs_sceneitem_destroy ?w x else Some ?w)"
    using x(2) by (simp add: obs_sceneitem_release_def upd_item_def)
  have "scene_inv A ?w s S xs" by (rule scene_inv_other [OF inv]) (use x(1) in auto)
  moreover have "scene_inv A (obs_source_release ?w (si_source it)\<lparr>w_items := (w_items ?w)(x := None)\<rparr>) s S xs"
    by (rule scene_inv_other [OF inv]) (use x(1) in \<open>auto simp: obs_source_release_def\<close>)
  ultimately show ?thesis unfolding eq by (auto simp: obs_sceneitem_destroy_def obs_source_release_def)
qed

lemma remove_keeps:
  assumes inv: "scene_inv A w s S xs" and x: "x \<in> set xs"
  shows "\<exists>w'. obs_sceneitem_remove w (Some x) = Some w' \<and> scene_inv A w' s S (remove1 x xs)"
proof -
  obtain as bs where xs: "xs = as @ x # bs" using x by (rule split_item)
  have d: "x \<notin> set (as @ bs)" using inv xs by (auto simp: scene_inv_def scene_list_def)
  obtain it where it: "w_items w x = Some it" "sceneitem_ok A it" using scene_inv_item [OF inv x] by blast
  obtain w1 it1 where w1: "remove_without_release w x = Some w1" "scene_inv A w1 s S (as @ bs)" "w_items w1 x = Some it1"
    using remove_without_release_keeps [OF inv [unfolded xs] it(1)] by blast
  show ?thesis
    using release_outside [OF w1(2) d w1(3)] remove_eq [OF it(1)] it(2) w1(1) d by (auto simp: sceneitem_ok_def xs remove1_append)
qed


text \<open>Adding an item.\<close>

lemma append_item_list:
  assumes l: "scene_list w s xs" and x: "x \<notin> set xs" "w_items w x = Some it" "si_parent it = Some s" "si_prev it = None" "si_next it = None"
    and sc: "w_scenes w s = Some sc"
  shows "\<exists>w'. (case os_first_item sc of
         None \<Rightarrow> upd_scene w s (\<lambda>sc. sc\<lparr>os_first_item := Some x\<rparr>)
       | Some first \<Rightarrow> do {
           last \<leftarrow> last_item w first;
           w \<leftarrow> upd_item w last (\<lambda>it. it\<lparr>si_next := Some x\<rparr>);
           upd_item w x (\<lambda>it. it\<lparr>si_prev := Some last\<rparr>) }) = Some w' \<and> scene_list w' s (xs @ [x]) \<and> relinks s (insert x (set xs)) w w'"
proof (cases xs)
  case Nil
  have "upd_scene w s (\<lambda>sc. sc\<lparr>os_first_item := Some x\<rparr>) = Some (w\<lparr>w_scenes := (w_scenes w)(s \<mapsto> sc\<lparr>os_first_item := Some x\<rparr>)\<rparr>)"
    using sc by (simp add: upd_scene_def)
  moreover from relinks_upd_first [OF this] have "relinks s (insert x (set xs)) w (w\<lparr>w_scenes := (w_scenes w)(s \<mapsto> sc\<lparr>os_first_item := Some x\<rparr>)\<rparr>)" .
  ultimately show ?thesis using Nil l x sc by (simp add: scene_list_def)
next
  case (Cons y ys)
  have links: "links (w_items w) s None xs None" and d: "distinct xs" using l by (simp_all add: scene_list_def)
  have last: "last_item w y = Some (last xs)" using last_item_links [of w s None y ys] links Cons by simp
  obtain w1 where w1: "upd_item w (last xs) (\<lambda>it. it\<lparr>si_next := Some x\<rparr>) = Some w1" "links (w_items w1) s None xs (Some x)"
    "relinks s (set xs) w w1" "w_scenes w1 = w_scenes w"
    using append_next [OF links d, of x] Cons by (auto simp: last_or_def)
  have "w_items w1 x = Some it" using w1(3) x by (simp add: relinks_def)
  let ?w = "w1\<lparr>w_items := (w_items w1)(x \<mapsto> it\<lparr>si_prev := Some (last xs)\<rparr>)\<rparr>"
  have u: "upd_item w1 x (\<lambda>it. it\<lparr>si_prev := Some (last xs)\<rparr>) = Some ?w" using \<open>w_items w1 x = Some it\<close> by (simp add: upd_item_def)
  have "links (w_items ?w) s None xs (Some x)"
    using w1(2) x(1) by (subst links_frame [where h = "w_items w1" and X = "{x}"]) auto
  moreover have "last_or None xs = Some (last xs)" using Cons by (simp add: last_or_def)
  ultimately have "scene_list ?w s (xs @ [x])"
    using d x w1(4) l Cons by (simp add: scene_list_def links_append first_or_append)
  moreover have "relinks s (insert x (set xs)) w ?w"
    using relinks_trans [OF w1(3) relinks_upd_item [OF u, of "{x}"]] by (simp add: item_core_def)
  moreover have "os_first_item sc = Some y" using l sc Cons by (simp add: scene_list_def)
  ultimately show ?thesis using last w1(1) u by simp
qed

lemma sceneitem_ok_new: "sceneitem_ok A (new_item A s c t)"
  by (simp add: sceneitem_ok_def new_item_def)

lemma add_keeps:
  assumes inv: "scene_inv A w s S xs" and x: "x \<notin> set xs"
  shows "\<exists>r w'. obs_scene_add A w k m t x (Some s) (Some c) = Some (r, w') \<and>
    (if c = S \<or> \<not> m \<or> \<not> k then r = None \<and> w' = w else r = Some x \<and> scene_inv A w' s S (xs @ [x]))"
proof -
  obtain sc where sc: "w_scenes w s = Some sc" "os_source sc = S" using inv by (auto simp: scene_inv_def)
  show ?thesis
  proof (cases "c = S \<or> \<not> m \<or> \<not> k")
    case True
    then show ?thesis using sc by (auto simp: obs_scene_add_def add_child_eq)
  next
    case False
    let ?it = "new_item A s c t"
    let ?child = "w\<lparr>w_children := (w_children w)(S := (w_children w S)(c := w_children w S c + 1))\<rparr>"
    define w1 where "w1 = obs_source_addref (?child\<lparr>w_items := (w_items w)(x \<mapsto> ?it)\<rparr>) c"
    have w1: "w_items w1 = (w_items w)(x \<mapsto> ?it)" "w_scenes w1 = w_scenes w" "w_children w1 = w_children ?child"
      by (simp_all add: w1_def obs_source_addref_def)
    have "scene_list w1 s xs" by (rule scene_list_fields [where w = w]) (use inv x in \<open>auto simp: scene_inv_def w1\<close>)
    then obtain w2 where w2: "(case os_first_item sc of
         None \<Rightarrow> upd_scene w1 s (\<lambda>sc. sc\<lparr>os_first_item := Some x\<rparr>)
       | Some first \<Rightarrow> do {
           last \<leftarrow> last_item w1 first;
           w \<leftarrow> upd_item w1 last (\<lambda>it. it\<lparr>si_next := Some x\<rparr>);
           upd_item w x (\<lambda>it. it\<lparr>si_prev := Some last\<rparr>) }) = Some w2"
      "scene_list w2 s (xs @ [x])" "relinks s (insert x (set xs)) w1 w2"
      using append_item_list [of w1 s xs x ?it sc] x sc(1) by (auto simp: w1 new_item_def)
    have core: "map_option item_core (w_items w2 y) = map_option item_core (w_items w1 y)" for y using w2(3) by (simp add: relinks_def)
    have ok: "\<exists>it. w_items w2 y = Some it \<and> sceneitem_ok A it" if "y \<in> set (xs @ [x])" for y
    proof (cases "y = x")
      case True
      then show ?thesis using core_item [OF core [of x], of ?it] sceneitem_ok_new by (simp add: w1)
    next
      case False
      then show ?thesis using that scene_inv_item [OF inv, of y] core_item [OF core [of y]] by (auto simp: w1)
    qed
    have sum: "(\<Sum>y\<in>set (xs @ [x]). item_holds w2 d y) = (\<Sum>y\<in>set xs. item_holds w d y) + (if c = d then 1 else 0)" for d
    proof -
      have "item_holds w2 d y = item_holds w d y" if "y \<in> set xs" for y
        using item_holds_core [OF core, of d y] that x by (auto simp: item_holds_def w1)
      then have "(\<Sum>y\<in>set xs. item_holds w2 d y) = (\<Sum>y\<in>set xs. item_holds w d y)" by (rule sum.cong [OF refl])
      moreover have "item_holds w2 d x = (if c = d then 1 else 0)"
        using item_holds_core [OF core, of d x] by (simp add: item_holds_def w1 holds_def new_item_def)
      ultimately show ?thesis using x by simp
    qed
    have "w_children w2 S = w_children ?child S" "map_option os_source (w_scenes w2 s) = Some S"
      using w2(3) sc by (simp_all add: relinks_def w1)
    then have "scene_inv A w2 s S (xs @ [x])" using w2(2) ok sum inv unfolding scene_inv_def by auto
    moreover have "obs_scene_add A w k m t x (Some s) (Some c) = Some (Some x, signal w2 (Item_add s x))"
    proof -
      have child: "obs_source_add_active_child m w (os_source sc) c = (True, ?child)" using False sc by (simp add: add_child_eq)
      have w1': "obs_source_addref (?child\<lparr>w_items := (w_items ?child)(x \<mapsto> ?it)\<rparr>) c = w1" by (simp add: w1_def)
      have ok: "(\<not> k) = False" using False by simp
      show ?thesis unfolding obs_scene_add_def ok if_False prod.case option.case sc(1) Option.bind.simps child bool.case Let_def w1' w2(1) ..
    qed
    ultimately show ?thesis using False by auto
  qed
qed


subsection \<open>Any sequence of operations\<close>

datatype scene_op =
    Add ptr nat bool bool "64 word"
  | Remove ptr
  | Set_visible ptr bool bool "64 word"
  | Audio ptr "64 word" "64 word"
  | Set_order ptr obs_order_movement
  | Set_position ptr int
  | Reorder "ptr list"
  | Select ptr bool
  | Addref ptr
  | Release ptr
  | Hotkey bool ptr bool bool "64 word"

fun run_op :: "(nat \<Rightarrow> bool) \<Rightarrow> ptr \<Rightarrow> scene_op \<Rightarrow> store \<Rightarrow> store option" where
  "run_op A s (Add x c k m t) w = map_option snd (obs_scene_add A w k m t x (Some s) (Some c))"
| "run_op A s (Remove x) w = obs_sceneitem_remove w (Some x)"
| "run_op A s (Set_visible x visible m t) w = map_option snd (obs_sceneitem_set_visible A w m t (Some x) visible)"
| "run_op A s (Audio x ts rate) w = map_option snd (apply_scene_item_volume w x ts rate)"
| "run_op A s (Set_order x movement) w = obs_sceneitem_set_order w (Some x) movement"
| "run_op A s (Set_position x position) w = obs_sceneitem_set_order_position w (Some x) position"
| "run_op A s (Reorder items) w = map_option snd (obs_scene_reorder_items w (Some s) items)"
| "run_op A s (Select x selected) w = obs_sceneitem_select w (Some x) selected"
| "run_op A s (Addref x) w = obs_sceneitem_addref w (Some x)"
| "run_op A s (Release x) w = obs_sceneitem_release w (Some x)"
| "run_op A s (Hotkey show_it x pressed m t) w = map_option snd (hotkey_sceneitem A w m t show_it x pressed)"

text \<open>What the caller has to provide: a new address for a new item, an item of the scene for everything else, a reference of one's own to
  release, and no position past the first for an item that is alone.\<close>

fun op_ok :: "store \<Rightarrow> ptr list \<Rightarrow> scene_op \<Rightarrow> bool" where
  "op_ok w xs (Add x c k m t) \<longleftrightarrow> w_items w x = None"
| "op_ok w xs (Reorder items) \<longleftrightarrow> True"
| "op_ok w xs (Set_position x position) \<longleftrightarrow> x \<in> set xs \<and> (position < 2 \<or> xs \<noteq> [x])"
| "op_ok w xs (Release x) \<longleftrightarrow> x \<in> set xs \<and> (\<exists>it. w_items w x = Some it \<and> si_ref it > 1)"
| "op_ok w xs (Remove x) \<longleftrightarrow> x \<in> set xs"
| "op_ok w xs (Set_visible x visible m t) \<longleftrightarrow> x \<in> set xs"
| "op_ok w xs (Audio x ts rate) \<longleftrightarrow> x \<in> set xs"
| "op_ok w xs (Set_order x movement) \<longleftrightarrow> x \<in> set xs"
| "op_ok w xs (Select x selected) \<longleftrightarrow> x \<in> set xs"
| "op_ok w xs (Addref x) \<longleftrightarrow> x \<in> set xs"
| "op_ok w xs (Hotkey show_it x pressed m t) \<longleftrightarrow> x \<in> set xs"

fun op_list :: "nat \<Rightarrow> scene_op \<Rightarrow> ptr list \<Rightarrow> ptr list" where
  "op_list S (Add x c k m t) xs = (if c = S \<or> \<not> m \<or> \<not> k then xs else xs @ [x])"
| "op_list S (Remove x) xs = remove1 x xs"
| "op_list S (Set_order x movement) xs = move_item movement x xs"
| "op_list S (Set_position x position) xs = move_to_position position x xs"
| "op_list S (Reorder items) xs = (if mset items = mset xs then items else xs)"
| "op_list S _ xs = xs"

lemma set_move_up: "set (move_up x xs) = set xs"
  by (induction x xs rule: move_up.induct) auto

lemma set_move_item: "x \<in> set xs \<Longrightarrow> distinct xs \<Longrightarrow> set (move_item movement x xs) = set xs"
  by (cases movement) (auto simp: move_item_def set_move_up)

lemma set_take_drop: "insert x (set (take n ys) \<union> set (drop n ys)) = insert x (set ys)"
  by (simp only: set_append [symmetric] append_take_drop_id)

lemma set_move_to_position: "x \<in> set xs \<Longrightarrow> distinct xs \<Longrightarrow> set (move_to_position position x xs) = set xs"
  by (auto simp: move_to_position_def Let_def set_take_drop)

lemma order_keeps:
  assumes inv: "scene_inv A w s S xs" and x: "x \<in> set xs"
  shows "\<exists>w'. obs_sceneitem_set_order w (Some x) movement = Some w' \<and> scene_inv A w' s S (move_item movement x xs)"
proof -
  have l: "scene_list w s xs" "distinct xs" using inv by (simp_all add: scene_inv_def scene_list_def)
  obtain as bs where xs: "xs = as @ x # bs" using x by (rule split_item)
  obtain w' where "obs_sceneitem_set_order w (Some x) movement = Some (signal w' (Item_reorder s))" "scene_list w' s (move_item movement x xs)"
    "relinks s (set xs) w w'"
    using obs_sceneitem_set_order_list [of w s as x bs movement] l(1) xs by blast
  then show ?thesis using scene_inv_relinks [OF inv] set_move_item [OF x l(2)] by auto
qed


lemma position_keeps:
  assumes inv: "scene_inv A w s S xs" and x: "x \<in> set xs" "position < 2 \<or> xs \<noteq> [x]"
  shows "\<exists>w'. obs_sceneitem_set_order_position w (Some x) position = Some w' \<and> scene_inv A w' s S (move_to_position position x xs)"
proof -
  have l: "scene_list w s xs" "distinct xs" using inv by (simp_all add: scene_inv_def scene_list_def)
  show ?thesis
    using obs_sceneitem_set_order_position_list [OF l(1) x] scene_inv_relinks [OF inv] set_move_to_position [OF x(1) l(2)] by fastforce
qed

lemma reorder_keeps:
  assumes inv: "scene_inv A w s S xs"
  shows "\<exists>r w'. obs_scene_reorder_items w (Some s) items = Some (r, w') \<and> scene_inv A w' s S (if mset items = mset xs then items else xs)"
proof (cases "items \<noteq> [] \<and> mset items = mset xs \<and> items \<noteq> xs")
  case True
  moreover have l: "scene_list w s xs" using inv by (simp add: scene_inv_def)
  ultimately obtain w' where w': "obs_scene_reorder_items w (Some s) items = Some (True, signal w' (Item_reorder s))" "scene_list w' s items"
    "relinks s (set xs) w w'"
    using obs_scene_reorder_items_list [OF l, of items] by auto
  moreover have "set items = set xs" using True mset_eq_setD by blast
  ultimately show ?thesis using True scene_inv_relinks [OF inv w'(2)] by auto
next
  case False
  then have "(if mset items = mset xs then items else xs) = xs" by auto
  moreover have "obs_scene_reorder_items w (Some s) items = Some (False, w)"
    using False obs_scene_reorder_items_list [of w s xs items] inv by (simp only: scene_inv_def if_False)
  ultimately show ?thesis using inv by auto
qed

lemma hotkey_keeps:
  assumes inv: "scene_inv A w s S xs" and x: "x \<in> set xs"
  shows "\<exists>r w'. hotkey_sceneitem A w m t show_it x pressed = Some (r, w') \<and> scene_inv A w' s S xs"
proof -
  obtain it where it: "w_items w x = Some it" "sceneitem_ok A it" using scene_inv_item [OF inv x] by blast
  let ?it = "it\<lparr>si_ref := si_ref it + 1\<rparr>"
  define w1 where "w1 = w\<lparr>w_items := (w_items w)(x \<mapsto> ?it)\<rparr>"
  have ref: "si_ref it \<ge> 1" using it(2) by (simp add: sceneitem_ok_def)
  have w1: "scene_inv A w1 s S xs" "w_items w1 x = Some ?it"
    using set_ref_keeps [OF inv x it(1), of "si_ref it + 1"] ref by (simp_all add: w1_def)
  have get: "sceneitem_get_ref w x = Some (Some x, w1)" using it(1) ref by (simp add: sceneitem_get_ref_def upd_item_def w1_def)
  show ?thesis
  proof (cases "pressed \<and> si_user_visible it \<noteq> show_it")
    case True
    obtain r w2 where w2: "obs_sceneitem_set_visible A w1 m t (Some x) show_it = Some (r, w2)" "scene_inv A w2 s S xs"
      "map_option si_ref (w_items w2 x) = Some (si_ref it + 1)"
      using set_visible_keeps [OF w1(1) x, of m t show_it] w1(2) by auto
    then obtain it2 where "w_items w2 x = Some it2" "si_ref it2 > 1" using ref by auto
    then show ?thesis using release_keeps [OF w2(2) x] get w1(2) w2(1) True by (auto simp: hotkey_sceneitem_def)
  next
    case False
    then show ?thesis using release_keeps [OF w1(1) x w1(2)] get w1(2) ref by (auto simp: hotkey_sceneitem_def)
  qed
qed

lemma scene_op_keeps:
  assumes inv: "scene_inv A w s S xs" and ok: "op_ok w xs op"
  shows "\<exists>w'. run_op A s op w = Some w' \<and> scene_inv A w' s S (op_list S op xs)"
proof (cases op)
  case (Add x c k m t)
  then have "x \<notin> set xs" using ok scene_inv_item [OF inv] by fastforce
  from add_keeps [OF inv this, of k m t c] show ?thesis using Add inv by (auto split: if_splits)
next
  case (Reorder items)
  then show ?thesis using reorder_keeps [OF inv, of items] by auto
next
  case (Set_visible x visible m t)
  then show ?thesis using ok set_visible_keeps [OF inv, of x m t visible] by auto
next
  case (Audio x ts rate)
  then show ?thesis using ok volume_keeps [OF inv, of x ts rate] by auto
next
  case (Hotkey show_it x pressed m t)
  then show ?thesis using ok hotkey_keeps [OF inv, of x m t show_it pressed] by auto
qed (use ok remove_keeps [OF inv] order_keeps [OF inv] position_keeps [OF inv] select_keeps [OF inv] addref_keeps [OF inv] release_keeps [OF inv] in
  \<open>auto split: if_splits\<close>)

text \<open>The stores a scene can reach from its creation, with its items.\<close>

inductive scene_reach :: "(nat \<Rightarrow> bool) \<Rightarrow> ptr \<Rightarrow> nat \<Rightarrow> store \<Rightarrow> ptr list \<Rightarrow> bool" for A s S where
  created: "(\<And>c. w_children w S c = 0) \<Longrightarrow> scene_reach A s S (snd (scene_create True w s S)) []"
| step: "scene_reach A s S w xs \<Longrightarrow> op_ok w xs op \<Longrightarrow> run_op A s op w = Some w' \<Longrightarrow> scene_reach A s S w' (op_list S op xs)"

lemma scene_reach_inv: "scene_reach A s S w xs \<Longrightarrow> scene_inv A w s S xs"
proof (induction rule: scene_reach.induct)
  case (created w)
  then show ?case by (simp add: scene_inv_def scene_list_def scene_create_def)
next
  case (step w xs op w')
  then show ?case using scene_op_keeps [OF step.IH step.hyps(2)] by auto
qed



definition empty_store :: store where
  "empty_store = \<lparr>w_scenes = Map.empty, w_items = Map.empty, w_children = (\<lambda>_ _. 0), w_source_refs = (\<lambda>_. 1), w_signals = []\<rparr>"


subsection \<open>Destroying a scene\<close>

definition owner :: "obs_scene_item \<Rightarrow> int \<times> nat" where
  "owner it = (si_ref it, si_source it)"

lemma core_owner: "map_option item_core h' = map_option item_core h \<Longrightarrow> map_option owner h' = map_option owner h"
proof -
  have "owner it = owner (item_core it)" for it by (simp add: owner_def item_core_def)
  then have "map_option owner g = map_option owner (map_option item_core g)" for g by (cases g) simp_all
  then show "map_option item_core h' = map_option item_core h \<Longrightarrow> ?thesis" by metis
qed

lemma remove_loop_keeps:
  assumes "scene_inv A w s S xs"
  shows "\<exists>w'. remove_loop w (first_or xs None) items = Some (w', items @ xs) \<and> scene_inv A w' s S [] \<and> w_source_refs w' = w_source_refs w \<and>
    (\<forall>y. map_option owner (w_items w' y) = map_option owner (w_items w y)) \<and>
    w_signals w' = w_signals w @ map (Item_remove s) xs"
  using assms
proof (induction xs arbitrary: w items)
  case Nil
  then show ?case by (simp add: remove_loop.simps)
next
  case (Cons x xs)
  obtain it where it: "w_items w x = Some it" using scene_inv_item [OF Cons.prems, of x] by auto
  have "si_next it = first_or xs None" using scene_list_item [of w s "[]" x xs] Cons.prems it by (simp add: scene_inv_def)
  obtain w1 it1 where w1: "remove_without_release w x = Some w1" "scene_inv A w1 s S xs" "w_items w1 x = Some it1" "si_ref it1 = si_ref it"
    "si_source it1 = si_source it" "w_source_refs w1 = w_source_refs w" "w_signals w1 = w_signals w @ [Item_remove s x]"
    "\<And>y. y \<noteq> x \<Longrightarrow> map_option item_core (w_items w1 y) = map_option item_core (w_items w y)"
    using remove_without_release_keeps [of A w s S "[]" x xs it] Cons.prems it by auto
  have owner1: "map_option owner (w_items w1 y) = map_option owner (w_items w y)" for y
    using w1(3-5) core_owner [OF w1(8)] it by (cases "y = x") (auto simp: owner_def)
  have "remove_loop w (first_or (x # xs) None) items = remove_loop w1 (first_or xs None) (items @ [x])"
    using it w1(1) \<open>si_next it = first_or xs None\<close> by (simp add: remove_loop.simps [of w "Some x"])
  then show ?case using Cons.IH [OF w1(2), of "items @ [x]"] w1(6,7) owner1 by auto
qed

text \<open>Whether the last reference to an item, and with it one to its source, goes away.\<close>

definition gives_back :: "store \<Rightarrow> nat \<Rightarrow> ptr \<Rightarrow> int" where
  "gives_back w c x = (if map_option owner (w_items w x) = Some (1, c) then 1 else 0)"

lemma release_all_keeps:
  assumes "scene_inv A w s S []" "distinct items" "\<And>x. x \<in> set items \<Longrightarrow> w_items w x \<noteq> None"
  shows "\<exists>w'. release_all w items = Some w' \<and> scene_inv A w' s S [] \<and>
    (\<forall>x \<in> set items. w_items w' x = None \<longleftrightarrow> map_option si_ref (w_items w x) = Some 1) \<and> (\<forall>x. x \<notin> set items \<longrightarrow> w_items w' x = w_items w x) \<and>
    (\<forall>c. w_source_refs w' c = w_source_refs w c - (\<Sum>x\<in>set items. gives_back w c x)) \<and> w_signals w' = w_signals w"
  using assms
proof (induction items arbitrary: w)
  case (Cons x items)
  obtain it where it: "w_items w x = Some it" using Cons.prems(3) [of x] by auto
  obtain w1 where w1: "obs_sceneitem_release w (Some x) = Some w1" "scene_inv A w1 s S []" "\<And>y. y \<noteq> x \<Longrightarrow> w_items w1 y = w_items w y"
    "if si_ref it = 1 then w_items w1 x = None \<and> w_source_refs w1 = (w_source_refs w)(si_source it := w_source_refs w (si_source it) - 1)
     else w_items w1 x \<noteq> None \<and> w_source_refs w1 = w_source_refs w" "w_signals w1 = w_signals w"
    using release_outside [OF Cons.prems(1) _ it] by auto
  have same: "w_items w1 y = w_items w y" if "y \<in> set items" for y using w1(3) [of y] Cons.prems(2) that by auto
  obtain w' where w': "release_all w1 items = Some w'" "scene_inv A w' s S []"
    "\<forall>y \<in> set items. w_items w' y = None \<longleftrightarrow> map_option si_ref (w_items w1 y) = Some 1" "\<forall>y. y \<notin> set items \<longrightarrow> w_items w' y = w_items w1 y"
    "\<And>c. w_source_refs w' c = w_source_refs w1 c - (\<Sum>y\<in>set items. gives_back w1 c y)" "w_signals w' = w_signals w1"
    using Cons.IH [OF w1(2)] Cons.prems(2,3) same by auto
  have "(\<Sum>y\<in>set items. gives_back w1 c y) = (\<Sum>y\<in>set items. gives_back w c y)" for c
    by (rule sum.cong) (simp_all add: gives_back_def same)
  moreover have "w_source_refs w1 c = w_source_refs w c - gives_back w c x" for c
    using w1(4) it by (auto simp: gives_back_def owner_def split: if_splits)
  ultimately have "w_source_refs w' c = w_source_refs w c - (\<Sum>y\<in>set (x # items). gives_back w c y)" for c
    using w'(5) [of c] Cons.prems(2) by simp
  moreover have "x \<notin> set items" using Cons.prems(2) by simp
  ultimately show ?case using w1(1,3,4,5) w'(1-4,6) same it by (auto split: if_splits)
qed simp

text \<open>
  C10: destroying a scene leaves nothing behind. It signals the removal of every item, from the bottom to the top; afterwards the scene is gone and no source is
  an active child of its source any more; of the items exactly those are freed that nobody else holds a reference to, each of these has given back its
  reference to its source, and no other source has lost one.
\<close>

theorem scene_destroy_releases:
  assumes "scene_inv A w s S xs"
  shows "\<exists>w'. scene_destroy w s = Some w' \<and> w_scenes w' s = None \<and> (\<forall>c. w_children w' S c = 0) \<and>
    (\<forall>x \<in> set xs. w_items w' x = None \<longleftrightarrow> map_option si_ref (w_items w x) = Some 1) \<and>
    (\<forall>c. w_source_refs w' c = w_source_refs w c - (\<Sum>x\<in>set xs. gives_back w c x)) \<and>
    w_signals w' = w_signals w @ map (Item_remove s) xs"
proof -
  obtain sc where sc: "w_scenes w s = Some sc" "os_first_item sc = first_or xs None" using assms by (auto simp: scene_inv_def scene_list_def)
  obtain w1 where w1: "remove_loop w (first_or xs None) [] = Some (w1, xs)" "scene_inv A w1 s S []" "w_source_refs w1 = w_source_refs w"
    "\<And>y. map_option owner (w_items w1 y) = map_option owner (w_items w y)" "w_signals w1 = w_signals w @ map (Item_remove s) xs"
    using remove_loop_keeps [OF assms, of "[]"] by auto
  have ref: "map_option si_ref (w_items w1 y) = map_option si_ref (w_items w y)" for y
    using arg_cong [OF w1(4) [of y], of "map_option fst"] by (simp add: option.map_comp comp_def owner_def)
  have "w_items w1 x \<noteq> None" if "x \<in> set xs" for x using scene_inv_item [OF assms that] w1(4) [of x] by auto
  moreover have "distinct xs" using assms by (simp add: scene_inv_def scene_list_def)
  ultimately obtain w' where w': "release_all w1 xs = Some w'" "scene_inv A w' s S []"
    "\<forall>x \<in> set xs. w_items w' x = None \<longleftrightarrow> map_option si_ref (w_items w1 x) = Some 1"
    "\<forall>c. w_source_refs w' c = w_source_refs w1 c - (\<Sum>x\<in>set xs. gives_back w1 c x)" "w_signals w' = w_signals w1"
    using release_all_keeps [OF w1(2)] by blast
  have "scene_destroy w s = Some (w'\<lparr>w_scenes := (w_scenes w')(s := None)\<rparr>)"
    using sc w1(1) w'(1) by (simp add: scene_destroy_def remove_all_items_def)
  moreover have "gives_back w1 c x = gives_back w c x" for c x by (simp only: gives_back_def w1(4))
  moreover have "w_children w' S c = 0" for c using w'(2) by (simp add: scene_inv_def)
  ultimately show ?thesis using w'(3-5) w1(5) unfolding ref w1(3) by simp
qed

lemma example_inv: "scene_inv (\<lambda>_. True) example_store 0 100 [1, 2, 3]"
  using example_list by (simp add: scene_inv_def example_store_def example_item_def sceneitem_ok_def item_holds_def holds_def)

lemma scene_destroy_releases_witness:
  "\<exists>w'. scene_destroy example_store 0 = Some w' \<and> w_scenes w' 0 = None \<and> (\<forall>c. w_children w' 100 c = 0) \<and> w_items w' 2 = None \<and>
    w_source_refs w' 102 = 1"
proof -
  have "(\<Sum>x\<in>set [1, 2, 3]. gives_back example_store 102 x) = 1" "map_option si_ref (w_items example_store 2) = Some 1"
    "w_source_refs example_store 102 = 2"
    by (simp_all add: gives_back_def example_store_def example_item_def owner_def)
  then show ?thesis using scene_destroy_releases [OF example_inv] by force
qed


subsection \<open>Walking over a scene\<close>

text \<open>A callback of \<open>obs_scene_enum_items\<close> may remove the item it is given, but not the one that follows: that one has been remembered
  before the callback ran, and the walk goes on at it after it has been freed.\<close>

definition removes :: "ptr \<Rightarrow> store \<Rightarrow> ptr \<Rightarrow> (bool \<times> store) option" where
  "removes item w p = (if p = 1 then map_option (\<lambda>w. (True, w)) (obs_sceneitem_remove w (Some item)) else Some (True, w))"

lemmas remove_defs = obs_sceneitem_remove_def obs_sceneitem_addref_def obs_sceneitem_release_def obs_sceneitem_destroy_def obs_source_release_def
  set_visibility_def signal_item_remove_def detach_sceneitem_def set_link_def upd_item_def upd_scene_def signal_def obs_source_remove_active_child_def

lemma enum_remove_current: "obs_scene_enum_items (removes 1) example_store (Some 0) \<noteq> None"
  by (simp add: obs_scene_enum_items_def example_store_def example_item_def enum_loop.simps [of _ _ "Some _"] enum_loop.simps [of _ _ None]
    removes_def remove_defs Let_def)

theorem enum_remove_following: "obs_scene_enum_items (removes 2) example_store (Some 0) = None"
  by (simp add: obs_scene_enum_items_def example_store_def example_item_def enum_loop.simps [of _ _ "Some _"] enum_loop.simps [of _ _ None]
    removes_def remove_defs Let_def)

end
