(* ===== verification/Spec2Isabelle.thy ===== *)
theory Spec2Isabelle
  imports Avc Fifo Flv_Mux Output Output_Interleave Output_Capture Rtmp_Stream Crc32 Calldata Signal Config_File Encoder Video_Io Obs_Data_Layers Picture_Packing Picture_Unpacking Text_Lookup_File Scene_Items
begin

text \<open>
  A verification library for the core of tblive, a live streaming program built on OBS Studio. Modelled is the path a
  recording takes from the rendered picture and the captured sound to the network, together with the utilities that path is
  built on. All of it is C under \<open>src/libobs\<close> and \<open>src/plugins/obs-outputs\<close>.

  \<^bold>\<open>The parts and how they interact.\<close> The graphics thread hands each picture to the raw video output (\<open>media-io/video-io.c\<close>), whose
  own thread calls the video encoders. Encoders (\<open>obs-encoder.c\<close>) cut audio into frames, let audio begin with the video
  and give packets to the outputs connected to them. An output (\<open>obs-output.c\<close>, \<open>obs-output-delay.c\<close>) queues packets for a
  delay if one is set, sorts audio and video by time, and gives them to its plugin. The RTMP plugin (\<open>rtmp-stream.c\<close>) parses the
  H.264 data (\<open>obs-avc.c\<close>), queues packets in a ring buffer (\<open>util/circlebuf.h\<close>), drops frames when the network is slow, and its
  sending thread wraps packets into FLV tags (\<open>flv-mux.c\<close>) with the serializer. A scene (\<open>obs-scene.c\<close>) keeps its items in order and shows and hides their sources. Objects announce what happens by signals
  (\<open>callback/signal.c\<close>) whose arguments are packed in a parameter stack (\<open>callback/calldata.c\<close>). Objects are configured by settings objects (\<open>obs-data.c\<close>), and the program by
  configuration files (\<open>util/config-file.c\<close>), read through the base lexer and built from dynamic strings; the texts it shows come from tables (\<open>util/text-lookup.c\<close>). Pictures are
  converted between the packed form of the graphics and the planes of the encoders (\<open>media-io/format-conversion.c\<close>).

  \<^bold>\<open>Theories.\<close>
  \<^item> \<open>Prelude\<close>, \<open>Memory\<close>: copies into arrays, checked reads, list facts; blocks of bytes in which an access outside is \<open>None\<close>; the
    locale \<open>simulation\<close> for refinements of an abstract step relation.
  \<^item> \<open>Circlebuf\<close>: \<open>util/circlebuf.h\<close>, every operation with offsets and capacity. The content of a ring is a list (\<open>cells\<close>); the lemmas
    say what each operation does to that list. \<open>Fifo\<close>: the contract of a queue as the locale \<open>fifo\<close>, interpreted by the ring; used
    by the RTMP queue and the delay queue.
  \<^item> \<open>Serializer\<close>: \<open>util/serializer.h\<close>, \<open>array-serializer.c\<close>; the locale \<open>byte_sink\<close> is what muxers rely on, interpreted by the
    growing array.
  \<^item> \<open>Packet\<close>, \<open>Output\<close>: \<open>struct encoder_packet\<close> and \<open>struct obs_output\<close>.
  \<^item> \<open>Avc\<close>: \<open>obs-avc.c\<close>. The search for start codes is proved equal to a byte-by-byte scan, its loops are proved to end, and
    the length-prefixed form is read back to the same NAL units.
  \<^item> \<open>Flv_Mux\<close>: \<open>flv-mux.c\<close>, with an independent reader of tags. \<open>Crc32\<close>: \<open>util/crc32.c\<close> against polynomial division.
  \<^item> \<open>Output_Interleave\<close>: sorting, pruning, the shift to time zero, sending in order. \<open>Output_Capture\<close>: starting, stopping, reconnecting,
    the delay; hooks registered with encoders and raw outputs are a list in the state.
  \<^item> \<open>Rtmp_Stream\<close>: \<open>rtmp-stream.c\<close>; the critical sections are functions, the threads are the step relation \<open>rtmp_step\<close>.
  \<^item> \<open>Encoder\<close>: \<open>obs-encoder.c\<close> and the sample formats of \<open>audio-io.h\<close>; life cycle, framing of audio, pairing, delivery.
  \<^item> \<open>Video_Io\<close>: \<open>video-io.c\<close>; the threads are the step relation \<open>video_step\<close>, and the ring of frames refines the abstract
    queue \<open>frame_step\<close>.
  \<^item> \<open>Calldata\<close>: the parameter stack byte by byte, refined to an association list through the locale \<open>param_store\<close>.
    \<open>Signal\<close>: \<open>signal.c\<close> and \<open>proc.c\<close>; emission is a machine with a stack of frames, because callbacks may connect, disconnect and emit.
  \<^item> \<open>Obs_Data\<close>: \<open>obs-data.c\<close>, the settings objects that sources, encoders and outputs are configured with; an item is one block of
    bytes with up to three values in a row. \<open>Obs_Data_Items\<close>: the layout of that block and what each operation on an item does to its
    values and references. \<open>Obs_Data_Layers\<close>: an object refines a map from names to three layers of values.
  \<^item> \<open>Format_Conversion\<close>: \<open>media-io/format-conversion.c\<close> on pictures that are blocks of bytes, with the SSE2 instructions by their
    documented effect on sixteen bytes. \<open>Picture_Packing\<close>, \<open>Picture_Unpacking\<close>: what the loops write, pixel by pixel.
  \<^item> \<open>Text_Lookup\<close>: the radix tree of \<open>util/text-lookup.c\<close> with translated texts, refined to a map; \<open>Text_Lookup_File\<close>: its parser and
    the round trip of a file.
  \<^item> \<open>Scene\<close>: \<open>obs-scene.c\<close>; scenes and items are structures in a store of pointers. \<open>Scene_Order\<close>: the linked items refine a list, and
    every movement is one of that list. \<open>Scene_Items\<close>: the counters of the items and of the active children, over any sequence of operations
    (\<open>scene_reach\<close>), and the destruction of a scene.
  \<^item> \<open>Dstr\<close>, \<open>Lexer\<close>, \<open>Config_File\<close>: \<open>util/dstr\<close>, \<open>util/lexer\<close>, \<open>util/config-file.c\<close>; the round trip of saving and opening rests on lemmas
    about lines, items and sections.

  \<^bold>\<open>Correspondence.\<close> A C function is the definition of the same name, a structure a record whose fields carry a short
  prefix. State is passed explicitly. What the program does to the outside is recorded in ghost fields (packets delivered, freed,
  written, shown; signals sent; callbacks called). Fixed-width integers whose wrap-around matters are words; sizes of memory blocks
  and signed numbers whose overflow C leaves undefined are \<open>nat\<close> and \<open>int\<close>. Null pointers are \<open>None\<close>; an access outside a block is
  \<open>None\<close> where a component is modelled down to the byte.

  \<^bold>\<open>Loops.\<close> A loop is a structural recursion, a \<open>function\<close> with a measure, or \<open>partial_function (option)\<close>, where \<open>None\<close> is a loop that does not
  end. For the latter the properties state that a result is returned: the parsers of \<open>Avc\<close>, the audio loop of \<open>Encoder\<close>,
  the delay loop of \<open>Output_Capture\<close>, the replacing loops of \<open>Dstr\<close>. No fuel is used.

  \<^bold>\<open>Parameters.\<close> The network (results of \<open>RTMP_Write\<close>, \<open>recv\<close>, the clock), the codec of an encoder, the output plugin, the video scaler, the
  contents of fresh memory, the parser of declarations, the floating-point frame time and the file system are arguments of the
  definitions that use them. Hypotheses on them are stated in the theorems.

  \<^bold>\<open>Threads.\<close> Sections under a mutex are atomic steps, and the step relations interleave them freely. What runs outside a mutex
  is split where another thread could see the difference.

  \<^bold>\<open>Not modelled.\<close> Rendering and the graphics drivers; audio mixing, resampling and conversion on floating point samples; sources
  and filters, which are tied to them (a scene counts what it asks of its sources), and the transforms of scene items; reading and writing settings objects as JSON with the vendored parser, and copying nested ones; the RTMP handshake and the metadata packet of
  the vendored \<open>librtmp\<close>; hotkeys and platform calls; the capture and codec plugins, which are glue to operating systems and
  third-party code; the user interface in C++; the bundled libraries. Within modelled files: getters, destruction of containers, \<open>printf\<close>
  and wide character functions, and values of type \<open>double\<close>.
\<close>

end
